(* ===== verification/Prelude.thy ===== *)
theory Prelude
  imports Main "HOL-Library.Monad_Syntax" "HOL-Library.Signed_Division" "HOL-Library.Multiset"
begin

text \<open>
  Shared vocabulary of the development: C integers of a fixed width over \<^typ>\<open>int\<close>, kernel
  panics as \<^term>\<open>None\<close>, and the list lemmas that several components use.

  The kernel is compiled for 32-bit x86.  A C \<open>int\<close> is an \<^typ>\<open>int\<close> kept in range by \<open>i32\<close>,
  \<open>int64_t\<close> by \<open>i64\<close>, and \<open>unsigned\<close>/\<open>size_t\<close> is a \<^typ>\<open>nat\<close> kept in range by \<open>u32\<close>.
  C's division truncates, so it is \<open>sdiv\<close>.  An operation of the kernel that can fail an
  \<open>ASSERT\<close>, dereference a null pointer, divide by zero or reach a \<open>PANIC\<close> has an option
  type: \<^term>\<open>None\<close> is the panic (\<open>lib/kernel/debug.c: debug_panic\<close> halts the machine).
\<close>

named_theorems cint_simps \<open>arithmetic of the fixed-width C integers\<close>

subsection \<open>Fixed-width integers\<close>

definition i32 :: "int \<Rightarrow> int" where
  "i32 x = (x + 2 ^ 31) mod 2 ^ 32 - 2 ^ 31"

definition i64 :: "int \<Rightarrow> int" where
  "i64 x = (x + 2 ^ 63) mod 2 ^ 64 - 2 ^ 63"

definition u32 :: "nat \<Rightarrow> nat" where
  "u32 x = x mod 2 ^ 32"

abbreviation is_i32 :: "int \<Rightarrow> bool" where
  "is_i32 x \<equiv> - (2 ^ 31) \<le> x \<and> x < 2 ^ 31"

abbreviation is_i64 :: "int \<Rightarrow> bool" where
  "is_i64 x \<equiv> - (2 ^ 63) \<le> x \<and> x < 2 ^ 63"

lemma i32_id [cint_simps]: "is_i32 x \<Longrightarrow> i32 x = x"
  by (simp add: i32_def)

lemma i64_id [cint_simps]: "is_i64 x \<Longrightarrow> i64 x = x"
  by (simp add: i64_def)

lemma u32_id [cint_simps]: "x < 2 ^ 32 \<Longrightarrow> u32 x = x"
  by (simp add: u32_def)

lemma i32_range: "is_i32 (i32 x)"
  using pos_mod_bound [of "2 ^ 32" "x + 2 ^ 31"] pos_mod_sign [of "2 ^ 32" "x + 2 ^ 31"]
  by (simp add: i32_def)

lemma i64_range: "is_i64 (i64 x)"
  using pos_mod_bound [of "2 ^ 64" "x + 2 ^ 63"] pos_mod_sign [of "2 ^ 64" "x + 2 ^ 63"]
  by (simp add: i64_def)

lemma u32_less: "u32 x < 2 ^ 32"
  by (simp add: u32_def)

lemma i32_i32 [simp]: "i32 (i32 x) = i32 x"
  by (rule i32_id [OF i32_range])

lemma i32_add_i32 [cint_simps]: "i32 (i32 x + y) = i32 (x + y)"
proof -
  have "(((x + 2 ^ 31) mod 2 ^ 32 - 2 ^ 31) + y + 2 ^ 31) mod 2 ^ 32 = (x + y + 2 ^ 31) mod (2 ^ 32 :: int)"
    using mod_add_left_eq [of "x + 2 ^ 31" "2 ^ 32" y] by (simp add: algebra_simps)
  then show ?thesis by (simp add: i32_def)
qed

subsection \<open>Truncating division by a positive divisor\<close>

lemma sdiv_nonneg: "0 \<le> a \<Longrightarrow> 0 < b \<Longrightarrow> a sdiv b = a div (b :: int)"
  by (cases "a = 0") (simp_all add: signed_divide_int_def)

lemma sdiv_neg: "a < 0 \<Longrightarrow> 0 < b \<Longrightarrow> a sdiv b = - ((- a) div (b :: int))"
  by (simp add: signed_divide_int_def)

lemma sdiv_mult_self: "0 < b \<Longrightarrow> (a * b) sdiv b = (a :: int)"
  by (simp add: signed_divide_int_def abs_mult sgn_mult mult.commute [of "sgn a"] abs_mult_sgn)

lemma sdiv_bounds:
  assumes "0 < (b :: int)"
  shows "\<bar>a - (a sdiv b) * b\<bar> < b"
proof (cases "0 \<le> a")
  case True
  then have "a - (a sdiv b) * b = a mod b"
    using assms by (simp add: sdiv_nonneg minus_div_mult_eq_mod)
  then show ?thesis using assms by simp
next
  case False
  then have "a - (a sdiv b) * b = - ((- a) mod b)"
    using assms by (simp add: sdiv_neg minus_div_mult_eq_mod [symmetric])
  then show ?thesis using assms by simp
qed

lemma zdiv_le_self: "0 \<le> a \<Longrightarrow> 0 < b \<Longrightarrow> a div b \<le> (a :: int)"
  by (metis div_by_1 int_one_le_iff_zero_less zdiv_mono2 zero_less_one)

lemma zdiv_brackets:
  assumes "0 < (b :: int)"
  shows "a div b * b \<le> a" and "a < a div b * b + b"
  using assms pos_mod_sign [of b a] pos_mod_bound [of b a] div_mult_mod_eq [of a b] by linarith+

lemma zdiv_less: "0 < b \<Longrightarrow> a < c * b \<Longrightarrow> a div b < (c :: int)"
  using zdiv_brackets(1) [of b a] by (metis mult_less_cancel_right_pos order.strict_trans1)

lemma sdiv_i32:
  assumes "is_i32 a" and "0 < b"
  shows "is_i32 (a sdiv b)"
proof (cases "0 \<le> a")
  case True
  then have "0 \<le> a div b" and "a div b \<le> a"
    using assms by (simp_all add: pos_imp_zdiv_nonneg_iff zdiv_le_self)
  with True assms show ?thesis by (simp add: sdiv_nonneg)
next
  case False
  then have "0 \<le> (- a) div b" and "(- a) div b \<le> - a"
    using assms by (simp_all add: pos_imp_zdiv_nonneg_iff zdiv_le_self)
  with False assms show ?thesis by (simp add: sdiv_neg)
qed

subsection \<open>Pages\<close>

text \<open>\<open>PGSIZE\<close> of \<open>threads/vaddr.h\<close>: bytes in a page.\<close>

definition PGSIZE :: nat where "PGSIZE = 4096"

subsection \<open>Options as panics\<close>

text \<open>\<open>ASSERT (c)\<close> of \<open>lib/debug.h\<close>: continue when \<open>c\<close> holds, panic otherwise.\<close>

definition ASSERT :: "bool \<Rightarrow> unit option" where
  "ASSERT c = (if c then Some () else None)"

lemma ASSERT_True [simp]: "ASSERT True = Some ()"
  by (simp add: ASSERT_def)

lemma ASSERT_False [simp]: "ASSERT False = None"
  by (simp add: ASSERT_def)

lemma ASSERT_Some_iff [simp]: "ASSERT c = Some u \<longleftrightarrow> c"
  by (simp add: ASSERT_def)

lemma ASSERT_bind_Some [simp]:
  "(ASSERT c \<bind> f = Some y) \<longleftrightarrow> c \<and> f () = Some y"
  by (simp add: ASSERT_def)

lemma ASSERT_bind_None [simp]:
  "(ASSERT c \<bind> f = None) \<longleftrightarrow> (c \<longrightarrow> f () = None)"
  by (simp add: ASSERT_def)

lemma bind_SomeE: "m \<bind> f = Some y \<Longrightarrow> (\<And>x. m = Some x \<Longrightarrow> f x = Some y \<Longrightarrow> P) \<Longrightarrow> P"
  by (cases m) auto

subsection \<open>Iterating a fallible action\<close>

primrec fold_opt :: "('a \<Rightarrow> 's \<Rightarrow> 's option) \<Rightarrow> 'a list \<Rightarrow> 's \<Rightarrow> 's option" where
  "fold_opt f [] s = Some s"
| "fold_opt f (x # xs) s = (case f x s of None \<Rightarrow> None | Some s' \<Rightarrow> fold_opt f xs s')"

text \<open>What every iteration keeps, the loop keeps.\<close>

lemma fold_opt_invariant:
  assumes "fold_opt f xs s = Some s'" "P s"
    and "\<And>x s s'. x \<in> set xs \<Longrightarrow> P s \<Longrightarrow> f x s = Some s' \<Longrightarrow> P s'"
  shows "P s'"
  using assms
proof (induction xs arbitrary: s)
  case (Cons x xs)
  obtain s1 where s1: "f x s = Some s1" "fold_opt f xs s1 = Some s'"
    using Cons.prems(1) by (auto split: option.splits)
  have "P s1" using Cons.prems(3) [of x s s1] Cons.prems(2) s1(1) by simp
  then show ?case using Cons.prems(3) by (intro Cons.IH [OF s1(2)]) auto
qed simp

lemma fold_opt_frame:
  assumes "fold_opt f xs s = Some s'" "\<And>x s s'. f x s = Some s' \<Longrightarrow> g s' = g s"
  shows "g s' = g s"
  by (rule fold_opt_invariant [OF assms(1), where P = "\<lambda>s'. g s' = g s"]) (auto dest: assms(2))

lemma fold_opt_total:
  assumes "P s" and "\<And>x s. x \<in> set xs \<Longrightarrow> P s \<Longrightarrow> \<exists>s'. f x s = Some s' \<and> P s'"
  shows "\<exists>s'. fold_opt f xs s = Some s' \<and> P s'"
  using assms
proof (induction xs arbitrary: s)
  case (Cons x xs)
  obtain s' where s': "f x s = Some s'" "P s'" using Cons.prems by fastforce
  then show ?case using Cons.IH [OF s'(2)] Cons.prems(2) by auto
qed simp

end
