(* ===== verification/Kernel_List.thy ===== *)
theory Kernel_List
  imports Prelude
begin

text \<open>
  \<open>lib/kernel/list.c\<close>: the intrusive doubly linked lists on which the scheduler, the
  semaphores, the timer and the allocators are built.  The heap has one function per field of
  \<open>struct list_elem\<close>; a \<open>struct list\<close> at address \<open>l\<close> has its head element at \<open>l\<close> and its tail
  element at \<open>l + 12\<close> (three 4-byte fields).  Loops are \<^theory_text>\<open>partial_function (option)\<close>, so that
  running round a corrupted, cyclic list is \<^term>\<open>None\<close> like a failed \<open>ASSERT\<close>.

  \<open>is_list h l xs\<close> says that the list at \<open>l\<close> holds exactly the elements \<open>xs\<close>.  Each operation is
  shown to act on \<open>xs\<close> as its name says and to leave the rest of the heap alone.
\<close>

named_theorems list_ops \<open>unfolding of the list operations\<close>

type_synonym addr = nat

record list_heap =
  prev_of :: "addr \<Rightarrow> addr"
  next_of :: "addr \<Rightarrow> addr"
  value_of :: "addr \<Rightarrow> addr"

abbreviation (input) NULL :: addr where
  "NULL \<equiv> 0"

type_synonym list_less_func = "addr \<Rightarrow> addr \<Rightarrow> bool"

subsection \<open>The operations\<close>

definition set_prev :: "list_heap \<Rightarrow> addr \<Rightarrow> addr \<Rightarrow> list_heap" where
  "set_prev h a v = h\<lparr>prev_of := (prev_of h)(a := v)\<rparr>"

definition set_next :: "list_heap \<Rightarrow> addr \<Rightarrow> addr \<Rightarrow> list_heap" where
  "set_next h a v = h\<lparr>next_of := (next_of h)(a := v)\<rparr>"

definition head_of :: "addr \<Rightarrow> addr" where
  "head_of l = l"

definition tail_of :: "addr \<Rightarrow> addr" where
  "tail_of l = l + 12"

definition is_head :: "list_heap \<Rightarrow> addr \<Rightarrow> bool" where
  "is_head h e \<longleftrightarrow> e \<noteq> NULL \<and> prev_of h e = NULL \<and> next_of h e \<noteq> NULL"

definition is_interior :: "list_heap \<Rightarrow> addr \<Rightarrow> bool" where
  "is_interior h e \<longleftrightarrow> e \<noteq> NULL \<and> prev_of h e \<noteq> NULL \<and> next_of h e \<noteq> NULL"

definition is_tail :: "list_heap \<Rightarrow> addr \<Rightarrow> bool" where
  "is_tail h e \<longleftrightarrow> e \<noteq> NULL \<and> prev_of h e \<noteq> NULL \<and> next_of h e = NULL"

definition list_init :: "list_heap \<Rightarrow> addr \<Rightarrow> list_heap option" where
  [list_ops]: "list_init h l = do {
     ASSERT (l \<noteq> NULL);
     let h = set_prev h (head_of l) NULL;
     let h = set_next h (head_of l) (tail_of l);
     let h = set_prev h (tail_of l) (head_of l);
     Some (set_next h (tail_of l) NULL) }"

definition list_begin :: "list_heap \<Rightarrow> addr \<Rightarrow> addr option" where
  [list_ops]: "list_begin h l = do { ASSERT (l \<noteq> NULL); Some (next_of h (head_of l)) }"

definition list_next :: "list_heap \<Rightarrow> addr \<Rightarrow> addr option" where
  [list_ops]: "list_next h e = do { ASSERT (is_head h e \<or> is_interior h e); Some (next_of h e) }"

definition list_end :: "addr \<Rightarrow> addr option" where
  [list_ops]: "list_end l = do { ASSERT (l \<noteq> NULL); Some (tail_of l) }"

definition list_rbegin :: "list_heap \<Rightarrow> addr \<Rightarrow> addr option" where
  [list_ops]: "list_rbegin h l = do { ASSERT (l \<noteq> NULL); Some (prev_of h (tail_of l)) }"

definition list_prev :: "list_heap \<Rightarrow> addr \<Rightarrow> addr option" where
  [list_ops]: "list_prev h e = do { ASSERT (is_interior h e \<or> is_tail h e); Some (prev_of h e) }"

definition list_rend :: "addr \<Rightarrow> addr option" where
  [list_ops]: "list_rend l = do { ASSERT (l \<noteq> NULL); Some (head_of l) }"

definition list_head :: "addr \<Rightarrow> addr option" where
  [list_ops]: "list_head l = do { ASSERT (l \<noteq> NULL); Some (head_of l) }"

definition list_tail :: "addr \<Rightarrow> addr option" where
  [list_ops]: "list_tail l = do { ASSERT (l \<noteq> NULL); Some (tail_of l) }"

definition setValue :: "list_heap \<Rightarrow> addr \<Rightarrow> addr \<Rightarrow> list_heap option" where
  "setValue h e valor = do {
     ASSERT (e \<noteq> NULL); \<comment> \<open>a null \<open>elem\<close> faults on the store\<close>
     Some (h\<lparr>value_of := (value_of h)(e := valor)\<rparr>) }"

definition list_insert :: "list_heap \<Rightarrow> addr \<Rightarrow> addr \<Rightarrow> list_heap option" where
  [list_ops]: "list_insert h before e = do {
     ASSERT (is_interior h before \<or> is_tail h before);
     ASSERT (e \<noteq> NULL);
     let h = set_prev h e (prev_of h before);
     let h = set_next h e before;
     let h = set_next h (prev_of h before) e;
     Some (set_prev h before e) }"

definition list_splice :: "list_heap \<Rightarrow> addr \<Rightarrow> addr \<Rightarrow> addr \<Rightarrow> list_heap option" where
  "list_splice h before first last' = do {
     ASSERT (is_interior h before \<or> is_tail h before);
     if first = last' then Some h
     else do {
       last \<leftarrow> list_prev h last';
       ASSERT (is_interior h first);
       ASSERT (is_interior h last);
       let h = set_next h (prev_of h first) (next_of h last);
       let h = set_prev h (next_of h last) (prev_of h first);
       let h = set_prev h first (prev_of h before);
       let h = set_next h last before;
       let h = set_next h (prev_of h before) first;
       Some (set_prev h before last) } }"

definition list_push_front :: "list_heap \<Rightarrow> addr \<Rightarrow> addr \<Rightarrow> list_heap option" where
  "list_push_front h l e = do { b \<leftarrow> list_begin h l; list_insert h b e }"

definition list_push_back :: "list_heap \<Rightarrow> addr \<Rightarrow> addr \<Rightarrow> list_heap option" where
  "list_push_back h l e = do { b \<leftarrow> list_end l; list_insert h b e }"

definition list_remove :: "list_heap \<Rightarrow> addr \<Rightarrow> (list_heap \<times> addr) option" where
  "list_remove h e = do {
     ASSERT (is_interior h e);
     let h = set_next h (prev_of h e) (next_of h e);
     let h = set_prev h (next_of h e) (prev_of h e);
     Some (h, next_of h e) }"

definition list_empty :: "list_heap \<Rightarrow> addr \<Rightarrow> bool option" where
  "list_empty h l = do { b \<leftarrow> list_begin h l; e \<leftarrow> list_end l; Some (b = e) }"

definition list_front :: "list_heap \<Rightarrow> addr \<Rightarrow> addr option" where
  "list_front h l = do { emp \<leftarrow> list_empty h l; ASSERT (\<not> emp); Some (next_of h (head_of l)) }"

definition list_back :: "list_heap \<Rightarrow> addr \<Rightarrow> addr option" where
  "list_back h l = do { emp \<leftarrow> list_empty h l; ASSERT (\<not> emp); Some (prev_of h (tail_of l)) }"

definition list_pop_front :: "list_heap \<Rightarrow> addr \<Rightarrow> (list_heap \<times> addr) option" where
  "list_pop_front h l = do {
     front \<leftarrow> list_front h l;
     (h, _) \<leftarrow> list_remove h front;
     Some (h, front) }"

definition list_pop_back :: "list_heap \<Rightarrow> addr \<Rightarrow> (list_heap \<times> addr) option" where
  "list_pop_back h l = do {
     back \<leftarrow> list_back h l;
     (h, _) \<leftarrow> list_remove h back;
     Some (h, back) }"

partial_function (option) list_size_loop :: "list_heap \<Rightarrow> addr \<Rightarrow> addr \<Rightarrow> nat \<Rightarrow> nat option" where
  "list_size_loop h e endp cnt =
     (if e \<noteq> endp then do { e' \<leftarrow> list_next h e; list_size_loop h e' endp (u32 (cnt + 1)) }
      else Some cnt)"

definition list_size :: "list_heap \<Rightarrow> addr \<Rightarrow> nat option" where
  "list_size h l = do { b \<leftarrow> list_begin h l; e \<leftarrow> list_end l; list_size_loop h b e 0 }"

text \<open>\<open>swap\<close> on the two link fields of one element, and on link fields of two elements.\<close>

definition swap_links :: "list_heap \<Rightarrow> addr \<Rightarrow> list_heap" where
  "swap_links h e = (let p = prev_of h e; n = next_of h e in set_next (set_prev h e n) e p)"

definition swap_next_prev :: "list_heap \<Rightarrow> addr \<Rightarrow> addr \<Rightarrow> list_heap" where
  "swap_next_prev h a b =
     (let n = next_of h a; p = prev_of h b in set_prev (set_next h a p) b n)"

partial_function (option) list_reverse_loop :: "list_heap \<Rightarrow> addr \<Rightarrow> addr \<Rightarrow> list_heap option" where
  "list_reverse_loop h e endp =
     (if e \<noteq> endp then do {
        ASSERT (e \<noteq> NULL);
        let h = swap_links h e;
        list_reverse_loop h (prev_of h e) endp }
      else Some h)"

definition list_reverse :: "list_heap \<Rightarrow> addr \<Rightarrow> list_heap option" where
  "list_reverse h l = do {
     emp \<leftarrow> list_empty h l;
     if emp then Some h
     else do {
       b \<leftarrow> list_begin h l;
       e \<leftarrow> list_end l;
       h \<leftarrow> list_reverse_loop h b e;
       let h = swap_next_prev h (head_of l) (tail_of l);
       ASSERT (next_of h (head_of l) \<noteq> NULL \<and> prev_of h (tail_of l) \<noteq> NULL);
       Some (swap_next_prev h (prev_of h (tail_of l)) (next_of h (head_of l))) } }"

partial_function (option) is_sorted_loop ::
  "list_heap \<Rightarrow> list_less_func \<Rightarrow> addr \<Rightarrow> addr \<Rightarrow> bool option" where
  "is_sorted_loop h lt a b = do {
     a' \<leftarrow> list_next h a;
     if a' \<noteq> b then do {
       p \<leftarrow> list_prev h a';
       if lt a' p then Some False else is_sorted_loop h lt a' b }
     else Some True }"

definition is_sorted :: "list_heap \<Rightarrow> list_less_func \<Rightarrow> addr \<Rightarrow> addr \<Rightarrow> bool option" where
  "is_sorted h lt a b = (if a \<noteq> b then is_sorted_loop h lt a b else Some True)"

partial_function (option) run_loop ::
  "list_heap \<Rightarrow> list_less_func \<Rightarrow> addr \<Rightarrow> addr \<Rightarrow> addr option" where
  "run_loop h lt a b = do {
     a' \<leftarrow> list_next h a;
     if a' \<noteq> b then do {
       p \<leftarrow> list_prev h a';
       if \<not> lt a' p then run_loop h lt a' b else Some a' }
     else Some a' }"

definition find_end_of_run :: "list_heap \<Rightarrow> list_less_func \<Rightarrow> addr \<Rightarrow> addr \<Rightarrow> addr option" where
  "find_end_of_run h lt a b = do {
     ASSERT (a \<noteq> NULL);
     ASSERT (b \<noteq> NULL);
     ASSERT (a \<noteq> b);
     run_loop h lt a b }"

partial_function (option) merge_loop ::
  "list_heap \<Rightarrow> list_less_func \<Rightarrow> addr \<Rightarrow> addr \<Rightarrow> addr \<Rightarrow> list_heap option" where
  "merge_loop h lt a0 a1b0 b1 =
     (if a0 \<noteq> a1b0 \<and> a1b0 \<noteq> b1 then
        if \<not> lt a1b0 a0 then do { a0 \<leftarrow> list_next h a0; merge_loop h lt a0 a1b0 b1 }
        else do {
          a1b0 \<leftarrow> list_next h a1b0;
          p \<leftarrow> list_prev h a1b0;
          h \<leftarrow> list_splice h a0 p a1b0;
          merge_loop h lt a0 a1b0 b1 }
      else Some h)"

definition inplace_merge ::
  "list_heap \<Rightarrow> list_less_func \<Rightarrow> addr \<Rightarrow> addr \<Rightarrow> addr \<Rightarrow> list_heap option" where
  "inplace_merge h lt a0 a1b0 b1 = do {
     ASSERT (a0 \<noteq> NULL);
     ASSERT (a1b0 \<noteq> NULL);
     ASSERT (b1 \<noteq> NULL);
     s1 \<leftarrow> is_sorted h lt a0 a1b0;
     ASSERT s1;
     s2 \<leftarrow> is_sorted h lt a1b0 b1;
     ASSERT s2;
     merge_loop h lt a0 a1b0 b1 }"

partial_function (option) sort_pass ::
  "list_heap \<Rightarrow> list_less_func \<Rightarrow> addr \<Rightarrow> addr \<Rightarrow> nat \<Rightarrow> (list_heap \<times> nat) option" where
  "sort_pass h lt a0 endp cnt =
     (if a0 \<noteq> endp then do {
        let cnt = u32 (cnt + 1);
        a1b0 \<leftarrow> find_end_of_run h lt a0 endp;
        if a1b0 = endp then Some (h, cnt)
        else do {
          b1 \<leftarrow> find_end_of_run h lt a1b0 endp;
          h \<leftarrow> inplace_merge h lt a0 a1b0 b1;
          sort_pass h lt b1 endp cnt } }
      else Some (h, cnt))"

partial_function (option) sort_loop :: "list_heap \<Rightarrow> list_less_func \<Rightarrow> addr \<Rightarrow> list_heap option" where
  "sort_loop h lt l = do {
     b \<leftarrow> list_begin h l;
     e \<leftarrow> list_end l;
     (h, cnt) \<leftarrow> sort_pass h lt b e 0;
     if cnt > 1 then sort_loop h lt l else Some h }"

definition list_sort :: "list_heap \<Rightarrow> addr \<Rightarrow> list_less_func \<Rightarrow> list_heap option" where
  "list_sort h l lt = do {
     ASSERT (l \<noteq> NULL);
     h \<leftarrow> sort_loop h lt l;
     b \<leftarrow> list_begin h l;
     e \<leftarrow> list_end l;
     s \<leftarrow> is_sorted h lt b e;
     ASSERT s;
     Some h }"

partial_function (option) insert_ordered_loop ::
  "list_heap \<Rightarrow> list_less_func \<Rightarrow> addr \<Rightarrow> addr \<Rightarrow> addr \<Rightarrow> addr option" where
  "insert_ordered_loop h lt elem e endp =
     (if e \<noteq> endp then
        if lt elem e then Some e
        else do { e' \<leftarrow> list_next h e; insert_ordered_loop h lt elem e' endp }
      else Some e)"

definition list_insert_ordered ::
  "list_heap \<Rightarrow> addr \<Rightarrow> addr \<Rightarrow> list_less_func \<Rightarrow> list_heap option" where
  "list_insert_ordered h l elem lt = do {
     ASSERT (l \<noteq> NULL);
     ASSERT (elem \<noteq> NULL);
     b \<leftarrow> list_begin h l;
     en \<leftarrow> list_end l;
     e \<leftarrow> insert_ordered_loop h lt elem b en;
     list_insert h e elem }"

partial_function (option) list_unique_loop ::
  "list_heap \<Rightarrow> list_less_func \<Rightarrow> addr \<Rightarrow> addr \<Rightarrow> addr \<Rightarrow> list_heap option" where
  "list_unique_loop h lt elem endp duplicates = do {
     next \<leftarrow> list_next h elem;
     if next \<noteq> endp then
       if \<not> lt elem next \<and> \<not> lt next elem then do {
         (h, _) \<leftarrow> list_remove h next;
         h \<leftarrow> (if duplicates \<noteq> NULL then list_push_back h duplicates next else Some h);
         list_unique_loop h lt elem endp duplicates }
       else list_unique_loop h lt next endp duplicates
     else Some h }"

definition list_unique :: "list_heap \<Rightarrow> addr \<Rightarrow> addr \<Rightarrow> list_less_func \<Rightarrow> list_heap option" where
  "list_unique h l duplicates lt = do {
     ASSERT (l \<noteq> NULL);
     emp \<leftarrow> list_empty h l;
     if emp then Some h
     else do {
       elem \<leftarrow> list_begin h l;
       en \<leftarrow> list_end l;
       list_unique_loop h lt elem en duplicates } }"

partial_function (option) list_max_loop ::
  "list_heap \<Rightarrow> list_less_func \<Rightarrow> addr \<Rightarrow> addr \<Rightarrow> addr \<Rightarrow> addr option" where
  "list_max_loop h lt mx e endp =
     (if e \<noteq> endp then do {
        let mx = (if lt mx e then e else mx);
        e' \<leftarrow> list_next h e;
        list_max_loop h lt mx e' endp }
      else Some mx)"

definition list_max :: "list_heap \<Rightarrow> addr \<Rightarrow> list_less_func \<Rightarrow> addr option" where
  "list_max h l lt = do {
     mx \<leftarrow> list_begin h l;
     en \<leftarrow> list_end l;
     if mx \<noteq> en then do { e \<leftarrow> list_next h mx; list_max_loop h lt mx e en }
     else Some mx }"

partial_function (option) list_min_loop ::
  "list_heap \<Rightarrow> list_less_func \<Rightarrow> addr \<Rightarrow> addr \<Rightarrow> addr \<Rightarrow> addr option" where
  "list_min_loop h lt mn e endp =
     (if e \<noteq> endp then do {
        let mn = (if lt e mn then e else mn);
        e' \<leftarrow> list_next h e;
        list_min_loop h lt mn e' endp }
      else Some mn)"

definition list_min :: "list_heap \<Rightarrow> addr \<Rightarrow> list_less_func \<Rightarrow> addr option" where
  "list_min h l lt = do {
     mn \<leftarrow> list_begin h l;
     en \<leftarrow> list_end l;
     if mn \<noteq> en then do { e \<leftarrow> list_next h mn; list_min_loop h lt mn e en }
     else Some mn }"

subsection \<open>The abstraction\<close>

fun links :: "list_heap \<Rightarrow> addr list \<Rightarrow> bool" where
  "links h (a # b # ns) \<longleftrightarrow> next_of h a = b \<and> prev_of h b = a \<and> links h (b # ns)"
| "links h _ \<longleftrightarrow> True"

definition nodes :: "addr \<Rightarrow> addr list \<Rightarrow> addr list" where
  "nodes l xs = l # xs @ [tail_of l]"

definition is_list :: "list_heap \<Rightarrow> addr \<Rightarrow> addr list \<Rightarrow> bool" where
  "is_list h l xs \<longleftrightarrow>
     distinct (nodes l xs) \<and> NULL \<notin> set (nodes l xs) \<and>
     prev_of h l = NULL \<and> next_of h (tail_of l) = NULL \<and> links h (nodes l xs)"

definition agree :: "addr set \<Rightarrow> list_heap \<Rightarrow> list_heap \<Rightarrow> bool" where
  "agree S h h' \<longleftrightarrow>
     (\<forall>a. a \<notin> S \<longrightarrow> prev_of h' a = prev_of h a \<and> next_of h' a = next_of h a)
     \<and> value_of h' = value_of h"

text \<open>
  The position between \<open>as\<close> and \<open>bs\<close> is named by the element after it, \<open>at l bs\<close>: the head of
  \<open>bs\<close>, or the tail element when \<open>bs\<close> is empty.
\<close>

definition at :: "addr \<Rightarrow> addr list \<Rightarrow> addr" where
  "at l bs = hd (bs @ [tail_of l])"

definition before :: "addr \<Rightarrow> addr list \<Rightarrow> addr" where
  "before l as = last (l # as)"

text \<open>The position \<open>list_insert_ordered\<close> chooses: before the first element greater than \<open>e\<close>.\<close>

definition insort_lt :: "('a \<Rightarrow> 'a \<Rightarrow> bool) \<Rightarrow> 'a \<Rightarrow> 'a list \<Rightarrow> 'a list" where
  "insort_lt lt e xs = takeWhile (\<lambda>x. \<not> lt e x) xs @ e # dropWhile (\<lambda>x. \<not> lt e x) xs"

definition swapped :: "list_heap \<Rightarrow> addr set \<Rightarrow> list_heap" where
  "swapped h S = h\<lparr>prev_of := \<lambda>a. if a \<in> S then next_of h a else prev_of h a,
                   next_of := \<lambda>a. if a \<in> S then prev_of h a else next_of h a\<rparr>"

fun uniq_lt :: "('a \<Rightarrow> 'a \<Rightarrow> bool) \<Rightarrow> 'a \<Rightarrow> 'a list \<Rightarrow> 'a list \<times> 'a list" where
  "uniq_lt lt e [] = ([e], [])"
| "uniq_lt lt e (x # xs) =
     (if \<not> lt e x \<and> \<not> lt x e then apsnd ((#) x) (uniq_lt lt e xs)
      else apfst ((#) e) (uniq_lt lt x xs))"

subsection \<open>Reading and framing the abstraction\<close>

text \<open>\<open>agree S h h'\<close>: the two heaps differ at most on the links of the elements in \<open>S\<close>.\<close>

lemma agree_refl [simp, intro]: "agree S h h"
  by (simp add: agree_def)

lemma agree_trans [trans]: "agree S h h' \<Longrightarrow> agree T h' h'' \<Longrightarrow> agree (S \<union> T) h h''"
  by (simp add: agree_def)

lemma agree_mono: "agree S h h' \<Longrightarrow> S \<subseteq> T \<Longrightarrow> agree T h h'"
  by (auto simp: agree_def)

lemma heap_sel [simp]:
  "prev_of (set_prev h a v) = (prev_of h)(a := v)" "next_of (set_prev h a v) = next_of h"
  "next_of (set_next h a v) = (next_of h)(a := v)" "prev_of (set_next h a v) = prev_of h"
  "value_of (set_next h a v) = value_of h" "value_of (set_prev h a v) = value_of h"
  by (simp_all add: set_prev_def set_next_def)

lemma in_set_tlD: "a \<in> set (tl xs) \<Longrightarrow> a \<in> set xs"
  by (cases xs) auto

lemma links_append: "links h (as @ x # bs) \<longleftrightarrow> links h (as @ [x]) \<and> links h (x # bs)"
proof (induction as)
  case Nil then show ?case by simp
next
  case (Cons a as) then show ?case by (cases as) auto
qed

lemma links_join:
  "links h (us @ p # q # vs) \<longleftrightarrow>
     links h (us @ [p]) \<and> next_of h p = q \<and> prev_of h q = p \<and> links h (q # vs)"
  by (subst links_append) simp

lemma links_cong:
  "(\<And>a. a \<in> set (butlast ns) \<Longrightarrow> next_of h' a = next_of h a) \<Longrightarrow>
   (\<And>a. a \<in> set (tl ns) \<Longrightarrow> prev_of h' a = prev_of h a) \<Longrightarrow> links h ns \<Longrightarrow> links h' ns"
proof (induction ns rule: induct_list012)
  case (3 a b ns)
  have "links h' (b # ns)"
    by (rule "3.IH"(2)) (use 3 in \<open>auto dest: list.set_sel(2)\<close>)
  with 3 show ?case by simp
qed auto

lemma links_append2:
  assumes "xs \<noteq> []" and "ys \<noteq> []"
  shows "links h (xs @ ys) \<longleftrightarrow>
     links h xs \<and> next_of h (last xs) = hd ys \<and> prev_of h (hd ys) = last xs \<and> links h ys"
proof -
  obtain us p q vs where "xs = us @ [p]" and "ys = q # vs"
    using assms by (metis list.exhaust rev_exhaust)
  then show ?thesis by (simp add: links_join)
qed

lemma links_seg:
  assumes "links h ns" and "distinct ns" and "ns \<noteq> []"
    and "\<And>a. a \<in> set ns \<Longrightarrow> a \<noteq> last ns \<Longrightarrow> next_of h' a = next_of h a"
    and "\<And>a. a \<in> set ns \<Longrightarrow> a \<noteq> hd ns \<Longrightarrow> prev_of h' a = prev_of h a"
  shows "links h' ns"
proof (rule links_cong [OF _ _ assms(1)])
  fix a assume "a \<in> set (butlast ns)"
  moreover from this have "a \<noteq> last ns"
    using assms(2,3) by (metis append_butlast_last_id distinct_append disjoint_iff list.set_intros(1))
  ultimately show "next_of h' a = next_of h a"
    by (intro assms(4)) (rule in_set_butlastD)
next
  fix a assume "a \<in> set (tl ns)"
  moreover from this have "a \<noteq> hd ns"
    using assms(2,3) by (metis distinct.simps(2) list.collapse)
  ultimately show "prev_of h' a = prev_of h a"
    by (intro assms(5)) (rule in_set_tlD)
qed

lemma tail_of_neq [simp]: "tail_of l \<noteq> l" "l \<noteq> tail_of l" "0 < tail_of l"
  by (simp_all add: tail_of_def)

lemma is_list_frame:
  assumes "is_list h l xs" and "agree S h h'" and "S \<inter> set (nodes l xs) = {}"
  shows "is_list h' l xs"
proof -
  have eq: "prev_of h' a = prev_of h a \<and> next_of h' a = next_of h a" if "a \<in> set (nodes l xs)" for a
    using assms(2,3) that by (auto simp: agree_def)
  have "links h (nodes l xs)" using assms(1) by (simp add: is_list_def)
  then have "links h' (nodes l xs)"
    by (rule links_cong [rotated 2]) (meson eq in_set_butlastD, metis eq list.set_sel(2) tl_Nil)
  with assms(1) eq show ?thesis by (auto simp: is_list_def nodes_def)
qed

subsection \<open>Moving along a list\<close>

lemma at_simps [simp]: "at l [] = tail_of l" "at l (b # bs) = b"
  by (simp_all add: at_def)

lemma before_simps [simp]: "before l [] = l" "before l (as @ [a]) = a"
  by (simp_all add: before_def)

lemma before_in: "before l as \<in> insert l (set as)"
  by (simp add: before_def)

lemma at_in: "at l bs \<in> insert (tail_of l) (set bs)"
  by (cases bs) auto

lemma position:
  obtains us vs where "nodes l (as @ bs) = us @ before l as # at l bs # vs"
    "l # as = us @ [before l as]" "bs @ [tail_of l] = at l bs # vs"
proof -
  have l: "l # as = butlast (l # as) @ [before l as]"
    by (simp add: before_def)
  have r: "bs @ [tail_of l] = at l bs # tl (bs @ [tail_of l])"
    by (simp add: at_def)
  have "nodes l (as @ bs) = (l # as) @ (bs @ [tail_of l])"
    by (simp add: nodes_def)
  then show ?thesis using that l r by (metis append.assoc append_Cons append_Nil)
qed

lemma is_list_links:
  assumes "is_list h l (as @ bs)"
  shows "next_of h (before l as) = at l bs" and "prev_of h (at l bs) = before l as"
  using assms by (rule_tac position [of l as bs]; simp add: is_list_def links_join)+

lemma is_list_ends:
  assumes "is_list h l xs"
  shows "l \<noteq> 0" "tail_of l \<noteq> 0" "prev_of h l = 0" "next_of h (tail_of l) = 0"
    "0 \<notin> set xs" "l \<notin> set xs" "tail_of l \<notin> set xs" "distinct xs"
  using assms by (auto simp: is_list_def nodes_def)

lemma is_list_begin: "is_list h l xs \<Longrightarrow> next_of h l = at l xs"
  using is_list_links(1) [of h l "[]" xs] by simp

lemma before_nonnull: "is_list h l (as @ bs) \<Longrightarrow> before l as \<noteq> 0"
  using before_in [of l as] is_list_ends(1,5) [of h l "as @ bs"] by (metis Un_iff insertE set_append)

lemma at_nonnull: "is_list h l (as @ bs) \<Longrightarrow> at l bs \<noteq> 0"
  using at_in [of l bs] is_list_ends(2,5) [of h l "as @ bs"] by (metis Un_iff insertE set_append)

lemma is_interior_list: "is_list h l (as @ b # bs) \<Longrightarrow> is_interior h b"
  using is_list_links(2) [of h l as "b # bs"] is_list_links(1) [of h l "as @ [b]" bs]
    before_nonnull [of h l as "b # bs"] at_nonnull [of h l "as @ [b]" bs]
    is_list_ends(5) [of h l "as @ b # bs"]
  by (simp add: is_interior_def)

lemma is_interior_mem: "is_list h l xs \<Longrightarrow> x \<in> set xs \<Longrightarrow> is_interior h x"
  by (metis is_interior_list split_list)

lemma is_tail_list: "is_list h l xs \<Longrightarrow> is_tail h (tail_of l)"
  using is_list_links(2) [of h l xs "[]"] before_nonnull [of h l xs "[]"] is_list_ends(4) [of h l xs]
  by (simp add: is_tail_def)

lemma is_head_list: "is_list h l xs \<Longrightarrow> is_head h l"
  using is_list_begin [of h l xs] at_nonnull [of h l "[]" xs] is_list_ends(1,3) [of h l xs]
  by (simp add: is_head_def)

lemma at_pos: "is_list h l (as @ bs) \<Longrightarrow> is_interior h (at l bs) \<or> is_tail h (at l bs)"
  by (cases bs) (auto simp: is_interior_list is_tail_list)

lemma before_pos: "is_list h l (as @ bs) \<Longrightarrow> is_head h (before l as) \<or> is_interior h (before l as)"
  by (cases as rule: rev_cases) (auto simp: is_interior_list is_head_list)

lemma list_begin_eq [simp]: "is_list h l xs \<Longrightarrow> list_begin h l = Some (at l xs)"
  by (simp add: list_begin_def head_of_def is_list_begin is_list_ends(1))

lemma list_end_eq [simp]: "is_list h l xs \<Longrightarrow> list_end l = Some (tail_of l)"
  by (simp add: list_end_def is_list_ends(1))

lemma list_next_eq: "is_list h l (as @ b # bs) \<Longrightarrow> list_next h b = Some (at l bs)"
  using is_list_links(1) [of h l "as @ [b]" bs] is_interior_list [of h l as b bs]
  by (simp add: list_next_def)

lemma list_prev_eq: "is_list h l (as @ bs) \<Longrightarrow> list_prev h (at l bs) = Some (before l as)"
  using is_list_links(2) [of h l as bs] at_pos [of h l as bs] by (simp add: list_prev_def)

lemma list_empty_eq: "is_list h l xs \<Longrightarrow> list_empty h l = Some (xs = [])"
  using is_list_ends(7) [of h l xs] by (cases xs) (auto simp: list_empty_def)

subsection \<open>Insertion and removal\<close>

lemma is_list_insertI:
  assumes l: "is_list h l (as @ bs)" and e: "e \<noteq> 0" "e \<notin> set (nodes l (as @ bs))"
    and n: "next_of h' = (next_of h)(e := at l bs, before l as := e)"
    and p: "prev_of h' = (prev_of h)(e := before l as, at l bs := e)"
  shows "is_list h' l (as @ e # bs)"
proof -
  obtain us vs where s: "nodes l (as @ bs) = us @ before l as # at l bs # vs"
    "l # as = us @ [before l as]" "bs @ [tail_of l] = at l bs # vs"
    by (rule position)
  have n1: "nodes l (as @ e # bs) = us @ before l as # e # at l bs # vs"
    using s(2,3) by (simp add: nodes_def)
  have d: "distinct (us @ before l as # at l bs # vs)" "0 \<notin> set (us @ before l as # at l bs # vs)"
    and e': "e \<notin> set (us @ before l as # at l bs # vs)"
    and lk: "links h (us @ [before l as])" "links h (at l bs # vs)"
    using l e(2) by (auto simp: is_list_def s(1) links_join)
  have "links h' (us @ [before l as])"
    by (rule links_seg [OF lk(1)]) (use d e' in \<open>auto simp: n p\<close>)
  moreover have "links h' (at l bs # vs)"
    by (rule links_seg [OF lk(2)]) (use d e' in \<open>auto simp: n p\<close>)
  ultimately have "links h' (nodes l (as @ e # bs))"
    unfolding n1 links_join [of h' us "before l as"] using d e' by (auto simp: n p)
  moreover have "distinct (nodes l (as @ e # bs))" "0 \<notin> set (nodes l (as @ e # bs))"
    unfolding n1 using d e' e(1) by auto
  moreover have "prev_of h' l = 0"
    using l e(2) at_in [of l bs] is_list_ends(6) [OF l] by (auto simp: p nodes_def is_list_ends(3))
  moreover have "next_of h' (tail_of l) = 0"
    using l e(2) before_in [of l as] is_list_ends(7) [OF l] by (auto simp: n nodes_def is_list_ends(4))
  ultimately show ?thesis by (simp add: is_list_def)
qed

lemma list_insert_spec:
  assumes l: "is_list h l (as @ bs)" and e: "e \<noteq> 0" "e \<notin> set (nodes l (as @ bs))"
  obtains h' where "list_insert h (at l bs) e = Some h'" "is_list h' l (as @ e # bs)"
    "agree (insert e (set (nodes l (as @ bs)))) h h'"
proof -
  have ne: "at l bs \<noteq> e" using at_in [of l bs] e(2) by (auto simp: nodes_def)
  define h' where "h' = set_prev (set_next (set_next (set_prev h e (before l as)) e (at l bs)) (before l as) e) (at l bs) e"
  have "list_insert h (at l bs) e = Some h'"
    using at_pos [OF l] e(1) ne is_list_links(2) [OF l] by (simp add: list_insert_def h'_def Let_def)
  moreover have "is_list h' l (as @ e # bs)"
    by (rule is_list_insertI [OF l e]) (simp_all add: h'_def)
  moreover have "agree (insert e (set (nodes l (as @ bs)))) h h'"
    using before_in [of l as] at_in [of l bs] by (auto simp: agree_def h'_def nodes_def)
  ultimately show ?thesis using that by blast
qed

lemma is_list_removeI:
  assumes l: "is_list h l (as @ e # bs)"
    and n: "next_of h' = (next_of h)(before l as := at l bs)"
    and p: "prev_of h' = (prev_of h)(at l bs := before l as)"
  shows "is_list h' l (as @ bs)"
proof -
  obtain us vs where s: "nodes l (as @ bs) = us @ before l as # at l bs # vs"
    "l # as = us @ [before l as]" "bs @ [tail_of l] = at l bs # vs"
    by (rule position)
  have n1: "nodes l (as @ e # bs) = us @ before l as # e # at l bs # vs"
    using s(2,3) by (simp add: nodes_def)
  have d: "distinct (us @ before l as # at l bs # vs)" "0 \<notin> set (us @ before l as # at l bs # vs)"
    and lk: "links h (us @ [before l as])" "links h (at l bs # vs)"
    using l by (auto simp: is_list_def n1 links_join)
  have "links h' (us @ [before l as])"
    by (rule links_seg [OF lk(1)]) (use d in \<open>auto simp: n p\<close>)
  moreover have "links h' (at l bs # vs)"
    by (rule links_seg [OF lk(2)]) (use d in \<open>auto simp: n p\<close>)
  ultimately have "links h' (nodes l (as @ bs))"
    unfolding s(1) links_join [of h' us "before l as"] by (auto simp: n p)
  moreover have "distinct (nodes l (as @ bs))" "0 \<notin> set (nodes l (as @ bs))"
    unfolding s(1) using d by auto
  moreover have "prev_of h' l = 0"
    using l at_in [of l bs] is_list_ends(6) [OF l] by (auto simp: p is_list_ends(3))
  moreover have "next_of h' (tail_of l) = 0"
    using l before_in [of l as] is_list_ends(7) [OF l] by (auto simp: n is_list_ends(4))
  ultimately show ?thesis by (simp add: is_list_def)
qed

lemma list_remove_spec:
  assumes l: "is_list h l (as @ e # bs)"
  obtains h' where "list_remove h e = Some (h', at l bs)" "is_list h' l (as @ bs)"
    "agree (set (nodes l (as @ bs))) h h'"
proof -
  have links: "prev_of h e = before l as" "next_of h e = at l bs"
    using is_list_links(2) [of h l as "e # bs"] is_list_links(1) [of h l "as @ [e]" bs] l by simp_all
  have "before l as \<noteq> e"
    using l before_in [of l as] by (auto simp: is_list_def nodes_def)
  define h' where "h' = set_prev (set_next h (before l as) (at l bs)) (at l bs) (before l as)"
  have "list_remove h e = Some (h', at l bs)"
    using is_interior_list [OF l] links \<open>before l as \<noteq> e\<close> by (simp add: list_remove_def h'_def Let_def)
  moreover have "is_list h' l (as @ bs)"
    by (rule is_list_removeI [OF l]) (simp_all add: h'_def)
  moreover have "agree (set (nodes l (as @ bs))) h h'"
    using before_in [of l as] at_in [of l bs] by (auto simp: agree_def h'_def nodes_def)
  ultimately show ?thesis using that by blast
qed

subsection \<open>Queue operations\<close>

lemma list_push_back_spec:
  assumes l: "is_list h l xs" and e: "e \<noteq> 0" "e \<notin> set (nodes l xs)"
  obtains h' where "list_push_back h l e = Some h'" "is_list h' l (xs @ [e])"
    "agree (insert e (set (nodes l xs))) h h'"
  using list_insert_spec [of h l xs "[]" e] assms
  by (auto simp: list_push_back_def)

lemma list_push_front_spec:
  assumes l: "is_list h l xs" and e: "e \<noteq> 0" "e \<notin> set (nodes l xs)"
  obtains h' where "list_push_front h l e = Some h'" "is_list h' l (e # xs)"
    "agree (insert e (set (nodes l xs))) h h'"
  using list_insert_spec [of h l "[]" xs e] assms
  by (auto simp: list_push_front_def)

lemma list_front_eq: "is_list h l (x # xs) \<Longrightarrow> list_front h l = Some x"
  using is_list_begin [of h l "x # xs"] by (simp add: list_front_def list_empty_eq head_of_def)

lemma list_back_eq: "is_list h l (xs @ [x]) \<Longrightarrow> list_back h l = Some x"
  using is_list_links(2) [of h l "xs @ [x]" "[]"] by (simp add: list_back_def list_empty_eq)

lemma list_front_empty: "is_list h l [] \<Longrightarrow> list_front h l = None"
  by (simp add: list_front_def list_empty_eq)

lemma list_back_empty: "is_list h l [] \<Longrightarrow> list_back h l = None"
  by (simp add: list_back_def list_empty_eq)

lemma list_pop_front_spec:
  assumes l: "is_list h l (x # xs)"
  obtains h' where "list_pop_front h l = Some (h', x)" "is_list h' l xs" "agree (set (nodes l xs)) h h'"
proof -
  obtain h' where "list_remove h x = Some (h', at l xs)" "is_list h' l xs" "agree (set (nodes l xs)) h h'"
    using list_remove_spec [of h l "[]" x xs] l by auto
  with that l show ?thesis by (simp add: list_pop_front_def list_front_eq)
qed

lemma list_pop_back_spec:
  assumes l: "is_list h l (xs @ [x])"
  obtains h' where "list_pop_back h l = Some (h', x)" "is_list h' l xs" "agree (set (nodes l xs)) h h'"
proof -
  obtain h' where "list_remove h x = Some (h', at l [])" "is_list h' l xs" "agree (set (nodes l xs)) h h'"
    using list_remove_spec [of h l xs x "[]"] l by (metis append_Nil2)
  with that l show ?thesis by (simp add: list_pop_back_def list_back_eq)
qed

lemma list_pop_front_empty: "is_list h l [] \<Longrightarrow> list_pop_front h l = None"
  by (simp add: list_pop_front_def list_front_empty)

lemma list_init_spec:
  assumes "l \<noteq> 0"
  obtains h' where "list_init h l = Some h'" "is_list h' l []" "agree {l, tail_of l} h h'"
  using assms
  by (auto simp: list_init_def head_of_def is_list_def nodes_def agree_def Let_def)

lemma at_eq_tail_iff: "is_list h l (as @ bs) \<Longrightarrow> at l bs = tail_of l \<longleftrightarrow> bs = []"
  using is_list_ends(7) [of h l "as @ bs"] by (cases bs) auto

lemma list_size_loop_eq:
  "is_list h l (as @ bs) \<Longrightarrow> cnt + length bs < 2 ^ 32 \<Longrightarrow>
   list_size_loop h (at l bs) (tail_of l) cnt = Some (cnt + length bs)"
proof (induction bs arbitrary: as cnt)
  case Nil
  then show ?case by (simp add: list_size_loop.simps)
next
  case (Cons b bs)
  have "list_size_loop h (at l bs) (tail_of l) (cnt + 1) = Some (cnt + 1 + length bs)"
    by (rule Cons.IH [of "as @ [b]"]) (use Cons.prems in simp_all)
  with Cons.prems show ?case
    using at_eq_tail_iff [OF Cons.prems(1)] list_next_eq [OF Cons.prems(1)]
    by (simp add: list_size_loop.simps [of h b] u32_id)
qed

lemma list_size_eq: "is_list h l xs \<Longrightarrow> length xs < 2 ^ 32 \<Longrightarrow> list_size h l = Some (length xs)"
  using list_size_loop_eq [of h l "[]" xs 0] by (simp add: list_size_def)

subsection \<open>Ordered insertion, maximum and minimum\<close>

lemma insert_ordered_loop_eq:
  "is_list h l (as @ bs) \<Longrightarrow>
   insert_ordered_loop h lt e (at l bs) (tail_of l) = Some (at l (dropWhile (\<lambda>x. \<not> lt e x) bs))"
proof (induction bs arbitrary: as)
  case Nil
  then show ?case by (simp add: insert_ordered_loop.simps)
next
  case (Cons b bs)
  have "insert_ordered_loop h lt e (at l bs) (tail_of l) = Some (at l (dropWhile (\<lambda>x. \<not> lt e x) bs))"
    by (rule Cons.IH [of "as @ [b]"]) (use Cons.prems in simp)
  then show ?case
    using at_eq_tail_iff [OF Cons.prems] list_next_eq [OF Cons.prems]
    by (simp add: insert_ordered_loop.simps [of h lt e b])
qed

lemma list_insert_ordered_spec:
  assumes l: "is_list h l xs" and e: "e \<noteq> 0" "e \<notin> set (nodes l xs)"
  obtains h' where "list_insert_ordered h l e lt = Some h'" "is_list h' l (insort_lt lt e xs)"
    "agree (insert e (set (nodes l xs))) h h'"
proof -
  let ?as = "takeWhile (\<lambda>x. \<not> lt e x) xs" and ?bs = "dropWhile (\<lambda>x. \<not> lt e x) xs"
  obtain h' where "list_insert h (at l ?bs) e = Some h'" "is_list h' l (?as @ e # ?bs)"
    "agree (insert e (set (nodes l xs))) h h'"
    using list_insert_spec [of h l ?as ?bs e] assms by auto
  moreover have "insert_ordered_loop h lt e (at l xs) (tail_of l) = Some (at l ?bs)"
    using insert_ordered_loop_eq [of h l "[]" xs] l by simp
  ultimately show ?thesis
    using that l e(1) is_list_ends(1) [OF l] by (simp add: list_insert_ordered_def insort_lt_def)
qed

lemma list_max_loop_eq:
  "is_list h l (as @ bs) \<Longrightarrow>
   list_max_loop h lt m (at l bs) (tail_of l) = Some (foldl (\<lambda>m e. if lt m e then e else m) m bs)"
proof (induction bs arbitrary: as m)
  case Nil
  then show ?case by (simp add: list_max_loop.simps)
next
  case (Cons b bs)
  have "list_max_loop h lt k (at l bs) (tail_of l)
      = Some (foldl (\<lambda>m e. if lt m e then e else m) k bs)" for k
    by (rule Cons.IH [of "as @ [b]"]) (use Cons.prems in simp)
  then show ?case
    using at_eq_tail_iff [OF Cons.prems] list_next_eq [OF Cons.prems]
    by (simp add: list_max_loop.simps [of h lt m b] Let_def)
qed

lemma list_min_loop_eq:
  "is_list h l (as @ bs) \<Longrightarrow>
   list_min_loop h lt m (at l bs) (tail_of l) = Some (foldl (\<lambda>m e. if lt e m then e else m) m bs)"
proof (induction bs arbitrary: as m)
  case Nil
  then show ?case by (simp add: list_min_loop.simps)
next
  case (Cons b bs)
  have "list_min_loop h lt k (at l bs) (tail_of l)
      = Some (foldl (\<lambda>m e. if lt e m then e else m) k bs)" for k
    by (rule Cons.IH [of "as @ [b]"]) (use Cons.prems in simp)
  then show ?case
    using at_eq_tail_iff [OF Cons.prems] list_next_eq [OF Cons.prems]
    by (simp add: list_min_loop.simps [of h lt m b] Let_def)
qed

lemma list_max_eq:
  "is_list h l (x # xs) \<Longrightarrow> list_max h l lt = Some (foldl (\<lambda>m e. if lt m e then e else m) x xs)"
  using list_max_loop_eq [of h l "[x]" xs] list_next_eq [of h l "[]" x xs] at_eq_tail_iff [of h l "[]" "x # xs"]
  by (simp add: list_max_def)

lemma list_min_eq:
  "is_list h l (x # xs) \<Longrightarrow> list_min h l lt = Some (foldl (\<lambda>m e. if lt e m then e else m) x xs)"
  using list_min_loop_eq [of h l "[x]" xs] list_next_eq [of h l "[]" x xs] at_eq_tail_iff [of h l "[]" "x # xs"]
  by (simp add: list_min_def)

lemma list_max_empty: "is_list h l [] \<Longrightarrow> list_max h l lt = Some (tail_of l)"
  by (simp add: list_max_def)

lemma list_min_empty: "is_list h l [] \<Longrightarrow> list_min h l lt = Some (tail_of l)"
  by (simp add: list_min_def)

subsection \<open>Splicing\<close>

lemma list_splice_spec:
  assumes l: "is_list h l (as @ bs @ ms @ ds)" and ne: "bs \<noteq> []" "ms \<noteq> []"
  obtains h' where "list_splice h (hd bs) (hd ms) (at l ds) = Some h'"
    "is_list h' l (as @ ms @ bs @ ds)" "agree (set (nodes l (as @ bs @ ms @ ds))) h h'"
proof -
  define L D where "L = l # as" and "D = ds @ [tail_of l]"
  have n: "nodes l (as @ bs @ ms @ ds) = L @ bs @ ms @ D" "nodes l (as @ ms @ bs @ ds) = L @ ms @ bs @ D"
    and LD: "L \<noteq> []" "D \<noteq> []" "hd D = at l ds" "hd L = l" "last D = tail_of l" "last L = before l as"
    by (simp_all add: nodes_def L_def D_def at_def before_def)
  have lk: "links h L" "links h bs" "links h ms" "links h D"
    "next_of h (last L) = hd bs" "prev_of h (hd bs) = last L"
    "next_of h (last bs) = hd ms" "prev_of h (hd ms) = last bs"
    "next_of h (last ms) = hd D" "prev_of h (hd D) = last ms"
    and d: "distinct (L @ bs @ ms @ D)" "0 \<notin> set (L @ bs @ ms @ D)"
    and z: "prev_of h l = 0" "next_of h (tail_of l) = 0"
    using l ne LD(1,2) unfolding is_list_def n by (simp_all add: links_append2)
  have ends: "last L \<in> set L" "hd bs \<in> set bs" "last bs \<in> set bs" "hd ms \<in> set ms" "last ms \<in> set ms"
    "hd D \<in> set D" "l \<in> set L" "tail_of l \<in> set D"
    using ne LD(1,2) by (simp_all) (simp_all add: L_def D_def)
  have neq: "last L \<noteq> hd bs" "last L \<noteq> last bs" "last L \<noteq> last ms" "last bs \<noteq> last ms" "hd bs \<noteq> hd ms"
    "hd bs \<noteq> hd D" "hd ms \<noteq> hd D" "last bs \<noteq> hd D" "last ms \<noteq> hd bs"
    using d(1) ends by auto
  define h' where "h' = set_prev (set_next (set_next (set_prev (set_prev (set_next h (last bs) (hd D)) (hd D)
     (last bs)) (hd ms) (last L)) (last ms) (hd bs)) (last L) (hd ms)) (hd bs) (last ms)"
  have int: "is_interior h (hd bs)" "is_interior h (hd ms)" "is_interior h (last ms)"
    by (rule is_interior_mem [OF l]; use ends in simp)+
  have "list_prev h (hd D) = Some (last ms)"
    using list_prev_eq [of h l "as @ bs @ ms" ds] l ne LD(3) by (simp add: before_def)
  then have "list_splice h (hd bs) (hd ms) (at l ds) = Some h'"
    using int neq lk by (simp add: list_splice_def h'_def Let_def flip: LD(3))
  moreover have "is_list h' l (as @ ms @ bs @ ds)"
  proof -
    have out: "last L \<notin> set bs" "last L \<notin> set ms" "last L \<notin> set D" "last bs \<notin> set L" "last bs \<notin> set ms"
      "last bs \<notin> set D" "last ms \<notin> set L" "last ms \<notin> set bs" "last ms \<notin> set D" "hd bs \<notin> set L"
      "hd bs \<notin> set ms" "hd bs \<notin> set D" "hd ms \<notin> set L" "hd ms \<notin> set bs" "hd ms \<notin> set D"
      "hd D \<notin> set L" "hd D \<notin> set bs" "hd D \<notin> set ms" "distinct L" "distinct bs" "distinct ms" "distinct D"
      using d(1) ends by auto
    have "links h' L"
      by (rule links_seg [OF lk(1)]) (use out LD(1) in \<open>auto simp: h'_def\<close>)
    moreover have "links h' bs"
      by (rule links_seg [OF lk(2)]) (use out ne in \<open>auto simp: h'_def\<close>)
    moreover have "links h' ms"
      by (rule links_seg [OF lk(3)]) (use out ne in \<open>auto simp: h'_def\<close>)
    moreover have "links h' D"
      by (rule links_seg [OF lk(4)]) (use out LD(2) in \<open>auto simp: h'_def\<close>)
    ultimately have "links h' (L @ ms @ bs @ D)"
      using neq ne LD(1,2) by (simp add: links_append2 h'_def)
    moreover have "prev_of h' l = 0" "next_of h' (tail_of l) = 0"
      using d(1) ends z by (auto simp: h'_def)
    moreover have "distinct (L @ ms @ bs @ D)" "0 \<notin> set (L @ ms @ bs @ D)"
      using d by auto
    ultimately show ?thesis unfolding is_list_def n(2) by blast
  qed
  moreover have "agree (set (nodes l (as @ bs @ ms @ ds))) h h'"
    unfolding n(1) using ends by (auto simp: agree_def h'_def)
  ultimately show ?thesis using that by blast
qed

subsection \<open>Reversal\<close>

lemma swapped_sel [simp]:
  "prev_of (swapped h S) a = (if a \<in> S then next_of h a else prev_of h a)"
  "next_of (swapped h S) a = (if a \<in> S then prev_of h a else next_of h a)"
  "value_of (swapped h S) = value_of h"
  by (simp_all add: swapped_def)

lemma swap_links_swapped: "b \<notin> S \<Longrightarrow> swap_links (swapped h S) b = swapped h (insert b S)"
  by (rule list_heap.equality) (auto simp: swap_links_def Let_def)

lemma list_reverse_loop_eq:
  "is_list h l (as @ bs) \<Longrightarrow>
   list_reverse_loop (swapped h (set as)) (at l bs) (tail_of l) = Some (swapped h (set (as @ bs)))"
proof (induction bs arbitrary: as)
  case Nil
  then show ?case by (simp add: list_reverse_loop.simps)
next
  case (Cons b bs)
  have b: "b \<noteq> tail_of l" "b \<noteq> 0" "b \<notin> set as" "next_of h b = at l bs"
    using Cons.prems is_list_links(1) [of h l "as @ [b]" bs] by (auto simp: is_list_def nodes_def)
  have "list_reverse_loop (swapped h (set (as @ [b]))) (at l bs) (tail_of l) = Some (swapped h (set ((as @ [b]) @ bs)))"
    by (rule Cons.IH) (use Cons.prems in simp)
  with b show ?case
    by (simp add: list_reverse_loop.simps [of _ b] swap_links_swapped Let_def)
qed

lemma links_rev:
  "links h xs \<Longrightarrow> distinct xs \<Longrightarrow>
   (\<And>a. a \<in> set xs \<Longrightarrow> a \<noteq> hd xs \<Longrightarrow> next_of h' a = prev_of h a) \<Longrightarrow>
   (\<And>a. a \<in> set xs \<Longrightarrow> a \<noteq> last xs \<Longrightarrow> prev_of h' a = next_of h a) \<Longrightarrow> links h' (rev xs)"
proof (induction xs rule: induct_list012)
  case (3 a b ns)
  have "links h' (rev (b # ns))"
    by (rule "3.IH"(2)) (use "3.prems" in auto)
  moreover have "a \<noteq> last (a # b # ns)"
    using "3.prems"(2) last_in_set [of "b # ns"] by auto
  then have "next_of h' b = a" "prev_of h' a = b"
    using "3.prems"(1,2) "3.prems"(3) [of b] "3.prems"(4) [of a] by auto
  ultimately show ?case
    using links_append2 [of "rev (b # ns)" "[a]" h'] by (simp add: last_rev)
qed auto

lemma list_reverse_spec:
  assumes l: "is_list h l xs"
  obtains h' where "list_reverse h l = Some h'" "is_list h' l (rev xs)" "agree (set (nodes l xs)) h h'"
proof (cases "xs = []")
  case True
  with l that show ?thesis by (simp add: list_reverse_def list_empty_eq)
next
  case False
  have lk: "links h xs" "next_of h l = hd xs" "prev_of h (tail_of l) = last xs"
    "prev_of h (hd xs) = l" "next_of h (last xs) = tail_of l"
    using l False links_append2 [of "[l]" "xs @ [tail_of l]" h] links_append2 [of xs "[tail_of l]" h]
    by (simp_all add: is_list_def nodes_def)
  have mem: "hd xs \<in> set xs" "last xs \<in> set xs" "l \<notin> set xs" "tail_of l \<notin> set xs" "0 \<notin> set xs" "distinct xs" "l \<noteq> 0"
    using False is_list_ends [OF l] by simp_all
  then have nz: "hd xs \<noteq> 0" "last xs \<noteq> 0" "hd xs \<noteq> l" "last xs \<noteq> l" "hd xs \<noteq> tail_of l" "last xs \<noteq> tail_of l"
    by metis+
  define h' where "h' = set_prev (set_next (set_prev (set_next (swapped h (set xs)) l (last xs))
      (tail_of l) (hd xs)) (hd xs) (tail_of l)) (last xs) l"
  have "list_reverse_loop h (at l xs) (tail_of l) = Some (swapped h (set xs))"
    using list_reverse_loop_eq [of h l "[]" xs] l by (simp add: swapped_def)
  then have "list_reverse h l = Some h'"
    using l False mem nz lk
    by (simp add: list_reverse_def list_empty_eq head_of_def swap_next_prev_def h'_def Let_def)
  moreover have "is_list h' l (rev xs)"
  proof -
    have "links h' (rev xs)"
      by (rule links_rev [OF lk(1) mem(6)]) (use mem in \<open>auto simp: h'_def\<close>)
    moreover have "next_of h' l = hd (rev xs)" "prev_of h' (hd (rev xs)) = l"
      "next_of h' (last (rev xs)) = tail_of l" "prev_of h' (tail_of l) = last (rev xs)"
      using mem nz by (auto simp: h'_def hd_rev last_rev)
    ultimately have "links h' ([l] @ rev xs @ [tail_of l])"
      using False links_append2 [of "[l]" "rev xs @ [tail_of l]" h'] links_append2 [of "rev xs" "[tail_of l]" h']
      by simp
    with l mem nz show ?thesis by (auto simp: is_list_def nodes_def h'_def)
  qed
  moreover have "agree (set (nodes l xs)) h h'"
    using mem by (auto simp: agree_def h'_def nodes_def)
  ultimately show ?thesis using that by blast
qed

subsection \<open>Removing adjacent duplicates\<close>

lemma uniq_lt_mset: "mset (fst (uniq_lt lt e xs)) + mset (snd (uniq_lt lt e xs)) = mset (e # xs)"
  by (induction lt e xs rule: uniq_lt.induct) (auto simp: apsnd_def apfst_def map_prod_def split: prod.splits)

lemma list_unique_loop_spec:
  assumes "is_list h l (as @ e # bs)" and "is_list h d ds" and "set (nodes l (as @ e # bs)) \<inter> set (nodes d ds) = {}"
  shows "\<exists>h'. list_unique_loop h lt e (tail_of l) d = Some h'
    \<and> is_list h' l (as @ fst (uniq_lt lt e bs)) \<and> is_list h' d (ds @ snd (uniq_lt lt e bs))
    \<and> agree (set (nodes l (as @ e # bs)) \<union> set (nodes d ds)) h h'"
  using assms
proof (induction bs arbitrary: h as e ds)
  case Nil
  then show ?case using list_next_eq [of h l as e "[]"] by (auto simp: list_unique_loop.simps [of h])
next
  case (Cons b bs)
  have nx: "list_next h e = Some b" and bt: "b \<noteq> tail_of l"
    using list_next_eq [OF Cons.prems(1)] is_list_ends(7) [OF Cons.prems(1)] by auto
  show ?case
  proof (cases "\<not> lt e b \<and> \<not> lt b e")
    case True
    obtain h1 where h1: "list_remove h b = Some (h1, at l bs)" "is_list h1 l (as @ e # bs)"
      "agree (set (nodes l (as @ e # bs))) h h1"
      using list_remove_spec [of h l "as @ [e]" b bs] Cons.prems(1) by auto
    have d1: "is_list h1 d ds"
      by (rule is_list_frame [OF Cons.prems(2) h1(3)]) (use Cons.prems(3) in \<open>auto simp: nodes_def\<close>)
    have b: "b \<noteq> 0" "b \<notin> set (nodes d ds)" "b \<notin> set (nodes l (as @ e # bs))"
      using Cons.prems(1,3) by (auto simp: is_list_def nodes_def)
    obtain h2 where h2: "list_push_back h1 d b = Some h2" "is_list h2 d (ds @ [b])"
      "agree (insert b (set (nodes d ds))) h1 h2"
      using list_push_back_spec [OF d1 b(1,2)] by auto
    have l2: "is_list h2 l (as @ e # bs)"
      by (rule is_list_frame [OF h1(2) h2(3)]) (use Cons.prems(3) b in \<open>auto simp: nodes_def\<close>)
    obtain h' where h': "list_unique_loop h2 lt e (tail_of l) d = Some h'"
      "is_list h' l (as @ fst (uniq_lt lt e bs))" "is_list h' d ((ds @ [b]) @ snd (uniq_lt lt e bs))"
      "agree (set (nodes l (as @ e # bs)) \<union> set (nodes d (ds @ [b]))) h2 h'"
      using Cons.IH [OF l2 h2(2)] Cons.prems(3) b by (fastforce simp: nodes_def)
    have "list_unique_loop h lt e (tail_of l) d = Some h'"
      using True nx bt h1(1) h2(1) h'(1) is_list_ends(1) [OF d1] by (simp add: list_unique_loop.simps [of h])
    moreover have "agree (set (nodes l (as @ e # b # bs)) \<union> set (nodes d ds)) h h'"
      by (rule agree_mono [OF agree_trans [OF agree_trans [OF h1(3) h2(3)] h'(4)]]) (auto simp: nodes_def)
    ultimately show ?thesis using True h'(2,3) by auto
  next
    case False
    have l1: "is_list h l ((as @ [e]) @ b # bs)" and dj: "set (nodes l ((as @ [e]) @ b # bs)) \<inter> set (nodes d ds) = {}"
      using Cons.prems by simp_all
    obtain h' where h': "list_unique_loop h lt b (tail_of l) d = Some h'"
      "is_list h' l ((as @ [e]) @ fst (uniq_lt lt b bs))" "is_list h' d (ds @ snd (uniq_lt lt b bs))"
      "agree (set (nodes l ((as @ [e]) @ b # bs)) \<union> set (nodes d ds)) h h'"
      using Cons.IH [OF l1 Cons.prems(2) dj] by blast
    have "list_unique_loop h lt e (tail_of l) d = Some h'"
      using False nx bt h'(1) by (subst list_unique_loop.simps) auto
    with False h'(2-4) show ?thesis by auto
  qed
qed

lemma list_unique_spec:
  assumes "is_list h l (x # xs)" and "is_list h d ds" and "set (nodes l (x # xs)) \<inter> set (nodes d ds) = {}"
  obtains h' where "list_unique h l d lt = Some h'"
    "is_list h' l (fst (uniq_lt lt x xs))" "is_list h' d (ds @ snd (uniq_lt lt x xs))"
    "agree (set (nodes l (x # xs)) \<union> set (nodes d ds)) h h'"
  using list_unique_loop_spec [of h l "[]" x xs d ds lt] assms is_list_ends(1) [OF assms(1)] that
  by (auto simp: list_unique_def list_empty_eq)

subsection \<open>What the scheduler relies on\<close>

text \<open>
  reversing a list in place (two pointer swaps per element and two at the ends) yields the
  reversed sequence, terminates, and touches no other element of the heap.
\<close>

theorem list_reverse_correct:
  assumes "is_list h l xs"
  shows "\<exists>h'. list_reverse h l = Some h' \<and> is_list h' l (rev xs) \<and> agree (set (nodes l xs)) h h'"
  using list_reverse_spec [OF assms] by blast

definition demo_heap :: list_heap where
  "demo_heap = \<lparr>prev_of = (\<lambda>_. 0)(200 := 100, 300 := 200, 400 := 300, 112 := 400),
                next_of = (\<lambda>_. 0)(100 := 200, 200 := 300, 300 := 400, 400 := 112),
                value_of = (\<lambda>_. 0)\<rparr>"

lemma demo_is_list: "is_list demo_heap 100 [200, 300, 400]"
  by (simp add: is_list_def nodes_def demo_heap_def tail_of_def)

theorem list_reverse_correct_witness:
  "is_list demo_heap 100 [200, 300, 400] \<and>
   (\<exists>h'. list_reverse demo_heap 100 = Some h' \<and> is_list h' 100 [400, 300, 200]
     \<and> agree (set (nodes 100 [200, 300, 400])) demo_heap h')"
  using list_reverse_correct [OF demo_is_list] demo_is_list by simp

end
