(* ===== verification/List_Sort.thy ===== *)
theory List_Sort
  imports Kernel_List
begin

text \<open>
  \<open>list_sort\<close> of \<open>lib/kernel/list.c\<close>: the natural merge sort that works in place on the heap.
  The passes of the C code are first described on sequences (runs, merging, one pass, repeated
  passes); the heap operations are then shown to carry them out, so that \<open>list_sort\<close>
  terminates without failing an \<open>ASSERT\<close> for every asymmetric comparison, and is the stable
  sort for every strict weak order.
\<close>

subsection \<open>The merge sort on sequences\<close>

fun take_run :: "('a \<Rightarrow> 'a \<Rightarrow> bool) \<Rightarrow> 'a \<Rightarrow> 'a list \<Rightarrow> 'a list" where
  "take_run lt x [] = []"
| "take_run lt x (y # ys) = (if lt y x then [] else y # take_run lt y ys)"

fun drop_run :: "('a \<Rightarrow> 'a \<Rightarrow> bool) \<Rightarrow> 'a \<Rightarrow> 'a list \<Rightarrow> 'a list" where
  "drop_run lt x [] = []"
| "drop_run lt x (y # ys) = (if lt y x then y # ys else drop_run lt y ys)"

fun mrg :: "('a \<Rightarrow> 'a \<Rightarrow> bool) \<Rightarrow> 'a list \<Rightarrow> 'a list \<Rightarrow> 'a list" where
  "mrg lt [] bs = bs"
| "mrg lt as [] = as"
| "mrg lt (a # as) (b # bs) =
     (if \<not> lt b a then a # mrg lt as (b # bs) else b # mrg lt (a # as) bs)"

abbreviation nondec :: "('a \<Rightarrow> 'a \<Rightarrow> bool) \<Rightarrow> 'a list \<Rightarrow> bool" where
  "nondec lt \<equiv> successively (\<lambda>x y. \<not> lt y x)"

lemma run_split: "take_run lt x xs @ drop_run lt x xs = xs"
  by (induction lt x xs rule: take_run.induct) auto

lemma length_drop_run: "length (drop_run lt x xs) \<le> length xs"
  by (induction lt x xs rule: drop_run.induct) auto

lemma nondec_run: "nondec lt (x # take_run lt x xs)"
  by (induction lt x xs rule: take_run.induct) (auto simp: successively_Cons)

lemma drop_run_append: "nondec lt (x # xs) \<Longrightarrow> drop_run lt x (xs @ ys) = drop_run lt (last (x # xs)) ys"
  by (induction xs arbitrary: x) auto

function pass :: "('a \<Rightarrow> 'a \<Rightarrow> bool) \<Rightarrow> 'a list \<Rightarrow> nat \<times> 'a list" where
  "pass lt [] = (0, [])"
| "pass lt (x # xs) =
     (case drop_run lt x xs of
        [] \<Rightarrow> (1, x # take_run lt x xs)
      | y # ys \<Rightarrow>
          (let r = pass lt (drop_run lt y ys)
           in (Suc (fst r), mrg lt (x # take_run lt x xs) (y # take_run lt y ys) @ snd r)))"
  by pat_completeness auto
termination
proof (relation "measure (\<lambda>(lt, xs). length xs)")
  fix lt :: "'a \<Rightarrow> 'a \<Rightarrow> bool" and x xs y ys
  assume "drop_run lt x xs = y # ys"
  then show "((lt, drop_run lt y ys), lt, x # xs) \<in> measure (\<lambda>(lt, xs). length xs)"
    using length_drop_run [of lt x xs] length_drop_run [of lt y ys] by simp
qed simp

fun nruns :: "('a \<Rightarrow> 'a \<Rightarrow> bool) \<Rightarrow> 'a list \<Rightarrow> nat" where
  "nruns lt [] = 0"
| "nruns lt [x] = 1"
| "nruns lt (x # y # ys) = (if lt y x then Suc (nruns lt (y # ys)) else nruns lt (y # ys))"

lemma nruns_drop_run: "nruns lt (x # xs) = Suc (nruns lt (drop_run lt x xs))"
  by (induction lt x xs rule: drop_run.induct) auto

lemma nruns_append: "nondec lt xs \<Longrightarrow> nruns lt (xs @ ys) \<le> Suc (nruns lt ys)"
proof (cases xs)
  case (Cons x xs')
  assume "nondec lt xs"
  with Cons have "nruns lt (xs @ ys) = Suc (nruns lt (drop_run lt (last (x # xs')) ys))"
    using drop_run_append [of lt x xs' ys] by (simp add: nruns_drop_run)
  also have "\<dots> \<le> Suc (nruns lt ys)"
    by (cases ys) (auto simp: nruns_drop_run)
  finally show ?thesis .
qed simp

lemma nruns_le_1: "nruns lt xs \<le> 1 \<longleftrightarrow> nondec lt xs"
proof (induction lt xs rule: nruns.induct)
  case (3 lt x y ys)
  then show ?case by (cases ys) (auto simp: nruns_drop_run)
qed auto

lemma hd_mrg:
  "as \<noteq> [] \<or> bs \<noteq> [] \<Longrightarrow>
   as \<noteq> [] \<and> hd (mrg lt as bs) = hd as \<or> bs \<noteq> [] \<and> hd (mrg lt as bs) = hd bs"
  by (cases "(lt, as, bs)" rule: mrg.cases) auto

lemma mrg_Nil2 [simp]: "mrg lt as [] = as"
  by (cases as) auto

lemma mset_mrg: "mset (mrg lt as bs) = mset as + mset bs"
  by (induction lt as bs rule: mrg.induct) auto

lemma set_mrg: "set (mrg lt as bs) = set as \<union> set bs"
  by (metis mset_mrg set_mset_mset set_mset_union)

lemma mrg_eq_Nil [simp]: "mrg lt as bs = [] \<longleftrightarrow> as = [] \<and> bs = []"
  by (metis mset_mrg mset_zero_iff union_eq_empty)

lemma length_mrg: "length (mrg lt as bs) = length as + length bs"
  by (metis mset_mrg size_mset size_union)

lemma nondec_mrg:
  assumes asym: "\<And>x y. lt x y \<Longrightarrow> \<not> lt y x"
  shows "nondec lt as \<Longrightarrow> nondec lt bs \<Longrightarrow> nondec lt (mrg lt as bs)"
  using asym
proof (induction lt as bs rule: mrg.induct)
  case (3 lt a as b bs)
  show ?case
  proof (cases "lt b a")
    case True
    then have "\<not> lt a b" using 3 by blast
    then show ?thesis
      using True 3 hd_mrg [of "a # as" bs lt] by (auto simp: successively_Cons)
  next
    case False
    then show ?thesis
      using 3 hd_mrg [of as "b # bs" lt] by (auto simp: successively_Cons)
  qed
qed auto

lemma pass_runs: "fst (pass lt xs) = (nruns lt xs + 1) div 2"
proof (induction lt xs rule: pass.induct)
  case (2 lt x xs)
  then show ?case
    by (cases "drop_run lt x xs") (simp_all add: nruns_drop_run Let_def)
qed auto

lemma mset_pass: "mset (snd (pass lt xs)) = mset xs"
proof (induction lt xs rule: pass.induct)
  case (2 lt x xs)
  show ?case
  proof (cases "drop_run lt x xs")
    case Nil
    then show ?thesis using run_split [of lt x xs] by simp
  next
    case (Cons y ys)
    have "mset (snd (pass lt (drop_run lt y ys))) = mset (drop_run lt y ys)"
      using 2 Cons by simp
    moreover have "mset xs = mset (take_run lt x xs) + mset (y # take_run lt y ys) + mset (drop_run lt y ys)"
      by (metis Cons append_Cons mset_append run_split union_assoc)
    ultimately show ?thesis
      using Cons by (simp add: mset_mrg Let_def)
  qed
qed auto

lemma pass_nruns:
  assumes "\<And>x y. lt x y \<Longrightarrow> \<not> lt y x"
  shows "nruns lt (snd (pass lt xs)) \<le> fst (pass lt xs)"
  using assms
proof (induction lt xs rule: pass.induct)
  case (2 lt x xs)
  show ?case
  proof (cases "drop_run lt x xs")
    case Nil
    then show ?thesis using nondec_run [of lt x xs] by (simp add: nruns_le_1 [of lt, simplified])
  next
    case (Cons y ys)
    have IH: "nruns lt (snd (pass lt (drop_run lt y ys))) \<le> fst (pass lt (drop_run lt y ys))"
      using 2 Cons by simp
    have "nondec lt (mrg lt (x # take_run lt x xs) (y # take_run lt y ys))"
      by (rule nondec_mrg [OF "2.prems" nondec_run nondec_run])
    from nruns_append [OF this] IH show ?thesis
      using Cons order_trans by (fastforce simp: Let_def simp del: mrg.simps nruns.simps)
  qed
qed auto

text \<open>Passes are repeated until one leaves a single run.\<close>

fun nmsort_fuel :: "nat \<Rightarrow> ('a \<Rightarrow> 'a \<Rightarrow> bool) \<Rightarrow> 'a list \<Rightarrow> 'a list" where
  "nmsort_fuel 0 lt xs = xs"
| "nmsort_fuel (Suc n) lt xs =
     (if fst (pass lt xs) > 1 then nmsort_fuel n lt (snd (pass lt xs)) else snd (pass lt xs))"

definition nmsort :: "('a \<Rightarrow> 'a \<Rightarrow> bool) \<Rightarrow> 'a list \<Rightarrow> 'a list" where
  "nmsort lt xs = nmsort_fuel (Suc (length xs)) lt xs"

lemma nruns_length: "nruns lt xs \<le> length xs"
  by (induction lt xs rule: nruns.induct) auto

lemma pass_decreases:
  assumes "\<And>x y. lt x y \<Longrightarrow> \<not> lt y x" and "fst (pass lt xs) > 1"
  shows "nruns lt (snd (pass lt xs)) < nruns lt xs"
  using pass_nruns [of lt xs, OF assms(1)] pass_runs [of lt xs] assms(2) by linarith

lemma mset_nmsort_fuel: "mset (nmsort_fuel n lt xs) = mset xs"
  by (induction n arbitrary: xs) (auto simp: mset_pass)

lemma nondec_nmsort_fuel:
  assumes "\<And>x y. lt x y \<Longrightarrow> \<not> lt y x"
  shows "nruns lt xs < n \<Longrightarrow> nondec lt (nmsort_fuel n lt xs)"
proof (induction n arbitrary: xs)
  case (Suc n)
  show ?case
  proof (cases "fst (pass lt xs) > 1")
    case True
    with Suc pass_decreases [OF assms True] show ?thesis by simp
  next
    case False
    with pass_nruns [of lt xs, OF assms] have "nruns lt (snd (pass lt xs)) \<le> 1" by simp
    then have "nondec lt (snd (pass lt xs))" by (simp only: nruns_le_1)
    with False show ?thesis by simp
  qed
qed simp

lemma mset_nmsort: "mset (nmsort lt xs) = mset xs"
  by (simp only: nmsort_def mset_nmsort_fuel)

lemma nondec_nmsort: "(\<And>x y. lt x y \<Longrightarrow> \<not> lt y x) \<Longrightarrow> nondec lt (nmsort lt xs)"
  unfolding nmsort_def by (rule nondec_nmsort_fuel) (use nruns_length [of lt xs] in auto)

subsection \<open>The sort on the heap\<close>

lemma at_eq_iff:
  assumes "is_list h l (as @ bs @ cs)"
  shows "at l (bs @ cs) = at l cs \<longleftrightarrow> bs = []"
proof (cases bs)
  case (Cons b bs')
  with assms have "b \<notin> insert (tail_of l) (set cs)"
    by (auto simp: is_list_def nodes_def)
  with Cons at_in [of l cs] show ?thesis by auto
qed simp

lemma is_sorted_loop_eq:
  "is_list h l (as @ a # bs @ cs) \<Longrightarrow> is_sorted_loop h lt a (at l cs) = Some (nondec lt (a # bs))"
proof (induction bs arbitrary: as a)
  case Nil
  then show ?case using list_next_eq [of h l as a cs] by (simp add: is_sorted_loop.simps)
next
  case (Cons b bs)
  have nx: "list_next h a = Some b" and pv: "list_prev h b = Some a" and ne: "b \<noteq> at l cs"
    using list_next_eq [of h l as a "b # bs @ cs"] list_prev_eq [of h l "as @ [a]" "b # bs @ cs"]
      at_eq_iff [of h l "as @ [a]" "b # bs" cs] Cons.prems by simp_all
  have "is_sorted_loop h lt b (at l cs) = Some (nondec lt (b # bs))"
    by (rule Cons.IH [of "as @ [a]"]) (use Cons.prems in simp)
  with nx pv ne show ?case by (subst is_sorted_loop.simps) auto
qed

lemma is_sorted_eq:
  assumes "is_list h l (as @ bs @ cs)"
  shows "is_sorted h lt (at l (bs @ cs)) (at l cs) = Some (nondec lt bs)"
  using at_eq_iff [OF assms] is_sorted_loop_eq [of h l as "hd bs" "tl bs" cs lt] assms
  by (cases bs) (auto simp: is_sorted_def)

lemma run_loop_eq:
  "is_list h l (as @ a # bs) \<Longrightarrow> run_loop h lt a (tail_of l) = Some (at l (drop_run lt a bs))"
proof (induction bs arbitrary: as a)
  case Nil
  then show ?case using list_next_eq [of h l as a "[]"] by (simp add: run_loop.simps)
next
  case (Cons b bs)
  have nx: "list_next h a = Some b" and pv: "list_prev h b = Some a" and ne: "b \<noteq> tail_of l"
    using list_next_eq [of h l as a "b # bs"] list_prev_eq [of h l "as @ [a]" "b # bs"]
      is_list_ends(7) [OF Cons.prems] Cons.prems by auto
  have "run_loop h lt b (tail_of l) = Some (at l (drop_run lt b bs))"
    by (rule Cons.IH [of "as @ [a]"]) (use Cons.prems in simp)
  with nx pv ne show ?case by (subst run_loop.simps) auto
qed

lemma find_end_of_run_eq:
  assumes "is_list h l (as @ a # bs)"
  shows "find_end_of_run h lt a (tail_of l) = Some (at l (drop_run lt a bs))"
  using run_loop_eq [OF assms] is_list_ends(2,5,7) [OF assms] by (auto simp: find_end_of_run_def)

lemma merge_loop_spec:
  assumes "is_list h l (pre @ as @ bs @ post)"
  shows "\<exists>h'. merge_loop h lt (at l (as @ bs @ post)) (at l (bs @ post)) (at l post) = Some h'
    \<and> is_list h' l (pre @ mrg lt as bs @ post) \<and> agree (set (nodes l (pre @ as @ bs @ post))) h h'"
  using assms
proof (induction lt as bs arbitrary: h pre rule: mrg.induct)
  case (1 lt bs)
  then show ?case by (auto simp: merge_loop.simps)
next
  case (2 lt a as)
  then show ?case by (auto simp: merge_loop.simps)
next
  case (3 lt a as b bs)
  have ne: "a \<noteq> b" "b \<noteq> at l post"
    using at_eq_iff [of h l "pre @ a # as" "b # bs" post] "3.prems" by (auto simp: is_list_def nodes_def)
  show ?case
  proof (cases "lt b a")
    case False
    have l1: "is_list h l ((pre @ [a]) @ as @ (b # bs) @ post)" using "3.prems" by simp
    have nx: "list_next h a = Some (at l (as @ (b # bs) @ post))"
      using list_next_eq [of h l pre a "as @ (b # bs) @ post"] "3.prems" by simp
    obtain h' where "merge_loop h lt (at l (as @ (b # bs) @ post)) (at l ((b # bs) @ post)) (at l post) = Some h'"
      "is_list h' l ((pre @ [a]) @ mrg lt as (b # bs) @ post)"
      "agree (set (nodes l ((pre @ [a]) @ as @ (b # bs) @ post))) h h'"
      using "3.IH"(1) [OF _ l1] False by blast
    with False ne nx show ?thesis by (subst merge_loop.simps) auto
  next
    case True
    have nx: "list_next h b = Some (at l (bs @ post))"
      using list_next_eq [of h l "pre @ a # as" b "bs @ post"] "3.prems" by simp
    have pv: "list_prev h (at l (bs @ post)) = Some b"
      using list_prev_eq [of h l "pre @ a # as @ [b]" "bs @ post"] "3.prems" by (simp add: before_def)
    obtain h1 where h1: "list_splice h a b (at l (bs @ post)) = Some h1"
      "is_list h1 l (pre @ [b] @ (a # as) @ bs @ post)"
      "agree (set (nodes l (pre @ (a # as) @ [b] @ bs @ post))) h h1"
      using list_splice_spec [of h l pre "a # as" "[b]" "bs @ post"] "3.prems" by auto
    have l1: "is_list h1 l ((pre @ [b]) @ (a # as) @ bs @ post)" using h1(2) by simp
    obtain h' where h': "merge_loop h1 lt (at l ((a # as) @ bs @ post)) (at l (bs @ post)) (at l post) = Some h'"
      "is_list h' l ((pre @ [b]) @ mrg lt (a # as) bs @ post)"
      "agree (set (nodes l ((pre @ [b]) @ (a # as) @ bs @ post))) h1 h'"
      using "3.IH"(2) [OF _ l1] True by blast
    have "merge_loop h lt a b (at l post) = Some h'"
      using True ne nx pv h1(1) h'(1) by (subst merge_loop.simps) simp
    moreover have "agree (set (nodes l (pre @ (a # as) @ (b # bs) @ post))) h h'"
      by (rule agree_mono [OF agree_trans [OF h1(3) h'(3)]]) (auto simp: nodes_def)
    ultimately show ?thesis using True h'(2) by auto
  qed
qed

lemma inplace_merge_spec:
  assumes "is_list h l (pre @ as @ bs @ post)" and "nondec lt as" and "nondec lt bs"
  obtains h' where
    "inplace_merge h lt (at l (as @ bs @ post)) (at l (bs @ post)) (at l post) = Some h'"
    "is_list h' l (pre @ mrg lt as bs @ post)" "agree (set (nodes l (pre @ as @ bs @ post))) h h'"
proof -
  have "is_sorted h lt (at l (as @ bs @ post)) (at l (bs @ post)) = Some True"
    "is_sorted h lt (at l (bs @ post)) (at l post) = Some True"
    using is_sorted_eq [of h l pre as "bs @ post"] is_sorted_eq [of h l "pre @ as" bs post] assms by simp_all
  moreover have "at l (as @ bs @ post) \<noteq> 0" "at l (bs @ post) \<noteq> 0" "at l post \<noteq> 0"
    using at_nonnull [of h l pre "as @ bs @ post"] at_nonnull [of h l "pre @ as" "bs @ post"]
      at_nonnull [of h l "pre @ as @ bs" post] assms(1) by simp_all
  ultimately show ?thesis
    using merge_loop_spec [OF assms(1), of lt] that by (auto simp: inplace_merge_def)
qed

lemma sort_pass_spec:
  assumes "is_list h l (pre @ xs)" and "cnt + length xs < 2 ^ 32"
  shows "\<exists>h'. sort_pass h lt (at l xs) (tail_of l) cnt = Some (h', cnt + fst (pass lt xs))
    \<and> is_list h' l (pre @ snd (pass lt xs)) \<and> agree (set (nodes l (pre @ xs))) h h'"
  using assms
proof (induction lt xs arbitrary: h pre cnt rule: pass.induct)
  case (1 lt)
  then show ?case by (auto simp: sort_pass.simps)
next
  case (2 lt x xs)
  have x: "x \<noteq> tail_of l" using is_list_ends(7) [OF "2.prems"(1)] by auto
  have r1: "find_end_of_run h lt x (tail_of l) = Some (at l (drop_run lt x xs))"
    by (rule find_end_of_run_eq [OF "2.prems"(1)])
  show ?case
  proof (cases "drop_run lt x xs")
    case Nil
    then show ?thesis
      using 2 x r1 run_split [of lt x xs] by (subst sort_pass.simps) (auto simp: u32_id)
  next
    case (Cons y ys)
    let ?r1 = "x # take_run lt x xs" and ?r2 = "y # take_run lt y ys" and ?post = "drop_run lt y ys"
    have xs: "x # xs = ?r1 @ ?r2 @ ?post"
      using run_split [of lt x xs] run_split [of lt y ys] Cons by simp
    have l1: "is_list h l ((pre @ ?r1) @ y # ys)"
      using "2.prems"(1) run_split [of lt x xs] Cons by simp
    have y: "y \<noteq> tail_of l" using is_list_ends(7) [OF l1] by auto
    have r2: "find_end_of_run h lt y (tail_of l) = Some (at l ?post)"
      by (rule find_end_of_run_eq [OF l1])
    obtain h1 where h1: "inplace_merge h lt x y (at l ?post) = Some h1"
      "is_list h1 l (pre @ mrg lt ?r1 ?r2 @ ?post)" "agree (set (nodes l (pre @ ?r1 @ ?r2 @ ?post))) h h1"
      using inplace_merge_spec [of h l pre ?r1 ?r2 ?post lt] nondec_run "2.prems"(1) xs
      by (metis append_Cons at_simps(2))
    have len: "cnt + 1 + length ?post < 2 ^ 32"
      using "2.prems"(2) arg_cong [OF xs, of length] by simp
    obtain h' where h': "sort_pass h1 lt (at l ?post) (tail_of l) (cnt + 1) = Some (h', cnt + 1 + fst (pass lt ?post))"
      "is_list h' l ((pre @ mrg lt ?r1 ?r2) @ snd (pass lt ?post))"
      "agree (set (nodes l ((pre @ mrg lt ?r1 ?r2) @ ?post))) h1 h'"
      using "2.IH" [OF Cons, of h1 "pre @ mrg lt ?r1 ?r2" "cnt + 1"] h1(2) len by auto
    have "sort_pass h lt x (tail_of l) cnt = Some (h', cnt + 1 + fst (pass lt ?post))"
      using x y r1 r2 h1(1) h'(1) "2.prems"(2) Cons by (subst sort_pass.simps) (simp add: u32_id)
    moreover have "agree (set (nodes l (pre @ x # xs))) h h'"
      by (rule agree_mono [OF agree_trans [OF h1(3) h'(3)]])
        (simp add: nodes_def xs set_mrg del: mrg.simps, blast)
    ultimately show ?thesis using h'(2) Cons by (auto simp: Let_def simp del: mrg.simps)
  qed
qed

lemma length_pass: "length (snd (pass lt xs)) = length xs"
  by (metis mset_pass size_mset)

lemma set_pass: "set (snd (pass lt xs)) = set xs"
  by (metis mset_pass set_mset_mset)

lemma sort_loop_spec:
  assumes "\<And>x y. lt x y \<Longrightarrow> \<not> lt y x" and "is_list h l xs" and "length xs < 2 ^ 32" and "nruns lt xs < n"
  shows "\<exists>h'. sort_loop h lt l = Some h' \<and> is_list h' l (nmsort_fuel n lt xs) \<and> agree (set (nodes l xs)) h h'"
  using assms(2-)
proof (induction n arbitrary: h xs)
  case (Suc n)
  obtain h1 where h1: "sort_pass h lt (at l xs) (tail_of l) 0 = Some (h1, fst (pass lt xs))"
    "is_list h1 l (snd (pass lt xs))" "agree (set (nodes l xs)) h h1"
    using sort_pass_spec [of h l "[]" xs 0 lt] Suc.prems by auto
  show ?case
  proof (cases "fst (pass lt xs) > 1")
    case True
    obtain h' where h': "sort_loop h1 lt l = Some h'" "is_list h' l (nmsort_fuel n lt (snd (pass lt xs)))"
      "agree (set (nodes l (snd (pass lt xs)))) h1 h'"
      using Suc.IH [OF h1(2)] pass_decreases [of lt xs, OF assms(1) True] Suc.prems by (auto simp: length_pass)
    have "sort_loop h lt l = Some h'"
      using True h1(1) h'(1) Suc.prems(1) by (subst sort_loop.simps) simp
    moreover have "agree (set (nodes l xs)) h h'"
      by (rule agree_mono [OF agree_trans [OF h1(3) h'(3)]]) (auto simp: nodes_def set_pass)
    ultimately show ?thesis using True h'(2) by auto
  next
    case False
    then have "sort_loop h lt l = Some h1"
      using h1(1) Suc.prems(1) by (subst sort_loop.simps) simp
    with False h1(2,3) show ?thesis by auto
  qed
qed simp

lemma list_sort_spec:
  assumes asym: "\<And>x y. lt x y \<Longrightarrow> \<not> lt y x" and l: "is_list h l xs" and "length xs < 2 ^ 32"
  obtains h' where "list_sort h l lt = Some h'" "is_list h' l (nmsort lt xs)" "agree (set (nodes l xs)) h h'"
proof -
  obtain h' where h': "sort_loop h lt l = Some h'" "is_list h' l (nmsort lt xs)" "agree (set (nodes l xs)) h h'"
    using sort_loop_spec [of lt h l xs "Suc (length xs)", OF asym] assms nruns_length [of lt xs]
    by (auto simp: nmsort_def simp del: nmsort_fuel.simps)
  have "is_sorted h' lt (at l (nmsort lt xs)) (tail_of l) = Some True"
    using is_sorted_eq [of h' l "[]" "nmsort lt xs" "[]" lt] h'(2) nondec_nmsort [of lt xs, OF asym] by simp
  then have "list_sort h l lt = Some h'"
    using h' is_list_ends(1) [OF l] by (simp add: list_sort_def)
  with h' that show ?thesis by blast
qed

subsection \<open>Comparison functions\<close>

text \<open>
  What \<open>list.h\<close> asks of a \<open>list_less_func\<close>: a strict weak order.  Under it the merge sort is
  the stable sort, and ordered insertion keeps a sorted list sorted.
\<close>

locale less_func =
  fixes lt :: "'a \<Rightarrow> 'a \<Rightarrow> bool"
  assumes asym: "lt x y \<Longrightarrow> \<not> lt y x"
    and negtrans: "lt x z \<Longrightarrow> lt x y \<or> lt y z"
begin

lemma transp_le: "transp (\<lambda>x y. \<not> lt y x)"
  by (rule transpI) (use negtrans in blast)

lemma nondec_sorted_wrt: "nondec lt xs = sorted_wrt (\<lambda>x y. \<not> lt y x) xs"
  by (rule successively_conv_sorted_wrt [OF transp_le])

lemma sorted_nmsort: "sorted_wrt (\<lambda>x y. \<not> lt y x) (nmsort lt xs)"
  using nondec_nmsort [of lt xs] asym nondec_sorted_wrt by blast

lemma sorted_insort_lt:
  assumes "sorted_wrt (\<lambda>x y. \<not> lt y x) xs"
  shows "sorted_wrt (\<lambda>x y. \<not> lt y x) (insort_lt lt e xs)"
  using assms
proof (induction xs)
  case Nil
  then show ?case by (simp add: insort_lt_def)
next
  case (Cons x xs)
  show ?case
  proof (cases "lt e x")
    case True
    then have "\<not> lt y e" if "y \<in> set (x # xs)" for y
      using that Cons.prems asym [of e x] negtrans [of y e x] by auto
    with True Cons.prems show ?thesis by (simp add: insort_lt_def)
  next
    case False
    with Cons show ?thesis
      by (auto simp: insort_lt_def dest: set_takeWhileD set_dropWhileD)
  qed
qed

end

subsection \<open>Stability\<close>

abbreviation lt_equiv :: "('a \<Rightarrow> 'a \<Rightarrow> bool) \<Rightarrow> 'a \<Rightarrow> 'a \<Rightarrow> bool" where
  "lt_equiv lt x y \<equiv> \<not> lt x y \<and> \<not> lt y x"

lemma filter_mrg:
  assumes "less_func lt" and "sorted_wrt (\<lambda>x y. \<not> lt y x) as"
  shows "filter (lt_equiv lt k) (mrg lt as bs) = filter (lt_equiv lt k) as @ filter (lt_equiv lt k) bs"
  using assms
proof (induction lt as bs rule: mrg.induct)
  case (3 lt a as b bs)
  show ?case
  proof (cases "lt b a")
    case True
    have "filter (lt_equiv lt k) (a # as) = []" if "lt_equiv lt k b"
    proof -
      have "lt b x" if "x \<in> set (a # as)" for x
        using that True "3.prems" less_func.negtrans [of lt b a x] by auto
      with \<open>lt_equiv lt k b\<close> have "\<not> lt_equiv lt k x" if "x \<in> set (a # as)" for x
        using that less_func.negtrans [OF "3.prems"(1), of b x k] by blast
      then show ?thesis by (simp only: filter_empty_conv) blast
    qed
    with True 3 show ?thesis by auto
  next
    case False
    with 3 show ?thesis by auto
  qed
qed auto

lemma filter_pass:
  assumes "less_func lt"
  shows "filter (lt_equiv lt k) (snd (pass lt xs)) = filter (lt_equiv lt k) xs"
  using assms
proof (induction lt xs rule: pass.induct)
  case (2 lt x xs)
  show ?case
  proof (cases "drop_run lt x xs")
    case Nil
    then show ?thesis using run_split [of lt x xs] by simp
  next
    case (Cons y ys)
    let ?r1 = "x # take_run lt x xs" and ?r2 = "y # take_run lt y ys" and ?post = "drop_run lt y ys"
    have xs: "x # xs = ?r1 @ ?r2 @ ?post"
      using run_split [of lt x xs] run_split [of lt y ys] Cons by simp
    have "sorted_wrt (\<lambda>x y. \<not> lt y x) ?r1"
      using nondec_run [of lt x xs] unfolding less_func.nondec_sorted_wrt [OF "2.prems"] .
    then have "filter (lt_equiv lt k) (mrg lt ?r1 ?r2) = filter (lt_equiv lt k) (?r1 @ ?r2)"
      by (simp only: filter_mrg [OF "2.prems"] filter_append)
    then have "filter (lt_equiv lt k) (snd (pass lt (x # xs))) = filter (lt_equiv lt k) (?r1 @ ?r2 @ ?post)"
      using "2.IH" [OF Cons "2.prems"] Cons by (simp only: pass.simps list.case Let_def snd_conv filter_append) simp
    then show ?thesis unfolding xs .
  qed
qed auto

lemma filter_nmsort_fuel:
  "less_func lt \<Longrightarrow> filter (lt_equiv lt k) (nmsort_fuel n lt xs) = filter (lt_equiv lt k) xs"
  by (induction n arbitrary: xs) (simp_all add: filter_pass)

context less_func
begin

lemma nmsort_stable: "filter (lt_equiv lt k) (nmsort lt xs) = filter (lt_equiv lt k) xs"
  unfolding nmsort_def by (rule filter_nmsort_fuel) unfold_locales

end

text \<open>A comparison function that compares a key sorts like the library's stable \<open>sort_key\<close>.\<close>

locale key_less_func =
  fixes lt :: "'a \<Rightarrow> 'a \<Rightarrow> bool" and f :: "'a \<Rightarrow> 'k :: linorder"
  assumes lt_key: "lt x y \<longleftrightarrow> f x < f y"
begin

sublocale less_func lt
  by unfold_locales (auto simp: lt_key)

lemma nmsort_sort_key: "nmsort lt xs = sort_key f xs"
proof (rule properties_for_sort_key [symmetric])
  show "mset (nmsort lt xs) = mset xs" by (rule mset_nmsort)
  have "lt_equiv lt k = (\<lambda>x. f k = f x)" for k
    by (auto simp: lt_key fun_eq_iff)
  then show "filter (\<lambda>x. f k = f x) (nmsort lt xs) = filter (\<lambda>x. f k = f x) xs" for k
    using nmsort_stable [of k xs] by simp
  show "sorted (map f (nmsort lt xs))"
    using sorted_nmsort [of xs] by (simp add: lt_key sorted_map not_less)
qed

lemma insort_lt_sorted:
  assumes "sorted (map f xs)"
  shows "sorted (map f (insort_lt lt e xs))"
  using sorted_insort_lt [of xs e] assms by (simp add: lt_key sorted_map not_less)

end


subsection \<open>Correctness of the sort\<close>

text \<open>
  C7: for every comparison function that is a strict weak order, \<open>list_sort\<close> returns (none of
  its assertions fails and its loops end); the list then holds a permutation of its elements in
  nondecreasing order, elements that compare equal keep their order, and no link outside the
  list has changed.
\<close>

theorem list_sort_correct:
  assumes "less_func lt" and "is_list h l xs" and "length xs < 2 ^ 32"
  shows "\<exists>h' ys. list_sort h l lt = Some h' \<and> is_list h' l ys \<and> mset ys = mset xs
    \<and> sorted_wrt (\<lambda>x y. \<not> lt y x) ys \<and> (\<forall>k. filter (lt_equiv lt k) ys = filter (lt_equiv lt k) xs)
    \<and> agree (set (nodes l xs)) h h'"
proof -
  obtain h' where "list_sort h l lt = Some h'" "is_list h' l (nmsort lt xs)" "agree (set (nodes l xs)) h h'"
    using list_sort_spec [of lt, OF less_func.asym [OF assms(1)] assms(2,3)] by blast
  then show ?thesis
    using mset_nmsort less_func.sorted_nmsort [OF assms(1)] less_func.nmsort_stable [OF assms(1)] by blast
qed

lemma less_func_by_key: "less_func (\<lambda>x y. (f x :: 'k :: linorder) < f y)"
  by unfold_locales auto

theorem list_sort_correct_witness:
  "less_func (\<lambda>x y. x div 200 < y div (200 :: nat)) \<and> is_list demo_heap 100 [200, 300, 400] \<and>
   length [200, 300, 400 :: nat] < 2 ^ 32 \<and>
   (\<exists>h' ys. list_sort demo_heap 100 (\<lambda>x y. x div 200 < y div 200) = Some h' \<and> is_list h' 100 ys
     \<and> mset ys = mset [200, 300, 400] \<and> sorted_wrt (\<lambda>x y. \<not> y div 200 < x div 200) ys
     \<and> (\<forall>k. filter (lt_equiv (\<lambda>x y. x div 200 < y div 200) k) ys
           = filter (lt_equiv (\<lambda>x y. x div 200 < y div 200) k) [200, 300, 400])
     \<and> agree (set (nodes 100 [200, 300, 400])) demo_heap h')"
proof -
  have 1: "less_func (\<lambda>x y. x div 200 < y div (200 :: nat))"
    by (rule less_func_by_key)
  have 2: "length [200, 300, 400 :: nat] < 2 ^ 32" by simp
  show ?thesis using list_sort_correct [OF 1 demo_is_list 2] 1 2 demo_is_list by blast
qed

end
