(* ===== verification/Fixed_Point.thy ===== *)
theory Fixed_Point
  imports Prelude
begin

text \<open>
  \<open>threads/fixedpoint.h\<close>: 17.14 fixed-point numbers in a C \<open>int\<close>.  Every operation is written
  with the wrap-around of the machine (\<^const>\<open>i32\<close>, and \<^const>\<open>i64\<close> for the casts to
  \<open>int64_t\<close>); a division whose divisor can be zero returns an option (the \<open>idiv\<close> trap, which
  \<open>idiv\<close> also raises for \<open>INT_MIN / -1\<close>).
\<close>

type_synonym fp = int

subsection \<open>The operations\<close>

definition FP_F :: int where
  "FP_F = 2 ^ 14"

definition int_to_fp :: "int \<Rightarrow> fp" where
  "int_to_fp n = i32 (n * FP_F)"

definition fp_to_int :: "fp \<Rightarrow> int" where
  "fp_to_int x = x sdiv FP_F"

definition fp_to_int_round :: "fp \<Rightarrow> int" where
  "fp_to_int_round x =
     (if x \<ge> 0 then i32 (x + FP_F sdiv 2) sdiv FP_F
      else i32 (x - FP_F sdiv 2) sdiv FP_F)"

definition add_fp :: "fp \<Rightarrow> fp \<Rightarrow> fp" where
  "add_fp x y = i32 (x + y)"

definition add_int :: "fp \<Rightarrow> int \<Rightarrow> fp" where
  "add_int x n = i32 (x + i32 (n * FP_F))"

definition sub_fp :: "fp \<Rightarrow> fp \<Rightarrow> fp" where
  "sub_fp x y = i32 (x - y)"

definition sub_int :: "fp \<Rightarrow> int \<Rightarrow> fp" where
  "sub_int x n = i32 (x - i32 (n * FP_F))"

definition mult_fp :: "fp \<Rightarrow> fp \<Rightarrow> fp" where
  "mult_fp x y = i32 (i64 (x * y) sdiv FP_F)"

definition mult_int :: "fp \<Rightarrow> int \<Rightarrow> fp" where
  "mult_int x n = i32 (x * n)"

definition div_fp :: "fp \<Rightarrow> fp \<Rightarrow> fp option" where
  "div_fp x y = (if y = 0 then None else Some (i32 (i64 (x * FP_F) sdiv y)))"

definition div_int :: "fp \<Rightarrow> int \<Rightarrow> fp option" where
  "div_int x n =
     (if n = 0 \<or> (x = - (2 ^ 31) \<and> n = -1) then None else Some (x sdiv n))"

lemmas fp_defs = int_to_fp_def fp_to_int_def fp_to_int_round_def add_fp_def add_int_def
  sub_fp_def sub_int_def mult_fp_def mult_int_def div_fp_def div_int_def FP_F_def

subsection \<open>Ranges\<close>

lemma int_to_fp_range: "is_i32 (int_to_fp n)"
  and add_fp_range: "is_i32 (add_fp x y)"
  and add_int_range: "is_i32 (add_int x n)"
  and sub_fp_range: "is_i32 (sub_fp x y)"
  and sub_int_range: "is_i32 (sub_int x n)"
  and mult_fp_range: "is_i32 (mult_fp x y)"
  and mult_int_range: "is_i32 (mult_int x n)"
  by (simp_all only: fp_defs i32_range)

lemma div_int_pos: "0 < n \<Longrightarrow> div_int x n = Some (x sdiv n)"
  by (simp add: div_int_def)

lemma int_to_fp_exact: "\<bar>n\<bar> < 2 ^ 17 \<Longrightarrow> int_to_fp n = n * 2 ^ 14"
  by (simp add: int_to_fp_def FP_F_def i32_id abs_less_iff)

lemma fp_to_int_round_range: "is_i32 (fp_to_int_round x)"
  using sdiv_i32 [OF i32_range] by (simp add: fp_to_int_round_def FP_F_def)

text \<open>Away from the last half unit of the range, rounding does not wrap.\<close>

lemma fp_to_int_round_nonneg:
  "0 \<le> x \<Longrightarrow> x < 2 ^ 31 - 2 ^ 13 \<Longrightarrow> fp_to_int_round x = (x + 2 ^ 13) div 2 ^ 14"
  by (simp add: fp_to_int_round_def FP_F_def sdiv_nonneg i32_id)

lemma fp_to_int_round_neg:
  "x < 0 \<Longrightarrow> - (2 ^ 31) + 2 ^ 13 \<le> x \<Longrightarrow> fp_to_int_round x = - ((2 ^ 13 - x) div 2 ^ 14)"
  by (simp add: fp_to_int_round_def FP_F_def sdiv_nonneg sdiv_neg i32_id algebra_simps)

subsection \<open>Correctness of the conversions and operations\<close>

text \<open>
  \<open>fp_to_int_round\<close> returns a nearest integer: within half a unit of the fixed-point
  argument, for every argument whose rounding does not leave the range of \<open>int\<close>.
\<close>

theorem fp_round_nearest:
  assumes "\<bar>x\<bar> < 2 ^ 31 - 2 ^ 13"
  shows "2 * \<bar>fp_to_int_round x * 2 ^ 14 - x\<bar> \<le> 2 ^ 14"
proof (cases "0 \<le> x")
  case True
  define q where "q = (x + 2 ^ 13) div 2 ^ 14"
  have "fp_to_int_round x = q"
    using True assms by (simp add: fp_to_int_round_nonneg q_def)
  moreover have "q * 2 ^ 14 \<le> x + 2 ^ 13" and "x + 2 ^ 13 < q * 2 ^ 14 + 2 ^ 14"
    unfolding q_def by (rule zdiv_brackets, simp)+
  ultimately show ?thesis by simp
next
  case False
  define q where "q = (2 ^ 13 - x) div 2 ^ 14"
  have "fp_to_int_round x = - q"
    using False assms by (simp add: fp_to_int_round_neg q_def)
  moreover have "q * 2 ^ 14 \<le> 2 ^ 13 - x" and "2 ^ 13 - x < q * 2 ^ 14 + 2 ^ 14"
    unfolding q_def by (rule zdiv_brackets, simp)+
  ultimately show ?thesis by simp
qed

theorem fp_round_nearest_witness:
  "\<bar>(- 40961 :: int)\<bar> < 2 ^ 31 - 2 ^ 13 \<and> fp_to_int_round (- 40961) = - 3
   \<and> 2 * \<bar>fp_to_int_round (- 40961) * 2 ^ 14 - (- 40961)\<bar> \<le> 2 ^ 14"
proof -
  have "fp_to_int_round (- 40961) = - 3"
    by (simp add: fp_to_int_round_neg)
  then show ?thesis using fp_round_nearest [of "- 40961"] by simp
qed

text \<open>
  an integer that fits in the 17 integer bits survives the round trip through fixed point,
  both with the truncating and with the rounding conversion back.
\<close>

theorem fp_int_roundtrip:
  assumes "\<bar>n\<bar> < 2 ^ 17"
  shows "fp_to_int (int_to_fp n) = n \<and> fp_to_int_round (int_to_fp n) = n"
proof -
  have e: "int_to_fp n = n * 2 ^ 14"
    by (rule int_to_fp_exact [OF assms])
  have t: "fp_to_int (int_to_fp n) = n"
    unfolding e by (simp add: fp_to_int_def FP_F_def sdiv_mult_self [of "2 ^ 14" n, simplified])
  have "fp_to_int_round (int_to_fp n) = n"
  proof (cases "0 \<le> n")
    case True
    with assms have "n * 2 ^ 14 < 2 ^ 31 - 2 ^ 13" by simp
    with True show ?thesis unfolding e by (subst fp_to_int_round_nonneg) simp_all
  next
    case False
    with assms have "- (2 ^ 31) + 2 ^ 13 \<le> n * 2 ^ 14" by simp
    moreover from False have "n * 2 ^ 14 < 0" by simp
    ultimately have "fp_to_int_round (n * 2 ^ 14) = - ((2 ^ 13 - n * 2 ^ 14) div 2 ^ 14)"
      by (intro fp_to_int_round_neg)
    also have "\<dots> = n"
      using div_mult_self1 [of "2 ^ 14" "2 ^ 13" "- n"] by (simp add: algebra_simps)
    finally show ?thesis unfolding e .
  qed
  with t show ?thesis ..
qed

theorem fp_int_roundtrip_witness:
  "\<bar>(- 63 :: int)\<bar> < 2 ^ 17 \<and> fp_to_int (int_to_fp (- 63)) = - 63
   \<and> fp_to_int_round (int_to_fp (- 63)) = - 63"
  using fp_int_roundtrip [of "- 63"] by simp

text \<open>
  dividing and multiplying back loses less than the divisor's magnitude, in units of the
  last place: \<open>div_fp\<close> is the exact quotient truncated toward zero, for operands whose
  quotient fits.
\<close>

theorem div_fp_quotient:
  assumes "is_i32 x" and "0 < y" and "\<bar>x\<bar> * 2 ^ 14 < 2 ^ 31 * y"
  shows "\<exists>q. div_fp x y = Some q \<and> \<bar>x * 2 ^ 14 - q * y\<bar> < y"
proof -
  have r: "is_i64 (x * 2 ^ 14)" using assms(1) by simp
  have b: "\<bar>x * 2 ^ 14 - ((x * 2 ^ 14) sdiv y) * y\<bar> < y"
    by (rule sdiv_bounds [OF assms(2)])
  have "is_i32 ((x * 2 ^ 14) sdiv y)"
  proof (cases "0 \<le> x")
    case True
    then have "(x * 2 ^ 14) div y < 2 ^ 31" and "0 \<le> (x * 2 ^ 14) div y"
      using assms by (simp_all add: pos_imp_zdiv_nonneg_iff zdiv_less)
    with True assms(2) show ?thesis by (simp add: sdiv_nonneg)
  next
    case False
    then have "(- (x * 2 ^ 14)) div y < 2 ^ 31" and "0 \<le> (- (x * 2 ^ 14)) div y"
      using assms by (simp_all add: pos_imp_zdiv_nonneg_iff zdiv_less)
    with False assms(2) show ?thesis by (simp add: sdiv_neg)
  qed
  then have "div_fp x y = Some ((x * 2 ^ 14) sdiv y)"
    using assms(2) r by (simp add: div_fp_def FP_F_def i64_id i32_id)
  with b show ?thesis by blast
qed

theorem div_fp_quotient_witness:
  "is_i32 (16384 :: int) \<and> (0 :: int) < 49152 \<and> \<bar>(16384 :: int)\<bar> * 2 ^ 14 < 2 ^ 31 * 49152 \<and>
   (\<exists>q. div_fp 16384 49152 = Some q \<and> \<bar>16384 * 2 ^ 14 - q * 49152\<bar> < (49152 :: int))"
  using div_fp_quotient [of 16384 49152] by simp

end
