(* ===== verification/Kernel_State.thy ===== *)
theory Kernel_State
  imports List_Sort Fixed_Point
begin

text \<open>
  The state shared by the scheduler (\<open>threads/thread.c\<close>), the synchronization primitives
  (\<open>threads/synch.c\<close>), the timer (\<open>devices/timer.c\<close>) and the interrupt controller code
  (\<open>threads/interrupt.c\<close>), in the configuration without user programs and file system.

  \<^item> A \<open>struct thread\<close> is a record \<open>thread\<close>, addressed by its page.  All of physical memory is mapped
    in the kernel, so \<open>threads\<close> is a total function; whether a page holds a thread is what
    \<open>is_thread\<close> tests.
  \<^item> The lists \<open>ready_list\<close>, \<open>all_list\<close>, \<open>all_all_list\<close>, \<open>wait_list\<close> and the \<open>waiters\<close> of semaphores and
    condition variables are HOL lists of threads.  \<open>Kernel_List\<close> and \<open>List_Sort\<close> show that the
    operations of \<open>list.c\<close> implement the list functions used here as long as no element
    is on two lists through the same \<open>list_elem\<close>; that no thread ever is, is an invariant proved
    of this model.
  \<^item> The kernel stack of a thread is the list \<open>ops\<close> of what it still has to execute, the innermost
    call first.  An operation that calls another one pushes the call and the rest of
    its own body, so that a timer interrupt can come between any two of them when
    interrupts are on.
  \<^item> The page allocator is seen through the list of its free pages, lowest address first, since
    \<open>palloc_get_page\<close> takes the first free bit of the pool's bitmap.
\<close>

section \<open>Data\<close>

datatype thread_status = THREAD_RUNNING | THREAD_READY | THREAD_BLOCKED | THREAD_DYING

datatype intr_level = INTR_OFF | INTR_ON

text \<open>
  The semaphores of the system: those the threads create, the \<open>timer_sema\<close> of a thread, the
  semaphore inside a lock, the \<open>waiter.semaphore\<close> in the stack frame of a thread's call of
  \<open>cond_wait\<close>, and \<open>idle_started\<close> in the stack frame of \<open>thread_start\<close>.
\<close>

datatype sema_ref = Sema nat | Timer_sema addr | Lock_sema nat | Waiter_sema addr | Idle_started addr

text \<open>The body of a thread: \<open>idle\<close> with its argument, or any other function.\<close>

datatype thread_fn = Fn_idle sema_ref | Fn_user

text \<open>
  What a kernel stack can have pending.  The first group are calls; the second group are
  the remainders of a body, named after the function they belong to.
\<close>

datatype kop =
    Thread_start
  | Thread_create string int thread_fn
  | Thread_block
  | Thread_unblock addr
  | Thread_yield
  | Thread_exit
  | Thread_set_priority int
  | Thread_set_nice int
  | Set_bound bool
  | Intr_set_level intr_level
  | Sema_init sema_ref nat
  | Sema_down sema_ref
  | Sema_try_down sema_ref
  | Sema_up sema_ref
  | Lock_acquire nat
  | Lock_try_acquire nat
  | Lock_release nat
  | Cond_wait nat nat
  | Cond_signal nat nat
  | Cond_broadcast nat nat
  | Timer_sleep int
  | Allocate_tid
  | Run_function                       \<comment> \<open>inside \<open>function (aux)\<close>\<close>
  | Kernel_thread thread_fn            \<comment> \<open>first run: \<open>switch_entry\<close> returns to \<open>kernel_thread\<close>\<close>
  | Idle_body sema_ref                 \<comment> \<open>\<open>idle\<close> before its loop\<close>
  | Idle_loop
  | Sti_hlt
  | Schedule_rest addr                 \<comment> \<open>\<open>schedule\<close> after \<open>thread_schedule_tail\<close>, with its \<open>next\<close>\<close>
  | Not_reached
  | Interrupt_return                   \<comment> \<open>\<open>intr_exit\<close>: \<open>iret\<close> restores the interrupt flag\<close>
  | Tid_load                           \<comment> \<open>\<open>tid = next_tid\<close>\<close>
  | Tid_store                          \<comment> \<open>\<open>next_tid = tid + 1\<close>\<close>
  | Set_tid addr
  | Create_rest addr thread_fn
  | Sema_down_loop sema_ref intr_level
  | Set_holder nat
  | Return int
  | Sleep_insert                       \<comment> \<open>\<open>timer_sleep\<close> from \<open>list_insert_ordered\<close> on\<close>
  | Sleep_link                         \<comment> \<open>\<open>timer_sleep\<close> inside \<open>list_insert_ordered\<close>\<close>

record thread =
  tid :: int
  status :: thread_status
  name :: string
  stack :: nat
  recent_wait :: int
  total_wait :: int
  repeat :: int
  prio :: "int list"
  pos :: int
  iobound :: bool
  ticks :: int
  curr_exec :: int
  total_exec :: int
  priority :: int
  nice :: int
  recent_cpu :: int
  wakeup_time :: int
  magic :: int
  ops :: "kop list"
  retval :: int

record semaphore =
  sema_value :: nat
  waiters :: "addr list"

text \<open>
  The global variables.  \<open>cur\<close> stands for the stack pointer: it is the page that \<open>running_thread\<close>
  computes from it.  \<open>os_ticks\<close> is the \<open>ticks\<close> of \<open>timer.c\<close>, \<open>holder\<close> the \<open>holder\<close> member of the locks,
  and a condition variable lists the threads whose frame holds the \<open>waiter\<close>.  \<open>inserting\<close> is not a variable of the
  program: it is the thread inside \<open>list_insert_ordered (&wait_list, ...)\<close>, if there is one.
\<close>

record kernel =
  threads :: "addr \<Rightarrow> thread"
  cur :: addr
  ready_list :: "addr list"
  all_list :: "addr list"
  all_all_list :: "addr list"
  wait_list :: "addr list"
  idle_thread :: addr
  initial_thread :: addr
  idle_ticks :: int
  kernel_ticks :: int
  thread_ticks :: nat
  thread_mlfqs :: bool
  roundrobin :: bool
  fcfs :: bool
  sjf :: bool
  threads_print :: bool
  total_ready_threads :: int
  total_wait_time :: int
  load_avg :: int
  next_tid :: int
  os_ticks :: int
  intr :: intr_level
  in_external_intr :: bool
  yield_on_return :: bool
  semas :: "sema_ref \<Rightarrow> semaphore"
  holder :: "nat \<Rightarrow> addr"
  conds :: "nat \<Rightarrow> addr list"
  free_pages :: "addr list"
  inserting :: addr

definition THREAD_MAGIC :: int where "THREAD_MAGIC = 0xcd6abf4b"
definition QUANTUM :: nat where "QUANTUM = 7"
definition TIMER_FREQ :: int where "TIMER_FREQ = 100"
definition PRI_MIN :: int where "PRI_MIN = 0"
definition PRI_DEFAULT :: int where "PRI_DEFAULT = 31"
definition PRI_MAX :: int where "PRI_MAX = 63"
definition TID_ERROR :: int where "TID_ERROR = -1"

text \<open>The lock that protects \<open>next_tid\<close>; the other locks are the threads' own.\<close>

definition tid_lock :: nat where "tid_lock = 0"

lemmas kernel_consts = THREAD_MAGIC_def QUANTUM_def TIMER_FREQ_def PRI_MIN_def PRI_DEFAULT_def
  PRI_MAX_def TID_ERROR_def PGSIZE_def

section \<open>Access\<close>

definition upd :: "addr \<Rightarrow> (thread \<Rightarrow> thread) \<Rightarrow> kernel \<Rightarrow> kernel" where
  "upd t f k = k\<lparr>threads := (threads k)(t := f (threads k t))\<rparr>"

definition upd_sema :: "sema_ref \<Rightarrow> (semaphore \<Rightarrow> semaphore) \<Rightarrow> kernel \<Rightarrow> kernel" where
  "upd_sema s f k = k\<lparr>semas := (semas k)(s := f (semas k s))\<rparr>"

definition push_ops :: "addr \<Rightarrow> kop list \<Rightarrow> kernel \<Rightarrow> kernel" where
  "push_ops t xs = upd t (\<lambda>th. th\<lparr>ops := xs @ ops th\<rparr>)"

definition set_retval :: "int \<Rightarrow> kernel \<Rightarrow> kernel" where
  "set_retval v k = upd (cur k) (\<lambda>th. th\<lparr>retval := v\<rparr>) k"

section \<open>Interrupt level (\<open>threads/interrupt.c\<close>)\<close>

definition intr_get_level :: "kernel \<Rightarrow> intr_level" where
  "intr_get_level k = intr k"

definition intr_context :: "kernel \<Rightarrow> bool" where
  "intr_context k = in_external_intr k"

definition intr_disable :: "kernel \<Rightarrow> kernel" where
  "intr_disable k = k\<lparr>intr := INTR_OFF\<rparr>"

definition intr_enable :: "kernel \<Rightarrow> kernel option" where
  "intr_enable k = do { ASSERT (\<not> intr_context k); Some (k\<lparr>intr := INTR_ON\<rparr>) }"

definition intr_set_level :: "intr_level \<Rightarrow> kernel \<Rightarrow> kernel option" where
  "intr_set_level level k = (if level = INTR_ON then intr_enable k else Some (intr_disable k))"

definition intr_yield_on_return :: "kernel \<Rightarrow> kernel option" where
  "intr_yield_on_return k = do { ASSERT (intr_context k); Some (k\<lparr>yield_on_return := True\<rparr>) }"

section \<open>Pages, as the thread system uses them\<close>

text \<open>
  \<open>palloc_get_page\<close> returns the free page of lowest address, or \<open>NULL\<close>; \<open>palloc_free_page\<close> fills the page
  with \<open>0xcc\<close> and puts it back.  Of that filling only the effect on \<open>magic\<close> can be seen, since a
  page is not used again as a thread before \<open>init_thread\<close> has cleared it.
\<close>

definition palloc_get_page :: "kernel \<Rightarrow> addr \<times> kernel" where
  "palloc_get_page k = (case free_pages k of
     [] \<Rightarrow> (NULL, k)
   | p # ps \<Rightarrow> (p, k\<lparr>free_pages := ps\<rparr>))"

definition palloc_free_page :: "addr \<Rightarrow> kernel \<Rightarrow> kernel" where
  "palloc_free_page p k =
     (upd p (\<lambda>th. th\<lparr>magic := 0xcccccccc, ops := []\<rparr>) k)\<lparr>free_pages := insort p (free_pages k)\<rparr>"

end
