(* ===== verification/Thread.thy ===== *)
theory Thread
  imports Kernel_State
begin

text \<open>
  \<open>threads/thread.c\<close>: the queues, the scheduling statistics of the four algorithms, thread creation,
  blocking, yielding, exit and the context switch.  Console output is left out.

  An operation is a function from the kernel state to an optional kernel state.  Where
  the C function calls another one that can sleep, or goes on after a context switch, the
  rest of its body is pushed on the kernel stack \<open>ops\<close> of the running thread.

  Two simplifications of the interleaving: the \<open>printf\<close> of \<open>thread_exit\<close> (line 411) takes the console lock, and is taken to find
  it free; and \<open>init_thread\<close>, which appends to \<open>all_list\<close> (line 621) while interrupts may be on, is one step.
\<close>

section \<open>The running thread\<close>

definition running_thread :: "kernel \<Rightarrow> addr" where
  "running_thread k = cur k"

definition is_thread :: "kernel \<Rightarrow> addr \<Rightarrow> bool" where
  "is_thread k t = (t \<noteq> NULL \<and> magic (threads k t) = THREAD_MAGIC)"

definition thread_current :: "kernel \<Rightarrow> addr option" where
  "thread_current k = do {
     let t = running_thread k;
     ASSERT (is_thread k t);
     ASSERT (status (threads k t) = THREAD_RUNNING);
     Some t }"

definition thread_name :: "kernel \<Rightarrow> string option" where
  "thread_name k = map_option (\<lambda>t. name (threads k t)) (thread_current k)"

definition thread_tid :: "kernel \<Rightarrow> int option" where
  "thread_tid k = map_option (\<lambda>t. tid (threads k t)) (thread_current k)"

definition timer_ticks :: "kernel \<Rightarrow> int" where
  "timer_ticks k = os_ticks k"

section \<open>Comparison functions\<close>

definition wakeup_cmp :: "kernel \<Rightarrow> addr \<Rightarrow> addr \<Rightarrow> bool" where
  "wakeup_cmp k left right = (wakeup_time (threads k left) < wakeup_time (threads k right))"

definition priority_cmp :: "kernel \<Rightarrow> addr \<Rightarrow> addr \<Rightarrow> bool" where
  "priority_cmp k left right = (priority (threads k left) > priority (threads k right))"

definition duration_cmp :: "kernel \<Rightarrow> addr \<Rightarrow> addr \<Rightarrow> bool" where
  "duration_cmp k left right = (total_exec (threads k left) < total_exec (threads k right))"

text \<open>
  Each of them compares a key of the thread, so that sorting with them (\<open>list_sort\<close>,
  \<open>list_insert_ordered\<close>) is sorting by that key.
\<close>

interpretation wakeup: key_less_func "wakeup_cmp k" "\<lambda>t. wakeup_time (threads k t)" for k
  by unfold_locales (simp add: wakeup_cmp_def)

interpretation by_priority: key_less_func "priority_cmp k" "\<lambda>t. - priority (threads k t)" for k
  by unfold_locales (simp add: priority_cmp_def)

interpretation by_duration: key_less_func "duration_cmp k" "\<lambda>t. total_exec (threads k t)" for k
  by unfold_locales (simp add: duration_cmp_def)

text \<open>\<open>list_sort\<close> on the run queue; by \<open>List_Sort\<close> it is the natural merge sort \<open>nmsort\<close>.\<close>

definition sort_ready :: "(addr \<Rightarrow> addr \<Rightarrow> bool) \<Rightarrow> kernel \<Rightarrow> kernel" where
  "sort_ready lt k = k\<lparr>ready_list := nmsort lt (ready_list k)\<rparr>"

section \<open>Multilevel feedback queue statistics\<close>

definition refresh_priority_thread :: "addr \<Rightarrow> kernel \<Rightarrow> kernel option" where
  "refresh_priority_thread t k = do {
     let th = threads k t;
     q \<leftarrow> div_int (recent_cpu th) 4;
     let pri = i32 (i32 (PRI_MAX - fp_to_int_round q) - i32 (nice th * 2));
     let th = th\<lparr>priority := (if pri > PRI_MAX then PRI_MAX else if pri < PRI_MIN then PRI_MIN else pri)\<rparr>;
     if pos th \<noteq> 10 then do {
       ASSERT (0 \<le> pos th \<and> pos th < 10);
       Some (upd t (\<lambda>_. th\<lparr>prio := (prio th)[nat (pos th) := pri], pos := i32 (pos th + 1)\<rparr>) k) }
     else Some (upd t (\<lambda>_. th) k) }"

definition refresh_priority :: "kernel \<Rightarrow> kernel option" where
  "refresh_priority k = do {
     let r = running_thread k;
     k \<leftarrow> fold_opt (\<lambda>t k. if t \<noteq> initial_thread k then refresh_priority_thread t k else Some k)
            (ready_list k) k;
     refresh_priority_thread r k }"

definition refresh_cpu :: "addr \<Rightarrow> kernel \<Rightarrow> kernel option" where
  "refresh_cpu t k =
     (if t \<noteq> idle_thread k then do {
        let first_term = mult_int (load_avg k) 2;
        let second_term = add_int first_term 1;
        third_term \<leftarrow> div_fp first_term second_term;
        Some (upd t (\<lambda>th. th\<lparr>recent_cpu := add_int (mult_fp third_term (recent_cpu th)) (nice th)\<rparr>) k) }
      else Some k)"

definition refresh_load_avg :: "kernel \<Rightarrow> kernel option" where
  "refresh_load_avg k = do {
     _ \<leftarrow> thread_current k;
     let ready_length = int (length (ready_list k));
     a \<leftarrow> div_int (mult_int (load_avg k) 59) 60;
     b \<leftarrow> div_int (int_to_fp ready_length) 60;
     Some (k\<lparr>load_avg := add_fp a b\<rparr>) }"

definition thread_foreach :: "(addr \<Rightarrow> kernel \<Rightarrow> kernel option) \<Rightarrow> kernel \<Rightarrow> kernel option" where
  "thread_foreach func k = do {
     ASSERT (intr_get_level k = INTR_OFF);
     fold_opt func (all_list k) k }"

definition thread_get_load_avg :: "kernel \<Rightarrow> int" where
  "thread_get_load_avg k = fp_to_int_round (mult_int (load_avg k) 100)"

definition thread_get_recent_cpu :: "kernel \<Rightarrow> int" where
  "thread_get_recent_cpu k = fp_to_int_round (mult_int (recent_cpu (threads k (running_thread k))) 100)"

definition thread_set_priority :: "int \<Rightarrow> kernel \<Rightarrow> kernel option" where
  "thread_set_priority new_priority k = do {
     t \<leftarrow> thread_current k;
     let k = upd t (\<lambda>th. th\<lparr>priority := new_priority\<rparr>) k;
     if thread_mlfqs k then refresh_priority k else Some k }"

definition thread_get_priority :: "kernel \<Rightarrow> int option" where
  "thread_get_priority k = map_option (\<lambda>t. priority (threads k t)) (thread_current k)"

definition thread_set_nice :: "int \<Rightarrow> kernel \<Rightarrow> kernel option" where
  "thread_set_nice n k = do {
     t \<leftarrow> thread_current k;
     let k = upd t (\<lambda>th. th\<lparr>nice := n\<rparr>) k;
     if thread_mlfqs k then refresh_priority k else Some k }"

definition thread_get_nice :: "kernel \<Rightarrow> int option" where
  "thread_get_nice k = map_option (\<lambda>t. nice (threads k t)) (thread_current k)"

definition setBound :: "bool \<Rightarrow> kernel \<Rightarrow> kernel" where
  "setBound bound k = upd (running_thread k) (\<lambda>th. th\<lparr>iobound := bound\<rparr>) k"

section \<open>Shortest job first estimates\<close>

fun find_exec :: "kernel \<Rightarrow> string \<Rightarrow> addr list \<Rightarrow> int option" where
  "find_exec k nm [] = None"
| "find_exec k nm (t_tmp # rest) =
     (if name (threads k t_tmp) = nm then Some (total_exec (threads k t_tmp)) else find_exec k nm rest)"

definition get_total_exec :: "addr \<Rightarrow> kernel \<Rightarrow> int \<times> kernel" where
  "get_total_exec t k = (case find_exec k (name (threads k t)) (all_all_list k) of
     Some e \<Rightarrow> (e, k)
   | None \<Rightarrow> (0, k\<lparr>all_all_list := all_all_list k @ [t]\<rparr>))"

definition get_total_exec_each :: "addr \<Rightarrow> kernel \<Rightarrow> kernel option" where
  "get_total_exec_each t k = (let (e, k) = get_total_exec t k in Some (upd t (\<lambda>th. th\<lparr>total_exec := e\<rparr>) k))"

definition update_exec_time :: "string \<Rightarrow> int \<Rightarrow> kernel \<Rightarrow> kernel" where
  "update_exec_time nm e k = fold (\<lambda>t. upd t (\<lambda>th. th\<lparr>total_exec := e\<rparr>)) (all_all_list k) k"

definition calc_new_total_exec :: "int \<Rightarrow> int \<Rightarrow> kernel \<Rightarrow> kernel option" where
  "calc_new_total_exec old recent k = do {
     res \<leftarrow> (if old = 0 then Some recent
            else do {
              let one_fp = int_to_fp 1;
              alpha \<leftarrow> div_int one_fp 2;
              let alpha_alt = sub_fp one_fp alpha;
              let recent_val = mult_int alpha recent;
              let old_val = mult_int alpha_alt old;
              Some (fp_to_int_round (add_fp recent_val old_val)) });
     t \<leftarrow> thread_current k;
     Some (upd t (\<lambda>th. th\<lparr>total_exec := res\<rparr>) k) }"

section \<open>Timer tick\<close>

definition thread_tick_mlfqs :: "addr \<Rightarrow> kernel \<Rightarrow> kernel option" where
  "thread_tick_mlfqs t k = (case ready_list k of
     [] \<Rightarrow> Some k
   | nxt # _ \<Rightarrow> do {
       k \<leftarrow> (if timer_ticks k smod TIMER_FREQ = 0
             then do { k \<leftarrow> refresh_load_avg k; thread_foreach refresh_cpu k }
             else Some k);
       let k = (if status (threads k t) = THREAD_RUNNING
                then upd t (\<lambda>th. th\<lparr>recent_cpu := add_int (recent_cpu th) 1\<rparr>) k else k);
       k \<leftarrow> (if timer_ticks k smod (TIMER_FREQ * 4) = 0
             then do { k \<leftarrow> refresh_priority k; Some (sort_ready (priority_cmp k) k) }
             else Some k);
       let k = k\<lparr>thread_ticks := u32 (thread_ticks k + 1)\<rparr>;
       if QUANTUM \<le> thread_ticks k \<and> priority (threads k t) \<le> priority (threads k nxt)
       then do { k \<leftarrow> intr_yield_on_return k; Some (sort_ready (priority_cmp k) k) }
       else Some k })"

definition thread_tick :: "kernel \<Rightarrow> kernel option" where
  "thread_tick k = do {
     t \<leftarrow> thread_current k;
     let k = (if t = idle_thread k \<or> t = initial_thread k
              then k\<lparr>idle_ticks := i64 (idle_ticks k + 1)\<rparr>
              else k\<lparr>kernel_ticks := i64 (kernel_ticks k + 1)\<rparr>);
     if sjf k then Some (upd t (\<lambda>th. th\<lparr>curr_exec := i32 (curr_exec th + 1)\<rparr>) k)
     else if roundrobin k then do {
       let k = upd t (\<lambda>th. th\<lparr>ticks := i32 (ticks th + 1)\<rparr>) k;
       if int QUANTUM \<le> ticks (threads k t)
       then do { k \<leftarrow> intr_yield_on_return k; Some (upd t (\<lambda>th. th\<lparr>ticks := 0\<rparr>) k) }
       else Some k }
     else if thread_mlfqs k then thread_tick_mlfqs t k
     else Some k }"

section \<open>The context switch\<close>

definition next_thread_to_run :: "kernel \<Rightarrow> addr \<times> kernel" where
  "next_thread_to_run k = (case ready_list k of
     [] \<Rightarrow> (idle_thread k, k)
   | t # rest \<Rightarrow> (t, k\<lparr>ready_list := rest\<rparr>))"

definition thread_schedule_tail :: "addr \<Rightarrow> kernel \<Rightarrow> kernel option" where
  "thread_schedule_tail prev k = do {
     let c = running_thread k;
     let k = upd c (\<lambda>th. th\<lparr>recent_wait := i32 (timer_ticks k - recent_wait th)\<rparr>) k;
     let k = upd c (\<lambda>th. th\<lparr>total_wait := i32 (total_wait th + recent_wait th)\<rparr>) k;
     let k = upd c (\<lambda>th. th\<lparr>recent_wait := 0\<rparr>) k;
     ASSERT (intr_get_level k = INTR_OFF);
     let k = upd c (\<lambda>th. th\<lparr>status := THREAD_RUNNING\<rparr>) k;
     let k = k\<lparr>thread_ticks := 0\<rparr>;
     if prev \<noteq> NULL \<and> status (threads k prev) = THREAD_DYING \<and> prev \<noteq> initial_thread k
     then do {
       ASSERT (prev \<noteq> c);
       Some (if sjf k then k else palloc_free_page prev k) }
     else Some k }"

text \<open>
  \<open>switch_threads (cur, next)\<close> saves the stack of \<open>cur\<close>, which then has the rest of \<open>schedule\<close> to do when
  it is resumed, and continues on the stack of \<open>next\<close>.  A thread that has run before is itself
  inside \<open>schedule\<close> and calls \<open>thread_schedule_tail\<close> with the thread switched from; a new
  thread does the same from \<open>switch_entry\<close> (\<open>threads/switch.S\<close>).
\<close>

definition schedule :: "kernel \<Rightarrow> kernel option" where
  "schedule k = do {
     let c = running_thread k;
     let (nxt, k) = next_thread_to_run k;
     ASSERT (intr_get_level k = INTR_OFF);
     ASSERT (status (threads k c) \<noteq> THREAD_RUNNING);
     ASSERT (is_thread k nxt);
     let k = push_ops c [Schedule_rest nxt] k;
     if c \<noteq> nxt then thread_schedule_tail c (k\<lparr>cur := nxt\<rparr>)
     else thread_schedule_tail NULL k }"

definition schedule_rest :: "addr \<Rightarrow> kernel \<Rightarrow> kernel option" where
  "schedule_rest nxt k = do {
     let c = running_thread k;
     let k = (if nxt \<noteq> idle_thread k \<and> nxt \<noteq> initial_thread k \<and> threads_print k
              then k\<lparr>total_ready_threads := int (length (ready_list k)), threads_print := False\<rparr>
              else k);
     Some (upd c (\<lambda>th. th\<lparr>repeat := i32 (repeat th + 1)\<rparr>) k) }"

section \<open>Blocking, yielding and exit\<close>

definition thread_block :: "kernel \<Rightarrow> kernel option" where
  "thread_block k = do {
     ASSERT (\<not> intr_context k);
     ASSERT (intr_get_level k = INTR_OFF);
     t \<leftarrow> thread_current k;
     schedule (upd t (\<lambda>th. th\<lparr>status := THREAD_BLOCKED\<rparr>) k) }"

definition thread_unblock :: "addr \<Rightarrow> kernel \<Rightarrow> kernel option" where
  "thread_unblock t k = do {
     let k = (if t \<noteq> idle_thread k \<and> t \<noteq> initial_thread k
              then upd t (\<lambda>th. th\<lparr>recent_wait := i32 (timer_ticks k)\<rparr>) k else k);
     ASSERT (is_thread k t);
     let old_level = intr_get_level k;
     let k = intr_disable k;
     ASSERT (status (threads k t) = THREAD_BLOCKED);
     let k = k\<lparr>ready_list := ready_list k @ [t]\<rparr>;
     let k = upd t (\<lambda>th. th\<lparr>status := THREAD_READY\<rparr>) k;
     intr_set_level old_level k }"

definition thread_yield :: "kernel \<Rightarrow> kernel option" where
  "thread_yield k = do {
     c \<leftarrow> thread_current k;
     let k = (if c \<noteq> idle_thread k \<and> c \<noteq> initial_thread k
              then upd c (\<lambda>th. th\<lparr>recent_wait := i32 (timer_ticks k)\<rparr>) k else k);
     ASSERT (\<not> intr_context k);
     let old_level = intr_get_level k;
     let k = intr_disable k;
     let k = (if c \<noteq> idle_thread k then k\<lparr>ready_list := ready_list k @ [c]\<rparr> else k);
     let k = upd c (\<lambda>th. th\<lparr>status := THREAD_READY\<rparr>) k;
     schedule (push_ops c [Intr_set_level old_level] k) }"

definition thread_exit :: "kernel \<Rightarrow> kernel option" where
  "thread_exit k = do {
     ASSERT (\<not> intr_context k);
     t \<leftarrow> thread_current k;
     let rep = repeat (threads k t);
     let k = intr_disable k;
     k \<leftarrow> (if sjf k then do {
             k \<leftarrow> calc_new_total_exec (total_exec (threads k t)) (curr_exec (threads k t)) k;
             k \<leftarrow> thread_foreach get_total_exec_each k;
             Some (sort_ready (duration_cmp k) k) }
           else Some k);
     k \<leftarrow> (if t \<noteq> initial_thread k \<and> t \<noteq> idle_thread k then do {
             ASSERT (rep \<noteq> 0);
             Some (k\<lparr>total_wait_time := i32 (total_wait_time k + total_wait (threads k t) sdiv rep)\<rparr>) }
           else Some k);
     let k = k\<lparr>all_list := remove1 t (all_list k)\<rparr>;
     c \<leftarrow> thread_current k;
     let k = upd c (\<lambda>th. th\<lparr>status := THREAD_DYING\<rparr>) k;
     schedule (push_ops c [Not_reached] k) }"

section \<open>Creation\<close>

text \<open>A cleared page: \<open>memset (t, 0, sizeof *t)\<close>, and nothing on its stack.\<close>

definition zero_thread :: thread where
  "zero_thread = \<lparr>tid = 0, status = THREAD_RUNNING, name = '''', stack = 0, recent_wait = 0,
     total_wait = 0, repeat = 0, prio = replicate 10 0, pos = 0, iobound = False, ticks = 0,
     curr_exec = 0, total_exec = 0, priority = 0, nice = 0, recent_cpu = 0, wakeup_time = 0,
     magic = 0, ops = [], retval = 0\<rparr>"

text \<open>\<open>strlcpy (t->name, name, sizeof t->name)\<close> keeps the first 15 characters.\<close>

definition init_thread :: "addr \<Rightarrow> string \<Rightarrow> int \<Rightarrow> kernel \<Rightarrow> kernel option" where
  "init_thread t nm pri k = do {
     ASSERT (t \<noteq> NULL);
     ASSERT (PRI_MIN \<le> pri \<and> pri \<le> PRI_MAX);
     let k = upd t (\<lambda>_. zero_thread\<lparr>status := THREAD_BLOCKED, name := take 15 nm, stack := t + PGSIZE,
                          priority := pri, magic := THREAD_MAGIC\<rparr>) k;
     let k = upd_sema (Timer_sema t) (\<lambda>_. \<lparr>sema_value = 0, waiters = []\<rparr>) k;
     let k = (if sjf k then (let (e, k) = get_total_exec t k in upd t (\<lambda>th. th\<lparr>total_exec := e\<rparr>) k) else k);
     let k = (if nm \<noteq> ''idle'' \<and> nm \<noteq> ''s''
              then upd t (\<lambda>th. th\<lparr>prio := (prio th)[nat (pos th) := pri]\<rparr>) k else k);
     Some (k\<lparr>all_list := all_list k @ [t]\<rparr>) }"

definition alloc_frame :: "addr \<Rightarrow> nat \<Rightarrow> kernel \<Rightarrow> kernel option" where
  "alloc_frame t sz k = do {
     ASSERT (is_thread k t);
     ASSERT (sz mod 4 = 0);
     Some (upd t (\<lambda>th. th\<lparr>stack := stack th - sz\<rparr>) k) }"

definition thread_create :: "string \<Rightarrow> int \<Rightarrow> thread_fn \<Rightarrow> kernel \<Rightarrow> kernel option" where
  "thread_create nm pri fn k = do {
     let (t, k) = palloc_get_page k;
     if t = NULL then Some (set_retval TID_ERROR k)
     else do {
       k \<leftarrow> init_thread t nm pri k;
       Some (push_ops (cur k) [Allocate_tid, Set_tid t, Create_rest t fn] k) } }"

definition set_tid :: "addr \<Rightarrow> kernel \<Rightarrow> kernel" where
  "set_tid t k = upd t (\<lambda>th. th\<lparr>tid := retval (threads k (cur k))\<rparr>) k"

text \<open>
  The rest of \<open>thread_create\<close>: the frames of \<open>kernel_thread\<close> (12 bytes), \<open>switch_entry\<close> (4) and
  \<open>switch_threads\<close> (28), which make \<open>Kernel_thread\<close> the first thing the new thread does.
\<close>

definition create_rest :: "addr \<Rightarrow> thread_fn \<Rightarrow> kernel \<Rightarrow> kernel option" where
  "create_rest t fn k = do {
     let old_level = intr_get_level k;
     let k = intr_disable k;
     k \<leftarrow> alloc_frame t 12 k;
     k \<leftarrow> alloc_frame t 4 k;
     k \<leftarrow> alloc_frame t 28 k;
     let k = upd t (\<lambda>th. th\<lparr>ops := [Kernel_thread fn]\<rparr>) k;
     k \<leftarrow> intr_set_level old_level k;
     Some (push_ops (cur k) [Thread_unblock t] k) }"

definition allocate_tid :: "kernel \<Rightarrow> kernel" where
  "allocate_tid k = push_ops (cur k) [Lock_acquire tid_lock, Tid_load, Tid_store, Lock_release tid_lock] k"

definition tid_load :: "kernel \<Rightarrow> kernel" where
  "tid_load k = set_retval (next_tid k) k"

definition tid_store :: "kernel \<Rightarrow> kernel" where
  "tid_store k = k\<lparr>next_tid := i32 (retval (threads k (cur k)) + 1)\<rparr>"

definition kernel_thread :: "thread_fn \<Rightarrow> kernel \<Rightarrow> kernel option" where
  "kernel_thread fn k = do {
     k \<leftarrow> intr_enable k;
     Some (push_ops (cur k) [case fn of Fn_idle s \<Rightarrow> Idle_body s | Fn_user \<Rightarrow> Run_function, Thread_exit] k) }"

definition idle :: "sema_ref \<Rightarrow> kernel \<Rightarrow> kernel option" where
  "idle idle_started k = do {
     t \<leftarrow> thread_current k;
     Some (push_ops t [Sema_up idle_started, Idle_loop] (k\<lparr>idle_thread := t\<rparr>)) }"

definition idle_loop :: "kernel \<Rightarrow> kernel" where
  "idle_loop k = push_ops (cur k) [Intr_set_level INTR_OFF, Thread_block, Sti_hlt, Idle_loop] k"

definition thread_start :: "kernel \<Rightarrow> kernel" where
  "thread_start k = push_ops (cur k)
     [Sema_init (Idle_started (cur k)) 0, Thread_create ''idle'' PRI_MIN (Fn_idle (Idle_started (cur k))),
      Intr_set_level INTR_ON, Sema_down (Idle_started (cur k))] k"

section \<open>Initialization\<close>

definition thread_init :: "kernel \<Rightarrow> kernel option" where
  "thread_init k = do {
     ASSERT (intr_get_level k = INTR_OFF);
     let k = upd_sema (Lock_sema tid_lock) (\<lambda>_. \<lparr>sema_value = 1, waiters = []\<rparr>)
               (k\<lparr>holder := (holder k)(tid_lock := NULL)\<rparr>);
     let k = k\<lparr>ready_list := [], all_list := [], total_wait_time := 0, total_ready_threads := 0\<rparr>;
     let k = (if sjf k then k\<lparr>all_all_list := []\<rparr> else k);
     let t = running_thread k;
     let stk = ops (threads k t);
     let k = k\<lparr>initial_thread := t\<rparr>;
     k \<leftarrow> init_thread t ''main'' 0 k;
     let k = upd t (\<lambda>th. th\<lparr>status := THREAD_RUNNING\<rparr>) k;
     Some (push_ops t ([Allocate_tid, Set_tid t] @ stk) k) }"

end
