(* ===== verification/Synch.thy ===== *)
theory Synch
  imports Thread
begin

text \<open>
  \<open>threads/synch.c\<close>: semaphores, locks and condition variables.  A semaphore operation runs
  with interrupts off.  \<open>sema_down\<close> may sleep, so its loop is a pending operation of its own that the
  thread comes back to; \<open>lock_acquire\<close>, \<open>lock_release\<close> and \<open>cond_wait\<close> push the calls they make.
\<close>

definition sema_init :: "sema_ref \<Rightarrow> nat \<Rightarrow> kernel \<Rightarrow> kernel" where
  "sema_init s v = upd_sema s (\<lambda>_. \<lparr>sema_value = v, waiters = []\<rparr>)"

definition sema_down :: "sema_ref \<Rightarrow> kernel \<Rightarrow> kernel option" where
  "sema_down s k = do {
     ASSERT (\<not> intr_context k);
     let old_level = intr_get_level k;
     Some (push_ops (cur k) [Sema_down_loop s old_level] (intr_disable k)) }"

definition sema_down_loop :: "sema_ref \<Rightarrow> intr_level \<Rightarrow> kernel \<Rightarrow> kernel option" where
  "sema_down_loop s old_level k =
     (if sema_value (semas k s) = 0 then do {
        t \<leftarrow> thread_current k;
        let k = upd_sema s (\<lambda>sm. sm\<lparr>waiters := waiters sm @ [t]\<rparr>) k;
        thread_block (push_ops t [Sema_down_loop s old_level] k) }
      else intr_set_level old_level (upd_sema s (\<lambda>sm. sm\<lparr>sema_value := sema_value sm - 1\<rparr>) k))"

definition sema_try_down :: "sema_ref \<Rightarrow> kernel \<Rightarrow> (bool \<times> kernel) option" where
  "sema_try_down s k = do {
     let old_level = intr_get_level k;
     let k = intr_disable k;
     let (success, k) = (if sema_value (semas k s) > 0
       then (True, upd_sema s (\<lambda>sm. sm\<lparr>sema_value := sema_value sm - 1\<rparr>) k)
       else (False, k));
     k \<leftarrow> intr_set_level old_level k;
     Some (success, k) }"

definition sema_up :: "sema_ref \<Rightarrow> kernel \<Rightarrow> kernel option" where
  "sema_up s k = do {
     let old_level = intr_get_level k;
     let k = intr_disable k;
     k \<leftarrow> (case waiters (semas k s) of
            [] \<Rightarrow> Some k
          | t # rest \<Rightarrow> thread_unblock t (upd_sema s (\<lambda>sm. sm\<lparr>waiters := rest\<rparr>) k));
     let k = upd_sema s (\<lambda>sm. sm\<lparr>sema_value := u32 (sema_value sm + 1)\<rparr>) k;
     intr_set_level old_level k }"

definition lock_init :: "nat \<Rightarrow> kernel \<Rightarrow> kernel" where
  "lock_init l k = sema_init (Lock_sema l) 1 (k\<lparr>holder := (holder k)(l := NULL)\<rparr>)"

definition lock_held_by_current_thread :: "nat \<Rightarrow> kernel \<Rightarrow> bool option" where
  "lock_held_by_current_thread l k = do { t \<leftarrow> thread_current k; Some (holder k l = t) }"

definition lock_acquire :: "nat \<Rightarrow> kernel \<Rightarrow> kernel option" where
  "lock_acquire l k = do {
     ASSERT (\<not> intr_context k);
     held \<leftarrow> lock_held_by_current_thread l k;
     ASSERT (\<not> held);
     Some (push_ops (cur k) [Sema_down (Lock_sema l), Set_holder l] k) }"

definition set_holder :: "nat \<Rightarrow> kernel \<Rightarrow> kernel option" where
  "set_holder l k = do {
     t \<leftarrow> thread_current k;
     Some (k\<lparr>holder := (holder k)(l := t)\<rparr>) }"

definition lock_try_acquire :: "nat \<Rightarrow> kernel \<Rightarrow> kernel option" where
  "lock_try_acquire l k = do {
     held \<leftarrow> lock_held_by_current_thread l k;
     ASSERT (\<not> held);
     (success, k) \<leftarrow> sema_try_down (Lock_sema l) k;
     Some (push_ops (cur k) (if success then [Set_holder l, Return 1] else [Return 0]) k) }"

definition lock_release :: "nat \<Rightarrow> kernel \<Rightarrow> kernel option" where
  "lock_release l k = do {
     held \<leftarrow> lock_held_by_current_thread l k;
     ASSERT held;
     Some (push_ops (cur k) [Sema_up (Lock_sema l)] (k\<lparr>holder := (holder k)(l := NULL)\<rparr>)) }"

definition cond_init :: "nat \<Rightarrow> kernel \<Rightarrow> kernel" where
  "cond_init c k = k\<lparr>conds := (conds k)(c := [])\<rparr>"

definition cond_wait :: "nat \<Rightarrow> nat \<Rightarrow> kernel \<Rightarrow> kernel option" where
  "cond_wait c l k = do {
     ASSERT (\<not> intr_context k);
     held \<leftarrow> lock_held_by_current_thread l k;
     ASSERT held;
     let t = cur k;
     let k = sema_init (Waiter_sema t) 0 k;
     let k = k\<lparr>conds := (conds k)(c := conds k c @ [t])\<rparr>;
     Some (push_ops t [Lock_release l, Sema_down (Waiter_sema t), Lock_acquire l] k) }"

definition cond_signal :: "nat \<Rightarrow> nat \<Rightarrow> kernel \<Rightarrow> kernel option" where
  "cond_signal c l k = do {
     ASSERT (\<not> intr_context k);
     held \<leftarrow> lock_held_by_current_thread l k;
     ASSERT held;
     (case conds k c of
        [] \<Rightarrow> Some k
      | t # rest \<Rightarrow> Some (push_ops (cur k) [Sema_up (Waiter_sema t)] (k\<lparr>conds := (conds k)(c := rest)\<rparr>))) }"

definition cond_broadcast :: "nat \<Rightarrow> nat \<Rightarrow> kernel \<Rightarrow> kernel option" where
  "cond_broadcast c l k = Some
     (if conds k c \<noteq> [] then push_ops (cur k) [Cond_signal c l, Cond_broadcast c l] k else k)"

end
