(* ===== verification/Timer.thy ===== *)
theory Timer
  imports Synch
begin

text \<open>
  \<open>devices/timer.c\<close>: the sleep queue and the timer interrupt.  A delay of less than a tick (\<open>real_time_delay\<close>) is a busy
  loop, during which the thread may be interrupted but changes nothing; how long it takes depends on the calibration
  against the timer chip, which is not part of the model.
\<close>

section \<open>Sleeping\<close>

definition timer_init :: "kernel \<Rightarrow> kernel" where
  "timer_init k = k\<lparr>wait_list := []\<rparr>"

definition timer_elapsed :: "int \<Rightarrow> kernel \<Rightarrow> int" where
  "timer_elapsed t0 k = i64 (timer_ticks k - t0)"

text \<open>
  \<open>timer_sleep\<close> works on \<open>wait_list\<close> with interrupts on, so its call of \<open>list_insert_ordered\<close> has a beginning
  (\<open>sleep_insert\<close>) and an end (\<open>sleep_link\<close>), between which ticks come and other threads run.  Two accesses to the list of
  which one changes it, at the same time, are a data race: the links are then whatever the order of the single
  reads and writes makes them.  The model ends there with \<^term>\<open>None\<close>, as it does when an assertion fails.  The races are
  another insertion, and a tick that finds a thread to wake up on the list or in the thread about to be linked.  A tick that
  finds none only reads the front of the list, and the insertion goes on.
\<close>

definition wait_race :: "int \<Rightarrow> kernel \<Rightarrow> bool" where
  "wait_race now k \<longleftrightarrow> inserting k \<noteq> NULL \<and> (\<exists>t \<in> set (inserting k # wait_list k). wakeup_time (threads k t) \<le> now)"

definition sleep_insert :: "kernel \<Rightarrow> kernel option" where
  "sleep_insert k = do {
     ASSERT (inserting k = NULL);
     Some (push_ops (cur k) [Sleep_link] (k\<lparr>inserting := cur k\<rparr>)) }"

definition sleep_link :: "kernel \<Rightarrow> kernel" where
  "sleep_link k = push_ops (cur k) [Sema_down (Timer_sema (cur k))]
     (k\<lparr>wait_list := insort_lt (wakeup_cmp k) (cur k) (wait_list k), inserting := NULL\<rparr>)"

definition timer_sleep :: "int \<Rightarrow> kernel \<Rightarrow> kernel option" where
  "timer_sleep n k =
     (if n < 0 then Some k
      else do {
        t \<leftarrow> thread_current k;
        let k = upd t (\<lambda>th. th\<lparr>wakeup_time := i64 (timer_ticks k + n)\<rparr>) k;
        Some (push_ops t [Sleep_insert] k) })"

definition real_time_delay :: "int \<Rightarrow> int \<Rightarrow> kernel \<Rightarrow> kernel option" where
  "real_time_delay num denom k = do {
     ASSERT (denom smod 1000 = 0);
     Some k }"

definition real_time_sleep :: "int \<Rightarrow> int \<Rightarrow> kernel \<Rightarrow> kernel option" where
  "real_time_sleep num denom k = do {
     let n = i64 (num * TIMER_FREQ) sdiv denom;
     ASSERT (intr_get_level k = INTR_ON);
     if n > 0 then timer_sleep n k else real_time_delay num denom k }"

definition timer_msleep :: "int \<Rightarrow> kernel \<Rightarrow> kernel option" where
  "timer_msleep ms = real_time_sleep ms 1000"

definition timer_usleep :: "int \<Rightarrow> kernel \<Rightarrow> kernel option" where
  "timer_usleep us = real_time_sleep us (1000 * 1000)"

definition timer_nsleep :: "int \<Rightarrow> kernel \<Rightarrow> kernel option" where
  "timer_nsleep ns = real_time_sleep ns (1000 * 1000 * 1000)"

section \<open>The interrupt\<close>

primrec wake_loop :: "addr list \<Rightarrow> kernel \<Rightarrow> kernel option" where
  "wake_loop [] k = Some k"
| "wake_loop (t # rest) k =
     (if os_ticks k < wakeup_time (threads k t) then Some k
      else do {
        k \<leftarrow> sema_up (Timer_sema t) k;
        wake_loop rest (k\<lparr>wait_list := tl (wait_list k)\<rparr>) })"

definition timer_interrupt :: "kernel \<Rightarrow> kernel option" where
  "timer_interrupt k = do {
     let k = k\<lparr>os_ticks := i64 (os_ticks k + 1)\<rparr>;
     k \<leftarrow> thread_tick k;
     ASSERT (\<not> wait_race (os_ticks k) k);
     wake_loop (wait_list k) k }"

text \<open>
  \<open>intr_handler\<close> (\<open>threads/interrupt.c\<close>) for vector 0x20.  The processor clears the interrupt flag on
  entry; on the way out the interrupted thread may yield first, and \<open>iret\<close> restores the flag.
\<close>

definition intr_handler :: "kernel \<Rightarrow> kernel option" where
  "intr_handler k = do {
     ASSERT (intr_get_level k = INTR_OFF);
     ASSERT (\<not> intr_context k);
     let k = k\<lparr>in_external_intr := True, yield_on_return := False\<rparr>;
     k \<leftarrow> timer_interrupt k;
     ASSERT (intr_get_level k = INTR_OFF);
     ASSERT (intr_context k);
     let k = k\<lparr>in_external_intr := False\<rparr>;
     Some (push_ops (cur k) (if yield_on_return k then [Thread_yield] else []) k) }"

end
