(* ===== verification/Kernel.thy ===== *)
theory Kernel
  imports Timer
begin

text \<open>
  The kernel as a transition system.  In a step the running thread executes the next operation
  of its stack; or, inside its thread function, makes a call or returns from the function; or,
  when interrupts are on, the timer interrupts it.  The tick counter is a signed 64-bit
  integer, whose overflow C leaves undefined: there is no tick after \<open>2 ^ 63 - 1\<close> of them.
\<close>

fun exec :: "kop \<Rightarrow> kernel \<Rightarrow> kernel option" where
  "exec Thread_start k = Some (thread_start k)"
| "exec (Thread_create nm pri fn) k = thread_create nm pri fn k"
| "exec Thread_block k = thread_block k"
| "exec (Thread_unblock t) k = thread_unblock t k"
| "exec Thread_yield k = thread_yield k"
| "exec Thread_exit k = thread_exit k"
| "exec (Thread_set_priority p) k = thread_set_priority p k"
| "exec (Thread_set_nice n) k = thread_set_nice n k"
| "exec (Set_bound b) k = Some (setBound b k)"
| "exec (Intr_set_level level) k = intr_set_level level k"
| "exec (Sema_init s v) k = Some (sema_init s v k)"
| "exec (Sema_down s) k = sema_down s k"
| "exec (Sema_try_down s) k = do {
     (success, k) \<leftarrow> sema_try_down s k; Some (set_retval (if success then 1 else 0) k) }"
| "exec (Sema_up s) k = sema_up s k"
| "exec (Lock_acquire l) k = lock_acquire l k"
| "exec (Lock_try_acquire l) k = lock_try_acquire l k"
| "exec (Lock_release l) k = lock_release l k"
| "exec (Cond_wait c l) k = cond_wait c l k"
| "exec (Cond_signal c l) k = cond_signal c l k"
| "exec (Cond_broadcast c l) k = cond_broadcast c l k"
| "exec (Timer_sleep n) k = timer_sleep n k"
| "exec Allocate_tid k = Some (allocate_tid k)"
| "exec Run_function k = None"
| "exec (Kernel_thread fn) k = kernel_thread fn k"
| "exec (Idle_body s) k = idle s k"
| "exec Idle_loop k = Some (idle_loop k)"
| "exec Sti_hlt k = Some (k\<lparr>intr := INTR_ON\<rparr>)"
| "exec (Schedule_rest nxt) k = schedule_rest nxt k"
| "exec Not_reached k = None"
| "exec Interrupt_return k = Some (k\<lparr>intr := INTR_ON\<rparr>)"
| "exec Tid_load k = Some (tid_load k)"
| "exec Tid_store k = Some (tid_store k)"
| "exec (Set_tid t) k = Some (set_tid t k)"
| "exec (Create_rest t fn) k = create_rest t fn k"
| "exec (Sema_down_loop s old_level) k = sema_down_loop s old_level k"
| "exec (Set_holder l) k = set_holder l k"
| "exec (Return v) k = Some (set_retval v k)"
| "exec Sleep_insert k = sleep_insert k"
| "exec Sleep_link k = Some (sleep_link k)"

text \<open>
  The calls open to a thread function: everything in \<open>thread.h\<close>, \<open>synch.h\<close> and \<open>timer.h\<close> except
  \<open>thread_unblock\<close>, which only the synchronization code uses, and with the semaphores
  and locks that are the function's own.
\<close>

fun api :: "kernel \<Rightarrow> kop \<Rightarrow> bool" where
  "api k Thread_start = True"
| "api k (Thread_create nm pri fn) = (fn = Fn_user)"
| "api k Thread_block = True"
| "api k Thread_yield = True"
| "api k Thread_exit = True"
| "api k (Thread_set_priority p) = True"
| "api k (Thread_set_nice n) = True"
| "api k (Set_bound b) = True"
| "api k (Intr_set_level level) = True"
| "api k (Sema_init (Sema n) v) = (v < 2 ^ 32)"
| "api k (Sema_down (Sema n)) = True"
| "api k (Sema_try_down (Sema n)) = True"
| "api k (Sema_up (Sema n)) = True"
| "api k (Lock_acquire l) = (l \<noteq> tid_lock)"
| "api k (Lock_try_acquire l) = (l \<noteq> tid_lock)"
| "api k (Lock_release l) = (l \<noteq> tid_lock)"
| "api k (Cond_wait c l) = (l \<noteq> tid_lock)"
| "api k (Cond_signal c l) = (l \<noteq> tid_lock)"
| "api k (Cond_broadcast c l) = (l \<noteq> tid_lock)"
| "api k (Timer_sleep n) = True"
| "api k _ = False"

datatype label = Exec | Call kop | Finish | Tick

definition pop_op :: "kernel \<Rightarrow> kernel" where
  "pop_op k = upd (cur k) (\<lambda>th. th\<lparr>ops := tl (ops th)\<rparr>) k"

fun step :: "label \<Rightarrow> kernel \<Rightarrow> kernel option" where
  "step Exec k = (case ops (threads k (cur k)) of
     [] \<Rightarrow> None
   | c # _ \<Rightarrow> exec c (pop_op k))"
| "step (Call c) k = (case ops (threads k (cur k)) of
     Run_function # _ \<Rightarrow> if api k c then Some (push_ops (cur k) [c] k) else None
   | _ \<Rightarrow> None)"
| "step Finish k = (case ops (threads k (cur k)) of
     Run_function # _ \<Rightarrow> Some (pop_op k)
   | _ \<Rightarrow> None)"
| "step Tick k =
     (if intr k = INTR_ON \<and> os_ticks k < 2 ^ 63 - 1 then intr_handler (push_ops (cur k) [Interrupt_return] (intr_disable k))
      else None)"

primrec run :: "label list \<Rightarrow> kernel \<Rightarrow> kernel option" where
  "run [] k = Some k"
| "run (a # as) k = (case step a k of None \<Rightarrow> None | Some k' \<Rightarrow> run as k')"

section \<open>Booting\<close>

text \<open>
  Memory when \<open>main\<close> (\<open>threads/init.c\<close>) calls \<open>thread_init\<close>: the static variables are zero, \<open>bss_init\<close> having
  cleared them, the options have been parsed, interrupts are off, and the code runs on page \<open>m\<close>.  The
  locks of the threads are taken as initialized by \<open>lock_init\<close>.  \<open>ps\<close> are the pages of the kernel
  pool.  Only the running page has anything on its stack: \<open>main\<close> itself, which ends in
  \<open>thread_exit\<close>.
\<close>

definition boot :: "bool \<Rightarrow> bool \<Rightarrow> bool \<Rightarrow> bool \<Rightarrow> addr \<Rightarrow> addr list \<Rightarrow> kernel" where
  "boot mlfqs rr fc sj m ps = \<lparr>
     threads = (\<lambda>_. zero_thread)(m := zero_thread\<lparr>ops := [Run_function, Thread_exit]\<rparr>),
     cur = m, ready_list = [], all_list = [], all_all_list = [], wait_list = [],
     idle_thread = NULL, initial_thread = NULL, idle_ticks = 0, kernel_ticks = 0, thread_ticks = 0,
     thread_mlfqs = mlfqs, roundrobin = rr, fcfs = fc, sjf = sj, threads_print = True,
     total_ready_threads = 0, total_wait_time = 0, load_avg = 0, next_tid = 1, os_ticks = 0,
     intr = INTR_OFF, in_external_intr = False, yield_on_return = False,
     semas = (\<lambda>s. case s of Lock_sema l \<Rightarrow> \<lparr>sema_value = 1, waiters = []\<rparr>
                         | _ \<Rightarrow> \<lparr>sema_value = 0, waiters = []\<rparr>),
     holder = (\<lambda>_. NULL), conds = (\<lambda>_. []), free_pages = ps, inserting = NULL\<rparr>"

definition boot_ok :: "addr \<Rightarrow> addr list \<Rightarrow> bool" where
  "boot_ok m ps \<longleftrightarrow> m \<noteq> NULL \<and> m \<notin> set ps \<and> NULL \<notin> set ps \<and> distinct ps"

text \<open>The states the system can get into, from a boot under any of the schedulers.\<close>

inductive reachable :: "kernel \<Rightarrow> bool" where
  reachable_init: "boot_ok m ps \<Longrightarrow> thread_init (boot mlfqs rr fc sj m ps) = Some k \<Longrightarrow> reachable k"
| reachable_step: "reachable k \<Longrightarrow> step a k = Some k' \<Longrightarrow> reachable k'"

lemma reachable_run: "run as k = Some k' \<Longrightarrow> reachable k \<Longrightarrow> reachable k'"
  by (induction as arbitrary: k) (auto split: option.splits intro: reachable_step)

end
