(* ===== verification/Sched_Inv.thy ===== *)
theory Sched_Inv
  imports Kernel
begin

text \<open>
  The invariant of the scheduler and its preservation by every operation.  The parts are: the pages
  (\<open>inv_pages\<close>), the status of the threads and the run queue (\<open>inv_status\<close>), the wait lists
  (\<open>inv_waiters\<close>), the idle thread (\<open>inv_idle\<close>), the shape of the kernel stacks (\<open>inv_stacks\<close>), and the
  threads under creation (\<open>inv_newborn\<close>).

  Most operations only change the stack of the current thread (\<open>inv_same_ctl\<close>).  The ones that give up
  the processor go through a state with no running thread, from which \<open>schedule\<close> restores the
  invariant (\<open>schedule_inv\<close>).
\<close>

section \<open>Frame lemmas\<close>

lemmas opt_simps = ASSERT_bind_Some bind_eq_Some_conv Let_def

lemma upd_sel [simp]:
  "threads (upd t f k) = (threads k)(t := f (threads k t))"
  "cur (upd t f k) = cur k" "ready_list (upd t f k) = ready_list k"
  "all_list (upd t f k) = all_list k" "all_all_list (upd t f k) = all_all_list k"
  "wait_list (upd t f k) = wait_list k" "idle_thread (upd t f k) = idle_thread k"
  "initial_thread (upd t f k) = initial_thread k" "intr (upd t f k) = intr k"
  "in_external_intr (upd t f k) = in_external_intr k" "semas (upd t f k) = semas k"
  "holder (upd t f k) = holder k" "conds (upd t f k) = conds k" "free_pages (upd t f k) = free_pages k"
  "next_tid (upd t f k) = next_tid k" "os_ticks (upd t f k) = os_ticks k" "sjf (upd t f k) = sjf k"
  "yield_on_return (upd t f k) = yield_on_return k" "thread_ticks (upd t f k) = thread_ticks k"
  "load_avg (upd t f k) = load_avg k" "inserting (upd t f k) = inserting k"
  "roundrobin (upd t f k) = roundrobin k" "thread_mlfqs (upd t f k) = thread_mlfqs k"
  by (simp_all add: upd_def)

lemma upd_sema_sel [simp]:
  "semas (upd_sema s f k) = (semas k)(s := f (semas k s))"
  "threads (upd_sema s f k) = threads k"
  "cur (upd_sema s f k) = cur k" "ready_list (upd_sema s f k) = ready_list k"
  "all_list (upd_sema s f k) = all_list k" "all_all_list (upd_sema s f k) = all_all_list k"
  "wait_list (upd_sema s f k) = wait_list k" "idle_thread (upd_sema s f k) = idle_thread k"
  "initial_thread (upd_sema s f k) = initial_thread k" "intr (upd_sema s f k) = intr k"
  "in_external_intr (upd_sema s f k) = in_external_intr k"
  "holder (upd_sema s f k) = holder k" "conds (upd_sema s f k) = conds k"
  "free_pages (upd_sema s f k) = free_pages k" "next_tid (upd_sema s f k) = next_tid k"
  "os_ticks (upd_sema s f k) = os_ticks k" "sjf (upd_sema s f k) = sjf k"
  "yield_on_return (upd_sema s f k) = yield_on_return k" "inserting (upd_sema s f k) = inserting k"
  by (simp_all add: upd_sema_def)

text \<open>What the control structure of the kernel depends on.  The statistics and the order of the run queue are
  not part of it.\<close>

definition tcore :: "thread \<Rightarrow> thread_status \<times> kop list \<times> int \<times> int \<times> int \<times> int" where
  "tcore th = (status th, ops th, magic th, tid th, wakeup_time th, retval th)"

definition kcore where
  "kcore k = ((\<lambda>t. tcore (threads k t)), cur k, mset (ready_list k), all_list k, wait_list k, idle_thread k,
     initial_thread k, semas k, holder k, conds k, next_tid k, os_ticks k, free_pages k,
     intr k, in_external_intr k, inserting k)"

lemma kcore_eqD:
  assumes "kcore k' = kcore k"
  shows "status (threads k' t) = status (threads k t)" "ops (threads k' t) = ops (threads k t)"
    "magic (threads k' t) = magic (threads k t)" "tid (threads k' t) = tid (threads k t)"
    "wakeup_time (threads k' t) = wakeup_time (threads k t)"
    "retval (threads k' t) = retval (threads k t)"
    "cur k' = cur k" "mset (ready_list k') = mset (ready_list k)" "all_list k' = all_list k"
    "wait_list k' = wait_list k" "idle_thread k' = idle_thread k"
    "initial_thread k' = initial_thread k" "semas k' = semas k" "holder k' = holder k"
    "conds k' = conds k" "next_tid k' = next_tid k" "os_ticks k' = os_ticks k"
    "free_pages k' = free_pages k" "intr k' = intr k" "in_external_intr k' = in_external_intr k"
    "inserting k' = inserting k"
proof -
  have "tcore (threads k' t) = tcore (threads k t)"
    using assms unfolding kcore_def by (auto dest: fun_cong)
  then show "status (threads k' t) = status (threads k t)" "ops (threads k' t) = ops (threads k t)"
    "magic (threads k' t) = magic (threads k t)" "tid (threads k' t) = tid (threads k t)"
    "wakeup_time (threads k' t) = wakeup_time (threads k t)"
    "retval (threads k' t) = retval (threads k t)" by (simp_all add: tcore_def)
qed (use assms in \<open>auto simp: kcore_def\<close>)

lemma kcore_upd:
  assumes "tcore (f (threads k t)) = tcore (threads k t)"
  shows "kcore (upd t f k) = kcore k"
  using assms by (auto simp: kcore_def fun_eq_iff)

lemma kcore_upd_ready: "mset r = mset (ready_list k) \<Longrightarrow> kcore (k\<lparr>ready_list := r\<rparr>) = kcore k"
  by (simp add: kcore_def)

lemma kcore_fields [simp]:
  "kcore (k\<lparr>idle_ticks := a\<rparr>) = kcore k" "kcore (k\<lparr>kernel_ticks := a\<rparr>) = kcore k"
  "kcore (k\<lparr>thread_ticks := b\<rparr>) = kcore k" "kcore (k\<lparr>load_avg := a\<rparr>) = kcore k"
  "kcore (k\<lparr>total_wait_time := a\<rparr>) = kcore k" "kcore (k\<lparr>all_all_list := c\<rparr>) = kcore k"
  "kcore (k\<lparr>yield_on_return := d\<rparr>) = kcore k" "kcore (k\<lparr>threads_print := d\<rparr>) = kcore k"
  "kcore (k\<lparr>total_ready_threads := a\<rparr>) = kcore k"
  by (simp_all add: kcore_def)

lemma kcore_fold_opt:
  assumes "fold_opt f xs k = Some k'" "\<And>x k k'. f x k = Some k' \<Longrightarrow> kcore k' = kcore k"
  shows "kcore k' = kcore k"
  by (rule fold_opt_invariant [OF assms(1), where P = "\<lambda>k'. kcore k' = kcore k"]) (auto dest: assms(2))

lemma sort_ready_core [simp]: "kcore (sort_ready lt k) = kcore k"
  by (simp add: sort_ready_def kcore_upd_ready mset_nmsort)

lemma refresh_priority_thread_core: "refresh_priority_thread t k = Some k' \<Longrightarrow> kcore k' = kcore k"
  by (auto simp: refresh_priority_thread_def opt_simps tcore_def split: if_splits intro!: kcore_upd)

lemma refresh_priority_core: "refresh_priority k = Some k' \<Longrightarrow> kcore k' = kcore k"
  by (auto simp: refresh_priority_def opt_simps split: if_splits
      dest!: refresh_priority_thread_core kcore_fold_opt)

lemma refresh_cpu_core: "refresh_cpu t k = Some k' \<Longrightarrow> kcore k' = kcore k"
  by (auto simp: refresh_cpu_def opt_simps tcore_def split: if_splits intro!: kcore_upd)

lemma refresh_load_avg_core: "refresh_load_avg k = Some k' \<Longrightarrow> kcore k' = kcore k"
  by (auto simp: refresh_load_avg_def opt_simps)

lemma thread_foreach_core:
  "thread_foreach f k = Some k' \<Longrightarrow> (\<And>x k k'. f x k = Some k' \<Longrightarrow> kcore k' = kcore k) \<Longrightarrow> kcore k' = kcore k"
  by (auto simp: thread_foreach_def opt_simps dest: kcore_fold_opt)

lemma get_total_exec_core: "get_total_exec t k = (e, k') \<Longrightarrow> kcore k' = kcore k"
  by (auto simp: get_total_exec_def split: option.splits)

lemma get_total_exec_each_core: "get_total_exec_each t k = Some k' \<Longrightarrow> kcore k' = kcore k"
  by (auto simp: get_total_exec_each_def tcore_def Let_def split: prod.splits
      dest!: get_total_exec_core intro!: kcore_upd [THEN trans])

lemma calc_new_total_exec_core: "calc_new_total_exec old recent k = Some k' \<Longrightarrow> kcore k' = kcore k"
  by (auto simp: calc_new_total_exec_def opt_simps tcore_def split: if_splits intro!: kcore_upd)

lemma intr_yield_on_return_core: "intr_yield_on_return k = Some k' \<Longrightarrow> kcore k' = kcore k"
  by (auto simp: intr_yield_on_return_def opt_simps)

lemma thread_tick_mlfqs_core: "thread_tick_mlfqs t k = Some k' \<Longrightarrow> kcore k' = kcore k"
  unfolding thread_tick_mlfqs_def
  by (auto simp: opt_simps tcore_def kcore_upd split: if_splits list.splits
      dest!: refresh_load_avg_core refresh_priority_core intr_yield_on_return_core
        thread_foreach_core [OF _ refresh_cpu_core])

lemma thread_tick_core: "thread_tick k = Some k' \<Longrightarrow> kcore k' = kcore k"
  unfolding thread_tick_def
  by (auto simp: opt_simps tcore_def kcore_upd split: if_splits
      dest!: intr_yield_on_return_core thread_tick_mlfqs_core)

lemma schedule_rest_core: "schedule_rest nxt k = Some k' \<Longrightarrow> kcore k' = kcore k"
  by (auto simp: schedule_rest_def Let_def tcore_def kcore_upd)

lemma thread_set_priority_core: "thread_set_priority p k = Some k' \<Longrightarrow> kcore k' = kcore k"
  by (auto simp: thread_set_priority_def opt_simps tcore_def kcore_upd split: if_splits
      dest!: refresh_priority_core)

lemma thread_set_nice_core: "thread_set_nice p k = Some k' \<Longrightarrow> kcore k' = kcore k"
  by (auto simp: thread_set_nice_def opt_simps tcore_def kcore_upd split: if_splits
      dest!: refresh_priority_core)

lemma setBound_core: "kcore (setBound b k) = kcore k"
  by (simp add: setBound_def kcore_upd tcore_def)

section \<open>The shape of a kernel stack\<close>

text \<open>What the idle thread can have on top of its loop.\<close>

fun idle_op :: "kop \<Rightarrow> bool" where
  "idle_op (Sema_up _) = True"
| "idle_op (Intr_set_level _) = True"
| "idle_op Thread_block = True"
| "idle_op Thread_yield = True"
| "idle_op Sti_hlt = True"
| "idle_op (Schedule_rest _) = True"
| "idle_op Interrupt_return = True"
| "idle_op _ = False"

definition inert :: "kop list \<Rightarrow> bool" where
  "inert xs \<longleftrightarrow> set xs \<subseteq> {Run_function, Thread_exit}"

fun lock_next :: "sema_ref \<Rightarrow> kop list \<Rightarrow> bool" where
  "lock_next (Lock_sema l) xs = (xs \<noteq> [] \<and> hd xs = Set_holder l)"
| "lock_next _ xs = True"

text \<open>
  The semaphores that may be initialized, tried and raised by name: not those inside locks, and not the
  \<open>timer_sema\<close> of a thread, which only the timer interrupt raises.
\<close>

fun may_init :: "sema_ref \<Rightarrow> bool" where
  "may_init (Sema n) = True"
| "may_init (Idle_started t) = True"
| "may_init _ = False"

fun may_up :: "sema_ref \<Rightarrow> bool" where
  "may_up (Timer_sema t) = False"
| "may_up _ = True"

fun fn_ok :: "thread_fn \<Rightarrow> bool" where
  "fn_ok (Fn_idle s) = may_init s"
| "fn_ok Fn_user = True"

text \<open>Below a call there is neither the idle loop nor a \<open>sema_down\<close> under way.\<close>

fun is_down_loop :: "kop \<Rightarrow> bool" where
  "is_down_loop (Sema_down_loop s lv) = True"
| "is_down_loop c = False"

definition calm :: "kop list \<Rightarrow> bool" where
  "calm xs \<longleftrightarrow> Idle_loop \<notin> set xs \<and> (\<forall>c\<in>set xs. \<not> is_down_loop c)"

lemma calm_simps [simp]: "calm []" "calm (c # xs) \<longleftrightarrow> c \<noteq> Idle_loop \<and> \<not> is_down_loop c \<and> calm xs"
  by (auto simp: calm_def)

lemma calm_no_loop: "calm xs \<Longrightarrow> Idle_loop \<notin> set xs"
  by (simp add: calm_def)

text \<open>What may be below an operation on the stack.\<close>

fun wf_next :: "kop \<Rightarrow> kop list \<Rightarrow> bool" where
  "wf_next Thread_exit xs = inert xs"
| "wf_next Run_function xs = inert xs"
| "wf_next (Kernel_thread fn) xs = (xs = [] \<and> fn_ok fn)"
| "wf_next (Idle_body s) xs = (xs = [Thread_exit] \<and> may_init s)"
| "wf_next (Thread_create nm pri fn) xs = (calm xs \<and> fn_ok fn)"
| "wf_next (Create_rest t fn) xs = (calm xs \<and> fn_ok fn)"
| "wf_next (Sema_init s v) xs = (calm xs \<and> may_init s)"
| "wf_next (Sema_try_down s) xs = (calm xs \<and> may_init s)"
| "wf_next (Sema_up s) xs = may_up s"
| "wf_next Idle_loop xs = (xs = [Thread_exit])"
| "wf_next (Sema_down s) xs = (calm xs \<and> lock_next s xs)"
| "wf_next (Sema_down_loop s _) xs = (calm xs \<and> lock_next s xs)"
| "wf_next (Timer_sleep n) xs = inert xs"
| "wf_next Sleep_insert xs = inert xs"
| "wf_next Sleep_link xs = inert xs"
| "wf_next Tid_load xs = (calm xs \<and> (\<exists>ys. xs = Tid_store # Lock_release tid_lock # ys))"
| "wf_next Tid_store xs = (calm xs \<and> (\<exists>ys. xs = Lock_release tid_lock # ys))"
| "wf_next c xs = (idle_op c \<or> calm xs)"

fun wf_ops :: "kop list \<Rightarrow> bool" where
  "wf_ops [] = True"
| "wf_ops (c # xs) = (wf_next c xs \<and> wf_ops xs)"

text \<open>The threads that a stack is still going to put on the run queue for the first time.\<close>

fun newborn :: "kop \<Rightarrow> addr list" where
  "newborn (Create_rest t _) = [t]"
| "newborn (Thread_unblock t) = [t]"
| "newborn _ = []"

definition newborns :: "kop list \<Rightarrow> addr list" where
  "newborns xs = concat (map newborn xs)"

lemma newborns_simps [simp]:
  "newborns [] = []" "newborns (c # xs) = newborn c @ newborns xs"
  "newborns (xs @ ys) = newborns xs @ newborns ys"
  by (simp_all add: newborns_def)

definition unborn :: "kop list \<Rightarrow> bool" where
  "unborn xs \<longleftrightarrow> xs = [] \<or> (\<exists>fn. xs = [Kernel_thread fn])"

lemma inert_simps [simp]: "inert []" "inert (c # xs) \<longleftrightarrow> (c = Run_function \<or> c = Thread_exit) \<and> inert xs"
  by (auto simp: inert_def)

lemma inert_calm: "inert xs \<Longrightarrow> calm xs"
  by (auto simp: inert_def calm_def)

lemma inert_no_loop: "inert xs \<Longrightarrow> Idle_loop \<notin> set xs"
  by (auto simp: inert_def)

lemma inert_newborns: "inert xs \<Longrightarrow> newborns xs = []"
  by (induction xs) auto

section \<open>The invariant\<close>

definition inv_pages :: "kernel \<Rightarrow> bool" where
  "inv_pages k \<longleftrightarrow> distinct (all_list k) \<and> NULL \<notin> set (all_list k) \<and>
     (\<forall>t\<in>set (all_list k). magic (threads k t) = THREAD_MAGIC) \<and>
     distinct (free_pages k) \<and> NULL \<notin> set (free_pages k) \<and> set (free_pages k) \<inter> set (all_list k) = {} \<and>
     cur k \<notin> set (free_pages k) \<and> initial_thread k \<notin> set (free_pages k)"

definition inv_status :: "addr set \<Rightarrow> kernel \<Rightarrow> bool" where
  "inv_status R k \<longleftrightarrow>
     (\<forall>t\<in>set (all_list k). status (threads k t) = THREAD_RUNNING \<longleftrightarrow> t \<in> R) \<and>
     R \<subseteq> set (all_list k) \<and> distinct (ready_list k) \<and>
     (\<forall>t\<in>set (ready_list k). t \<in> set (all_list k) \<and> status (threads k t) = THREAD_READY) \<and>
     (\<forall>t\<in>set (all_list k). status (threads k t) = THREAD_READY \<longrightarrow>
        t \<in> set (ready_list k) \<or> Idle_loop \<in> set (ops (threads k t)))"

definition inv_waiters :: "kernel \<Rightarrow> bool" where
  "inv_waiters k \<longleftrightarrow> (\<forall>s. distinct (waiters (semas k s))) \<and>
     (\<forall>s. \<forall>t\<in>set (waiters (semas k s)). t \<in> set (all_list k) \<and>
        status (threads k t) = THREAD_BLOCKED \<and> Idle_loop \<notin> set (ops (threads k t))) \<and>
     (\<forall>s s' t. t \<in> set (waiters (semas k s)) \<longrightarrow> t \<in> set (waiters (semas k s')) \<longrightarrow> s = s')"

definition inv_idle :: "kernel \<Rightarrow> bool" where
  "inv_idle k \<longleftrightarrow> idle_thread k \<noteq> NULL \<longrightarrow>
     idle_thread k \<in> set (all_list k) \<and> idle_thread k \<notin> set (ready_list k) \<and>
     Idle_loop \<in> set (ops (threads k (idle_thread k)))"

definition inv_stacks :: "kernel \<Rightarrow> bool" where
  "inv_stacks k \<longleftrightarrow> (\<forall>t\<in>set (all_list k). wf_ops (ops (threads k t)))"

definition inv_newborn :: "kernel \<Rightarrow> bool" where
  "inv_newborn k \<longleftrightarrow> (\<forall>u\<in>set (all_list k).
     distinct (newborns (ops (threads k u))) \<and>
     (\<forall>t\<in>set (newborns (ops (threads k u))). t \<in> set (all_list k) \<and> t \<noteq> cur k \<and>
        status (threads k t) = THREAD_BLOCKED \<and> (\<forall>s. t \<notin> set (waiters (semas k s))) \<and>
        unborn (ops (threads k t))) \<and>
     (\<forall>u'\<in>set (all_list k). u \<noteq> u' \<longrightarrow>
        set (newborns (ops (threads k u))) \<inter> set (newborns (ops (threads k u'))) = {}))"

text \<open>
  \<open>R\<close> is the set of threads that may have the status \<open>THREAD_RUNNING\<close>: the current one between two
  operations, none inside an operation that is about to call \<open>schedule\<close>.
\<close>

definition sched_inv :: "addr set \<Rightarrow> kernel \<Rightarrow> bool" where
  "sched_inv R k \<longleftrightarrow> inv_pages k \<and> inv_status R k \<and> inv_waiters k \<and> inv_idle k \<and> inv_stacks k \<and> inv_newborn k"

lemmas sched_inv_defs = sched_inv_def inv_pages_def inv_status_def inv_waiters_def inv_idle_def
  inv_stacks_def inv_newborn_def

text \<open>Changes that leave the control state of all threads but the stack of the current one.\<close>

definition same_ctl :: "kernel \<Rightarrow> kernel \<Rightarrow> bool" where
  "same_ctl k k' \<longleftrightarrow> cur k' = cur k \<and> mset (ready_list k') = mset (ready_list k) \<and> all_list k' = all_list k \<and>
     idle_thread k' = idle_thread k \<and> initial_thread k' = initial_thread k \<and> free_pages k' = free_pages k \<and>
     (\<forall>s. waiters (semas k' s) = waiters (semas k s) \<or> waiters (semas k' s) = [] \<or>
        waiters (semas k' s) = tl (waiters (semas k s))) \<and>
     (\<forall>t. status (threads k' t) = status (threads k t) \<and> magic (threads k' t) = magic (threads k t)) \<and>
     (\<forall>t. t \<noteq> cur k \<longrightarrow> ops (threads k' t) = ops (threads k t))"

lemma same_ctlD:
  assumes "same_ctl k k'"
  shows "cur k' = cur k" "all_list k' = all_list k" "idle_thread k' = idle_thread k"
    "initial_thread k' = initial_thread k" "free_pages k' = free_pages k"
    "set (ready_list k') = set (ready_list k)" "distinct (ready_list k') = distinct (ready_list k)"
    "status (threads k' t) = status (threads k t)" "magic (threads k' t) = magic (threads k t)"
    "t \<noteq> cur k \<Longrightarrow> ops (threads k' t) = ops (threads k t)"
  using assms mset_eq_setD [of "ready_list k'" "ready_list k"]
    mset_eq_imp_distinct_iff [of "ready_list k'" "ready_list k"]
  unfolding same_ctl_def by simp_all

lemma same_ctl_waiters:
  assumes "same_ctl k k'"
  shows "t \<in> set (waiters (semas k' s)) \<Longrightarrow> t \<in> set (waiters (semas k s))"
    and "distinct (waiters (semas k s)) \<Longrightarrow> distinct (waiters (semas k' s))"
proof -
  have "waiters (semas k' s) = waiters (semas k s) \<or> waiters (semas k' s) = [] \<or>
      waiters (semas k' s) = tl (waiters (semas k s))"
    using assms by (simp add: same_ctl_def)
  then show "t \<in> set (waiters (semas k' s)) \<Longrightarrow> t \<in> set (waiters (semas k s))"
    and "distinct (waiters (semas k s)) \<Longrightarrow> distinct (waiters (semas k' s))"
    by (cases "waiters (semas k s)"; auto)+
qed

lemma inv_statusD:
  assumes "inv_status R k"
  shows "t \<in> set (all_list k) \<Longrightarrow> status (threads k t) = THREAD_RUNNING \<longleftrightarrow> t \<in> R"
    and "R \<subseteq> set (all_list k)" and "distinct (ready_list k)"
    and "t \<in> set (ready_list k) \<Longrightarrow> t \<in> set (all_list k) \<and> status (threads k t) = THREAD_READY"
    and "t \<in> set (all_list k) \<Longrightarrow> status (threads k t) = THREAD_READY \<Longrightarrow>
        t \<in> set (ready_list k) \<or> Idle_loop \<in> set (ops (threads k t))"
  using assms by (simp_all add: inv_status_def)

lemma inv_waitersD:
  assumes "inv_waiters k"
  shows "distinct (waiters (semas k s))"
    and "t \<in> set (waiters (semas k s)) \<Longrightarrow> t \<in> set (all_list k) \<and>
        status (threads k t) = THREAD_BLOCKED \<and> Idle_loop \<notin> set (ops (threads k t))"
    and "t \<in> set (waiters (semas k s)) \<Longrightarrow> t \<in> set (waiters (semas k s')) \<Longrightarrow> s = s'"
  using assms unfolding inv_waiters_def by blast+

lemma inv_newbornD:
  assumes "inv_newborn k" "u \<in> set (all_list k)"
  shows "distinct (newborns (ops (threads k u)))"
    and "t \<in> set (newborns (ops (threads k u))) \<Longrightarrow> t \<in> set (all_list k) \<and> t \<noteq> cur k \<and>
        status (threads k t) = THREAD_BLOCKED \<and> (\<forall>s. t \<notin> set (waiters (semas k s))) \<and>
        unborn (ops (threads k t))"
    and "u' \<in> set (all_list k) \<Longrightarrow> u \<noteq> u' \<Longrightarrow>
        set (newborns (ops (threads k u))) \<inter> set (newborns (ops (threads k u'))) = {}"
  using bspec [OF assms(1) [unfolded inv_newborn_def] assms(2)] by simp_all

lemma inv_pages_ctl: "inv_pages k \<Longrightarrow> same_ctl k k' \<Longrightarrow> inv_pages k'"
  unfolding inv_pages_def by (simp add: same_ctlD [of k k'])

lemma inv_status_ctl:
  assumes "inv_status {cur k} k" "same_ctl k k'"
  shows "inv_status {cur k'} k'"
proof -
  note st = inv_statusD [OF assms(1)]
  note c = same_ctlD [OF assms(2)]
  have "t \<in> set (ready_list k) \<or> Idle_loop \<in> set (ops (threads k' t))"
    if "t \<in> set (all_list k)" "status (threads k t) = THREAD_READY" for t
    using st(5) [OF that] st(1) [OF that(1)] that(2) c(10) [of t] by force
  then show ?thesis using st(1-4) by (simp add: inv_status_def c(1-9))
qed

lemma inv_waiters_ctl:
  assumes "inv_waiters k" "same_ctl k k'" "inv_status {cur k} k"
  shows "inv_waiters k'"
proof -
  note c = same_ctlD [OF assms(2)]
  note w = same_ctl_waiters [OF assms(2)]
  have "t \<in> set (all_list k) \<and> status (threads k t) = THREAD_BLOCKED \<and>
      Idle_loop \<notin> set (ops (threads k' t))" if "t \<in> set (waiters (semas k' s))" for s t
    using inv_waitersD(2) [OF assms(1) w(1) [OF that]] inv_statusD(1) [OF assms(3), of t] c(10) [of t]
    by force
  moreover have "s = s'" if "t \<in> set (waiters (semas k' s))" "t \<in> set (waiters (semas k' s'))" for s s' t
    by (rule inv_waitersD(3) [OF assms(1) w(1) [OF that(1)] w(1) [OF that(2)]])
  moreover have "distinct (waiters (semas k' s))" for s
    by (rule w(2) [OF inv_waitersD(1) [OF assms(1)]])
  ultimately show ?thesis unfolding inv_waiters_def c(2,8) by blast
qed

lemma inv_newborn_ctl:
  assumes "inv_newborn k" "same_ctl k k'"
    and wf: "distinct (newborns (ops (threads k' (cur k))))"
    and sub: "set (newborns (ops (threads k' (cur k)))) \<subseteq> set (newborns (ops (threads k (cur k))))"
  shows "inv_newborn k'"
proof -
  note c = same_ctlD [OF assms(2)]
  note old = inv_newbornD [OF assms(1)]
  have nb: "set (newborns (ops (threads k' u))) \<subseteq> set (newborns (ops (threads k u)))" for u
    using sub c(10) [of u] by (cases "u = cur k") auto
  have "distinct (newborns (ops (threads k' u)))" if "u \<in> set (all_list k)" for u
    using wf c(10) [of u] old(1) [OF that] by (cases "u = cur k") auto
  moreover have "t \<in> set (all_list k) \<and> t \<noteq> cur k \<and> status (threads k t) = THREAD_BLOCKED \<and>
      (\<forall>s. t \<notin> set (waiters (semas k' s))) \<and> unborn (ops (threads k' t))"
    if "u \<in> set (all_list k)" "t \<in> set (newborns (ops (threads k' u)))" for u t
    using old(2) [OF that(1), of t] that(2) nb [of u] same_ctl_waiters(1) [OF assms(2), of t] c(10) [of t]
    by auto
  moreover have "set (newborns (ops (threads k' u))) \<inter> set (newborns (ops (threads k' u'))) = {}"
    if "u \<in> set (all_list k)" "u' \<in> set (all_list k)" "u \<noteq> u'" for u u'
    using old(3) [OF that] nb [of u] nb [of u'] by blast
  ultimately show ?thesis unfolding inv_newborn_def c(1,2,8) by blast
qed

lemma inv_same_ctl:
  assumes inv: "sched_inv {cur k} k" and ctl: "same_ctl k k'"
    and wf: "wf_ops (ops (threads k' (cur k)))" "distinct (newborns (ops (threads k' (cur k))))"
    and sub: "set (newborns (ops (threads k' (cur k)))) \<subseteq> set (newborns (ops (threads k (cur k))))"
    and idl: "cur k = idle_thread k \<Longrightarrow> Idle_loop \<in> set (ops (threads k' (cur k)))"
  shows "sched_inv {cur k'} k'"
proof -
  note c = same_ctlD [OF ctl]
  have "inv_idle k'"
    using inv idl c(10) [of "idle_thread k"]
    by (cases "idle_thread k = cur k") (auto simp: sched_inv_def inv_idle_def c(1-9))
  moreover have "wf_ops (ops (threads k' t))" if "t \<in> set (all_list k)" for t
    using inv wf(1) c(10) [of t] that by (cases "t = cur k") (auto simp: sched_inv_def inv_stacks_def)
  then have "inv_stacks k'" by (simp add: inv_stacks_def c(2))
  ultimately show ?thesis
    using inv inv_pages_ctl [OF _ ctl] inv_status_ctl [OF _ ctl] inv_waiters_ctl [OF _ ctl]
      inv_newborn_ctl [OF _ ctl wf(2) sub]
    by (simp add: sched_inv_def)
qed

section \<open>Operations that only work on the current stack\<close>

definition simple_step :: "kernel \<Rightarrow> kop \<Rightarrow> kop list \<Rightarrow> kop list \<Rightarrow> kernel \<Rightarrow> bool" where
  "simple_step k c rest xs k' \<longleftrightarrow> same_ctl k k' \<and> ops (threads k' (cur k)) = xs @ rest \<and> newborns xs = []"

lemma inv_simple_step:
  assumes inv: "sched_inv {cur k} k" and ops: "ops (threads k (cur k)) = c # rest"
    and st: "simple_step k c rest xs k'" and wf: "wf_next c rest \<Longrightarrow> wf_ops rest \<Longrightarrow> wf_ops (xs @ rest)"
    and il: "c = Idle_loop \<Longrightarrow> Idle_loop \<in> set xs"
  shows "sched_inv {cur k'} k'"
proof (rule inv_same_ctl [OF inv])
  have "cur k \<in> set (all_list k)" using inv by (simp add: sched_inv_def inv_status_def)
  then have w: "wf_next c rest" "wf_ops rest" "distinct (newborns (c # rest))"
    using inv ops by (auto simp: sched_inv_def inv_stacks_def inv_newborn_def dest!: bspec)
  show "same_ctl k k'" "wf_ops (ops (threads k' (cur k)))"
    using st wf [OF w(1,2)] by (simp_all add: simple_step_def)
  show "distinct (newborns (ops (threads k' (cur k))))"
    "set (newborns (ops (threads k' (cur k)))) \<subseteq> set (newborns (ops (threads k (cur k))))"
    using st w(3) ops by (auto simp: simple_step_def)
  assume "cur k = idle_thread k"
  with inv have "Idle_loop \<in> set (ops (threads k (cur k)))"
    by (auto simp: sched_inv_def inv_idle_def inv_status_def inv_pages_def)
  then show "Idle_loop \<in> set (ops (threads k' (cur k)))"
    using st ops il by (auto simp: simple_step_def)
qed

lemma pop_op_sel [simp]:
  "threads (pop_op k) = (threads k)(cur k := (threads k (cur k))\<lparr>ops := tl (ops (threads k (cur k)))\<rparr>)"
  "cur (pop_op k) = cur k" "ready_list (pop_op k) = ready_list k"
  "all_list (pop_op k) = all_list k" "all_all_list (pop_op k) = all_all_list k"
  "wait_list (pop_op k) = wait_list k" "idle_thread (pop_op k) = idle_thread k"
  "initial_thread (pop_op k) = initial_thread k" "intr (pop_op k) = intr k"
  "in_external_intr (pop_op k) = in_external_intr k" "semas (pop_op k) = semas k"
  "holder (pop_op k) = holder k" "conds (pop_op k) = conds k" "free_pages (pop_op k) = free_pages k"
  "next_tid (pop_op k) = next_tid k" "os_ticks (pop_op k) = os_ticks k" "sjf (pop_op k) = sjf k"
  "inserting (pop_op k) = inserting k"
  by (simp_all add: pop_op_def)

lemma push_ops_sel [simp]:
  "threads (push_ops t xs k) = (threads k)(t := (threads k t)\<lparr>ops := xs @ ops (threads k t)\<rparr>)"
  "cur (push_ops t xs k) = cur k" "ready_list (push_ops t xs k) = ready_list k"
  "all_list (push_ops t xs k) = all_list k" "all_all_list (push_ops t xs k) = all_all_list k"
  "wait_list (push_ops t xs k) = wait_list k" "idle_thread (push_ops t xs k) = idle_thread k"
  "initial_thread (push_ops t xs k) = initial_thread k" "intr (push_ops t xs k) = intr k"
  "in_external_intr (push_ops t xs k) = in_external_intr k" "semas (push_ops t xs k) = semas k"
  "holder (push_ops t xs k) = holder k" "conds (push_ops t xs k) = conds k"
  "free_pages (push_ops t xs k) = free_pages k"
  "next_tid (push_ops t xs k) = next_tid k" "os_ticks (push_ops t xs k) = os_ticks k"
  "sjf (push_ops t xs k) = sjf k" "yield_on_return (push_ops t xs k) = yield_on_return k"
  "inserting (push_ops t xs k) = inserting k"
  by (simp_all add: push_ops_def)

lemma simple_core:
  assumes "kcore k' = kcore (pop_op k)" "ops (threads k (cur k)) = c # rest"
  shows "simple_step k c rest [] k'"
  using kcore_eqD [OF assms(1)] assms(2) by (simp add: simple_step_def same_ctl_def)

text \<open>The calls and remainders that neither switch threads nor wake one up, and what they push.\<close>

inductive pushes :: "kop \<Rightarrow> kop list \<Rightarrow> bool" where
  "pushes Thread_start [Sema_init (Idle_started t) 0, Thread_create ''idle'' PRI_MIN (Fn_idle (Idle_started t)),
      Intr_set_level INTR_ON, Sema_down (Idle_started t)]"
| "pushes (Thread_set_priority p) []"
| "pushes (Thread_set_nice n) []"
| "pushes (Set_bound b) []"
| "pushes (Intr_set_level lv) []"
| "pushes (Sema_init s v) []"
| "pushes (Sema_down s) [Sema_down_loop s lv]"
| "pushes (Sema_down_loop s lv) []"
| "pushes (Sema_try_down s) []"
| "pushes (Lock_acquire l) [Sema_down (Lock_sema l), Set_holder l]"
| "pushes (Lock_try_acquire l) [Set_holder l, Return 1]"
| "pushes (Lock_try_acquire l) [Return 0]"
| "pushes (Lock_release l) [Sema_up (Lock_sema l)]"
| "pushes (Cond_wait c l) [Lock_release l, Sema_down (Waiter_sema t), Lock_acquire l]"
| "pushes (Cond_signal c l) []"
| "pushes (Cond_signal c l) [Sema_up (Waiter_sema t)]"
| "pushes (Cond_broadcast c l) [Cond_signal c l, Cond_broadcast c l]"
| "pushes (Cond_broadcast c l) []"
| "pushes (Timer_sleep n) []"
| "pushes (Timer_sleep n) [Sleep_insert]"
| "pushes Sleep_insert [Sleep_link]"
| "pushes Sleep_link [Sema_down (Timer_sema t)]"
| "pushes Allocate_tid [Lock_acquire tid_lock, Tid_load, Tid_store, Lock_release tid_lock]"
| "pushes (Kernel_thread (Fn_idle s)) [Idle_body s, Thread_exit]"
| "pushes (Kernel_thread Fn_user) [Run_function, Thread_exit]"
| "pushes Idle_loop [Intr_set_level INTR_OFF, Thread_block, Sti_hlt, Idle_loop]"
| "pushes Sti_hlt []"
| "pushes (Schedule_rest nxt) []"
| "pushes Interrupt_return []"
| "pushes Tid_load []"
| "pushes Tid_store []"
| "pushes (Set_tid t) []"
| "pushes (Set_holder l) []"
| "pushes (Return v) []"
| "pushes (Sema_up s) []"
| "pushes (Thread_create nm pri fn) []"

lemma pushes_wf: "pushes c xs \<Longrightarrow> wf_next c rest \<Longrightarrow> wf_ops rest \<Longrightarrow> wf_ops (xs @ rest)"
  by (induction rule: pushes.induct) (auto simp: tid_lock_def inert_calm)

lemma pushes_newborns: "pushes c xs \<Longrightarrow> newborns xs = []"
  by (induction rule: pushes.induct) auto

lemma pushes_idle: "pushes Idle_loop xs \<Longrightarrow> Idle_loop \<in> set xs"
  by (auto elim: pushes.cases)

lemma intr_set_level_Some:
  "intr_set_level lv k = Some k' \<longleftrightarrow> k' = k\<lparr>intr := lv\<rparr> \<and> (lv = INTR_ON \<longrightarrow> \<not> in_external_intr k)"
  by (cases lv) (auto simp: intr_set_level_def intr_enable_def intr_disable_def intr_context_def opt_simps)

lemmas synch_defs = sema_init_def sema_down_def sema_down_loop_def sema_try_down_def sema_up_def
  lock_held_by_current_thread_def lock_acquire_def set_holder_def lock_try_acquire_def lock_release_def
  cond_wait_def cond_signal_def cond_broadcast_def

fun simple :: "kernel \<Rightarrow> kop \<Rightarrow> bool" where
  "simple k Thread_block = False"
| "simple k (Thread_unblock t) = False"
| "simple k Thread_yield = False"
| "simple k Thread_exit = False"
| "simple k (Idle_body s) = False"
| "simple k (Create_rest t fn) = False"
| "simple k (Thread_create nm pri fn) = (free_pages k = [])"
| "simple k (Sema_down_loop s lv) = (sema_value (semas k s) \<noteq> 0)"
| "simple k (Sema_up s) = (waiters (semas k s) = [])"
| "simple k _ = True"

lemmas ctl_simps = simple_step_def same_ctl_def opt_simps intr_set_level_Some intr_get_level_def
  intr_disable_def set_retval_def thread_current_def running_thread_def

lemma exec_pushes:
  assumes "exec c (pop_op k) = Some k'" "ops (threads k (cur k)) = c # rest" "simple k c" "0 \<notin> set (free_pages k)"
  shows "\<exists>xs. pushes c xs \<and> simple_step k c rest xs k'"
proof (cases c)
  case Thread_start
  then show ?thesis using assms by (auto simp: ctl_simps thread_start_def intro: pushes.intros)
next
  case (Thread_set_priority p)
  then show ?thesis using assms
    by (auto intro: pushes.intros dest!: thread_set_priority_core simple_core)
next
  case (Thread_set_nice p)
  then show ?thesis using assms
    by (auto intro: pushes.intros dest!: thread_set_nice_core simple_core)
next
  case (Set_bound b)
  then show ?thesis using assms simple_core [OF setBound_core assms(2)]
    by (auto intro: pushes.intros)
next
  case (Schedule_rest b)
  then show ?thesis using assms
    by (auto intro: pushes.intros dest!: schedule_rest_core simple_core)
next
  case (Lock_try_acquire l)
  then show ?thesis using assms
    by (auto simp: ctl_simps synch_defs split: if_splits intro: pushes.intros)
next
  case (Thread_create nm pri fn)
  then show ?thesis using assms
    by (auto simp: ctl_simps thread_create_def palloc_get_page_def intro: pushes.intros)
next
  case (Cond_signal c l)
  then show ?thesis using assms
    by (auto simp: ctl_simps synch_defs split: list.splits if_splits intro: pushes.intros)
next
  case (Cond_broadcast c l)
  then show ?thesis using assms
    by (auto simp: ctl_simps synch_defs split: list.splits if_splits intro: pushes.intros)
next
  case (Timer_sleep n)
  then show ?thesis using assms
    by (auto simp: ctl_simps timer_sleep_def split: list.splits if_splits intro: pushes.intros)
next
  case (Kernel_thread fn)
  then show ?thesis using assms
    by (cases fn) (auto simp: ctl_simps kernel_thread_def intr_enable_def  intro: pushes.intros)
qed (use assms in \<open>auto simp: ctl_simps synch_defs allocate_tid_def idle_loop_def tid_load_def
       tid_store_def set_tid_def sleep_insert_def sleep_link_def split: if_splits intro: pushes.intros\<close>)

section \<open>The context switch\<close>

definition frees_cur :: "kernel \<Rightarrow> addr \<Rightarrow> bool" where
  "frees_cur k nxt \<longleftrightarrow> cur k \<noteq> nxt \<and> cur k \<noteq> NULL \<and> status (threads k (cur k)) = THREAD_DYING \<and>
     cur k \<noteq> initial_thread k \<and> \<not> sjf k"

lemma schedule_Some:
  assumes "schedule k = Some k'"
  obtains nxt T F where
    "k' = k\<lparr>threads := T, cur := nxt, ready_list := tl (ready_list k), thread_ticks := 0, free_pages := F\<rparr>"
    "nxt = (if ready_list k = [] then idle_thread k else hd (ready_list k))"
    "is_thread k nxt" "intr k = INTR_OFF" "status (threads k (cur k)) \<noteq> THREAD_RUNNING"
    "F = (if frees_cur k nxt then insort (cur k) (free_pages k) else free_pages k)"
    "\<And>t. status (T t) = (if t = nxt then THREAD_RUNNING else status (threads k t))"
    "\<And>t. t \<noteq> cur k \<Longrightarrow> tcore ((T t)\<lparr>status := u\<rparr>) = tcore ((threads k t)\<lparr>status := u\<rparr>)"
    "\<not> frees_cur k nxt \<Longrightarrow> ops (T (cur k)) = Schedule_rest nxt # ops (threads k (cur k)) \<and>
       tcore ((T (cur k))\<lparr>status := u, ops := v\<rparr>) = tcore ((threads k (cur k))\<lparr>status := u, ops := v\<rparr>)"
proof -
  define nxt where "nxt = (if ready_list k = [] then idle_thread k else hd (ready_list k))"
  have n: "next_thread_to_run k = (nxt, k\<lparr>ready_list := tl (ready_list k)\<rparr>)"
    by (auto simp: next_thread_to_run_def nxt_def split: list.splits)
  show ?thesis
    using assms
    by (intro that [where T = "threads k'" and nxt = nxt and F = "free_pages k'"])
      (auto simp: schedule_def n thread_schedule_tail_def opt_simps running_thread_def
        frees_cur_def tcore_def palloc_free_page_def is_thread_def intr_get_level_def nxt_def [symmetric] upd_def push_ops_def
        split: if_splits)
qed

text \<open>\<open>schedule\<close> re-establishes that exactly the current thread is running.\<close>

lemma schedule_inv:
  assumes inv: "sched_inv {} k" and sch: "schedule k = Some k'"
    and dying: "status (threads k (cur k)) = THREAD_DYING \<Longrightarrow> cur k \<notin> set (all_list k)"
  shows "sched_inv {cur k'} k'"
proof -
  obtain nxt T F where
    k': "k' = k\<lparr>threads := T, cur := nxt, ready_list := tl (ready_list k), thread_ticks := 0, free_pages := F\<rparr>"
    and nxt: "nxt = (if ready_list k = [] then idle_thread k else hd (ready_list k))"
    and thr: "is_thread k nxt"
    and F: "F = (if frees_cur k nxt then insort (cur k) (free_pages k) else free_pages k)"
    and st: "\<And>t. status (T t) = (if t = nxt then THREAD_RUNNING else status (threads k t))"
    and oth: "\<And>t. t \<noteq> cur k \<Longrightarrow> tcore ((T t)\<lparr>status := THREAD_READY\<rparr>) = tcore ((threads k t)\<lparr>status := THREAD_READY\<rparr>)"
    and own: "\<not> frees_cur k nxt \<Longrightarrow> ops (T (cur k)) = Schedule_rest nxt # ops (threads k (cur k)) \<and>
       tcore ((T (cur k))\<lparr>status := THREAD_READY, ops := []\<rparr>) = tcore ((threads k (cur k))\<lparr>status := THREAD_READY, ops := []\<rparr>)"
    by (rule schedule_Some [OF sch, of THREAD_READY "[]"]) blast
  note st0 = inv_statusD [OF inv [unfolded sched_inv_def, THEN conjunct2, THEN conjunct1]]
  have nf: "\<not> frees_cur k nxt" if "cur k \<in> set (all_list k)"
    using dying that by (auto simp: frees_cur_def)
  have ops: "ops (T t) = (if t = cur k then Schedule_rest nxt # ops (threads k t) else ops (threads k t))"
    and magic: "magic (T t) = magic (threads k t)" if "t \<in> set (all_list k)" for t
    using oth [of t] own nf that by (auto simp: tcore_def)
  have nb: "newborns (ops (T t)) = newborns (ops (threads k t))" and
    il: "Idle_loop \<in> set (ops (T t)) \<longleftrightarrow> Idle_loop \<in> set (ops (threads k t))" and
    wf: "wf_ops (ops (T t)) \<longleftrightarrow> wf_ops (ops (threads k t))" if "t \<in> set (all_list k)" for t
    using ops [OF that] by auto
  have nxt_all: "nxt \<in> set (all_list k)"
    and nxt_st: "Idle_loop \<in> set (ops (threads k nxt)) \<or> status (threads k nxt) = THREAD_READY"
    using nxt thr inv st0(4) [of nxt]
    by (auto simp: is_thread_def sched_inv_def inv_idle_def split: if_splits)
  have tl: "t \<in> set (tl (ready_list k)) \<longleftrightarrow> t \<in> set (ready_list k) \<and> t \<noteq> nxt" "distinct (tl (ready_list k))" for t
    using nxt st0(3) inv thr
    by (cases "ready_list k"; auto simp: sched_inv_def inv_idle_def is_thread_def distinct_tl)+
  have wnxt: "nxt \<notin> set (waiters (semas k s))" for s
    using inv_waitersD(2) [of k nxt s] inv nxt_st by (auto simp: sched_inv_def)
  have nbnxt: "nxt \<notin> set (newborns (ops (threads k u)))" if "u \<in> set (all_list k)" for u
    using inv_newbornD(2) [of k u nxt] inv that nxt_st by (auto simp: sched_inv_def unborn_def)
  have "inv_pages k'"
    using inv magic nxt_all dying
    by (auto simp: sched_inv_def inv_pages_def k' F frees_cur_def set_insort_key distinct_insort)
  moreover have "inv_status {cur k'} k'"
    using st0 st tl nxt_all il by (auto simp: inv_status_def k')
  moreover have "inv_waiters k'"
    using inv wnxt st il by (auto simp: sched_inv_def inv_waiters_def k')
  moreover have "inv_idle k'"
    using inv tl(1) il by (auto simp: sched_inv_def inv_idle_def k')
  moreover have "inv_stacks k'"
    using inv wf by (auto simp: sched_inv_def inv_stacks_def k')
  moreover have "inv_newborn k'"
    using inv nbnxt nb st ops by (auto simp: sched_inv_def inv_newborn_def k')
  ultimately show ?thesis by (simp add: sched_inv_def)
qed

section \<open>Giving up the processor\<close>

lemma cur_facts:
  assumes "sched_inv {cur k} k"
  shows "cur k \<in> set (all_list k)" "status (threads k (cur k)) = THREAD_RUNNING"
    "cur k \<notin> set (ready_list k)" "cur k \<notin> set (waiters (semas k s))" "cur k \<noteq> NULL"
    "u \<in> set (all_list k) \<Longrightarrow> cur k \<notin> set (newborns (ops (threads k u)))"
    "wf_ops (ops (threads k (cur k)))"
    "cur k = idle_thread k \<Longrightarrow> Idle_loop \<in> set (ops (threads k (cur k)))"
    "is_thread k (cur k)"
  using assms inv_newbornD(2) [of k u "cur k"]
  by (auto simp: sched_inv_def inv_status_def inv_waiters_def inv_pages_def inv_stacks_def inv_idle_def is_thread_def)

text \<open>Blocking, with or without joining the waiters of a semaphore.\<close>

lemma block_mid:
  assumes inv: "sched_inv {cur k} k" and ops: "ops (threads k (cur k)) = c # rest" "c \<noteq> Idle_loop" "newborn c = []"
    and xs: "wf_ops (xs @ rest)" "newborns xs = []"
    and th: "ops th = xs @ rest" "status th = THREAD_BLOCKED" "magic th = magic (threads k (cur k))"
    and W: "\<And>s. waiters (W s) = (if Some s = w then waiters (semas k s) @ [cur k] else waiters (semas k s))"
    and wait: "w \<noteq> None \<Longrightarrow> Idle_loop \<notin> set (xs @ rest)"
  shows "sched_inv {} (k\<lparr>threads := (threads k)(cur k := th), semas := W, intr := lv\<rparr>)"
    (is "sched_inv _ ?k")
proof -
  note c = cur_facts [OF inv]
  have "inv_pages ?k"
    using inv th by (auto simp: sched_inv_def inv_pages_def)
  moreover have "inv_status {} ?k"
    using inv c th by (auto simp: sched_inv_def inv_status_def)
  moreover have "inv_waiters ?k"
    using inv c th wait by (auto simp: sched_inv_def inv_waiters_def W)
  moreover have "inv_idle ?k"
    using inv c(8) th ops by (auto simp: sched_inv_def inv_idle_def)
  moreover have "inv_stacks ?k"
    using inv th xs by (auto simp: sched_inv_def inv_stacks_def)
  moreover have "inv_newborn ?k"
  proof -
    have "newborns (ops (((threads k)(cur k := th)) u)) = newborns (ops (threads k u))" for u
      using ops(1,3) xs(2) th(1) by simp
    then show ?thesis using inv c(6) by (auto simp: sched_inv_def inv_newborn_def W)
  qed
  ultimately show ?thesis by (simp add: sched_inv_def)
qed

lemma yield_mid:
  assumes inv: "sched_inv {cur k} k" and ops: "ops (threads k (cur k)) = c # rest" "c \<noteq> Idle_loop" "newborn c = []"
    and xs: "wf_ops (xs @ rest)" "newborns xs = []"
    and th: "ops th = xs @ rest" "status th = THREAD_READY" "magic th = magic (threads k (cur k))"
    and r: "r = (if cur k \<noteq> idle_thread k then ready_list k @ [cur k] else ready_list k)"
  shows "sched_inv {} (k\<lparr>threads := (threads k)(cur k := th), ready_list := r, intr := lv\<rparr>)"
    (is "sched_inv _ ?k")
proof -
  note c = cur_facts [OF inv]
  have il: "cur k = idle_thread k \<Longrightarrow> Idle_loop \<in> set (ops th)"
    using c(8) th ops by auto
  have "inv_pages ?k"
    using inv th by (auto simp: sched_inv_def inv_pages_def)
  moreover have "inv_status {} ?k"
    using inv c th il by (auto simp: sched_inv_def inv_status_def r)
  moreover have "inv_waiters ?k"
    using inv c th by (auto simp: sched_inv_def inv_waiters_def)
  moreover have "inv_idle ?k"
    using inv il by (auto simp: sched_inv_def inv_idle_def r)
  moreover have "inv_stacks ?k"
    using inv th xs by (auto simp: sched_inv_def inv_stacks_def)
  moreover have "inv_newborn ?k"
  proof -
    have "newborns (ops (((threads k)(cur k := th)) u)) = newborns (ops (threads k u))" for u
      using ops(1,3) xs(2) th(1) by simp
    then show ?thesis using inv c(6) by (auto simp: sched_inv_def inv_newborn_def)
  qed
  ultimately show ?thesis by (simp add: sched_inv_def)
qed

lemma exit_mid:
  assumes inv: "sched_inv {cur k} k" and rest: "inert (ops (threads k (cur k)))"
  shows "sched_inv {} (k\<lparr>all_list := remove1 (cur k) (all_list k), threads := (threads k)(cur k := th)\<rparr>)"
    (is "sched_inv _ ?k")
proof -
  note c = cur_facts [OF inv]
  have nb: "newborns (ops (threads k (cur k))) = []" "Idle_loop \<notin> set (ops (threads k (cur k)))"
    using rest by (auto dest: inert_newborns inert_no_loop)
  have al: "set (remove1 (cur k) (all_list k)) = set (all_list k) - {cur k}"
    using inv by (simp add: sched_inv_def inv_pages_def set_remove1_eq)
  have "inv_pages ?k"
    using inv by (auto simp: sched_inv_def inv_pages_def al)
  moreover have "inv_status {} ?k"
    using inv c by (auto simp: sched_inv_def inv_status_def al)
  moreover have "inv_waiters ?k"
    using inv c by (auto simp: sched_inv_def inv_waiters_def al)
  moreover have "inv_idle ?k"
    using inv nb by (auto simp: sched_inv_def inv_idle_def al)
  moreover have "inv_stacks ?k"
    using inv by (auto simp: sched_inv_def inv_stacks_def al)
  moreover have "inv_newborn ?k"
    using inv c(6) by (auto simp: sched_inv_def inv_newborn_def al)
  ultimately show ?thesis by (simp add: sched_inv_def)
qed

section \<open>Becoming ready\<close>

lemma unblock_inv:
  assumes inv: "sched_inv {cur k} k" and t: "t \<in> set (all_list k)" "status (threads k t) = THREAD_BLOCKED"
    "Idle_loop \<notin> set (ops (threads k t))" "\<And>s. t \<notin> set (waiters (semas k s))"
    "\<And>u. u \<in> set (all_list k) \<Longrightarrow> t \<notin> set (newborns (ops (threads k u)))"
    and th: "ops th = ops (threads k t)" "status th = THREAD_READY" "magic th = magic (threads k t)"
  shows "sched_inv {cur k} (k\<lparr>ready_list := ready_list k @ [t], threads := (threads k)(t := th)\<rparr>)"
    (is "sched_inv _ ?k")
proof -
  have tr: "t \<notin> set (ready_list k)" "t \<noteq> cur k" using inv t(2) cur_facts(2) [OF inv] by (auto simp: sched_inv_def inv_status_def)
  have ti: "idle_thread k \<noteq> NULL \<Longrightarrow> t \<noteq> idle_thread k" using inv t(3) by (auto simp: sched_inv_def inv_idle_def)
  have "inv_pages ?k"
    using inv th by (auto simp: sched_inv_def inv_pages_def)
  moreover have "inv_status {cur k} ?k"
    using inv t th tr by (auto simp: sched_inv_def inv_status_def)
  moreover have "inv_waiters ?k"
    using inv t(4) by (auto simp: sched_inv_def inv_waiters_def)
  moreover have "inv_idle ?k"
    using inv ti by (auto simp: sched_inv_def inv_idle_def)
  moreover have "inv_stacks ?k"
    using inv th by (auto simp: sched_inv_def inv_stacks_def)
  moreover have "inv_newborn ?k"
  proof -
    have "newborns (ops (((threads k)(t := th)) u)) = newborns (ops (threads k u))" for u
      using th(1) by simp
    then show ?thesis using inv t(5) by (auto simp: sched_inv_def inv_newborn_def)
  qed
  ultimately show ?thesis by (simp add: sched_inv_def)
qed

section \<open>Every operation keeps the invariant\<close>

lemma wf_rest:
  assumes "sched_inv {cur k} k" "ops (threads k (cur k)) = c # rest"
  shows "wf_next c rest" "wf_ops rest"
  using cur_facts(7) [OF assms(1)] assms(2) by auto

lemma exec_block_inv:
  assumes inv: "sched_inv {cur k} k" and ops: "ops (threads k (cur k)) = Thread_block # rest"
    and ex: "thread_block (pop_op k) = Some k'"
  shows "sched_inv {cur k'} k'"
proof (rule schedule_inv)
  let ?th = "(threads k (cur k))\<lparr>ops := rest, status := THREAD_BLOCKED\<rparr>"
  let ?m = "k\<lparr>threads := (threads k)(cur k := ?th), semas := semas k, intr := intr k\<rparr>"
  have m: "upd (cur k) (\<lambda>th. th\<lparr>status := THREAD_BLOCKED\<rparr>) (pop_op k) = ?m"
    using ops by (simp add: upd_def pop_op_def)
  show "schedule ?m = Some k'"
    using ex by (auto simp: thread_block_def thread_current_def running_thread_def opt_simps m)
  show "sched_inv {} ?m"
    using wf_rest [OF inv ops] ops by (intro block_mid [OF inv ops, where xs = "[]" and w = None]) auto
qed simp

lemma exec_sema_down_block_inv:
  assumes inv: "sched_inv {cur k} k" and ops: "ops (threads k (cur k)) = Sema_down_loop s old # rest"
    and ex: "sema_down_loop s old (pop_op k) = Some k'" and z: "sema_value (semas k s) = 0"
  shows "sched_inv {cur k'} k'"
proof (rule schedule_inv)
  let ?th = "(threads k (cur k))\<lparr>ops := Sema_down_loop s old # rest, status := THREAD_BLOCKED\<rparr>"
  let ?W = "(semas k)(s := (semas k s)\<lparr>waiters := waiters (semas k s) @ [cur k]\<rparr>)"
  let ?m = "k\<lparr>threads := (threads k)(cur k := ?th), semas := ?W, intr := intr k\<rparr>"
  have m: "upd (cur k) (\<lambda>th. th\<lparr>status := THREAD_BLOCKED\<rparr>)
      (push_ops (cur k) [Sema_down_loop s old] (upd_sema s (\<lambda>sm. sm\<lparr>waiters := waiters sm @ [cur k]\<rparr>) (pop_op k))) = ?m"
    using ops by (simp add: upd_def pop_op_def push_ops_def upd_sema_def)
  show "schedule ?m = Some k'"
    using ex z by (auto simp: sema_down_loop_def thread_block_def thread_current_def running_thread_def opt_simps m)
  show "sched_inv {} ?m"
    using wf_rest [OF inv ops] ops
    by (intro block_mid [OF inv ops, where xs = "[Sema_down_loop s old]" and w = "Some s"]) (auto dest: calm_no_loop)
qed simp

lemma sched_inv_cong:
  assumes "sched_inv R k" "threads m = threads k" "cur m = cur k" "ready_list m = ready_list k"
    "all_list m = all_list k" "semas m = semas k" "idle_thread m = idle_thread k"
    "initial_thread m = initial_thread k" "free_pages m = free_pages k"
  shows "sched_inv R m"
  using assms(1) unfolding sched_inv_defs assms(2-9) .

lemma exec_yield_inv:
  assumes inv: "sched_inv {cur k} k" and ops: "ops (threads k (cur k)) = Thread_yield # rest"
    and ex: "thread_yield (pop_op k) = Some k'"
  shows "sched_inv {cur k'} k'"
proof (rule schedule_inv)
  define k1 where "k1 = (if cur k \<noteq> idle_thread k \<and> cur k \<noteq> initial_thread k
    then upd (cur k) (\<lambda>th. th\<lparr>recent_wait := i32 (os_ticks k)\<rparr>) (pop_op k) else pop_op k)"
  define k2 where "k2 = (if cur k \<noteq> idle_thread k
    then (intr_disable k1)\<lparr>ready_list := ready_list k @ [cur k]\<rparr> else intr_disable k1)"
  define m where "m = push_ops (cur k) [Intr_set_level (intr k)] (upd (cur k) (\<lambda>th. th\<lparr>status := THREAD_READY\<rparr>) k2)"
  note defs = m_def k2_def intr_disable_def k1_def
  show "schedule m = Some k'"
    using ex by (auto simp: thread_yield_def thread_current_def running_thread_def opt_simps timer_ticks_def
        intr_get_level_def defs split: if_splits)
  have m: "cur m = cur k" "all_list m = all_list k" "semas m = semas k" "idle_thread m = idle_thread k"
    "initial_thread m = initial_thread k" "free_pages m = free_pages k" "intr m = INTR_OFF"
    "ready_list m = (if cur k \<noteq> idle_thread k then ready_list k @ [cur k] else ready_list k)"
    by (simp_all add: defs)
  have th: "threads m = (threads k)(cur k := threads m (cur k))" "magic (threads m (cur k)) = magic (threads k (cur k))"
    "ops (threads m (cur k)) = Intr_set_level (intr k) # rest" "status (threads m (cur k)) = THREAD_READY"
    using ops by (auto simp: defs fun_eq_iff)
  show "sched_inv {} m"
    using wf_rest [OF inv ops] ops th(2-4)
    by (intro sched_inv_cong [OF yield_mid [OF inv ops, where xs = "[Intr_set_level (intr k)]"
        and th = "threads m (cur k)" and r = "ready_list m"]]) (simp_all add: m, simp add: th(1) [symmetric])
  show "status (threads m (cur m)) = THREAD_DYING \<Longrightarrow> cur m \<notin> set (all_list m)"
    by (simp add: m th(2-4))
qed

lemma thread_exit_Some:
  assumes "thread_exit k = Some k'"
  obtains j where "kcore j = kcore (intr_disable k)"
    "schedule (push_ops (cur j) [Not_reached] (upd (cur j) (\<lambda>th. th\<lparr>status := THREAD_DYING\<rparr>)
      (j\<lparr>all_list := remove1 (cur j) (all_list j)\<rparr>))) = Some k'"
proof -
  have sjf: "kcore j = kcore i" if "(if sjf i then do {
             k \<leftarrow> calc_new_total_exec a b i;
             k \<leftarrow> thread_foreach get_total_exec_each k;
             Some (sort_ready (duration_cmp k) k) } else Some i) = Some j" for i j a b
    using that by (auto simp: opt_simps split: if_splits dest!: calc_new_total_exec_core
        thread_foreach_core [OF _ get_total_exec_each_core])
  have wait: "kcore j = kcore i" if "(if b then do {
             ASSERT c;
             Some (i\<lparr>total_wait_time := d\<rparr>) } else Some i) = Some j" for i j b c d
    using that by (auto simp: opt_simps split: if_splits)
  obtain j where j: "kcore j = kcore (intr_disable k)"
    and sch: "schedule (push_ops (cur j) [Not_reached] (upd (cur j) (\<lambda>th. th\<lparr>status := THREAD_DYING\<rparr>)
      (j\<lparr>all_list := remove1 (cur k) (all_list j)\<rparr>))) = Some k'"
    using assms unfolding thread_exit_def Let_def bind_eq_Some_conv
    by (elim exE conjE) (auto simp: thread_current_def running_thread_def opt_simps dest!: sjf wait)
  moreover have "cur j = cur k" using kcore_eqD(7) [OF j] by (simp add: intr_disable_def)
  ultimately show ?thesis by (intro that [of j]) simp_all
qed

lemma exec_exit_inv:
  assumes inv: "sched_inv {cur k} k" and ops: "ops (threads k (cur k)) = Thread_exit # rest"
    and ex: "thread_exit (pop_op k) = Some k'"
  shows "sched_inv {cur k'} k'"
proof -
  obtain j where j: "kcore j = kcore (intr_disable (pop_op k))"
    and sch: "schedule (push_ops (cur j) [Not_reached] (upd (cur j) (\<lambda>th. th\<lparr>status := THREAD_DYING\<rparr>)
      (j\<lparr>all_list := remove1 (cur j) (all_list j)\<rparr>))) = Some k'"
    by (rule thread_exit_Some [OF ex])
  have rest: "inert rest" using wf_rest [OF inv ops] by simp
  have ctl: "same_ctl k j"
    using kcore_eqD [OF j] by (simp add: same_ctl_def intr_disable_def)
  have cj: "cur j = cur k" "ops (threads j (cur k)) = rest"
    using kcore_eqD [OF j] ops by (simp_all add: intr_disable_def)
  have "cur k \<noteq> idle_thread k" using cur_facts(8) [OF inv] ops inert_no_loop [OF rest] by auto
  then have "sched_inv {cur j} j"
    using wf_rest [OF inv ops] inert_newborns [OF rest] cj
    by (intro inv_same_ctl [OF inv ctl]) simp_all
  let ?th = "(threads j (cur j))\<lparr>status := THREAD_DYING, ops := Not_reached # rest\<rparr>"
  let ?m = "j\<lparr>all_list := remove1 (cur j) (all_list j), threads := (threads j)(cur j := ?th)\<rparr>"
  have "sched_inv {} ?m"
    using \<open>sched_inv {cur j} j\<close> rest cj by (intro exit_mid) simp_all
  then show ?thesis
  proof (rule schedule_inv)
    show "schedule ?m = Some k'"
      using sch cj by (simp add: push_ops_def upd_def)
    show "cur ?m \<notin> set (all_list ?m)"
      using \<open>sched_inv {cur j} j\<close> by (simp add: sched_inv_def inv_pages_def)
  qed
qed

lemma pop_inv:
  assumes inv: "sched_inv {cur k} k" and ops: "ops (threads k (cur k)) = c # rest" "c \<noteq> Idle_loop"
  shows "sched_inv {cur k} (pop_op k)"
proof -
  have "distinct (newborns (c # rest))"
    using inv_newbornD(1) [of k "cur k"] cur_facts(1) [OF inv] inv ops by (simp add: sched_inv_def)
  then have "sched_inv {cur (pop_op k)} (pop_op k)"
    using wf_rest [OF inv ops(1)] cur_facts(8) [OF inv] ops
    by (intro inv_same_ctl [OF inv]) (auto simp: same_ctl_def)
  then show ?thesis by simp
qed

lemma thread_unblock_Some:
  assumes "thread_unblock t k = Some k'"
  obtains th where "k' = k\<lparr>ready_list := ready_list k @ [t], threads := (threads k)(t := th)\<rparr>"
    "tcore th = tcore ((threads k t)\<lparr>status := THREAD_READY\<rparr>)" "status (threads k t) = THREAD_BLOCKED"
    "is_thread k t"
  using assms
  by (auto simp: thread_unblock_def opt_simps intr_set_level_Some intr_get_level_def intr_disable_def upd_def
      tcore_def is_thread_def split: if_splits)

lemma exec_unblock_inv:
  assumes inv: "sched_inv {cur k} k" and ops: "ops (threads k (cur k)) = Thread_unblock t # rest"
    and ex: "thread_unblock t (pop_op k) = Some k'"
  shows "sched_inv {cur k'} k'"
proof -
  obtain th where k': "k' = (pop_op k)\<lparr>ready_list := ready_list (pop_op k) @ [t], threads := (threads (pop_op k))(t := th)\<rparr>"
    and th: "tcore th = tcore ((threads (pop_op k) t)\<lparr>status := THREAD_READY\<rparr>)"
    by (rule thread_unblock_Some [OF ex])
  note nb = inv_newbornD [OF inv [unfolded sched_inv_def, THEN conjunct2, THEN conjunct2, THEN conjunct2,
     THEN conjunct2, THEN conjunct2]]
  have t: "t \<in> set (all_list k)" "t \<noteq> cur k" "status (threads k t) = THREAD_BLOCKED"
    "\<And>s. t \<notin> set (waiters (semas k s))" "unborn (ops (threads k t))"
    using nb(2) [OF cur_facts(1) [OF inv], of t] ops by auto
  have n: "t \<notin> set (newborns (ops (threads (pop_op k) u)))" if "u \<in> set (all_list k)" for u
    using nb(1) [OF cur_facts(1) [OF inv]] nb(3) [OF cur_facts(1) [OF inv] that] ops by auto
  have "sched_inv {cur (pop_op k)} ((pop_op k)\<lparr>ready_list := ready_list (pop_op k) @ [t], threads := (threads (pop_op k))(t := th)\<rparr>)"
    using t n th pop_inv [OF inv ops] by (intro unblock_inv) (auto simp: unborn_def tcore_def)
  then show ?thesis by (simp add: k')
qed

lemma sema_up_wake_Some:
  assumes "sema_up s k = Some k'" "waiters (semas k s) = t # ts"
  obtains th v where
    "k' = k\<lparr>semas := (semas k)(s := \<lparr>sema_value = v, waiters = ts\<rparr>), ready_list := ready_list k @ [t],
             threads := (threads k)(t := th)\<rparr>"
    "v = u32 (sema_value (semas k s) + 1)"
    "tcore th = tcore ((threads k t)\<lparr>status := THREAD_READY\<rparr>)" "status (threads k t) = THREAD_BLOCKED"
proof -
  let ?k = "upd_sema s (\<lambda>sm. sm\<lparr>waiters := ts\<rparr>) (intr_disable k)"
  obtain k1 where u: "thread_unblock t ?k = Some k1"
    and k': "k' = (upd_sema s (\<lambda>sm. sm\<lparr>sema_value := u32 (sema_value sm + 1)\<rparr>) k1)\<lparr>intr := intr k\<rparr>"
    using assms by (auto simp: sema_up_def opt_simps intr_set_level_Some intr_get_level_def intr_disable_def)
  obtain th where th: "k1 = ?k\<lparr>ready_list := ready_list ?k @ [t], threads := (threads ?k)(t := th)\<rparr>"
    "tcore th = tcore ((threads ?k t)\<lparr>status := THREAD_READY\<rparr>)" "status (threads ?k t) = THREAD_BLOCKED"
    by (rule thread_unblock_Some [OF u])
  let ?v = "u32 (sema_value (semas k s) + 1)"
  have "k' = k\<lparr>semas := (semas k)(s := \<lparr>sema_value = ?v, waiters = ts\<rparr>), ready_list := ready_list k @ [t],
      threads := (threads k)(t := th)\<rparr>"
    by (rule kernel.equality) (simp_all add: k' th(1) upd_sema_def intr_disable_def, rule arg_cong [where f = "fun_upd (semas k) s"],
        rule semaphore.equality, simp_all)
  then show ?thesis using th(2,3) by (intro that [of th ?v]) (simp_all add: intr_disable_def)
qed

lemma sema_value_inv:
  assumes inv: "sched_inv {cur k} k" and w: "\<And>s. waiters (W s) = waiters (semas k s) \<or> waiters (W s) = tl (waiters (semas k s))"
  shows "sched_inv {cur k} (k\<lparr>semas := W\<rparr>)"
proof -
  have "distinct (newborns (ops (threads k (cur k))))"
    using inv_newbornD(1) [OF _ cur_facts(1) [OF inv]] inv by (simp only: sched_inv_def)
  moreover have "same_ctl k (k\<lparr>semas := W\<rparr>)" using w by (auto simp: same_ctl_def)
  ultimately have "sched_inv {cur (k\<lparr>semas := W\<rparr>)} (k\<lparr>semas := W\<rparr>)"
    using cur_facts(7,8) [OF inv] by (intro inv_same_ctl [OF inv]) simp_all
  then show ?thesis by simp
qed

lemma sema_up_inv:
  assumes inv: "sched_inv {cur k} k" and ex: "sema_up s k = Some k'"
  shows "sched_inv {cur k} k' \<and> cur k' = cur k"
proof (cases "waiters (semas k s)")
  case Nil
  then have "k' = k\<lparr>semas := (semas k)(s := (semas k s)\<lparr>sema_value := u32 (sema_value (semas k s) + 1)\<rparr>)\<rparr>"
    using ex by (auto simp: sema_up_def opt_simps intr_set_level_Some intr_get_level_def intr_disable_def upd_sema_def)
  then show ?thesis using sema_value_inv [OF inv] by simp
next
  case (Cons t ts)
  obtain th v where k': "k' = k\<lparr>semas := (semas k)(s := \<lparr>sema_value = v, waiters = ts\<rparr>),
      ready_list := ready_list k @ [t], threads := (threads k)(t := th)\<rparr>"
    and th: "tcore th = tcore ((threads k t)\<lparr>status := THREAD_READY\<rparr>)"
    by (rule sema_up_wake_Some [OF ex Cons])
  define j where "j = k\<lparr>semas := (semas k)(s := \<lparr>sema_value = v, waiters = ts\<rparr>)\<rparr>"
  have j: "sched_inv {cur j} j" using sema_value_inv [OF inv] Cons by (simp add: j_def)
  note W = inv [unfolded sched_inv_def, THEN conjunct2, THEN conjunct2, THEN conjunct1]
  have t: "t \<in> set (all_list k)" "status (threads k t) = THREAD_BLOCKED" "Idle_loop \<notin> set (ops (threads k t))"
    using inv_waitersD(2) [OF W, of t s] Cons by auto
  have "t \<notin> set (waiters (semas j s'))" for s'
    using inv_waitersD(1) [OF W, of s] inv_waitersD(3) [OF W, of t s s'] Cons by (auto simp: j_def)
  moreover have "t \<notin> set (newborns (ops (threads j u)))" if "u \<in> set (all_list j)" for u
  proof -
    have "t \<in> set (waiters (semas k s))" using Cons by simp
    then show ?thesis using inv_newbornD(2) [of k u t] inv that by (auto simp: j_def sched_inv_def)
  qed
  ultimately have "sched_inv {cur j} (j\<lparr>ready_list := ready_list j @ [t], threads := (threads j)(t := th)\<rparr>)"
    using t th by (intro unblock_inv [OF j]) (auto simp: j_def tcore_def)
  then show ?thesis by (simp add: j_def k')
qed

lemma exec_sema_up_inv:
  assumes inv: "sched_inv {cur k} k" and ops: "ops (threads k (cur k)) = Sema_up s # rest"
    and ex: "sema_up s (pop_op k) = Some k'"
  shows "sched_inv {cur k'} k'"
  using sema_up_inv [OF _ ex] pop_inv [OF inv ops] by simp

lemma exec_idle_inv:
  assumes inv: "sched_inv {cur k} k" and ops: "ops (threads k (cur k)) = Idle_body s # rest"
    and ex: "idle s (pop_op k) = Some k'"
  shows "sched_inv {cur k'} k'"
proof -
  have rest: "rest = [Thread_exit]" "may_up s" using wf_rest [OF inv ops] by (auto elim: may_init.elims)
  define j where "j = push_ops (cur k) [Sema_up s, Idle_loop] (pop_op k)"
  have "sched_inv {cur j} j"
    using ops rest cur_facts(8) [OF inv] by (intro inv_same_ctl [OF inv]) (auto simp: j_def same_ctl_def)
  moreover have k': "k' = j\<lparr>idle_thread := cur k\<rparr>"
    using ex by (auto simp: idle_def opt_simps thread_current_def running_thread_def j_def push_ops_def upd_def pop_op_def)
  moreover have "inv_pages k' = inv_pages j" "inv_status {cur k'} k' = inv_status {cur j} j"
    "inv_waiters k' = inv_waiters j" "inv_stacks k' = inv_stacks j" "inv_newborn k' = inv_newborn j"
    by (simp_all add: k' inv_pages_def inv_status_def inv_waiters_def inv_stacks_def inv_newborn_def)
  moreover have "inv_idle k'"
    using cur_facts(1,3) [OF \<open>sched_inv {cur j} j\<close>] by (simp add: k' j_def inv_idle_def)
  ultimately show ?thesis by (simp add: sched_inv_def)
qed

lemma init_thread_Some:
  assumes "init_thread t nm pri k = Some k'"
  obtains th A where "k' = k\<lparr>semas := (semas k)(Timer_sema t := \<lparr>sema_value = 0, waiters = []\<rparr>),
      threads := (threads k)(t := th), all_all_list := A, all_list := all_list k @ [t]\<rparr>"
    "tcore th = (THREAD_BLOCKED, [], THREAD_MAGIC, 0, 0, 0)" "t \<noteq> NULL"
proof -
  have "\<exists>th A. k' = k\<lparr>semas := (semas k)(Timer_sema t := \<lparr>sema_value = 0, waiters = []\<rparr>),
      threads := (threads k)(t := th), all_all_list := A, all_list := all_list k @ [t]\<rparr> \<and>
      tcore th = (THREAD_BLOCKED, [], THREAD_MAGIC, 0, 0, 0)"
    using assms
    by (intro exI [of _ "threads k' t"] exI [of _ "all_all_list k'"])
      (auto simp: init_thread_def opt_simps get_total_exec_def zero_thread_def tcore_def upd_def upd_sema_def
       split: if_splits option.splits)
  then show ?thesis using that assms by (auto simp: init_thread_def opt_simps)
qed

lemma create_inv:
  assumes inv: "sched_inv {cur k} k" and rest: "calm (ops (threads k (cur k)))" and fn: "fn_ok fn"
    and free: "free_pages k = p # ps" and p: "tcore th = (THREAD_BLOCKED, [], THREAD_MAGIC, 0, 0, 0)"
    and own: "status th' = THREAD_RUNNING" "magic th' = magic (threads k (cur k))"
      "ops th' = [Allocate_tid, Set_tid p, Create_rest p fn] @ ops (threads k (cur k))"
    and W: "\<And>s. waiters (W s) = waiters (semas k s) \<or> waiters (W s) = []"
  shows "sched_inv {cur k} (k\<lparr>free_pages := ps, semas := W, threads := (threads k)(p := th, cur k := th'),
    all_all_list := A, all_list := all_list k @ [p]\<rparr>)"
    (is "sched_inv _ ?k")
proof -
  note c = cur_facts [OF inv]
  have th: "status th = THREAD_BLOCKED" "ops th = []" "magic th = THREAD_MAGIC" using p by (auto simp: tcore_def)
  have fresh: "p \<notin> set (all_list k)" "p \<noteq> NULL" "p \<noteq> cur k" "p \<notin> set ps" "cur k \<notin> set ps"
    using inv free by (auto simp: sched_inv_def inv_pages_def)
  have w: "t \<in> set (waiters (W s)) \<Longrightarrow> t \<in> set (waiters (semas k s))" "distinct (waiters (W s))" for s t
    using W [of s] inv by (auto simp: sched_inv_def inv_waiters_def)
  have wp: "p \<notin> set (waiters (semas k s))" for s
    using inv fresh(1) by (auto simp: sched_inv_def inv_waiters_def)
  note W0 = inv [unfolded sched_inv_def, THEN conjunct2, THEN conjunct2, THEN conjunct1]
  have wt: "t \<in> set (all_list k) \<and> status (threads k t) = THREAD_BLOCKED \<and> Idle_loop \<notin> set (ops (threads k t)) \<and>
      t \<noteq> p \<and> t \<noteq> cur k" if "t \<in> set (waiters (W s))" for s t
    using inv_waitersD(2) [OF W0 w(1) [OF that]] w(1) [OF that] wp [of s] c(4) [of s] by auto
  have ws: "s = s'" if "t \<in> set (waiters (W s))" "t \<in> set (waiters (W s'))" for s s' t
    by (rule inv_waitersD(3) [OF W0 w(1) [OF that(1)] w(1) [OF that(2)]])
  have idle: "idle_thread k \<noteq> cur k" using c(8) calm_no_loop [OF rest] by auto
  have "inv_pages ?k"
    using inv free th own fresh c(9) by (auto simp: sched_inv_def inv_pages_def is_thread_def)
  moreover have "inv_status {cur k} ?k"
    using inv th own c(1,2,3) fresh by (auto simp: sched_inv_def inv_status_def)
  moreover have "inv_waiters ?k"
    using w(2) wt ws by (simp add: inv_waiters_def)
  moreover have "inv_idle ?k"
    using inv idle fresh(1) by (auto simp: sched_inv_def inv_idle_def)
  moreover have "inv_stacks ?k"
    using inv th own rest fn c(7) by (auto simp: sched_inv_def inv_stacks_def)
  moreover have "inv_newborn ?k"
  proof -
    have pn: "p \<notin> set (newborns (ops (threads k u)))" if "u \<in> set (all_list k)" for u
      using inv_newbornD(2) [of k u p] inv that fresh(1) by (auto simp: sched_inv_def)
    have nb: "newborns (ops (threads ?k u)) = (if u = p then [] else if u = cur k then p # newborns (ops (threads k u))
       else newborns (ops (threads k u)))" for u
      using th own fresh(3) by simp
    have "inv_newborn k" using inv by (simp add: sched_inv_def)
    then show ?thesis
      using pn c(6) wp fresh th c(1) unfolding inv_newborn_def nb by (auto simp: unborn_def dest!: w(1))
  qed
  ultimately show ?thesis by (simp add: sched_inv_def)
qed

lemma exec_create_inv:
  assumes inv: "sched_inv {cur k} k" and ops: "ops (threads k (cur k)) = Thread_create nm pri fn # rest"
    and ex: "thread_create nm pri fn (pop_op k) = Some k'" and free: "free_pages k = p # ps"
  shows "sched_inv {cur k'} k'"
proof -
  have pop: "sched_inv {cur (pop_op k)} (pop_op k)" using pop_inv [OF inv ops] by simp
  have p: "p \<noteq> NULL" "p \<noteq> cur k" using inv free by (auto simp: sched_inv_def inv_pages_def)
  have rest: "calm rest" "fn_ok fn" using wf_rest [OF inv ops] by simp_all
  obtain k1 where k1: "init_thread p nm pri ((pop_op k)\<lparr>free_pages := ps\<rparr>) = Some k1"
    and k': "k' = push_ops (cur k1) [Allocate_tid, Set_tid p, Create_rest p fn] k1"
    using ex free p(1) by (auto simp: thread_create_def palloc_get_page_def opt_simps)
  obtain th A where th: "k1 = (pop_op k)\<lparr>free_pages := ps, semas := (semas (pop_op k))(Timer_sema p := \<lparr>sema_value = 0, waiters = []\<rparr>),
      threads := (threads (pop_op k))(p := th), all_all_list := A, all_list := all_list (pop_op k) @ [p]\<rparr>"
    and c: "tcore th = (THREAD_BLOCKED, [], THREAD_MAGIC, 0, 0, 0)"
    by (rule init_thread_Some [OF k1]) simp
  let ?th = "(threads (pop_op k) (cur k))\<lparr>ops := [Allocate_tid, Set_tid p, Create_rest p fn] @ rest\<rparr>"
  have "k' = (pop_op k)\<lparr>free_pages := ps, semas := (semas (pop_op k))(Timer_sema p := \<lparr>sema_value = 0, waiters = []\<rparr>),
      threads := (threads (pop_op k))(p := th, cur (pop_op k) := ?th), all_all_list := A, all_list := all_list (pop_op k) @ [p]\<rparr>"
    using p ops by (intro kernel.equality) (auto simp: k' th push_ops_def upd_def)
  moreover have "sched_inv {cur (pop_op k)} \<dots>"
    using rest ops free c cur_facts(2) [OF pop] by (intro create_inv [OF pop]) simp_all
  ultimately show ?thesis by simp
qed

lemma exec_create_rest_inv:
  assumes inv: "sched_inv {cur k} k" and ops: "ops (threads k (cur k)) = Create_rest t fn # rest"
    and ex: "create_rest t fn (pop_op k) = Some k'"
  shows "sched_inv {cur k'} k'"
proof -
  note c = cur_facts [OF inv]
  note nb = inv_newbornD [OF inv [unfolded sched_inv_def, THEN conjunct2, THEN conjunct2, THEN conjunct2,
     THEN conjunct2, THEN conjunct2]]
  have t: "t \<in> set (all_list k)" "t \<noteq> cur k" "status (threads k t) = THREAD_BLOCKED" "unborn (ops (threads k t))"
    "\<And>s. t \<notin> set (waiters (semas k s))"
    using nb(2) [OF c(1), of t] ops by auto
  have ti: "idle_thread k \<noteq> t" if "idle_thread k \<noteq> NULL"
    using t(4) inv that by (auto simp: sched_inv_def inv_idle_def unborn_def)
  have k': "cur k' = cur k" "all_list k' = all_list k" "ready_list k' = ready_list k" "semas k' = semas k"
    "idle_thread k' = idle_thread k" "initial_thread k' = initial_thread k" "free_pages k' = free_pages k"
    "\<And>u. status (threads k' u) = status (threads k u)" "\<And>u. magic (threads k' u) = magic (threads k u)"
    "\<And>u. ops (threads k' u) = (if u = t then [Kernel_thread fn] else if u = cur k then Thread_unblock t # rest
       else ops (threads k u))"
    using ex ops t(2)
    by (auto simp: create_rest_def alloc_frame_def opt_simps intr_set_level_Some intr_disable_def)
  have nbs: "newborns (ops (threads k' u)) = newborns (ops (threads k u))" for u
    using ops t(4) by (auto simp: k' unborn_def)
  have "inv_pages k'" using inv by (simp add: sched_inv_def inv_pages_def k')
  moreover have "inv_status {cur k'} k'"
    using inv c(2) ops t(3) by (auto simp: sched_inv_def inv_status_def k')
  moreover have "inv_waiters k'"
    using inv t(5) c(4) by (auto simp: sched_inv_def inv_waiters_def k')
  moreover have "inv_idle k'"
    using inv ti c(8) ops by (auto simp: sched_inv_def inv_idle_def k')
  moreover have "inv_stacks k'"
    using inv wf_rest [OF inv ops] by (auto simp: sched_inv_def inv_stacks_def k')
  moreover have "inv_newborn k'"
    using inv c(6) unfolding sched_inv_def inv_newborn_def nbs by (auto simp: k' unborn_def)
  ultimately show ?thesis by (simp add: sched_inv_def)
qed

lemma exec_inv:
  assumes inv: "sched_inv {cur k} k" and ops: "ops (threads k (cur k)) = c # rest"
    and ex: "exec c (pop_op k) = Some k'"
  shows "sched_inv {cur k'} k'"
proof (cases "simple k c")
  case True
  have "0 \<notin> set (free_pages k)" using inv by (simp add: sched_inv_def inv_pages_def)
  then obtain xs where "pushes c xs" "simple_step k c rest xs k'" using exec_pushes [OF ex ops True] by blast
  then show ?thesis by (auto intro!: inv_simple_step [OF inv ops] dest: pushes_wf pushes_idle)
next
  case False
  then show ?thesis
  proof (cases c)
    case (Thread_create nm pri fn)
    then obtain p ps where "free_pages k = p # ps" using False by (auto simp: neq_Nil_conv)
    then show ?thesis using Thread_create ex exec_create_inv [OF inv] ops by auto
  qed (use False ex ops in \<open>auto intro: exec_block_inv [OF inv] exec_yield_inv [OF inv] exec_exit_inv [OF inv]
      exec_unblock_inv [OF inv] exec_idle_inv [OF inv] exec_create_rest_inv [OF inv]
      exec_sema_down_block_inv [OF inv] exec_sema_up_inv [OF inv]\<close>)
qed

section \<open>The timer interrupt\<close>

lemma sched_inv_core:
  assumes "sched_inv R k" "kcore k' = kcore k"
  shows "sched_inv R k'"
proof -
  note c = kcore_eqD [OF assms(2)]
  have r: "set (ready_list k') = set (ready_list k)" "distinct (ready_list k') = distinct (ready_list k)"
    using c(8) by (auto dest: mset_eq_setD mset_eq_imp_distinct_iff)
  show ?thesis using assms(1) unfolding sched_inv_defs c r .
qed

lemma push_inv:
  assumes inv: "sched_inv {cur k} k" and xs: "set xs \<subseteq> {Interrupt_return, Thread_yield}"
  shows "sched_inv {cur k} (push_ops (cur k) xs k)"
proof -
  have wf: "wf_ops (xs @ ys) \<and> newborns xs = []" if "wf_ops ys" "set xs \<subseteq> {Interrupt_return, Thread_yield}" for xs ys
    using that by (induction xs) auto
  have "distinct (newborns (ops (threads k (cur k))))"
    using inv_newbornD(1) [OF _ cur_facts(1) [OF inv]] inv by (simp only: sched_inv_def)
  then have "sched_inv {cur (push_ops (cur k) xs k)} (push_ops (cur k) xs k)"
    using cur_facts(7,8) [OF inv] wf [OF cur_facts(7) [OF inv] xs]
    by (intro inv_same_ctl [OF inv]) (auto simp: same_ctl_def)
  then show ?thesis by simp
qed

lemma sema_up_external: "sema_up s k = Some k' \<Longrightarrow> in_external_intr k' = in_external_intr k \<and> intr k' = intr k"
proof (cases "waiters (semas k s)")
  case (Cons t ts)
  assume "sema_up s k = Some k'"
  then show ?thesis by (rule sema_up_wake_Some [OF _ Cons]) simp
qed (auto simp: sema_up_def opt_simps intr_set_level_Some intr_get_level_def intr_disable_def upd_sema_def)

lemma wake_loop_inv:
  assumes "wake_loop ts k = Some k'" "sched_inv {cur k} k"
  shows "sched_inv {cur k} k' \<and> cur k' = cur k \<and> in_external_intr k' = in_external_intr k \<and> intr k' = intr k"
  using assms
proof (induction ts arbitrary: k)
  case (Cons t ts)
  show ?case
  proof (cases "os_ticks k < wakeup_time (threads k t)")
    case False
    then obtain k1 where k1: "sema_up (Timer_sema t) k = Some k1"
      "wake_loop ts (k1\<lparr>wait_list := tl (wait_list k1)\<rparr>) = Some k'"
      using Cons.prems(1) by (auto simp: opt_simps)
    let ?k = "k1\<lparr>wait_list := tl (wait_list k1)\<rparr>"
    have s: "sched_inv {cur k} k1" "cur k1 = cur k" using sema_up_inv [OF Cons.prems(2) k1(1)] by auto
    have "sched_inv {cur k} ?k" by (rule sched_inv_cong [OF s(1)]) simp_all
    then have "sched_inv {cur ?k} ?k" using s(2) by simp
    then show ?thesis using Cons.IH [OF k1(2)] sema_up_external [OF k1(1)] s(2) by simp
  qed (use Cons.prems in simp)
qed simp

lemma tick_inv:
  assumes inv: "sched_inv {cur k} k" and ex: "step Tick k = Some k'"
  shows "sched_inv {cur k'} k' \<and> in_external_intr k' = False"
proof -
  let ?k = "push_ops (cur k) [Interrupt_return] (intr_disable k)"
  define j where "j = ?k\<lparr>in_external_intr := True, yield_on_return := False, os_ticks := i64 (os_ticks k + 1)\<rparr>"
  have "sched_inv {cur k} (intr_disable k)"
    by (rule sched_inv_cong [OF inv]) (simp_all add: intr_disable_def)
  then have "sched_inv {cur k} ?k"
    using push_inv [of "intr_disable k" "[Interrupt_return]"] by (simp add: intr_disable_def)
  then have "sched_inv {cur k} j" by (rule sched_inv_cong) (simp_all add: j_def)
  then have "sched_inv {cur j} j" by (simp add: j_def intr_disable_def)
  moreover obtain k1 k2 where k1: "thread_tick j = Some k1" "wake_loop (wait_list k1) k1 = Some k2"
    and k': "k' = push_ops (cur k2) (if yield_on_return k2 then [Thread_yield] else []) (k2\<lparr>in_external_intr := False\<rparr>)"
    using ex by (auto simp: intr_handler_def timer_interrupt_def opt_simps j_def intr_get_level_def intr_disable_def
        push_ops_def upd_def split: if_splits)
  moreover have "sched_inv {cur k1} k1" "cur k1 = cur j"
    using sched_inv_core [OF calculation(1) thread_tick_core [OF k1(1)]] kcore_eqD(7) [OF thread_tick_core [OF k1(1)]]
    by auto
  ultimately have "sched_inv {cur k2} k2" using wake_loop_inv [OF k1(2)] by simp
  then have "sched_inv {cur k2} (k2\<lparr>in_external_intr := False\<rparr>)" by (rule sched_inv_cong) simp_all
  then show ?thesis
    using push_inv [of "k2\<lparr>in_external_intr := False\<rparr>"] by (simp add: k')
qed

end
