(* ===== verification/Sched_Safety.thy ===== *)
theory Sched_Safety
  imports Sched_Inv
begin

text \<open>
  The scheduler invariant holds in every reachable state, and what follows from it: the run
  queue and the wait lists never share a thread, exactly one thread runs, the idle thread is never
  queued, and the kernel's own assertions about thread states cannot fail.
\<close>

section \<open>Every reachable state\<close>

lemma schedule_external: "schedule k = Some k' \<Longrightarrow> in_external_intr k' = in_external_intr k"
  by (erule schedule_Some [of _ _ THREAD_READY "[]"]) simp

lemma exec_external:
  assumes "exec c k = Some k'" "0 \<notin> set (free_pages k)"
  shows "in_external_intr k' = in_external_intr k"
proof (cases c)
  case (Thread_create nm pri fn)
  then show ?thesis using assms
    by (auto simp: thread_create_def palloc_get_page_def opt_simps set_retval_def split: list.splits
        elim!: init_thread_Some)
next
  case Thread_exit
  then have "thread_exit k = Some k'" using assms by simp
  then show ?thesis
    by (rule thread_exit_Some) (auto dest!: schedule_external kcore_eqD(20) simp: intr_disable_def)
next
  case (Sema_up s)
  then show ?thesis using assms sema_up_external by simp
next
  case (Thread_unblock t)
  then have "thread_unblock t k = Some k'" using assms by simp
  then show ?thesis by (rule thread_unblock_Some) simp
qed (use assms in \<open>auto simp: thread_block_def thread_yield_def synch_defs allocate_tid_def idle_loop_def tid_load_def
       tid_store_def set_tid_def thread_start_def timer_sleep_def sleep_insert_def sleep_link_def kernel_thread_def idle_def create_rest_def
       alloc_frame_def intr_enable_def intr_disable_def
       opt_simps intr_set_level_Some set_retval_def setBound_def split: if_splits list.splits
     dest!: thread_set_priority_core thread_set_nice_core schedule_rest_core
       kcore_eqD(20) schedule_external\<close>)

lemma step_inv:
  assumes "sched_inv {cur k} k \<and> \<not> in_external_intr k" "step a k = Some k'"
  shows "sched_inv {cur k'} k' \<and> \<not> in_external_intr k'"
proof (cases a)
  case Exec
  then obtain c rest where ops: "ops (threads k (cur k)) = c # rest" and ex: "exec c (pop_op k) = Some k'"
    using assms(2) by (auto split: list.splits)
  have "0 \<notin> set (free_pages (pop_op k))" using assms(1) by (simp add: sched_inv_def inv_pages_def)
  then show ?thesis using exec_inv [OF _ ops ex] exec_external [OF ex] assms(1) by simp
next
  case (Call c)
  then obtain rest where ops: "ops (threads k (cur k)) = Run_function # rest" and c: "api k c"
    and k': "k' = push_ops (cur k) [c] k"
    using assms(2) by (auto split: list.splits kop.splits if_splits)
  have "inert rest" using wf_rest [OF _ ops] assms(1) by simp
  then have "wf_next c (Run_function # rest) \<and> newborn c = []"
    using c inert_no_loop [of rest] inert_calm [of rest] by (cases c) (auto elim: api.elims)
  then have "sched_inv {cur k'} k'"
    using ops cur_facts(7,8) [OF conjunct1 [OF assms(1)]] inert_newborns [OF \<open>inert rest\<close>]
    by (intro inv_same_ctl [OF conjunct1 [OF assms(1)]]) (simp_all add: k' same_ctl_def)
  then show ?thesis using assms(1) by (simp add: k')
next
  case Finish
  then obtain rest where ops: "ops (threads k (cur k)) = Run_function # rest" and k': "k' = pop_op k"
    using assms(2) by (auto split: list.splits kop.splits)
  then show ?thesis using pop_inv [OF _ ops] assms(1) by simp
next
  case Tick
  then show ?thesis using tick_inv [OF conjunct1 [OF assms(1)]] assms(2) by simp
qed

lemma boot_sel [simp]:
  "cur (boot q r f j m ps) = m" "ready_list (boot q r f j m ps) = []" "all_list (boot q r f j m ps) = []"
  "idle_thread (boot q r f j m ps) = NULL" "intr (boot q r f j m ps) = INTR_OFF"
  "in_external_intr (boot q r f j m ps) = False" "free_pages (boot q r f j m ps) = ps"
  "wait_list (boot q r f j m ps) = []" "holder (boot q r f j m ps) = (\<lambda>_. NULL)"
  "conds (boot q r f j m ps) = (\<lambda>_. [])" "next_tid (boot q r f j m ps) = 1" "os_ticks (boot q r f j m ps) = 0"
  "ops (threads (boot q r f j m ps) t) = (if t = m then [Run_function, Thread_exit] else [])"
  "waiters (semas (boot q r f j m ps) s) = []"
  "sema_value (semas (boot q r f j m ps) (Lock_sema l)) = 1"
  "sema_value (semas (boot q r f j m ps) (Timer_sema u)) = 0"
  by (auto simp: boot_def zero_thread_def split: sema_ref.splits)

lemma thread_init_Some:
  assumes "thread_init k = Some k'" "intr k = INTR_OFF"
  obtains th A where
    "k' = k\<lparr>holder := (holder k)(tid_lock := NULL),
       semas := (semas k)(Lock_sema tid_lock := \<lparr>sema_value = 1, waiters = []\<rparr>,
         Timer_sema (cur k) := \<lparr>sema_value = 0, waiters = []\<rparr>),
       ready_list := [], all_list := [cur k], total_wait_time := 0, total_ready_threads := 0,
       initial_thread := cur k, threads := (threads k)(cur k := th), all_all_list := A\<rparr>"
    "tcore th = (THREAD_RUNNING, [Allocate_tid, Set_tid (cur k)] @ ops (threads k (cur k)), THREAD_MAGIC, 0, 0, 0)"
proof -
  define k1 where "k1 = (upd_sema (Lock_sema tid_lock) (\<lambda>_. \<lparr>sema_value = 1, waiters = []\<rparr>)
     (k\<lparr>holder := (holder k)(tid_lock := NULL)\<rparr>))\<lparr>ready_list := [], all_list := [], total_wait_time := 0, total_ready_threads := 0\<rparr>"
  define k2 where "k2 = (if sjf k1 then k1\<lparr>all_all_list := []\<rparr> else k1)\<lparr>initial_thread := cur k\<rparr>"
  have c: "cur k1 = cur k" "cur (if sjf k1 then k1\<lparr>all_all_list := []\<rparr> else k1) = cur k"
    "threads (if sjf k1 then k1\<lparr>all_all_list := []\<rparr> else k1) = threads k" by (simp_all add: k1_def)
  obtain k3 where k3: "init_thread (cur k) ''main'' 0 k2 = Some k3"
    and k': "k' = push_ops (cur k) ([Allocate_tid, Set_tid (cur k)] @ ops (threads k (cur k)))
       (upd (cur k) (\<lambda>th. th\<lparr>status := THREAD_RUNNING\<rparr>) k3)"
    using assms(1) unfolding thread_init_def Let_def running_thread_def k1_def [symmetric] c
    by (auto simp: opt_simps k2_def simp del: push_ops_sel)
  obtain th A where "k3 = k2\<lparr>semas := (semas k2)(Timer_sema (cur k) := \<lparr>sema_value = 0, waiters = []\<rparr>),
      threads := (threads k2)(cur k := th), all_all_list := A, all_list := all_list k2 @ [cur k]\<rparr>"
    and th: "tcore th = (THREAD_BLOCKED, [], THREAD_MAGIC, 0, 0, 0)"
    by (rule init_thread_Some [OF k3])
  then show ?thesis
    by (intro that [where th = "threads k' (cur k)" and A = A])
      (rule kernel.equality, auto simp: k' k2_def k1_def push_ops_def upd_def upd_sema_def tcore_def)
qed

lemma thread_init_inv:
  assumes "boot_ok m ps" "thread_init (boot q r f j m ps) = Some k"
  shows "sched_inv {cur k} k \<and> \<not> in_external_intr k"
proof (rule thread_init_Some [OF assms(2)])
  fix th A
  let ?b = "boot q r f j m ps"
  assume k: "k = ?b\<lparr>holder := (holder ?b)(tid_lock := NULL),
       semas := (semas ?b)(Lock_sema tid_lock := \<lparr>sema_value = 1, waiters = []\<rparr>,
         Timer_sema (cur ?b) := \<lparr>sema_value = 0, waiters = []\<rparr>),
       ready_list := [], all_list := [cur ?b], total_wait_time := 0, total_ready_threads := 0,
       initial_thread := cur ?b, threads := (threads ?b)(cur ?b := th), all_all_list := A\<rparr>"
    and th: "tcore th = (THREAD_RUNNING, [Allocate_tid, Set_tid (cur ?b)] @ ops (threads ?b (cur ?b)), THREAD_MAGIC, 0, 0, 0)"
  have "waiters (semas k s) = []" for s by (simp add: k)
  then show ?thesis using assms(1) th by (simp add: boot_ok_def tcore_def sched_inv_defs k)
qed simp

lemma reachable_inv: "reachable k \<Longrightarrow> sched_inv {cur k} k \<and> \<not> in_external_intr k"
proof (induction rule: reachable.induct)
  case (reachable_step k a k')
  show ?case by (rule step_inv [OF reachable_step.IH reachable_step.hyps(2)])
qed (rule thread_init_inv)

end
