(* ===== verification/Examples.thy ===== *)
theory Examples
  imports Kernel
begin

text \<open>
  Concrete runs.  The system boots on page 4096 with a few free pages, starts the idle thread and executes a
  script.  The runs are evaluated by rewriting: the congruences keep the rewriting out of the bodies of
  \<open>let\<close> and bind until their argument is a value.
\<close>

lemma bind_weak_cong: "a = b \<Longrightarrow> Option.bind a f = Option.bind b f"
  by simp

lemma let_weak_cong: "a = b \<Longrightarrow> Let a f = Let b f"
  by simp

lemmas eval_congs = bind_weak_cong let_weak_cong

lemmas eval_defs = kernel_consts tid_lock_def upd_def upd_sema_def push_ops_def set_retval_def
  intr_get_level_def intr_context_def intr_disable_def intr_enable_def intr_set_level_def
  intr_yield_on_return_def palloc_get_page_def palloc_free_page_def running_thread_def is_thread_def
  thread_current_def timer_ticks_def sort_ready_def setBound_def get_total_exec_def get_total_exec_each_def
  calc_new_total_exec_def thread_foreach_def thread_tick_def next_thread_to_run_def thread_schedule_tail_def
  schedule_def schedule_rest_def thread_block_def thread_unblock_def thread_yield_def thread_exit_def
  zero_thread_def init_thread_def alloc_frame_def thread_create_def set_tid_def create_rest_def
  allocate_tid_def tid_load_def tid_store_def kernel_thread_def idle_def idle_loop_def thread_start_def
  thread_init_def sema_init_def sema_down_def sema_down_loop_def sema_try_down_def sema_up_def
  lock_held_by_current_thread_def lock_acquire_def set_holder_def lock_try_acquire_def lock_release_def
  timer_sleep_def sleep_insert_def sleep_link_def wait_race_def insort_lt_def wakeup_cmp_def timer_interrupt_def intr_handler_def
  thread_set_priority_def thread_set_nice_def refresh_priority_def refresh_priority_thread_def fp_defs
  by_priority.nmsort_sort_key by_duration.nmsort_sort_key pop_op_def boot_def i32_def i64_def u32_def Let_def

section \<open>Scripts\<close>

definition E3 :: "label list" where "E3 = [Exec, Exec, Exec]"
definition E4 :: "label list" where "E4 = [Exec, Exec, Exec, Exec]"
definition E10 :: "label list" where "E10 = E3 @ E4 @ E3"
definition E13 :: "label list" where "E13 = E10 @ E3"

lemmas script_defs = E3_def E4_def E10_def E13_def

text \<open>Boot under a scheduler, start the idle thread, go on with a script.\<close>

definition example :: "bool \<Rightarrow> bool \<Rightarrow> bool \<Rightarrow> label list \<Rightarrow> kernel option" where
  "example q r j as = do {
     k \<leftarrow> thread_init (boot q r (\<not> q \<and> \<not> r \<and> \<not> j) j 4096 [8192, 12288, 16384, 20480]);
     run (E10 @ [Call Thread_start] @ E13 @ E13 @ as) k }"

lemma example_boot_ok: "boot_ok 4096 [8192, 12288, 16384, 20480]"
  by (simp add: boot_ok_def)

lemma example_run:
  assumes "example q r j as = Some k"
  obtains k0 where "thread_init (boot q r (\<not> q \<and> \<not> r \<and> \<not> j) j 4096 [8192, 12288, 16384, 20480]) = Some k0"
    "run (E10 @ [Call Thread_start] @ E13 @ E13 @ as) k0 = Some k"
  using assms by (auto simp: example_def bind_eq_Some_conv simp del: run.simps)

lemma example_reachable:
  assumes "example q r j as = Some k"
  shows "reachable k"
  by (rule example_run [OF assms]) (rule reachable_run, assumption, rule reachable_init [OF example_boot_ok])

text \<open>
  A run with some of everything: \<open>main\<close> creates two threads and waits on semaphore 0; the first takes lock 2 and
  goes to sleep for 5 ticks; the second waits for the lock; the processor is idle.
\<close>

definition demo :: "label list" where
  "demo = [Call (Thread_create ''a'' 31 Fn_user)] @ E13 @ [Call (Thread_create ''b'' 20 Fn_user)] @ E13 @
     [Call (Sema_down (Sema 0))] @ E3 @ [Call (Lock_acquire 2)] @ E4 @ [Call (Timer_sleep 5)] @ E3 @ E3 @
     [Call (Lock_acquire 2)] @ E4 @ [Exec]"

definition demo_state :: kernel where
  "demo_state = the (example False False False demo)"

lemma demo_run:
  "\<exists>k. example False False False demo = Some k \<and> cur k = 8192 \<and> idle_thread k = 8192 \<and> intr k = INTR_ON \<and> os_ticks k = 0 \<and> inserting k = NULL \<and>
     all_list k = [4096, 8192, 12288, 16384] \<and> ready_list k = [] \<and> wait_list k = [12288] \<and>
     holder k 2 = 12288 \<and> wakeup_time (threads k 12288) = 5 \<and>
     semas k (Sema 0) = \<lparr>sema_value = 0, waiters = [4096]\<rparr> \<and>
     semas k (Lock_sema 2) = \<lparr>sema_value = 0, waiters = [16384]\<rparr> \<and>
     ops (threads k 4096) = [Schedule_rest 12288, Sema_down_loop (Sema 0) INTR_ON, Run_function, Thread_exit] \<and>
     ops (threads k 8192) = [Idle_loop, Thread_exit] \<and>
     ops (threads k 12288) = [Schedule_rest 16384, Sema_down_loop (Timer_sema 12288) INTR_ON, Run_function, Thread_exit] \<and>
     ops (threads k 16384) =
       [Schedule_rest 8192, Sema_down_loop (Lock_sema 2) INTR_ON, Set_holder 2, Run_function, Thread_exit]"
  by (simp add: example_def demo_def script_defs eval_defs cong: eval_congs)

lemma demo_state: "example False False False demo = Some demo_state"
  using demo_run by (auto simp: demo_state_def)

lemmas demo_reachable = example_reachable [OF demo_state]

lemma demo_view:
  "cur demo_state = 8192" "idle_thread demo_state = 8192" "intr demo_state = INTR_ON" "os_ticks demo_state = 0" "inserting demo_state = NULL"
  "all_list demo_state = [4096, 8192, 12288, 16384]" "ready_list demo_state = []" "wait_list demo_state = [12288]"
  "holder demo_state 2 = 12288" "wakeup_time (threads demo_state 12288) = 5"
  "semas demo_state (Sema 0) = \<lparr>sema_value = 0, waiters = [4096]\<rparr>"
  "semas demo_state (Lock_sema 2) = \<lparr>sema_value = 0, waiters = [16384]\<rparr>"
  "ops (threads demo_state 4096) = [Schedule_rest 12288, Sema_down_loop (Sema 0) INTR_ON, Run_function, Thread_exit]"
  "ops (threads demo_state 8192) = [Idle_loop, Thread_exit]"
  "ops (threads demo_state 12288) = [Schedule_rest 16384, Sema_down_loop (Timer_sema 12288) INTR_ON, Run_function, Thread_exit]"
  "ops (threads demo_state 16384) =
     [Schedule_rest 8192, Sema_down_loop (Lock_sema 2) INTR_ON, Set_holder 2, Run_function, Thread_exit]"
  using demo_run unfolding demo_state_def by auto

text \<open>\<open>main\<close> creates a thread and turns interrupts off.\<close>

definition off_state :: kernel where
  "off_state = the (example False False False
     ([Call (Thread_create ''a'' 31 Fn_user)] @ E13 @ [Call (Intr_set_level INTR_OFF), Exec]))"

lemma off_run:
  "\<exists>k. example False False False ([Call (Thread_create ''a'' 31 Fn_user)] @ E13 @ [Call (Intr_set_level INTR_OFF), Exec]) = Some k \<and>
     cur k = 4096 \<and> idle_thread k = 8192 \<and> intr k = INTR_OFF \<and> ready_list k = [12288] \<and> all_list k = [4096, 8192, 12288] \<and> load_avg k = 0"
  by (simp add: example_def script_defs eval_defs cong: eval_congs)

lemma off_reachable: "reachable off_state"
  using off_run example_reachable unfolding off_state_def by fastforce

lemma off_view: "cur off_state = 4096" "idle_thread off_state = 8192" "intr off_state = INTR_OFF"
  "ready_list off_state = [12288]" "all_list off_state = [4096, 8192, 12288]" "load_avg off_state = 0"
  using off_run unfolding off_state_def by auto

text \<open>The sleeper of \<open>demo\<close>, one tick before it is due, and after that tick.\<close>

definition due_state :: kernel where
  "due_state = the (example False False False (demo @ [Tick, Exec, Tick, Exec, Tick, Exec, Tick, Exec]))"

definition woken_state :: kernel where
  "woken_state = the (step Tick due_state)"

lemma due_run:
  "\<exists>k k'. example False False False (demo @ [Tick, Exec, Tick, Exec, Tick, Exec, Tick, Exec]) = Some k \<and> step Tick k = Some k' \<and>
     \<not> sjf k \<and> \<not> thread_mlfqs k \<and> os_ticks k = 4 \<and> wait_list k = [12288] \<and> wakeup_time (threads k 12288) = 5 \<and>
     os_ticks k' = 5 \<and> wakeup_time (threads k' 12288) = 5 \<and> all_list k' = [4096, 8192, 12288, 16384] \<and>
     sema_value (semas k' (Timer_sema 12288)) = 1"
  by (simp add: example_def demo_def script_defs eval_defs cong: eval_congs)

lemma due_states:
  "example False False False (demo @ [Tick, Exec, Tick, Exec, Tick, Exec, Tick, Exec]) = Some due_state"
  "step Tick due_state = Some woken_state"
  using due_run by (auto simp: due_state_def woken_state_def simp del: step.simps)

lemmas due_reachable = example_reachable [OF due_states(1)]
lemmas woken_reachable = reachable_step [OF due_reachable due_states(2)]

lemma due_view: "\<not> sjf due_state" "\<not> thread_mlfqs due_state" "os_ticks due_state = 4" "wait_list due_state = [12288]" "wakeup_time (threads due_state 12288) = 5"
  "os_ticks woken_state = 5" "wakeup_time (threads woken_state 12288) = 5"
  "all_list woken_state = [4096, 8192, 12288, 16384]" "sema_value (semas woken_state (Timer_sema 12288)) = 1"
  using due_run unfolding due_state_def woken_state_def by (auto simp del: step.simps)

text \<open>Under the multilevel feedback queue, \<open>main\<close> asks for priority 100.\<close>

definition mlfqs_state :: kernel where
  "mlfqs_state = the (example True False False [Call (Thread_set_priority 100), Exec])"

lemma mlfqs_run:
  "\<exists>k. example True False False [Call (Thread_set_priority 100), Exec] = Some k \<and> cur k = 4096 \<and> thread_mlfqs k"
  by (simp add: example_def script_defs eval_defs cong: eval_congs)

lemma mlfqs_state: "example True False False [Call (Thread_set_priority 100), Exec] = Some mlfqs_state"
  "thread_mlfqs mlfqs_state"
  using mlfqs_run by (auto simp: mlfqs_state_def)

text \<open>Under round robin, \<open>main\<close> has been running for six ticks.\<close>

definition rr_script :: "label list" where
  "rr_script = [Tick, Exec, Tick, Exec, Tick, Exec, Tick, Exec, Tick, Exec, Tick, Exec]"

definition rr_state :: kernel where
  "rr_state = the (example False True False rr_script)"

lemma rr_run:
  "\<exists>k. example False True False rr_script = Some k \<and> cur k = 4096 \<and> roundrobin k \<and> \<not> sjf k \<and> intr k = INTR_ON \<and>
     os_ticks k = 6 \<and> inserting k = NULL \<and> ticks (threads k 4096) = 6 \<and> ops (threads k 4096) = [Run_function, Thread_exit]"
  by (simp add: example_def rr_script_def script_defs eval_defs cong: eval_congs)

lemma rr_state: "example False True False rr_script = Some rr_state"
  using rr_run by (auto simp: rr_state_def)

lemma rr_view: "cur rr_state = 4096" "roundrobin rr_state" "\<not> sjf rr_state" "intr rr_state = INTR_ON" "os_ticks rr_state = 6" "inserting rr_state = NULL"
  "ticks (threads rr_state 4096) = 6" "ops (threads rr_state 4096) = [Run_function, Thread_exit]"
  using rr_run by (auto simp: rr_state_def)

text \<open>
  First come first served: \<open>main\<close> creates a thread and waits; the thread runs and returns from its function
  without ever having given up the processor.
\<close>

definition exit_script :: "label list" where
  "exit_script = [Call (Thread_create ''a'' 31 Fn_user)] @ E13 @ [Call (Sema_down (Sema 0))] @ E3 @ [Finish]"

lemma exit_run:
  "\<exists>k. example False False False exit_script = Some k \<and> ops (threads k (cur k)) = [Thread_exit] \<and> cur k = 12288 \<and>
     initial_thread k = 4096 \<and> idle_thread k = 8192 \<and> repeat (threads k 12288) = 0 \<and> \<not> sjf k"
  by (simp add: example_def exit_script_def script_defs eval_defs cong: eval_congs)

text \<open>
  Shortest job first: two threads of the same name; the first waits on a semaphore, the second runs for two ticks,
  gives way to \<open>main\<close> once and returns.
\<close>

definition sjf_script :: "label list" where
  "sjf_script = [Call (Thread_create ''a'' 31 Fn_user)] @ E13 @ [Call (Thread_create ''a'' 31 Fn_user)] @ E13 @
     [Call Thread_yield, Exec, Exec, Call (Sema_down (Sema 2))] @ E3 @ [Tick, Exec, Tick, Exec, Call Thread_yield] @ E3 @
     [Call Thread_yield] @ E3 @ [Finish]"

definition sjf_state :: kernel where
  "sjf_state = the (example False False True sjf_script)"

lemma sjf_run:
  "\<exists>k k'. example False False True sjf_script = Some k \<and> ops (threads k (cur k)) = [Thread_exit] \<and> cur k = 16384 \<and>
     all_all_list k = [4096, 8192, 12288] \<and> name (threads k 4096) = ''main'' \<and> name (threads k 8192) = ''idle'' \<and>
     name (threads k 12288) = ''a'' \<and> name (threads k 16384) = ''a'' \<and> sjf k \<and> ready_list k = [4096] \<and>
     total_exec (threads k 12288) = 0 \<and> curr_exec (threads k 16384) = 2 \<and> thread_exit (pop_op k) = Some k'"
  by (simp add: example_def sjf_script_def script_defs eval_defs cong: eval_congs)

lemma sjf_state: "example False False True sjf_script = Some sjf_state" "\<exists>k'. thread_exit (pop_op sjf_state) = Some k'"
  using sjf_run by (auto simp: sjf_state_def)

lemma sjf_view: "cur sjf_state = 16384" "all_all_list sjf_state = [4096, 8192, 12288]" "sjf sjf_state" "ready_list sjf_state = [4096]"
  "name (threads sjf_state 4096) = ''main''" "name (threads sjf_state 8192) = ''idle''"
  "name (threads sjf_state 12288) = ''a''" "name (threads sjf_state 16384) = ''a''"
  "total_exec (threads sjf_state 12288) = 0" "curr_exec (threads sjf_state 16384) = 2"
  using sjf_run by (auto simp: sjf_state_def)

text \<open>The multilevel feedback queue with two ready threads, the first of which is nice.\<close>

definition mlfqs_script :: "label list" where
  "mlfqs_script = [Call (Thread_create ''a'' 31 Fn_user)] @ E13 @ [Call (Thread_create ''b'' 31 Fn_user)] @ E13"

definition nice_state :: kernel where
  "nice_state = (upd 12288 (\<lambda>th. th\<lparr>nice := 5\<rparr>) (the (example True False False mlfqs_script)))\<lparr>intr := INTR_OFF\<rparr>"

lemma nice_run:
  "\<exists>k k'. example True False False mlfqs_script = Some k \<and> ready_list k = [12288, 16384] \<and> os_ticks k = 0 \<and>
     thread_tick_mlfqs 4096 ((upd 12288 (\<lambda>th. th\<lparr>nice := 5\<rparr>) k)\<lparr>intr := INTR_OFF\<rparr>) = Some k' \<and>
     priority (threads k' 12288) = 52 \<and> priority (threads k' 16384) = 63"
  by (simp add: example_def mlfqs_script_def script_defs thread_tick_mlfqs_def refresh_load_avg_def refresh_cpu_def
      eval_defs cong: eval_congs)

lemma nice_state: "\<exists>k'. thread_tick_mlfqs 4096 nice_state = Some k' \<and> priority (threads k' 12288) = 52 \<and> priority (threads k' 16384) = 63"
  and nice_view: "ready_list nice_state = [12288, 16384]" "timer_ticks nice_state = 0"
  using nice_run by (auto simp: nice_state_def upd_def timer_ticks_def)

text \<open>\<open>main\<close> sleeps for three ticks, the first of which comes while it is inserting itself into the sleep queue.\<close>

definition nap_script :: "label list" where
  "nap_script = [Exec, Tick] @ E3 @ E3 @ [Tick, Exec, Tick, Exec] @ E4 @ [Exec]"

definition nap_state :: kernel where
  "nap_state = the (example False False False [Call (Timer_sleep 3)])"

lemma nap_run:
  "\<exists>k k'. example False False False [Call (Timer_sleep 3)] = Some k \<and> run (Exec # nap_script) k = Some k' \<and> cur k = 4096 \<and>
     os_ticks k = 0 \<and> ops (threads k 4096) = [Timer_sleep 3, Run_function, Thread_exit] \<and>
     ops (threads k' 4096) = [Run_function, Thread_exit]"
  by (simp add: example_def nap_script_def script_defs eval_defs cong: eval_congs)

lemma nap_reachable: "reachable nap_state"
  using nap_run example_reachable unfolding nap_state_def by fastforce

lemma nap_view: "cur nap_state = 4096" "os_ticks nap_state = 0" "ops (threads nap_state 4096) = [Timer_sleep 3, Run_function, Thread_exit]"
  "\<exists>k'. run (Exec # nap_script) nap_state = Some k' \<and> ops (threads k' 4096) = [Run_function, Thread_exit]"
  using nap_run unfolding nap_state_def by (auto simp del: run.simps)

text \<open>
  The race on the sleep queue: \<open>main\<close> is on the queue and due at the next tick, and another thread is inserting itself with
  interrupts on.
\<close>

lemma wait_race_reachable: "\<exists>k. reachable k \<and> intr k = INTR_ON \<and> wait_race (os_ticks k + 1) k"
proof -
  have "\<exists>k. example False False False ([Call (Thread_create ''a'' 31 Fn_user)] @ E13 @ [Call (Timer_sleep 1)] @ E3 @ E3 @
      [Call (Timer_sleep 5), Exec, Exec]) = Some k \<and> intr k = INTR_ON \<and> wait_race (os_ticks k + 1) k"
    by (simp add: example_def script_defs eval_defs cong: eval_congs)
  then show ?thesis using example_reachable by blast
qed

end
