(* ===== verification/Sched_Props.thy ===== *)
theory Sched_Props
  imports Sched_Safety Examples
begin

text \<open>
  What the scheduler invariant gives for every state the system can get into: queue discipline, one running
  thread, and operations that cannot panic.
\<close>

section \<open>Queues\<close>

text \<open>
  C3: A thread is on at most one queue.  \<open>struct thread\<close> has a single \<open>elem\<close> for the run queue and the
  wait lists of semaphores; in every reachable state the run queue has no duplicates, no wait list has,
  no thread is on the run queue and on a wait list, or on the wait lists of two semaphores, and the running
  thread is on none of them.
\<close>

theorem queue_exclusive:
  assumes "reachable k"
  shows "distinct (ready_list k) \<and> cur k \<notin> set (ready_list k) \<and>
    (\<forall>s. distinct (waiters (semas k s)) \<and> cur k \<notin> set (waiters (semas k s)) \<and>
       set (waiters (semas k s)) \<inter> set (ready_list k) = {} \<and>
       (\<forall>s'. s' \<noteq> s \<longrightarrow> set (waiters (semas k s)) \<inter> set (waiters (semas k s')) = {}))"
proof -
  have inv: "sched_inv {cur k} k" using reachable_inv [OF assms] by simp
  then have "inv_status {cur k} k" "inv_waiters k" by (auto simp: sched_inv_def)
  then show ?thesis unfolding inv_status_def inv_waiters_def by fastforce
qed

theorem queue_exclusive_witness:
  "waiters (semas demo_state (Sema 0)) = [4096] \<and> waiters (semas demo_state (Lock_sema 2)) = [16384] \<and>
   4096 \<notin> set (waiters (semas demo_state (Lock_sema 2)))"
  using queue_exclusive [OF demo_reachable] by (auto simp: demo_view)

text \<open>
  C4: Exactly one thread is running.  In every reachable state the threads with status \<open>THREAD_RUNNING\<close> are
  the current one alone, and \<open>thread_current\<close> returns it: neither of its assertions can fail.
\<close>

theorem one_running:
  assumes "reachable k"
  shows "{t \<in> set (all_list k). status (threads k t) = THREAD_RUNNING} = {cur k} \<and> thread_current k = Some (cur k)"
proof -
  have inv: "sched_inv {cur k} k" using reachable_inv [OF assms] by simp
  then have "inv_status {cur k} k" by (auto simp: sched_inv_def)
  then show ?thesis using cur_facts [OF inv] 
    by (auto simp: inv_status_def thread_current_def running_thread_def is_thread_def opt_simps)
qed

theorem one_running_witness: "thread_current demo_state = Some 8192"
  using one_running [OF demo_reachable] by (simp add: demo_view)

text \<open>
  C5: No runnable thread is lost.  In every reachable state a live thread with status \<open>THREAD_READY\<close> is on the
  run queue, unless it is an idle thread, which \<open>thread_yield\<close> does not queue; conversely everything on
  the run queue is a live thread with that status, and the idle thread is never there.
\<close>

theorem ready_queued:
  assumes "reachable k"
  shows "(\<forall>t\<in>set (all_list k). status (threads k t) = THREAD_READY \<longrightarrow>
            t \<in> set (ready_list k) \<or> Idle_loop \<in> set (ops (threads k t))) \<and>
         (\<forall>t\<in>set (ready_list k). t \<in> set (all_list k) \<and> status (threads k t) = THREAD_READY \<and> t \<noteq> idle_thread k)"
proof -
  have "sched_inv {cur k} k" using reachable_inv [OF assms] by simp
  then have "inv_status {cur k} k" "inv_idle k" "NULL \<notin> set (all_list k)" by (auto simp: sched_inv_def inv_pages_def)
  then show ?thesis by (auto simp: inv_status_def inv_idle_def)
qed

theorem ready_queued_witness:
  "ready_list off_state = [12288] \<and> status (threads off_state 12288) = THREAD_READY \<and> idle_thread off_state \<noteq> 12288"
  using ready_queued [OF off_reachable] by (auto simp: off_view)

section \<open>Operations that cannot panic\<close>

text \<open>
  C35: \<open>sema_up\<close> never panics, whatever the semaphore: the thread it takes off the wait list is always a valid
  blocked thread, so that the assertions of \<open>thread_unblock\<close> hold.  One waiter, the first, becomes ready.
\<close>

theorem sema_up_total:
  assumes "reachable k"
  shows "\<exists>k'. sema_up s k = Some k' \<and>
    ready_list k' = ready_list k @ take 1 (waiters (semas k s)) \<and> waiters (semas k' s) = drop 1 (waiters (semas k s)) \<and>
    (\<forall>t\<in>set (take 1 (waiters (semas k s))). status (threads k' t) = THREAD_READY)"
proof -
  have inv: "inv_waiters k" "inv_pages k" "\<not> in_external_intr k" 
    using reachable_inv [OF assms] by (auto simp: sched_inv_def)
  show ?thesis
  proof (cases "waiters (semas k s)")
    case Nil
    then show ?thesis using inv(3)
      by (cases "intr k") (auto simp: sema_up_def opt_simps intr_set_level_def intr_enable_def intr_disable_def intr_get_level_def
         intr_context_def)
  next
    case (Cons t ts)
    then have "t \<in> set (all_list k)" "status (threads k t) = THREAD_BLOCKED"
      using inv(1) unfolding inv_waiters_def by (metis list.set_intros(1))+
    then have "is_thread k t" "status (threads k t) = THREAD_BLOCKED"
      using inv(2) by (auto simp: inv_pages_def is_thread_def)
    then show ?thesis using Cons inv(3)
      by (cases "intr k") (auto simp: sema_up_def thread_unblock_def opt_simps is_thread_def intr_set_level_def intr_enable_def
        intr_disable_def upd_def upd_sema_def intr_get_level_def intr_context_def)
  qed
qed

theorem sema_up_total_witness:
  "\<exists>k'. sema_up (Lock_sema 2) demo_state = Some k' \<and> ready_list k' = [16384] \<and> status (threads k' 16384) = THREAD_READY"
  using sema_up_total [OF demo_reachable, of "Lock_sema 2"] by (auto simp: demo_view)

text \<open>
  Blocking the running thread cannot panic once the idle thread exists, and hands the processor to the
  first thread of the run queue, or to the idle thread when that is empty.  The thread that blocks is
  left with the rest of \<open>schedule\<close> on its stack.
\<close>

theorem thread_block_switch:
  assumes "reachable k" "intr k = INTR_OFF" "idle_thread k \<noteq> NULL" "cur k \<noteq> idle_thread k"
  shows "\<exists>k'. thread_block k = Some k' \<and> cur k' = hd (ready_list k @ [idle_thread k]) \<and> ready_list k' = tl (ready_list k) \<and>
    status (threads k' (cur k')) = THREAD_RUNNING \<and> status (threads k' (cur k)) = THREAD_BLOCKED \<and>
    ops (threads k' (cur k)) = Schedule_rest (cur k') # ops (threads k (cur k)) \<and> all_list k' = all_list k"
proof -
  have inv: "sched_inv {cur k} k" and ext: "\<not> in_external_intr k" using reachable_inv [OF assms(1)] by auto
  define n where "n = hd (ready_list k @ [idle_thread k])"
  have "n \<in> set (all_list k)" "n \<noteq> cur k"
    using inv assms(3,4) cur_facts(3) [OF inv]
    by (cases "ready_list k"; auto simp: n_def sched_inv_def inv_status_def inv_idle_def)+
  moreover have "next_thread_to_run k' = (n, k'\<lparr>ready_list := tl (ready_list k)\<rparr>)"
    if "ready_list k' = ready_list k" "idle_thread k' = idle_thread k" for k'
    using that by (auto simp: next_thread_to_run_def n_def split: list.splits)
  moreover have "magic (threads k t) = THREAD_MAGIC \<and> t \<noteq> NULL" if "t \<in> set (all_list k)" for t
    using inv that by (auto simp: sched_inv_def inv_pages_def)
  ultimately show ?thesis
    using assms(2) ext cur_facts [OF inv]
    by (auto simp: thread_block_def schedule_def thread_schedule_tail_def thread_current_def running_thread_def is_thread_def
      opt_simps intr_get_level_def intr_context_def upd_def push_ops_def n_def [symmetric] Let_def)
qed

theorem thread_block_switch_witness:
  "\<exists>k'. thread_block off_state = Some k' \<and> cur k' = 12288 \<and> status (threads k' 4096) = THREAD_BLOCKED"
  using thread_block_switch [OF off_reachable] by (auto simp: off_view)

end
