(* ===== verification/Stack_Count.thy ===== *)
theory Stack_Count
  imports Sched_Safety
begin

text \<open>
  Counting pending operations.  A weight on operations is summed over the kernel stacks of all
  threads; the locale \<open>stack_weight\<close> states what a weight must ignore, and follows the sum through the
  context switch and through the operations that do not touch semaphores.
\<close>

definition wsum :: "(kop \<Rightarrow> int) \<Rightarrow> kop list \<Rightarrow> int" where
  "wsum w xs = sum_list (map w xs)"

lemma wsum_simps [simp]:
  "wsum w [] = 0" "wsum w (c # xs) = w c + wsum w xs" "wsum w (xs @ ys) = wsum w xs + wsum w ys"
  by (simp_all add: wsum_def)

definition stack_sum :: "(kop \<Rightarrow> int) \<Rightarrow> kernel \<Rightarrow> int" where
  "stack_sum w k = (\<Sum>t\<in>set (all_list k). wsum w (ops (threads k t)))"

lemma stack_sum_cong:
  assumes "set (all_list k') = set (all_list k)"
    "\<And>t. t \<in> set (all_list k) \<Longrightarrow> wsum w (ops (threads k' t)) = wsum w (ops (threads k t))"
  shows "stack_sum w k' = stack_sum w k"
  unfolding stack_sum_def assms(1) by (rule sum.cong) (simp_all add: assms(2))

lemma stack_sum_change:
  assumes "set (all_list k') = set (all_list k)" "c \<in> set (all_list k)"
    "\<And>t. t \<in> set (all_list k) \<Longrightarrow> t \<noteq> c \<Longrightarrow> wsum w (ops (threads k' t)) = wsum w (ops (threads k t))"
  shows "stack_sum w k' = stack_sum w k - wsum w (ops (threads k c)) + wsum w (ops (threads k' c))"
proof -
  have "(\<Sum>t\<in>set (all_list k) - {c}. wsum w (ops (threads k' t))) = (\<Sum>t\<in>set (all_list k) - {c}. wsum w (ops (threads k t)))"
    using assms(3) by (intro sum.cong) auto
  then show ?thesis
    using assms(1,2) by (simp add: stack_sum_def sum.remove [of "set (all_list k)" c])
qed

lemma stack_sum_core: "kcore k' = kcore k \<Longrightarrow> stack_sum w k' = stack_sum w k"
  by (rule stack_sum_cong) (simp_all add: kcore_eqD [of k' k])

lemma stack_sum_nonneg:
  assumes "\<And>t. t \<in> set (all_list k) \<Longrightarrow> 0 \<le> wsum w (ops (threads k t))" "t \<in> set (all_list k)"
  shows "wsum w (ops (threads k t)) \<le> stack_sum w k"
proof -
  have "0 \<le> (\<Sum>u\<in>set (all_list k) - {t}. wsum w (ops (threads k u)))"
    using assms(1) by (intro sum_nonneg) auto
  then show ?thesis using assms(2) by (simp add: stack_sum_def sum.remove [of "set (all_list k)" t])
qed

text \<open>Operations that belong to the control of the threads, not to a semaphore.\<close>

fun control :: "kop \<Rightarrow> bool" where
  "control (Sema_init s v) = False"
| "control (Sema_down s) = False"
| "control (Sema_try_down s) = False"
| "control (Sema_up s) = False"
| "control (Sema_down_loop s lv) = False"
| "control (Lock_acquire l) = False"
| "control (Lock_try_acquire l) = False"
| "control (Lock_release l) = False"
| "control (Set_holder l) = False"
| "control _ = True"

locale stack_weight =
  fixes w :: "kop \<Rightarrow> int"
  assumes control_weight: "control c \<Longrightarrow> w c = 0"
begin

lemma inert_weight: "inert xs \<Longrightarrow> wsum w xs = 0"
  by (induction xs) (auto simp: control_weight)

lemma schedule_sum:
  assumes "schedule k = Some k'" "status (threads k (cur k)) = THREAD_DYING \<Longrightarrow> cur k \<notin> set (all_list k)"
  shows "stack_sum w k' = stack_sum w k"
proof (rule schedule_Some [OF assms(1), of THREAD_READY "[]"])
  fix nxt T F
  assume k': "k' = k\<lparr>threads := T, cur := nxt, ready_list := tl (ready_list k), thread_ticks := 0, free_pages := F\<rparr>"
    and oth: "\<And>t. t \<noteq> cur k \<Longrightarrow> tcore ((T t)\<lparr>status := THREAD_READY\<rparr>) = tcore ((threads k t)\<lparr>status := THREAD_READY\<rparr>)"
    and own: "\<not> frees_cur k nxt \<Longrightarrow> ops (T (cur k)) = Schedule_rest nxt # ops (threads k (cur k)) \<and>
       tcore ((T (cur k))\<lparr>status := THREAD_READY, ops := []\<rparr>) = tcore ((threads k (cur k))\<lparr>status := THREAD_READY, ops := []\<rparr>)"
  show ?thesis
  proof (rule stack_sum_cong)
    fix t assume t: "t \<in> set (all_list k)"
    then have "t = cur k \<Longrightarrow> \<not> frees_cur k nxt" using assms(2) by (auto simp: frees_cur_def)
    then show "wsum w (ops (threads k' t)) = wsum w (ops (threads k t))"
      using oth [of t] own by (cases "t = cur k") (auto simp: k' tcore_def control_weight)
  qed (simp add: k')
qed

lemma pop_sum:
  assumes "cur k \<in> set (all_list k)" "ops (threads k (cur k)) = c # rest"
  shows "stack_sum w (pop_op k) = stack_sum w k - w c"
  using stack_sum_change [of "pop_op k" k "cur k" w] assms by simp

lemma push_sum:
  assumes "t \<in> set (all_list k)"
  shows "stack_sum w (push_ops t xs k) = stack_sum w k + wsum w xs"
  using stack_sum_change [of "push_ops t xs k" k t w] assms by simp

lemma unblock_sum: "thread_unblock t k = Some k' \<Longrightarrow> stack_sum w k' = stack_sum w k"
  by (erule thread_unblock_Some, rule stack_sum_cong) (auto simp: tcore_def)

lemma sema_up_sum: "sema_up s k = Some k' \<Longrightarrow> stack_sum w k' = stack_sum w k"
proof (cases "waiters (semas k s)")
  case (Cons t ts)
  assume "sema_up s k = Some k'"
  then show ?thesis by (rule sema_up_wake_Some [OF _ Cons]) (rule stack_sum_cong, auto simp: tcore_def)
next
  case Nil
  assume "sema_up s k = Some k'"
  then show ?thesis using Nil
    by (intro stack_sum_cong) (auto simp: sema_up_def opt_simps intr_set_level_Some intr_disable_def)
qed

end

section \<open>What each operation does to the semaphores and the locks\<close>

fun sema_after :: "kernel \<Rightarrow> kop \<Rightarrow> sema_ref \<Rightarrow> semaphore" where
  "sema_after k (Sema_init s' v) s = (if s = s' then \<lparr>sema_value = v, waiters = []\<rparr> else semas k s)"
| "sema_after k (Sema_down_loop s' lv) s =
     (if s = s' then if sema_value (semas k s) = 0 then (semas k s)\<lparr>waiters := waiters (semas k s) @ [cur k]\<rparr>
                     else (semas k s)\<lparr>sema_value := sema_value (semas k s) - 1\<rparr>
      else semas k s)"
| "sema_after k (Sema_try_down s') s =
     (if s = s' then (semas k s)\<lparr>sema_value := sema_value (semas k s) - 1\<rparr> else semas k s)"
| "sema_after k (Sema_up s') s =
     (if s = s' then (semas k s)\<lparr>sema_value := u32 (sema_value (semas k s) + 1), waiters := tl (waiters (semas k s))\<rparr>
      else semas k s)"
| "sema_after k (Lock_try_acquire l) s =
     (if s = Lock_sema l then (semas k s)\<lparr>sema_value := sema_value (semas k s) - 1\<rparr> else semas k s)"
| "sema_after k (Cond_wait c l) s =
     (if s = Waiter_sema (cur k) then \<lparr>sema_value = 0, waiters = []\<rparr> else semas k s)"
| "sema_after k (Thread_create nm pri fn) s =
     (if free_pages k \<noteq> [] \<and> s = Timer_sema (hd (free_pages k)) then \<lparr>sema_value = 0, waiters = []\<rparr> else semas k s)"
| "sema_after k c s = semas k s"

fun holder_after :: "kernel \<Rightarrow> kop \<Rightarrow> nat \<Rightarrow> addr" where
  "holder_after k (Set_holder l') l = (if l = l' then cur k else holder k l)"
| "holder_after k (Lock_release l') l = (if l = l' then NULL else holder k l)"
| "holder_after k c l = holder k l"

definition globals where
  "globals k = (semas k, holder k, wait_list k, conds k, next_tid k, os_ticks k)"

lemma schedule_globals: "schedule k = Some k' \<Longrightarrow> globals k' = globals k"
  by (erule schedule_Some [of _ _ THREAD_READY "[]"]) (simp add: globals_def)

lemma kcore_globals: "kcore k' = kcore k \<Longrightarrow> globals k' = globals k"
  by (simp add: kcore_def globals_def)

lemma sema_record: "\<lparr>sema_value = v, waiters = ts\<rparr> = sm\<lparr>sema_value := v, waiters := ts\<rparr>"
  by (cases sm) simp

lemma set_retval_sel [simp]: "semas (set_retval v k) = semas k" "holder (set_retval v k) = holder k"
  "wait_list (set_retval v k) = wait_list k" "os_ticks (set_retval v k) = os_ticks k" "next_tid (set_retval v k) = next_tid k"
  by (simp_all add: set_retval_def)

lemma sema_up_semas:
  assumes "sema_up s k = Some k'"
  shows "semas k' = (semas k)(s := (semas k s)\<lparr>sema_value := u32 (sema_value (semas k s) + 1), waiters := tl (waiters (semas k s))\<rparr>)
    \<and> holder k' = holder k \<and> wait_list k' = wait_list k \<and> os_ticks k' = os_ticks k \<and> next_tid k' = next_tid k \<and> all_list k' = all_list k \<and> conds k' = conds k"
proof (cases "waiters (semas k s)")
  case (Cons t ts)
  show ?thesis by (rule sema_up_wake_Some [OF assms Cons]) (simp add: Cons sema_record [of _ _ "semas k s"])
next
  case Nil
  then show ?thesis using assms
    by (auto simp: sema_up_def opt_simps intr_set_level_Some intr_disable_def upd_sema_def intr_get_level_def)
qed

lemmas call_defs = thread_start_def allocate_tid_def idle_loop_def tid_load_def tid_store_def set_tid_def
  timer_sleep_def sleep_insert_def sleep_link_def kernel_thread_def idle_def create_rest_def alloc_frame_def intr_enable_def intr_disable_def
  setBound_def

lemma exec_semas:
  assumes ex: "exec c k = Some k'" and z: "0 \<notin> set (free_pages k)"
  shows "semas k' s = sema_after k c s \<and> holder k' l = holder_after k c l"
proof (cases c)
  case (Thread_create nm pri fn)
  then show ?thesis using ex z
    by (auto simp: thread_create_def palloc_get_page_def opt_simps split: list.splits elim!: init_thread_Some)
next
  case Thread_exit
  then have "thread_exit k = Some k'" using ex by simp
  then show ?thesis
    by (rule thread_exit_Some)
      (auto simp: Thread_exit intr_disable_def dest!: schedule_globals kcore_globals simp: globals_def)
next
  case (Sema_up s')
  then show ?thesis using ex sema_up_semas [of s' k k'] by auto
next
  case (Thread_unblock t)
  then have "thread_unblock t k = Some k'" using ex by simp
  then show ?thesis by (rule thread_unblock_Some) (simp add: Thread_unblock)
next
  case (Sema_down_loop s' lv)
  then show ?thesis using ex
    by (auto simp: sema_down_loop_def thread_block_def thread_current_def running_thread_def opt_simps
        intr_set_level_Some globals_def split: if_splits dest!: schedule_globals)
next
  case Thread_block
  then show ?thesis using ex by (auto simp: thread_block_def opt_simps globals_def dest!: schedule_globals)
next
  case Thread_yield
  then show ?thesis using ex
    by (auto simp: thread_yield_def intr_disable_def opt_simps globals_def dest!: schedule_globals split: if_splits)
next
  case (Thread_set_priority p)
  then show ?thesis using ex by (auto dest!: thread_set_priority_core kcore_globals simp: globals_def)
next
  case (Thread_set_nice p)
  then show ?thesis using ex by (auto dest!: thread_set_nice_core kcore_globals simp: globals_def)
next
  case (Schedule_rest p)
  then show ?thesis using ex by (auto dest!: schedule_rest_core kcore_globals simp: globals_def)
next
  case (Set_holder l')
  then show ?thesis using ex by (auto simp: set_holder_def opt_simps thread_current_def running_thread_def)
next
  case (Lock_try_acquire l')
  then show ?thesis using ex
    by (auto simp: synch_defs opt_simps intr_set_level_Some intr_disable_def split: if_splits)
next
  case (Sema_try_down s')
  then show ?thesis using ex
    by (auto simp: synch_defs opt_simps intr_set_level_Some intr_disable_def split: if_splits)
qed (use ex in \<open>auto simp: synch_defs call_defs opt_simps intr_set_level_Some thread_current_def running_thread_def
       split: if_splits list.splits\<close>)

section \<open>What each operation leaves on the stacks\<close>

inductive expands :: "kernel \<Rightarrow> kop \<Rightarrow> kop list \<Rightarrow> bool" where
  simple: "simple k c \<Longrightarrow> (\<And>l. c \<noteq> Lock_try_acquire l) \<Longrightarrow> pushes c xs \<Longrightarrow> expands k c xs"
| try_yes: "sema_value (semas k (Lock_sema l)) \<noteq> 0 \<Longrightarrow> expands k (Lock_try_acquire l) [Set_holder l, Return 1]"
| try_no: "sema_value (semas k (Lock_sema l)) = 0 \<Longrightarrow> expands k (Lock_try_acquire l) [Return 0]"
| block: "expands k Thread_block []"
| unblock: "expands k (Thread_unblock t) []"
| yield: "expands k Thread_yield [Intr_set_level lv]"
| exit: "expands k Thread_exit []"
| down: "sema_value (semas k s) = 0 \<Longrightarrow> expands k (Sema_down_loop s lv) [Sema_down_loop s lv]"
| up: "expands k (Sema_up s) []"
| idle: "expands k (Idle_body s) [Sema_up s, Idle_loop]"
| create: "expands k (Thread_create nm pri fn) [Allocate_tid, Set_tid p, Create_rest p fn]"
| create_rest: "expands k (Create_rest t fn) [Thread_unblock t]"

lemma stack_sum_fields [simp]:
  "stack_sum w (k\<lparr>intr := lv\<rparr>) = stack_sum w k" "stack_sum w (k\<lparr>ready_list := r\<rparr>) = stack_sum w k"
  "stack_sum w (k\<lparr>semas := q\<rparr>) = stack_sum w k" "stack_sum w (upd_sema s g k) = stack_sum w k"
  "stack_sum w (k\<lparr>free_pages := r\<rparr>) = stack_sum w k" "stack_sum w (k\<lparr>idle_thread := t\<rparr>) = stack_sum w k"
  by (simp_all add: stack_sum_def)

lemma stack_sum_upd:
  "ops (f (threads k t)) = ops (threads k t) \<Longrightarrow> stack_sum w (upd t f k) = stack_sum w k"
  by (rule stack_sum_cong) auto

lemma sema_up_cur:
  assumes "sema_up s k = Some k'"
  shows "cur k' = cur k"
proof (cases "waiters (semas k s)")
  case (Cons t ts)
  show ?thesis by (rule sema_up_wake_Some [OF assms Cons]) simp
qed (use assms in \<open>auto simp: sema_up_def opt_simps intr_set_level_Some intr_disable_def\<close>)

lemma tick_Some:
  assumes "step Tick k = Some k'"
  obtains j k1 k2 where
    "j = (push_ops (cur k) [Interrupt_return] (intr_disable k))
       \<lparr>in_external_intr := True, yield_on_return := False, os_ticks := i64 (os_ticks k + 1)\<rparr>"
    "thread_tick j = Some k1" "wake_loop (wait_list k1) k1 = Some k2"
    "k' = push_ops (cur k2) (if yield_on_return k2 then [Thread_yield] else []) (k2\<lparr>in_external_intr := False\<rparr>)"
    "intr k = INTR_ON" "os_ticks k < 2 ^ 63 - 1" "\<not> wait_race (os_ticks k1) k1"
  using assms
  by (auto simp: intr_handler_def timer_interrupt_def opt_simps intr_get_level_def intr_disable_def
      push_ops_def upd_def split: if_splits)

lemma wait_race_core: "kcore k' = kcore k \<Longrightarrow> wait_race now k' = wait_race now k"
  by (simp add: wait_race_def kcore_eqD(5,10,21) [of k' k])

lemma wait_race_sel [simp]:
  "wait_race now (push_ops t xs k) = wait_race now k" "wait_race now (k\<lparr>intr := lv\<rparr>) = wait_race now k"
  "wait_race now (k\<lparr>in_external_intr := e, yield_on_return := y, os_ticks := i\<rparr>) = wait_race now k"
  by (auto simp: wait_race_def push_ops_def upd_def)

lemma tick_no_race:
  assumes "step Tick k = Some k'"
  shows "\<not> wait_race (i64 (os_ticks k + 1)) k"
proof (rule tick_Some [OF assms])
  fix j k1
  assume j: "j = (push_ops (cur k) [Interrupt_return] (intr_disable k))
       \<lparr>in_external_intr := True, yield_on_return := False, os_ticks := i64 (os_ticks k + 1)\<rparr>"
    and k1: "thread_tick j = Some k1" and r: "\<not> wait_race (os_ticks k1) k1"
  have "os_ticks k1 = i64 (os_ticks k + 1)" using kcore_eqD(17) [OF thread_tick_core [OF k1]] by (simp add: j)
  then show ?thesis using r wait_race_core [OF thread_tick_core [OF k1]] by (simp add: j intr_disable_def)
qed

lemma wake_loop_frame:
  "wake_loop ts k = Some k' \<Longrightarrow> cur k' = cur k \<and> all_list k' = all_list k \<and> holder k' = holder k \<and> conds k' = conds k \<and>
     next_tid k' = next_tid k \<and> os_ticks k' = os_ticks k \<and> (\<forall>s. (\<forall>t. s \<noteq> Timer_sema t) \<longrightarrow> semas k' s = semas k s)"
proof (induction ts arbitrary: k)
  case (Cons t ts)
  show ?case
  proof (cases "os_ticks k < wakeup_time (threads k t)")
    case False
    then obtain k1 where k1: "sema_up (Timer_sema t) k = Some k1"
      "wake_loop ts (k1\<lparr>wait_list := tl (wait_list k1)\<rparr>) = Some k'"
      using Cons.prems by (auto simp: opt_simps)
    have "cur k1 = cur k"
      using sema_up_cur [OF k1(1)] .
    then show ?thesis using Cons.IH [OF k1(2)] sema_up_semas [OF k1(1)] by simp
  qed (use Cons.prems in simp)
qed simp

context stack_weight
begin

lemma block_sum: "thread_block k = Some k' \<Longrightarrow> stack_sum w k' = stack_sum w k"
  by (auto simp: thread_block_def thread_current_def running_thread_def opt_simps stack_sum_upd dest!: schedule_sum)

lemma yield_sum:
  assumes "thread_yield k = Some k'" "cur k \<in> set (all_list k)"
  shows "stack_sum w k' = stack_sum w k"
  using assms
  by (auto simp: thread_yield_def thread_current_def running_thread_def opt_simps intr_disable_def
      stack_sum_upd push_sum control_weight split: if_splits dest!: schedule_sum)

lemma exit_sum:
  assumes ex: "thread_exit k = Some k'" and inert: "inert (ops (threads k (cur k)))"
    and d: "distinct (all_list k)" "cur k \<in> set (all_list k)"
  shows "stack_sum w k' = stack_sum w k"
proof (rule thread_exit_Some [OF ex])
  fix j
  let ?m = "push_ops (cur j) [Not_reached] (upd (cur j) (\<lambda>th. th\<lparr>status := THREAD_DYING\<rparr>)
      (j\<lparr>all_list := remove1 (cur j) (all_list j)\<rparr>))"
  assume j: "kcore j = kcore (intr_disable k)" and s: "schedule ?m = Some k'"
  have c: "cur j = cur k" "all_list j = all_list k" "ops (threads j t) = ops (threads k t)" for t
    using kcore_eqD(2,7,9) [OF j] by (simp_all add: intr_disable_def)
  have "stack_sum w k' = stack_sum w ?m"
    using d by (intro schedule_sum [OF s]) (simp add: c)
  also have "\<dots> = (\<Sum>t\<in>set (all_list k) - {cur k}. wsum w (ops (threads k t)))"
    using d unfolding stack_sum_def by (intro sum.cong) (simp_all add: c)
  also have "\<dots> = stack_sum w k"
    using d inert_weight [OF inert] by (simp add: stack_sum_def sum.remove [of "set (all_list k)" "cur k"])
  finally show ?thesis .
qed

lemma create_sum:
  assumes ex: "thread_create nm pri fn k = Some k'" and p: "free_pages k = p # ps" "p \<notin> set (all_list k)" "p \<noteq> NULL"
    and c: "cur k \<in> set (all_list k)"
  shows "stack_sum w k' = stack_sum w k"
proof -
  obtain k1 where k1: "init_thread p nm pri (k\<lparr>free_pages := ps\<rparr>) = Some k1"
    and k': "k' = push_ops (cur k1) [Allocate_tid, Set_tid p, Create_rest p fn] k1"
    using ex p by (auto simp: thread_create_def palloc_get_page_def opt_simps)
  have "stack_sum w k1 = stack_sum w k \<and> cur k1 = cur k \<and> set (all_list k1) = insert p (set (all_list k))"
  proof (rule init_thread_Some [OF k1])
    fix th A
    let ?k = "k\<lparr>free_pages := ps\<rparr>"
    assume "k1 = ?k\<lparr>semas := (semas ?k)(Timer_sema p := \<lparr>sema_value = 0, waiters = []\<rparr>),
        threads := (threads ?k)(p := th), all_all_list := A, all_list := all_list ?k @ [p]\<rparr>"
      and th: "tcore th = (THREAD_BLOCKED, [], THREAD_MAGIC, 0, 0, 0)"
    moreover have "(\<Sum>t\<in>set (all_list k). wsum w (ops (((threads k)(p := th)) t))) = stack_sum w k"
      using p(2) unfolding stack_sum_def by (intro sum.cong) auto
    ultimately show ?thesis using p(2) by (simp add: stack_sum_def tcore_def)
  qed
  then show ?thesis using c by (simp add: k' push_sum control_weight)
qed

lemma create_rest_sum:
  assumes ex: "create_rest t fn k = Some k'" and c: "cur k \<in> set (all_list k)" "t \<noteq> cur k" "unborn (ops (threads k t))"
  shows "stack_sum w k' = stack_sum w k"
proof (rule stack_sum_cong)
  fix u
  show "wsum w (ops (threads k' u)) = wsum w (ops (threads k u))"
    using ex c by (auto simp: create_rest_def alloc_frame_def opt_simps intr_set_level_Some intr_disable_def
        control_weight unborn_def)
qed (use ex in \<open>auto simp: create_rest_def alloc_frame_def opt_simps intr_set_level_Some intr_disable_def\<close>)

lemma try_sum:
  assumes "lock_try_acquire l k = Some k'" "cur k \<in> set (all_list k)"
  shows "stack_sum w k' = stack_sum w k +
    wsum w (if sema_value (semas k (Lock_sema l)) \<noteq> 0 then [Set_holder l, Return 1] else [Return 0])"
  using assms
  by (cases "sema_value (semas k (Lock_sema l)) = 0")
    (auto simp: lock_try_acquire_def sema_try_down_def opt_simps intr_set_level_Some intr_disable_def push_sum)

lemma exec_sum:
  assumes inv: "sched_inv {cur k} k" and ops: "ops (threads k (cur k)) = c # rest"
    and ex: "exec c (pop_op k) = Some k'"
  shows "\<exists>xs. expands k c xs \<and> stack_sum w k' = stack_sum w k - w c + wsum w xs"
proof (cases "simple k c \<and> (\<forall>l. c \<noteq> Lock_try_acquire l)")
  case True
  then have s: "simple k c" by simp
  have "0 \<notin> set (free_pages k)" using inv by (simp add: sched_inv_def inv_pages_def)
  then obtain xs where xs: "pushes c xs" "simple_step k c rest xs k'" using exec_pushes [OF ex ops s] by blast
  then have "stack_sum w k' = stack_sum w k - w c + wsum w xs"
    using stack_sum_change [of k' k "cur k" w] cur_facts(1) [OF inv] ops by (simp add: simple_step_def same_ctl_def)
  then show ?thesis using True xs(1) expands.simple by blast
next
  case False
  note c = cur_facts(1) [OF inv]
  note pop = pop_sum [OF c ops]
  show ?thesis
  proof (cases c)
    case (Lock_try_acquire l)
    let ?xs = "if sema_value (semas k (Lock_sema l)) \<noteq> 0 then [Set_holder l, Return 1] else [Return 0]"
    have "expands k c ?xs" using Lock_try_acquire by (auto intro: expands.try_yes expands.try_no)
    moreover have "stack_sum w k' = stack_sum w k - w c + wsum w ?xs"
      using ex try_sum [of l "pop_op k" k'] c pop Lock_try_acquire by simp
    ultimately show ?thesis by blast
  next
    case (Thread_create nm pri fn)
    then obtain p ps where p: "free_pages k = p # ps" using False by (auto simp: neq_Nil_conv)
    then have "stack_sum w k' = stack_sum w (pop_op k)"
      using ex inv c Thread_create by (intro create_sum [of nm pri fn _ _ p ps]) (auto simp: sched_inv_def inv_pages_def)
    then show ?thesis using pop Thread_create by (auto simp: control_weight intro!: exI expands.create)
  next
    case (Create_rest t fn)
    have "t \<noteq> cur k" "unborn (ops (threads k t))"
      using inv_newbornD(2) [OF _ c, of t] inv ops Create_rest by (auto simp: sched_inv_def)
    then have "stack_sum w k' = stack_sum w (pop_op k)"
      using ex c Create_rest by (intro create_rest_sum [of t fn]) auto
    then show ?thesis using pop Create_rest by (auto simp: control_weight intro!: exI expands.create_rest)
  next
    case Thread_exit
    have "inert rest" using wf_rest [OF inv ops] Thread_exit by simp
    then have "stack_sum w k' = stack_sum w (pop_op k)"
      using ex c ops inv Thread_exit by (intro exit_sum) (auto simp: sched_inv_def inv_pages_def)
    then show ?thesis using pop Thread_exit by (auto simp: control_weight intro!: exI expands.exit)
  next
    case (Sema_down_loop s lv)
    then have z: "sema_value (semas k s) = 0" using False by simp
    then have "stack_sum w k' = stack_sum w (pop_op k) + w (Sema_down_loop s lv)"
      using ex c Sema_down_loop
      by (auto simp: sema_down_loop_def thread_current_def running_thread_def opt_simps push_sum dest!: block_sum)
    then show ?thesis using pop Sema_down_loop z by (auto intro!: exI expands.down)
  next
    case (Idle_body s)
    then have "stack_sum w k' = stack_sum w (pop_op k) + wsum w [Sema_up s, Idle_loop]"
      using ex c by (auto simp: idle_def thread_current_def running_thread_def opt_simps push_sum)
    then show ?thesis using pop Idle_body by (auto intro!: exI expands.idle)
  next
    case (Sema_up s)
    then show ?thesis using pop ex by (auto dest!: sema_up_sum intro!: exI expands.up)
  next
    case (Thread_unblock t)
    then show ?thesis using pop ex by (auto dest!: unblock_sum intro!: exI expands.unblock)
  next
    case Thread_block
    then show ?thesis using pop ex by (auto dest!: block_sum intro!: exI expands.block)
  next
    case Thread_yield
    then show ?thesis using pop ex c by (auto simp: control_weight dest!: yield_sum intro!: exI expands.yield)
  qed (use False in auto)
qed

lemma wake_loop_sum: "wake_loop ts k = Some k' \<Longrightarrow> stack_sum w k' = stack_sum w k"
proof (induction ts arbitrary: k)
  case (Cons t ts)
  show ?case
  proof (cases "os_ticks k < wakeup_time (threads k t)")
    case False
    then obtain k1 where k1: "sema_up (Timer_sema t) k = Some k1"
      "wake_loop ts (k1\<lparr>wait_list := tl (wait_list k1)\<rparr>) = Some k'"
      using Cons.prems by (auto simp: opt_simps)
    then show ?thesis using Cons.IH [OF k1(2)] sema_up_sum [OF k1(1)] by (simp add: stack_sum_def)
  qed (use Cons.prems in simp)
qed simp

lemma tick_sum:
  assumes "step Tick k = Some k'" "sched_inv {cur k} k"
  shows "stack_sum w k' = stack_sum w k"
proof (rule tick_Some [OF assms(1)])
  fix j k1 k2
  assume j: "j = (push_ops (cur k) [Interrupt_return] (intr_disable k))
      \<lparr>in_external_intr := True, yield_on_return := False, os_ticks := i64 (os_ticks k + 1)\<rparr>"
    and k1: "thread_tick j = Some k1" and k2: "wake_loop (wait_list k1) k1 = Some k2"
    and k': "k' = push_ops (cur k2) (if yield_on_return k2 then [Thread_yield] else []) (k2\<lparr>in_external_intr := False\<rparr>)"
  have c: "cur k \<in> set (all_list k)" using cur_facts(1) [OF assms(2)] .
  have all: "cur k2 = cur k \<and> all_list k2 = all_list k"
    using wake_loop_frame [OF k2] kcore_eqD(7,9) [OF thread_tick_core [OF k1]] by (simp add: j intr_disable_def)
  have "stack_sum w j = stack_sum w k"
    using push_sum [of "cur k" "intr_disable k" "[Interrupt_return]"] c
    by (simp add: j stack_sum_def intr_disable_def control_weight)
  then have "stack_sum w k2 = stack_sum w k"
    using wake_loop_sum [OF k2] stack_sum_core [OF thread_tick_core [OF k1]] by simp
  then have "stack_sum w (k2\<lparr>in_external_intr := False\<rparr>) = stack_sum w k" by (simp add: stack_sum_def)
  then show ?thesis using c all by (simp add: k' push_sum control_weight)
qed

end

section \<open>What each operation leaves of the other threads\<close>

definition tview :: "thread \<Rightarrow> kop list \<times> int \<times> int \<times> int" where
  "tview th = (ops th, wakeup_time th, retval th, tid th)"

lemma tcore_tview: "tcore (th\<lparr>status := u\<rparr>) = tcore (th'\<lparr>status := u\<rparr>) \<Longrightarrow> tview th = tview th'"
  by (simp add: tcore_def tview_def)

lemma kcore_tview: "kcore k' = kcore k \<Longrightarrow> tview (threads k' t) = tview (threads k t)"
  by (simp add: tview_def kcore_eqD(2,4,5,6) [of k' k])

lemma schedule_tview:
  assumes "schedule k = Some k'" "u \<noteq> cur k"
  shows "tview (threads k' u) = tview (threads k u)"
proof (rule schedule_Some [OF assms(1), of THREAD_READY "[]"])
  fix nxt T F
  assume "k' = k\<lparr>threads := T, cur := nxt, ready_list := tl (ready_list k), thread_ticks := 0, free_pages := F\<rparr>"
    and "\<And>t. t \<noteq> cur k \<Longrightarrow> tcore ((T t)\<lparr>status := THREAD_READY\<rparr>) = tcore ((threads k t)\<lparr>status := THREAD_READY\<rparr>)"
  then show ?thesis using tcore_tview [where th = "T u" and u = THREAD_READY] assms(2) by simp
qed

lemma unblock_tview: "thread_unblock t k = Some k' \<Longrightarrow> tview (threads k' u) = tview (threads k u)"
  by (erule thread_unblock_Some) (auto simp: tcore_def tview_def)

lemma sema_up_tview:
  assumes "sema_up s k = Some k'"
  shows "tview (threads k' u) = tview (threads k u)"
proof (cases "waiters (semas k s)")
  case (Cons t ts)
  show ?thesis by (rule sema_up_wake_Some [OF assms Cons]) (auto simp: tcore_def tview_def)
qed (use assms in \<open>auto simp: sema_up_def opt_simps intr_set_level_Some intr_disable_def\<close>)

lemma exec_other:
  assumes ex: "exec c k = Some k'" and u: "u \<noteq> cur k" "\<And>fn. c \<noteq> Create_rest u fn" "c \<noteq> Set_tid u"
    "u \<notin> set (free_pages k)" "NULL \<notin> set (free_pages k)"
  shows "tview (threads k' u) = tview (threads k u)"
proof (cases c)
  case (Thread_create nm pri fn)
  then show ?thesis using ex u
    by (auto simp: thread_create_def palloc_get_page_def opt_simps set_retval_def tview_def
        split: list.splits elim!: init_thread_Some)
next
  case Thread_exit
  then have "thread_exit k = Some k'" using ex by simp
  then show ?thesis
  proof (rule thread_exit_Some)
    fix j
    assume j: "kcore j = kcore (intr_disable k)" and s: "schedule (push_ops (cur j) [Not_reached]
      (upd (cur j) (\<lambda>th. th\<lparr>status := THREAD_DYING\<rparr>) (j\<lparr>all_list := remove1 (cur j) (all_list j)\<rparr>))) = Some k'"
    have "cur j = cur k" using kcore_eqD(7) [OF j] by (simp add: intr_disable_def)
    then show ?thesis using schedule_tview [OF s] u(1) kcore_tview [OF j, of u] by (simp add: intr_disable_def)
  qed
next
  case (Sema_up s')
  then show ?thesis using ex sema_up_tview by simp
next
  case (Thread_unblock t)
  then show ?thesis using ex unblock_tview by simp
next
  case (Sema_down_loop s' lv)
  then show ?thesis using ex u(1)
    by (auto simp: sema_down_loop_def thread_block_def thread_current_def running_thread_def opt_simps
        intr_set_level_Some split: if_splits dest!: schedule_tview [of _ _ u])
next
  case Thread_block
  then show ?thesis using ex u(1)
    by (auto simp: thread_block_def thread_current_def running_thread_def opt_simps dest!: schedule_tview [of _ _ u])
next
  case Thread_yield
  then show ?thesis using ex u(1)
    by (auto simp: thread_yield_def thread_current_def running_thread_def intr_disable_def opt_simps
        dest!: schedule_tview [of _ _ u] split: if_splits)
next
  case (Thread_set_priority p)
  then show ?thesis using ex by (auto dest: thread_set_priority_core kcore_tview)
next
  case (Thread_set_nice p)
  then show ?thesis using ex by (auto dest: thread_set_nice_core kcore_tview)
next
  case (Schedule_rest p)
  then show ?thesis using ex by (auto dest: schedule_rest_core kcore_tview)
next
  case (Create_rest t fn)
  then have "t \<noteq> u" using u(2) by auto
  then show ?thesis using ex u(1) Create_rest
    by (auto simp: create_rest_def alloc_frame_def intr_disable_def opt_simps intr_set_level_Some)
qed (use ex u in \<open>auto simp: synch_defs call_defs opt_simps intr_set_level_Some thread_current_def running_thread_def
       set_retval_def split: if_splits list.splits\<close>)

lemma schedule_all_list: "schedule k = Some k' \<Longrightarrow> all_list k' = all_list k"
  by (erule schedule_Some [of _ _ THREAD_READY "[]"]) simp

fun all_after :: "kernel \<Rightarrow> kop \<Rightarrow> addr list" where
  "all_after k Thread_exit = remove1 (cur k) (all_list k)"
| "all_after k (Thread_create nm pri fn) = (if free_pages k = [] then all_list k else all_list k @ [hd (free_pages k)])"
| "all_after k c = all_list k"

lemma exec_all_list:
  assumes ex: "exec c k = Some k'" and z: "NULL \<notin> set (free_pages k)"
  shows "all_list k' = all_after k c"
proof (cases c)
  case (Thread_create nm pri fn)
  then show ?thesis using ex z
    by (auto simp: thread_create_def palloc_get_page_def opt_simps set_retval_def split: list.splits elim!: init_thread_Some)
next
  case Thread_exit
  then have "thread_exit k = Some k'" using ex by simp
  then show ?thesis
  proof (rule thread_exit_Some)
    fix j
    assume j: "kcore j = kcore (intr_disable k)" and s: "schedule (push_ops (cur j) [Not_reached]
      (upd (cur j) (\<lambda>th. th\<lparr>status := THREAD_DYING\<rparr>) (j\<lparr>all_list := remove1 (cur j) (all_list j)\<rparr>))) = Some k'"
    then show ?thesis using schedule_all_list [OF s] kcore_eqD(7,9) [OF j] Thread_exit by (simp add: intr_disable_def)
  qed
next
  case (Sema_up s')
  then show ?thesis using ex sema_up_semas [of s' k k'] by simp
next
  case (Thread_unblock t)
  then have "thread_unblock t k = Some k'" using ex by simp
  then show ?thesis by (rule thread_unblock_Some) (simp add: Thread_unblock)
next
  case (Thread_set_priority p)
  then show ?thesis using ex kcore_eqD(9) [OF thread_set_priority_core] by simp
next
  case (Thread_set_nice p)
  then show ?thesis using ex kcore_eqD(9) [OF thread_set_nice_core] by simp
next
  case (Schedule_rest p)
  then show ?thesis using ex kcore_eqD(9) [OF schedule_rest_core] by simp
qed (use ex in \<open>auto simp: synch_defs call_defs opt_simps intr_set_level_Some thread_current_def running_thread_def
       thread_block_def thread_yield_def set_retval_def split: if_splits list.splits dest!: schedule_all_list\<close>)

context stack_weight
begin

text \<open>The same count for the stack of the thread that executes the operation.\<close>

lemma exec_other_sum:
  assumes inv: "sched_inv {cur k} k" and ops: "ops (threads k (cur k)) = c # rest"
    and ex: "exec c (pop_op k) = Some k'" and u: "u \<in> set (all_list k)" "u \<noteq> cur k"
  shows "wsum w (ops (threads k' u)) = wsum w (ops (threads k u))"
proof (cases "\<exists>fn. c = Create_rest u fn")
  case True
  then have "unborn (ops (threads k u))"
    using inv_newbornD(2) [OF _ cur_facts(1) [OF inv], of u] inv ops by (auto simp: sched_inv_def)
  with True show ?thesis using ex u(2)
    by (auto simp: create_rest_def alloc_frame_def opt_simps intr_set_level_Some intr_disable_def control_weight unborn_def)
next
  case False
  show ?thesis
  proof (cases "c = Set_tid u")
    case True
    then show ?thesis using ex u by (auto simp: set_tid_def)
  next
    assume "c \<noteq> Set_tid u"
    moreover have "u \<notin> set (free_pages (pop_op k))" "NULL \<notin> set (free_pages (pop_op k))"
      using u(1) inv by (auto simp: sched_inv_def inv_pages_def)
    ultimately show ?thesis using False exec_other [OF ex, of u] u by (simp add: tview_def)
  qed
qed

lemma exec_cur_sum:
  assumes inv: "sched_inv {cur k} k" and ops: "ops (threads k (cur k)) = c # rest"
    and ex: "exec c (pop_op k) = Some k'" and c: "c \<noteq> Thread_exit"
  shows "wsum w (ops (threads k' (cur k))) = wsum w (ops (threads k (cur k))) + stack_sum w k' - stack_sum w k"
proof -
  let ?A = "set (all_list k)"
  have z: "NULL \<notin> set (free_pages (pop_op k))" and fr: "set (free_pages k) \<inter> ?A = {}"
    using inv by (auto simp: sched_inv_def inv_pages_def)
  have "stack_sum w k' = (\<Sum>t\<in>?A. wsum w (ops (threads k' t)))"
  proof (cases "\<exists>nm pri fn. c = Thread_create nm pri fn \<and> free_pages k \<noteq> []")
    case True
    then obtain nm pri fn p ps where cr: "c = Thread_create nm pri fn" "free_pages k = p # ps" by (auto simp: neq_Nil_conv)
    have "p \<notin> ?A" "p \<noteq> cur k" using fr cr inv by (auto simp: sched_inv_def inv_pages_def)
    moreover have "ops (threads k' p) = []"
      using ex z cr \<open>p \<noteq> cur k\<close>
      by (auto simp: thread_create_def palloc_get_page_def opt_simps tcore_def elim!: init_thread_Some)
    ultimately show ?thesis using exec_all_list [OF ex z] cr by (simp add: stack_sum_def)
  next
    case False
    then have "all_list k' = all_list k" using exec_all_list [OF ex z] c by (cases c) auto
    then show ?thesis by (simp add: stack_sum_def)
  qed
  moreover have "(\<Sum>t\<in>?A - {cur k}. wsum w (ops (threads k' t))) = (\<Sum>t\<in>?A - {cur k}. wsum w (ops (threads k t)))"
    using exec_other_sum [OF inv ops ex] by (intro sum.cong) auto
  ultimately show ?thesis
    using cur_facts(1) [OF inv] by (simp add: stack_sum_def sum.remove [of ?A "cur k"])
qed

end

end
