(* ===== verification/Lock_Inv.thy ===== *)
theory Lock_Inv
  imports Stack_Count
begin

text \<open>
  Locks.  For every lock exactly one token exists: it is in the semaphore, or the lock has a holder, or a
  thread is between \<open>sema_down\<close> and the assignment of \<open>holder\<close> in \<open>lock_acquire\<close>, or
  between the reset of \<open>holder\<close> and \<open>sema_up\<close> in \<open>lock_release\<close>.
\<close>

fun lock_weight :: "nat \<Rightarrow> kop \<Rightarrow> int" where
  "lock_weight l (Set_holder l') = (if l' = l then 1 else 0)"
| "lock_weight l (Sema_down s) = (if s = Lock_sema l then - 1 else 0)"
| "lock_weight l (Sema_down_loop s lv) = (if s = Lock_sema l then - 1 else 0)"
| "lock_weight l (Sema_up s) = (if s = Lock_sema l then 1 else 0)"
| "lock_weight l c = 0"

lemma lock_weight_control: "control c \<Longrightarrow> lock_weight l c = 0"
  by (cases c) auto

interpretation lock: stack_weight "lock_weight l" for l
  by unfold_locales (rule lock_weight_control)

definition lock_tokens :: "nat \<Rightarrow> kernel \<Rightarrow> int" where
  "lock_tokens l k = int (sema_value (semas k (Lock_sema l))) + (if holder k l = NULL then 0 else 1)
     + stack_sum (lock_weight l) k"

definition lock_inv :: "kernel \<Rightarrow> bool" where
  "lock_inv k \<longleftrightarrow> (\<forall>l. lock_tokens l k = 1)"

lemma wf_ops_lock_weight:
  "wf_ops xs \<Longrightarrow> 0 \<le> wsum (lock_weight l) xs \<and> (xs \<noteq> [] \<longrightarrow> hd xs = Set_holder l \<longrightarrow> 1 \<le> wsum (lock_weight l) xs)"
proof (induction xs)
  case (Cons c xs)
  then show ?case by (cases c) (auto elim: lock_next.elims)
qed simp

lemma lock_bounds:
  assumes inv: "sched_inv {cur k} k" and li: "lock_inv k"
  shows "sema_value (semas k (Lock_sema l)) \<le> 1"
    and "holder k l \<noteq> NULL \<Longrightarrow> sema_value (semas k (Lock_sema l)) = 0"
    and "t \<in> set (all_list k) \<Longrightarrow> ops (threads k t) = Set_holder l # rest \<Longrightarrow>
      holder k l = NULL \<and> sema_value (semas k (Lock_sema l)) = 0"
proof -
  have n: "0 \<le> wsum (lock_weight l) (ops (threads k t))" if "t \<in> set (all_list k)" for t
    using wf_ops_lock_weight inv that by (auto simp: sched_inv_def inv_stacks_def)
  have le: "wsum (lock_weight l) (ops (threads k t)) \<le> stack_sum (lock_weight l) k" if "t \<in> set (all_list k)" for t
    using n that by (rule stack_sum_nonneg)
  have tok: "lock_tokens l k = 1" using li by (simp add: lock_inv_def)
  have s: "0 \<le> stack_sum (lock_weight l) k"
    using le [OF cur_facts(1) [OF inv]] n [OF cur_facts(1) [OF inv]] by linarith
  show "sema_value (semas k (Lock_sema l)) \<le> 1"
    "holder k l \<noteq> NULL \<Longrightarrow> sema_value (semas k (Lock_sema l)) = 0"
    using tok s by (auto simp: lock_tokens_def split: if_splits)
  assume t: "t \<in> set (all_list k)" "ops (threads k t) = Set_holder l # rest"
  have "wf_ops (ops (threads k t))" using inv t(1) by (simp add: sched_inv_def inv_stacks_def)
  then have "1 \<le> wsum (lock_weight l) (ops (threads k t))" using wf_ops_lock_weight [of _ l] t(2) by auto
  then have "1 \<le> stack_sum (lock_weight l) k" using le [OF t(1)] by linarith
  then show "holder k l = NULL \<and> sema_value (semas k (Lock_sema l)) = 0"
    using tok by (auto simp: lock_tokens_def split: if_splits)
qed

lemma exec_lock_inv:
  assumes inv: "sched_inv {cur k} k" and li: "lock_inv k" and ops: "ops (threads k (cur k)) = c # rest"
    and ex: "exec c (pop_op k) = Some k'"
  shows "lock_inv k'"
  unfolding lock_inv_def
proof
  fix l
  have "0 \<notin> set (free_pages (pop_op k))" using inv by (simp add: sched_inv_def inv_pages_def)
  note e = exec_semas [OF ex this, of "Lock_sema l" l]
  obtain xs where xs: "expands k c xs" "stack_sum (lock_weight l) k' = stack_sum (lock_weight l) k - lock_weight l c + wsum (lock_weight l) xs"
    using lock.exec_sum [OF inv ops ex] by blast
  have tok: "lock_tokens l k = 1" using li by (simp add: lock_inv_def)
  note b = lock_bounds(1) [OF inv li, of l] lock_bounds(3) [OF inv li cur_facts(1) [OF inv], of l rest] wf_rest [OF inv ops]
  have rel: "holder k l \<noteq> NULL" if "c = Lock_release l"
    using ex that cur_facts(5) [OF inv]
    by (auto simp: lock_release_def lock_held_by_current_thread_def thread_current_def running_thread_def opt_simps)
  show "lock_tokens l k' = 1"
    using xs(1)
  proof cases
    case simple
    from simple(3) show ?thesis
      using e xs(2) tok b ops rel simple(1,2) cur_facts(1,5) [OF inv]
      by cases (auto simp: lock_tokens_def u32_def split: if_splits)
  qed (use e xs(2) tok b in \<open>auto simp: lock_tokens_def u32_def split: if_splits\<close>)
qed

lemma tick_lock_inv:
  assumes "sched_inv {cur k} k" "lock_inv k" "step Tick k = Some k'"
  shows "lock_inv k'"
proof (rule tick_Some [OF assms(3)])
  fix j k1 k2
  assume "j = (push_ops (cur k) [Interrupt_return] (intr_disable k))
      \<lparr>in_external_intr := True, yield_on_return := False, os_ticks := i64 (os_ticks k + 1)\<rparr>"
    "thread_tick j = Some k1" "wake_loop (wait_list k1) k1 = Some k2"
    "k' = push_ops (cur k2) (if yield_on_return k2 then [Thread_yield] else []) (k2\<lparr>in_external_intr := False\<rparr>)"
  then have "semas k' (Lock_sema l) = semas k (Lock_sema l) \<and> holder k' l = holder k l" for l
    using wake_loop_frame [of _ k1 k2] kcore_eqD(13,14) [OF thread_tick_core [of j k1]] by (simp add: intr_disable_def)
  then show ?thesis
    using assms(2) lock.tick_sum [OF assms(3,1)] by (simp add: lock_inv_def lock_tokens_def)
qed

lemma step_lock_inv:
  assumes inv: "sched_inv {cur k} k" and li: "lock_inv k" and st: "step a k = Some k'"
  shows "lock_inv k'"
proof (cases a)
  case Exec
  then obtain c rest where "ops (threads k (cur k)) = c # rest" "exec c (pop_op k) = Some k'"
    using st by (auto split: list.splits)
  then show ?thesis by (rule exec_lock_inv [OF inv li])
next
  case (Call c)
  then obtain rest where "api k c" "k' = push_ops (cur k) [c] k"
    using st by (auto split: list.splits kop.splits if_splits)
  moreover from this have "lock_weight l c = 0" for l by (cases c) (auto elim: api.elims)
  ultimately show ?thesis
    using li lock.push_sum [OF cur_facts(1) [OF inv]] by (simp add: lock_inv_def lock_tokens_def)
next
  case Finish
  then obtain rest where "ops (threads k (cur k)) = Run_function # rest" "k' = pop_op k"
    using st by (auto split: list.splits kop.splits)
  then show ?thesis
    using li lock.pop_sum [OF cur_facts(1) [OF inv]] by (simp add: lock_inv_def lock_tokens_def)
next
  case Tick
  then show ?thesis using tick_lock_inv [OF inv li] st by simp
qed

lemma thread_init_lock_inv:
  assumes "thread_init (boot q r f j m ps) = Some k"
  shows "lock_inv k"
  by (rule thread_init_Some [OF assms]) (auto simp: lock_inv_def lock_tokens_def stack_sum_def tcore_def)

lemma reachable_lock_inv: "reachable k \<Longrightarrow> lock_inv k"
proof (induction rule: reachable.induct)
  case (reachable_step k a k')
  then show ?case using step_lock_inv reachable_inv by blast
qed (rule thread_init_lock_inv)

end
