(* ===== verification/Sema_Inv.thy ===== *)
theory Sema_Inv
  imports Stack_Count
begin

text \<open>
  Semaphores.  A thread on the wait list of a semaphore is inside \<open>sema_down\<close> of that semaphore, and as long
  as threads wait, the value never exceeds the number of threads that have been taken off the list
  and have not yet gone round the loop of \<open>sema_down\<close>: no wakeup is lost.
\<close>

fun down_weight :: "sema_ref \<Rightarrow> kop \<Rightarrow> int" where
  "down_weight s (Sema_down_loop s' lv) = (if s' = s then 1 else 0)"
| "down_weight s c = 0"

lemma down_weight_control: "control c \<Longrightarrow> down_weight s c = 0"
  by (cases c) auto

interpretation down: stack_weight "down_weight s" for s
  by unfold_locales (rule down_weight_control)

definition sema_inv :: "kernel \<Rightarrow> bool" where
  "sema_inv k \<longleftrightarrow>
     (\<forall>s. \<forall>t\<in>set (waiters (semas k s)). wsum (down_weight s) (ops (threads k t)) = 1) \<and>
     (\<forall>s. waiters (semas k s) \<noteq> [] \<longrightarrow>
        int (sema_value (semas k s)) + int (length (waiters (semas k s))) \<le> stack_sum (down_weight s) k)"

lemma down_weight_nonneg: "0 \<le> down_weight s c" "0 \<le> wsum (down_weight s) xs"
proof -
  show c: "0 \<le> down_weight s c" for c by (cases c) auto
  show "0 \<le> wsum (down_weight s) xs" using c by (induction xs) (auto simp: add_nonneg_nonneg)
qed

lemma calm_down_weight: "calm xs \<Longrightarrow> wsum (down_weight s) xs = 0"
proof (induction xs)
  case (Cons c xs)
  then show ?case by (cases c) auto
qed simp

text \<open>The waiters account for their part of the count.\<close>

lemma waiters_count:
  assumes inv: "sched_inv {cur k} k" and si: "sema_inv k"
  shows "int (length (waiters (semas k s))) + wsum (down_weight s) (ops (threads k (cur k)))
    \<le> stack_sum (down_weight s) k"
proof -
  let ?W = "set (waiters (semas k s))" and ?f = "\<lambda>t. wsum (down_weight s) (ops (threads k t))"
  have W: "?W \<subseteq> set (all_list k) - {cur k}" "distinct (waiters (semas k s))"
    using inv cur_facts(4) [OF inv, of s] by (auto simp: sched_inv_def inv_waiters_def)
  have "int (length (waiters (semas k s))) = (\<Sum>t\<in>?W. ?f t)"
    using si W(2) by (simp add: sema_inv_def distinct_card)
  also have "\<dots> \<le> (\<Sum>t\<in>set (all_list k) - {cur k}. ?f t)"
    using W(1) down_weight_nonneg by (intro sum_mono2) auto
  finally show ?thesis
    using cur_facts(1) [OF inv] by (simp add: stack_sum_def sum.remove [of "set (all_list k)" "cur k"])
qed

lemma sema_up_sema_inv:
  assumes si: "sema_inv k" and up: "sema_up s k = Some k'"
  shows "sema_inv k'"
proof -
  note e = sema_up_semas [OF up] sema_up_tview [OF up]
  have w: "t \<in> set (waiters (semas k' s')) \<Longrightarrow> t \<in> set (waiters (semas k s'))" for t s'
    using e(1) by (cases "waiters (semas k s)") (auto split: if_splits)
  have l: "int (sema_value (semas k' s')) + int (length (waiters (semas k' s')))
      \<le> int (sema_value (semas k s')) + int (length (waiters (semas k s')))" if "waiters (semas k' s') \<noteq> []" for s'
    using e(1) that by (cases "waiters (semas k s)") (auto simp: u32_def split: if_splits)
  show ?thesis
    unfolding sema_inv_def
  proof (intro conjI allI ballI impI)
    fix s' t assume "t \<in> set (waiters (semas k' s'))"
    then show "wsum (down_weight s') (ops (threads k' t)) = 1"
      using w si e(2) [of t] by (auto simp: sema_inv_def tview_def)
  next
    fix s' assume n: "waiters (semas k' s') \<noteq> []"
    then have "waiters (semas k s') \<noteq> []" using w [of "hd (waiters (semas k' s'))" s'] by auto
    then show "int (sema_value (semas k' s')) + int (length (waiters (semas k' s'))) \<le> stack_sum (down_weight s') k'"
      using l [OF n] si down.sema_up_sum [OF up] by (fastforce simp: sema_inv_def)
  qed
qed

text \<open>Changes to the current stack that leave the count.\<close>

lemma sema_inv_cong:
  assumes "sema_inv k" "semas k' = semas k" "all_list k' = all_list k"
    "\<And>s t. wsum (down_weight s) (ops (threads k' t)) = wsum (down_weight s) (ops (threads k t))"
  shows "sema_inv k'"
  using assms(1) unfolding sema_inv_def stack_sum_def assms(2-4) .

lemma wake_loop_sema_inv: "wake_loop ts k = Some k' \<Longrightarrow> sema_inv k \<Longrightarrow> sema_inv k'"
proof (induction ts arbitrary: k)
  case (Cons t ts)
  show ?case
  proof (cases "os_ticks k < wakeup_time (threads k t)")
    case False
    then obtain k1 where k1: "sema_up (Timer_sema t) k = Some k1"
      "wake_loop ts (k1\<lparr>wait_list := tl (wait_list k1)\<rparr>) = Some k'"
      using Cons.prems by (auto simp: opt_simps)
    have "sema_inv (k1\<lparr>wait_list := tl (wait_list k1)\<rparr>)"
      by (rule sema_inv_cong [OF sema_up_sema_inv [OF Cons.prems(2) k1(1)]]) simp_all
    then show ?thesis by (rule Cons.IH [OF k1(2)])
  qed (use Cons.prems in simp)
qed simp

lemma tick_sema_inv:
  assumes si: "sema_inv k" and st: "step Tick k = Some k'"
  shows "sema_inv k'"
proof (rule tick_Some [OF st])
  fix j k1 k2
  assume j: "j = (push_ops (cur k) [Interrupt_return] (intr_disable k))
      \<lparr>in_external_intr := True, yield_on_return := False, os_ticks := i64 (os_ticks k + 1)\<rparr>"
    and k1: "thread_tick j = Some k1" and k2: "wake_loop (wait_list k1) k1 = Some k2"
    and k': "k' = push_ops (cur k2) (if yield_on_return k2 then [Thread_yield] else []) (k2\<lparr>in_external_intr := False\<rparr>)"
  note c = kcore_eqD [OF thread_tick_core [OF k1]]
  have "sema_inv j" by (rule sema_inv_cong [OF si]) (auto simp: j intr_disable_def)
  then have "sema_inv k1" by (rule sema_inv_cong) (simp_all add: c(2,9,13))
  then have "sema_inv k2" by (rule wake_loop_sema_inv [OF k2])
  then show ?thesis by (rule sema_inv_cong) (auto simp: k')
qed

lemma exec_waiters_loop:
  assumes inv: "sched_inv {cur k} k" and si: "sema_inv k" and ops: "ops (threads k (cur k)) = c # rest"
    and ex: "exec c (pop_op k) = Some k'" and nup: "\<And>s. c \<noteq> Sema_up s" and t: "t \<in> set (waiters (semas k' s))"
  shows "wsum (down_weight s) (ops (threads k' t)) = 1"
proof -
  have "0 \<notin> set (free_pages (pop_op k))" using inv by (simp add: sched_inv_def inv_pages_def)
  note e = exec_semas [OF ex this, of s]
  consider (other) "t \<in> set (waiters (semas k s))" "t \<noteq> cur k"
    | (cur) lv where "t = cur k" "c = Sema_down_loop s lv" "sema_value (semas k s) = 0"
    using e t cur_facts(4) [OF inv, of s] nup by (cases c) (auto split: if_splits)
  then show ?thesis
  proof cases
    case other
    then have "t \<in> set (all_list k)" using inv by (auto simp: sched_inv_def inv_waiters_def)
    then show ?thesis using down.exec_other_sum [OF inv ops ex, of t s] other si by (simp add: sema_inv_def)
  next
    case cur
    obtain xs where "expands k c xs"
      and xs: "stack_sum (down_weight s) k' = stack_sum (down_weight s) k - down_weight s c + wsum (down_weight s) xs"
      using down.exec_sum [OF inv ops ex] by blast
    then have "xs = [Sema_down_loop s lv]" using cur by (auto elim: expands.cases)
    then have "stack_sum (down_weight s) k' = stack_sum (down_weight s) k" using xs cur by simp
    then show ?thesis
      using down.exec_cur_sum [OF inv ops ex, of s] cur ops wf_rest(1) [OF inv ops] calm_down_weight [of rest s] by simp
  qed
qed

lemma exec_waiters_bound:
  assumes inv: "sched_inv {cur k} k" and si: "sema_inv k" and ops: "ops (threads k (cur k)) = c # rest"
    and ex: "exec c (pop_op k) = Some k'" and nup: "\<And>s. c \<noteq> Sema_up s" and ne: "waiters (semas k' s) \<noteq> []"
  shows "int (sema_value (semas k' s)) + int (length (waiters (semas k' s))) \<le> stack_sum (down_weight s) k'"
proof -
  have "0 \<notin> set (free_pages (pop_op k))" using inv by (simp add: sched_inv_def inv_pages_def)
  note e = exec_semas [OF ex this, of s]
  obtain xs where xs: "expands k c xs"
    "stack_sum (down_weight s) k' = stack_sum (down_weight s) k - down_weight s c + wsum (down_weight s) xs"
    using down.exec_sum [OF inv ops ex] by blast
  have cnt: "int (length (waiters (semas k s))) + down_weight s c \<le> stack_sum (down_weight s) k"
    using waiters_count [OF inv si, of s] ops down_weight_nonneg(2) [of s rest] by simp
  have bnd: "waiters (semas k s) \<noteq> [] \<Longrightarrow>
      int (sema_value (semas k s)) + int (length (waiters (semas k s))) \<le> stack_sum (down_weight s) k"
    using si by (simp add: sema_inv_def)
  show ?thesis
  proof (cases "\<exists>lv. c = Sema_down_loop s lv")
    case True
    then obtain lv where c: "c = Sema_down_loop s lv" by blast
    then have "xs = (if sema_value (semas k s) = 0 then [c] else [])"
      using xs(1) by (auto elim!: expands.cases pushes.cases)
    then show ?thesis using e c xs(2) cnt bnd ne by (auto split: if_splits)
  next
    case False
    then have "down_weight s c = 0" by (cases c) auto
    moreover have "waiters (semas k' s) = waiters (semas k s) \<and> sema_value (semas k' s) \<le> sema_value (semas k s)"
      using e False nup ne by (cases c) (auto split: if_splits)
    ultimately show ?thesis using bnd ne xs(2) down_weight_nonneg(2) [of s xs] by auto
  qed
qed

lemma exec_sema_inv:
  assumes inv: "sched_inv {cur k} k" and si: "sema_inv k" and ops: "ops (threads k (cur k)) = c # rest"
    and ex: "exec c (pop_op k) = Some k'"
  shows "sema_inv k'"
proof (cases "\<exists>s. c = Sema_up s")
  case True
  then obtain s where c: "c = Sema_up s" by blast
  then have "sema_inv (pop_op k)" using ops by (intro sema_inv_cong [OF si]) auto
  then show ?thesis using ex c by (auto intro: sema_up_sema_inv)
next
  case False
  then show ?thesis
    using exec_waiters_loop [OF inv si ops ex] exec_waiters_bound [OF inv si ops ex] by (auto simp: sema_inv_def)
qed

lemma step_sema_inv:
  assumes inv: "sched_inv {cur k} k" and si: "sema_inv k" and st: "step a k = Some k'"
  shows "sema_inv k'"
proof (cases a)
  case Exec
  then obtain c rest where "ops (threads k (cur k)) = c # rest" "exec c (pop_op k) = Some k'"
    using st by (auto split: list.splits)
  then show ?thesis by (rule exec_sema_inv [OF inv si])
next
  case (Call c)
  then obtain rest where c: "api k c" and k': "k' = push_ops (cur k) [c] k"
    using st by (auto split: list.splits kop.splits if_splits)
  then have "down_weight s c = 0" for s by (cases c) auto
  then show ?thesis by (intro sema_inv_cong [OF si]) (auto simp: k')
next
  case Finish
  then obtain rest where "ops (threads k (cur k)) = Run_function # rest" "k' = pop_op k"
    using st by (auto split: list.splits kop.splits)
  then show ?thesis by (intro sema_inv_cong [OF si]) auto
next
  case Tick
  then show ?thesis using tick_sema_inv [OF si] st by simp
qed

lemma thread_init_sema_inv:
  assumes "thread_init (boot q r f j m ps) = Some k"
  shows "sema_inv k"
  by (rule thread_init_Some [OF assms]) (auto simp: sema_inv_def)

lemma reachable_sema_inv: "reachable k \<Longrightarrow> sema_inv k"
proof (induction rule: reachable.induct)
  case (reachable_step k a k')
  then show ?case using step_sema_inv reachable_inv by blast
qed (rule thread_init_sema_inv)

end
