(* ===== verification/Timer_Inv.thy ===== *)
theory Timer_Inv
  imports Stack_Count
begin

text \<open>
  Sleeping threads.  Every thread inside \<open>timer_sleep\<close> is either on \<open>wait_list\<close> or has been raised by the timer
  interrupt, once; the list is sorted by wake-up time; and a thread that is no longer on
  the list was taken off it at or after its wake-up time.
\<close>

fun timer_weight :: "addr \<Rightarrow> kop \<Rightarrow> int" where
  "timer_weight t (Sema_down s) = (if s = Timer_sema t then 1 else 0)"
| "timer_weight t (Sema_down_loop s lv) = (if s = Timer_sema t then 1 else 0)"
| "timer_weight t c = 0"

lemma timer_weight_control: "control c \<Longrightarrow> timer_weight t c = 0"
  by (cases c) auto

interpretation timer: stack_weight "timer_weight t" for t
  by unfold_locales (rule timer_weight_control)

definition timer_ok :: "kernel \<Rightarrow> addr \<Rightarrow> bool" where
  "timer_ok k t \<longleftrightarrow>
     int (sema_value (semas k (Timer_sema t))) + (if t \<in> set (wait_list k) then 1 else 0)
       = wsum (timer_weight t) (ops (threads k t)) \<and>
     wsum (timer_weight t) (ops (threads k t)) \<le> 1 \<and>
     (\<forall>u. u \<noteq> t \<longrightarrow> wsum (timer_weight u) (ops (threads k t)) = 0) \<and>
     (wsum (timer_weight t) (ops (threads k t)) = 1 \<longrightarrow> t \<notin> set (wait_list k) \<longrightarrow>
        wakeup_time (threads k t) \<le> os_ticks k)"

definition timer_inv :: "kernel \<Rightarrow> bool" where
  "timer_inv k \<longleftrightarrow> distinct (wait_list k) \<and> set (wait_list k) \<subseteq> set (all_list k) \<and>
     sorted (map (\<lambda>t. wakeup_time (threads k t)) (wait_list k)) \<and> (\<forall>t\<in>set (all_list k). timer_ok k t)"

lemma mset_insort_lt: "mset (insort_lt lt e xs) = add_mset e (mset xs)"
  by (metis (no_types, lifting) insort_lt_def mset.simps(2) mset_append takeWhile_dropWhile_id union_mset_add_mset_right)

lemma set_insort_lt: "set (insort_lt lt e xs) = insert e (set xs)"
  using mset_insort_lt [of lt e xs] by (metis set_mset_add_mset_insert set_mset_mset)

lemma distinct_insort_lt: "distinct (insort_lt lt e xs) \<longleftrightarrow> e \<notin> set xs \<and> distinct xs"
  using mset_insort_lt [of lt e xs] mset_eq_imp_distinct_iff [of "insort_lt lt e xs" "e # xs"] by simp

text \<open>What the operations do to the fields this invariant is about.\<close>

fun wait_after :: "kernel \<Rightarrow> kop \<Rightarrow> addr list" where
  "wait_after k Sleep_link = insort_lt (wakeup_cmp k) (cur k) (wait_list k)"
| "wait_after k c = wait_list k"

fun wakeup_after :: "kernel \<Rightarrow> kop \<Rightarrow> addr \<Rightarrow> int" where
  "wakeup_after k (Timer_sleep n) t = (if t = cur k \<and> 0 \<le> n then i64 (os_ticks k + n) else wakeup_time (threads k t))"
| "wakeup_after k c t = wakeup_time (threads k t)"

lemma init_thread_globals:
  "init_thread t nm pri k = Some k' \<Longrightarrow> wait_list k' = wait_list k \<and> os_ticks k' = os_ticks k"
  by (erule init_thread_Some) simp

lemma exec_wait_list:
  assumes ex: "exec c k = Some k'"
  shows "wait_list k' = wait_after k c \<and> os_ticks k' = os_ticks k"
proof (cases c)
  case (Thread_create nm pri fn)
  then show ?thesis using ex
    by (auto simp: thread_create_def palloc_get_page_def opt_simps split: list.splits if_splits dest!: init_thread_globals)
next
  case Thread_exit
  then have "thread_exit k = Some k'" using ex by simp
  then show ?thesis
    by (rule thread_exit_Some)
      (auto simp: Thread_exit intr_disable_def dest!: schedule_globals kcore_globals simp: globals_def)
next
  case (Sema_up s')
  then show ?thesis using ex sema_up_semas [of s' k k'] by simp
next
  case (Thread_unblock t)
  then have "thread_unblock t k = Some k'" using ex by simp
  then show ?thesis by (rule thread_unblock_Some) (simp add: Thread_unblock)
next
  case (Thread_set_priority p)
  then show ?thesis using ex by (auto dest!: thread_set_priority_core kcore_globals simp: globals_def)
next
  case (Thread_set_nice p)
  then show ?thesis using ex by (auto dest!: thread_set_nice_core kcore_globals simp: globals_def)
next
  case (Schedule_rest p)
  then show ?thesis using ex by (auto dest!: schedule_rest_core kcore_globals simp: globals_def)
next
  case (Timer_sleep n)
  then show ?thesis using ex
    by (auto simp: timer_sleep_def thread_current_def running_thread_def timer_ticks_def opt_simps split: if_splits)
qed (use ex in \<open>auto simp: synch_defs call_defs opt_simps intr_set_level_Some thread_current_def running_thread_def
       thread_block_def thread_yield_def globals_def split: if_splits list.splits dest!: schedule_globals\<close>)

lemma schedule_wakeup:
  assumes "schedule k = Some k'" "status (threads k (cur k)) \<noteq> THREAD_DYING"
  shows "wakeup_time (threads k' u) = wakeup_time (threads k u)"
proof (cases "u = cur k")
  case True
  show ?thesis
  proof (rule schedule_Some [OF assms(1), of THREAD_READY "[]"])
    fix nxt T F
    assume "k' = k\<lparr>threads := T, cur := nxt, ready_list := tl (ready_list k), thread_ticks := 0, free_pages := F\<rparr>"
      and "\<not> frees_cur k nxt \<Longrightarrow> ops (T (cur k)) = Schedule_rest nxt # ops (threads k (cur k)) \<and>
       tcore ((T (cur k))\<lparr>status := THREAD_READY, ops := []\<rparr>) = tcore ((threads k (cur k))\<lparr>status := THREAD_READY, ops := []\<rparr>)"
    then show ?thesis using True assms(2) by (simp add: frees_cur_def tcore_def)
  qed
next
  case False
  then show ?thesis using schedule_tview [OF assms(1)] by (simp add: tview_def)
qed

lemma block_wakeup: "thread_block k = Some k' \<Longrightarrow> wakeup_time (threads k' u) = wakeup_time (threads k u)"
  by (auto simp: thread_block_def thread_current_def running_thread_def opt_simps dest!: schedule_wakeup [of _ _ u])

lemma exec_wakeup:
  assumes ex: "exec c k = Some k'" and u: "u \<notin> set (free_pages k)" "NULL \<notin> set (free_pages k)"
    "c = Thread_exit \<Longrightarrow> u \<noteq> cur k"
  shows "wakeup_time (threads k' u) = wakeup_after k c u"
proof (cases c)
  case (Thread_create nm pri fn)
  then show ?thesis using ex u
    by (auto simp: thread_create_def palloc_get_page_def opt_simps set_retval_def split: list.splits elim!: init_thread_Some)
next
  case Thread_exit
  then show ?thesis using exec_other [OF ex, of u] u by (simp add: tview_def)
next
  case (Sema_up s')
  then show ?thesis using ex sema_up_tview [of s' k k' u] by (simp add: tview_def)
next
  case (Thread_unblock t)
  then show ?thesis using ex unblock_tview [of t k k' u] by (simp add: tview_def)
next
  case (Thread_set_priority p)
  then show ?thesis using ex kcore_eqD(5) [OF thread_set_priority_core] by simp
next
  case (Thread_set_nice p)
  then show ?thesis using ex kcore_eqD(5) [OF thread_set_nice_core] by simp
next
  case (Schedule_rest p)
  then show ?thesis using ex kcore_eqD(5) [OF schedule_rest_core] by simp
next
  case Thread_block
  then show ?thesis using ex block_wakeup by simp
next
  case (Sema_down_loop s lv)
  then show ?thesis using ex
    by (auto simp: sema_down_loop_def thread_current_def running_thread_def opt_simps intr_set_level_Some
        split: if_splits dest!: block_wakeup [of _ _ u])
next
  case Thread_yield
  then show ?thesis using ex
    by (auto simp: thread_yield_def thread_current_def running_thread_def intr_disable_def opt_simps
        split: if_splits dest!: schedule_wakeup [of _ _ u])
next
  case (Timer_sleep n)
  then show ?thesis using ex
    by (auto simp: timer_sleep_def thread_current_def running_thread_def timer_ticks_def opt_simps split: if_splits)
qed (use ex in \<open>auto simp: synch_defs call_defs opt_simps intr_set_level_Some thread_current_def running_thread_def
       set_retval_def split: if_splits list.splits\<close>)

section \<open>Preservation\<close>

lemma timer_invD:
  assumes "timer_inv k"
  shows "distinct (wait_list k)" "set (wait_list k) \<subseteq> set (all_list k)"
    "sorted (map (\<lambda>t. wakeup_time (threads k t)) (wait_list k))"
    "t \<in> set (all_list k) \<Longrightarrow> int (sema_value (semas k (Timer_sema t))) + (if t \<in> set (wait_list k) then 1 else 0)
          = wsum (timer_weight t) (ops (threads k t))"
    "t \<in> set (all_list k) \<Longrightarrow> wsum (timer_weight t) (ops (threads k t)) \<le> 1"
    "t \<in> set (all_list k) \<Longrightarrow> u \<noteq> t \<Longrightarrow> wsum (timer_weight u) (ops (threads k t)) = 0"
    "t \<in> set (all_list k) \<Longrightarrow> wsum (timer_weight t) (ops (threads k t)) = 1 \<Longrightarrow> t \<notin> set (wait_list k) \<Longrightarrow>
       wakeup_time (threads k t) \<le> os_ticks k"
  using assms unfolding timer_inv_def timer_ok_def by blast+

lemma inert_timer: "inert xs \<Longrightarrow> wsum (timer_weight t) xs = 0"
  by (rule timer.inert_weight)

lemma exec_timer_cur:
  assumes inv: "sched_inv {cur k} k" and ops: "ops (threads k (cur k)) = c # rest"
    and ex: "exec c (pop_op k) = Some k'" and c: "c \<noteq> Thread_exit"
  obtains xs where "expands k c xs"
    "wsum (timer_weight u) (ops (threads k' (cur k))) = wsum (timer_weight u) rest + wsum (timer_weight u) xs"
proof -
  obtain xs where "expands k c xs"
    "stack_sum (timer_weight u) k' = stack_sum (timer_weight u) k - timer_weight u c + wsum (timer_weight u) xs"
    using timer.exec_sum [OF inv ops ex] by blast
  then show ?thesis
    using that timer.exec_cur_sum [OF inv ops ex c, of u] ops by simp
qed

lemma timer_weight_nonneg: "0 \<le> timer_weight t c" "0 \<le> wsum (timer_weight t) xs"
proof -
  show c: "0 \<le> timer_weight t c" for c by (cases c) auto
  show "0 \<le> wsum (timer_weight t) xs" using c by (induction xs) (auto simp: add_nonneg_nonneg)
qed

lemma expands_timer:
  assumes "expands k c xs" "c \<noteq> Sleep_link"
  shows "wsum (timer_weight u) xs =
    (if \<exists>lv. c = Sema_down_loop (Timer_sema u) lv \<and> sema_value (semas k (Timer_sema u)) \<noteq> 0 then 0 else timer_weight u c)"
  using assms
proof (induction rule: expands.induct)
  case (simple k c xs)
  from simple(3) show ?case using simple by cases auto
qed auto

text \<open>A thread with nothing but its function below on the stack is not asleep.\<close>

lemma awake:
  assumes "timer_inv k" "t \<in> set (all_list k)" "wsum (timer_weight t) (ops (threads k t)) = 0"
  shows "t \<notin> set (wait_list k)" "sema_value (semas k (Timer_sema t)) = 0"
  using timer_invD(4) [OF assms(1,2)] assms(3) by (auto split: if_splits)

lemma sleep_timer_inv:
  assumes inv: "sched_inv {cur k} k" and ti: "timer_inv k" and ops: "ops (threads k (cur k)) = Timer_sleep n # rest"
    and ex: "timer_sleep n (pop_op k) = Some k'" and n: "0 \<le> n"
  shows "timer_inv k'"
proof -
  note c = cur_facts(1) [OF inv]
  have k': "k' = push_ops (cur k) [Sleep_insert] (upd (cur k) (\<lambda>th. th\<lparr>wakeup_time := i64 (os_ticks k + n)\<rparr>) (pop_op k))"
    using ex n by (auto simp: timer_sleep_def thread_current_def running_thread_def timer_ticks_def opt_simps)
  have z: "wsum (timer_weight u) rest = 0" for u using wf_rest(1) [OF inv ops] inert_timer by simp
  note out = awake [OF ti c]
  have "map (\<lambda>t. wakeup_time (threads k' t)) (wait_list k) = map (\<lambda>t. wakeup_time (threads k t)) (wait_list k)"
    using out(1) z ops by (auto simp: k')
  moreover have "wait_list k' = wait_list k" by (simp add: k')
  ultimately have "sorted (map (\<lambda>t. wakeup_time (threads k' t)) (wait_list k'))" using timer_invD(3) [OF ti] by (simp only:)
  moreover have "timer_ok k' t" if "t \<in> set (all_list k')" for t
  proof (cases "t = cur k")
    case True
    then show ?thesis using z out ops by (simp add: timer_ok_def k')
  next
    case False
    then have "timer_ok k' t = timer_ok k t" by (simp add: timer_ok_def k')
    then show ?thesis using ti that by (simp add: timer_inv_def k')
  qed
  ultimately show ?thesis using timer_invD(1,2) [OF ti] by (simp add: timer_inv_def k')
qed

lemma link_timer_inv:
  assumes inv: "sched_inv {cur k} k" and ti: "timer_inv k" and ops: "ops (threads k (cur k)) = Sleep_link # rest"
  shows "timer_inv (sleep_link (pop_op k))"
proof -
  note c = cur_facts(1) [OF inv]
  define k' where "k' = sleep_link (pop_op k)"
  have z: "wsum (timer_weight u) rest = 0" for u using wf_rest(1) [OF inv ops] inert_timer by simp
  then have out: "cur k \<notin> set (wait_list k)" "sema_value (semas k (Timer_sema (cur k))) = 0"
    using awake [OF ti c] ops by simp_all
  have w: "wakeup_time (threads k' t) = wakeup_time (threads k t)" "wakeup_cmp (pop_op k) = wakeup_cmp k" for t
    by (simp_all add: k'_def sleep_link_def wakeup_cmp_def fun_eq_iff)
  have wl: "wait_list k' = insort_lt (wakeup_cmp k) (cur k) (wait_list k)" "all_list k' = all_list k" "semas k' = semas k" "os_ticks k' = os_ticks k"
    using w(2) by (simp_all add: k'_def sleep_link_def)
  have "sorted (map (\<lambda>t. wakeup_time (threads k' t)) (wait_list k'))"
    unfolding w(1) wl(1) by (rule wakeup.insort_lt_sorted) (rule timer_invD(3) [OF ti])
  moreover have "distinct (wait_list k')" "set (wait_list k') \<subseteq> set (all_list k')"
    using timer_invD(1,2) [OF ti] out(1) c by (simp_all add: wl distinct_insort_lt set_insort_lt)
  moreover have "timer_ok k' t" if "t \<in> set (all_list k')" for t
  proof (cases "t = cur k")
    case True
    then show ?thesis using z out(2) ops by (simp add: timer_ok_def wl set_insort_lt) (simp add: k'_def sleep_link_def)
  next
    case False
    then have "ops (threads k' t) = ops (threads k t)" by (simp add: k'_def sleep_link_def)
    then have "timer_ok k' t = timer_ok k t" using False by (simp add: timer_ok_def wl w(1) set_insort_lt)
    then show ?thesis using ti that by (simp add: timer_inv_def wl(2))
  qed
  ultimately show ?thesis by (simp add: timer_inv_def k'_def)
qed

lemma exec_timer_thread:
  assumes inv: "sched_inv {cur k} k" and ti: "timer_inv k" and ops: "ops (threads k (cur k)) = c # rest"
    and ex: "exec c (pop_op k) = Some k'" and ns: "c \<noteq> Sleep_link" and t: "t \<in> set (all_list k')" "t \<in> set (all_list k)"
  shows "int (sema_value (semas k' (Timer_sema t))) + (if t \<in> set (wait_list k) then 1 else 0)
          = wsum (timer_weight t) (ops (threads k' t)) \<and>
        wsum (timer_weight t) (ops (threads k' t)) \<le> wsum (timer_weight t) (ops (threads k t)) \<and>
        (\<forall>u. u \<noteq> t \<longrightarrow> wsum (timer_weight u) (ops (threads k' t)) = 0)"
proof -
  have z: "0 \<notin> set (free_pages (pop_op k))" and fr: "t \<notin> set (free_pages k)"
    using inv t(2) by (auto simp: sched_inv_def inv_pages_def)
  note e = exec_semas [OF ex z, of "Timer_sema t"]
  note old = timer_invD(4) [OF ti t(2)] timer_invD(6) [OF ti t(2)]
  note wf = wf_rest(1) [OF inv ops]
  show ?thesis
  proof (cases "t = cur k")
    case False
    have "timer_weight t c = 0"
      using timer_invD(6) [OF ti cur_facts(1) [OF inv] False] ops timer_weight_nonneg(1) [of t c] timer_weight_nonneg(2) [of t rest]
      by auto
    then have "sema_value (semas k' (Timer_sema t)) = sema_value (semas k (Timer_sema t))"
      using e wf fr by (cases c) (auto split: if_splits)
    then show ?thesis using timer.exec_other_sum [OF inv ops ex t(2) False] old by simp
  next
    case True
    have ne: "c \<noteq> Thread_exit"
      using exec_all_list [OF ex z] t(1) True inv by (auto simp: sched_inv_def inv_pages_def)
    have x: "wsum (timer_weight u) (ops (threads k' t)) = wsum (timer_weight u) rest +
        (if \<exists>lv. c = Sema_down_loop (Timer_sema u) lv \<and> sema_value (semas k (Timer_sema u)) \<noteq> 0 then 0 else timer_weight u c)" for u
      by (rule exec_timer_cur [OF inv ops ex ne, of u]) (use expands_timer ns True in auto)
    have "sema_value (semas k' (Timer_sema t)) = (if \<exists>lv. c = Sema_down_loop (Timer_sema t) lv
        then sema_value (semas k (Timer_sema t)) - 1 else sema_value (semas k (Timer_sema t)))"
      using e wf fr by (cases c) (auto split: if_splits)
    moreover have "wsum (timer_weight u) (ops (threads k t)) = timer_weight u c + wsum (timer_weight u) rest" for u
      using ops True by simp
    moreover have "wsum (timer_weight u) rest = 0 \<and> timer_weight u c = 0" if "u \<noteq> t" for u
      using old(2) [OF that] calculation(2) [of u] timer_weight_nonneg(1) [of u c] timer_weight_nonneg(2) [of u rest] by auto
    ultimately show ?thesis using old(1) x timer_weight_nonneg(1) [of t c] by auto
  qed
qed

lemma create_new_timer:
  assumes "thread_create nm pri fn k = Some k'" "0 \<notin> set (free_pages k)" "free_pages k \<noteq> []" "hd (free_pages k) \<noteq> cur k"
  shows "ops (threads k' (hd (free_pages k))) = [] \<and> sema_value (semas k' (Timer_sema (hd (free_pages k)))) = 0"
proof (cases "free_pages k")
  case (Cons p ps)
  then show ?thesis
    using assms by (auto simp: thread_create_def palloc_get_page_def opt_simps tcore_def elim!: init_thread_Some)
qed (use assms in simp)

lemma other_timer_inv:
  assumes inv: "sched_inv {cur k} k" and ti: "timer_inv k" and ops: "ops (threads k (cur k)) = c # rest"
    and ex: "exec c (pop_op k) = Some k'" and ns: "\<And>n. c = Timer_sleep n \<Longrightarrow> n < 0" and nl: "c \<noteq> Sleep_link"
  shows "timer_inv k'"
proof -
  have z: "0 \<notin> set (free_pages (pop_op k))" and free: "set (free_pages k) \<inter> set (all_list k) = {}" and
    d: "distinct (all_list k)"
    using inv by (auto simp: sched_inv_def inv_pages_def)
  have wl: "wait_list k' = wait_list k" "os_ticks k' = os_ticks k"
    using exec_wait_list [OF ex] nl by (cases c; auto)+
  note al = exec_all_list [OF ex z]
  have wk: "wakeup_time (threads k' t) = wakeup_time (threads k t)" if "t \<in> set (all_list k')" "t \<in> set (all_list k)" for t
  proof -
    have "t \<notin> set (free_pages (pop_op k))" using free that by auto
    moreover have "c = Thread_exit \<Longrightarrow> t \<noteq> cur (pop_op k)" using al that d by auto
    ultimately have "wakeup_time (threads k' t) = wakeup_after (pop_op k) c t" using exec_wakeup [OF ex _ z] by blast
    also have "\<dots> = wakeup_time (threads k t)" using ns by (cases c) auto
    finally show ?thesis .
  qed
  have sub: "set (wait_list k) \<subseteq> set (all_list k')"
  proof (cases "c = Thread_exit")
    case True
    then have "cur k \<notin> set (wait_list k)"
      using timer_invD(4) [OF ti cur_facts(1) [OF inv]] ops wf_rest(1) [OF inv ops] inert_timer [of rest "cur k"]
      by (auto split: if_splits)
    then show ?thesis using al True timer_invD(2) [OF ti] d by auto
  next
    case False
    then have "set (all_list k) \<subseteq> set (all_list k')" using al by (cases c) auto
    then show ?thesis using timer_invD(2) [OF ti] by blast
  qed
  have "sorted (map (\<lambda>t. wakeup_time (threads k' t)) (wait_list k))"
    using timer_invD(3) [OF ti] wk sub timer_invD(2) [OF ti] by (simp add: subset_iff cong: map_cong)
  moreover have "timer_ok k' t" if "t \<in> set (all_list k')" for t
  proof (cases "t \<in> set (all_list k)")
    case True
    show ?thesis
      using exec_timer_thread [OF inv ti ops ex nl that True] timer_invD(5,7) [OF ti True] wk [OF that True] wl
      unfolding timer_ok_def by auto
  next
    case False
    have "\<exists>nm pri fn. c = Thread_create nm pri fn"
      using al that False by (cases c) (auto dest: notin_set_remove1)
    then obtain nm pri fn where c: "c = Thread_create nm pri fn" by blast
    then have t: "t = hd (free_pages k)" "free_pages k \<noteq> []" using al that False by (auto split: if_splits)
    then have "t \<noteq> cur k" using False cur_facts(1) [OF inv] by auto
    then have "ops (threads k' t) = [] \<and> sema_value (semas k' (Timer_sema t)) = 0"
      using ex z t create_new_timer [of nm pri fn "pop_op k" k'] unfolding c by simp
    moreover have "t \<notin> set (wait_list k)" using False timer_invD(2) [OF ti] by auto
    ultimately show ?thesis by (simp add: timer_ok_def wl)
  qed
  ultimately show ?thesis using timer_invD(1) [OF ti] sub by (simp add: timer_inv_def wl)
qed

lemma exec_timer_inv:
  assumes inv: "sched_inv {cur k} k" and ti: "timer_inv k" and ops: "ops (threads k (cur k)) = c # rest"
    and ex: "exec c (pop_op k) = Some k'"
  shows "timer_inv k'"
proof (cases "\<exists>n. c = Timer_sleep n \<and> 0 \<le> n")
  case True
  then show ?thesis using sleep_timer_inv [OF inv ti] ops ex by auto
next
  case nsl: False
  show ?thesis
  proof (cases "c = Sleep_link")
    case True
    then show ?thesis using link_timer_inv [OF inv ti] ops ex by simp
  next
    case False
    then show ?thesis using nsl by (intro other_timer_inv [OF inv ti ops ex]) auto
  qed
qed
lemma wake_loop_timer_inv:
  assumes "wake_loop ts k = Some k'" "wait_list k = ts" "timer_inv k"
  shows "timer_inv k' \<and> (\<forall>t\<in>set (wait_list k'). os_ticks k' < wakeup_time (threads k' t))"
  using assms
proof (induction ts arbitrary: k)
  case (Cons t ts)
  note ti = timer_invD [OF Cons.prems(3)]
  show ?case
  proof (cases "os_ticks k < wakeup_time (threads k t)")
    case True
    then have "\<forall>u\<in>set (wait_list k). os_ticks k < wakeup_time (threads k u)"
      using ti(3) Cons.prems(2) by (auto intro: order.strict_trans2)
    then show ?thesis using True Cons.prems by simp
  next
    case False
    then obtain k1 where k1: "sema_up (Timer_sema t) k = Some k1"
      "wake_loop ts (k1\<lparr>wait_list := tl (wait_list k1)\<rparr>) = Some k'"
      using Cons.prems by (auto simp: opt_simps)
    define j where "j = k1\<lparr>wait_list := tl (wait_list k1)\<rparr>"
    note e = sema_up_semas [OF k1(1)] sema_up_tview [OF k1(1)]
    have jt: "ops (threads j u) = ops (threads k u)" "wakeup_time (threads j u) = wakeup_time (threads k u)" for u
      using e(2) [of u] by (auto simp: j_def tview_def)
    have wl: "wait_list j = ts" "all_list j = all_list k" "os_ticks j = os_ticks k"
      using e(1) Cons.prems(2) by (simp_all add: j_def)
    have t: "t \<in> set (all_list k)" "t \<notin> set ts" using ti(1,2) Cons.prems(2) by auto
    have one: "wsum (timer_weight t) (ops (threads k t)) = 1" "sema_value (semas k (Timer_sema t)) = 0"
      using ti(4,5) [OF t(1)] Cons.prems(2) by auto
    have "timer_ok j u" if "u \<in> set (all_list k)" for u
    proof (cases "u = t")
      case True
      then show ?thesis
        using one t ti(6) [OF t(1)] False e(1) by (auto simp: timer_ok_def jt wl u32_def) (simp add: j_def)
    next
      case False
      then have "semas j (Timer_sema u) = semas k (Timer_sema u)" "u \<in> set ts \<longleftrightarrow> u \<in> set (wait_list k)"
        using e(1) Cons.prems(2) by (simp_all add: j_def)
      then have "timer_ok j u = timer_ok k u" by (simp add: timer_ok_def jt wl)
      then show ?thesis using Cons.prems(3) that by (simp add: timer_inv_def)
    qed
    then have "timer_inv j"
      using ti(1-3) Cons.prems(2) by (simp add: timer_inv_def wl jt)
    then show ?thesis using Cons.IH [OF k1(2)] wl(1) by (simp add: j_def)
  qed
qed simp

lemma timer_inv_cong:
  assumes "timer_inv k" "semas k' = semas k" "all_list k' = all_list k" "wait_list k' = wait_list k" "os_ticks k \<le> os_ticks k'"
    "\<And>u t. wsum (timer_weight u) (ops (threads k' t)) = wsum (timer_weight u) (ops (threads k t))"
    "\<And>t. wakeup_time (threads k' t) = wakeup_time (threads k t)"
  shows "timer_inv k'"
proof -
  have "timer_ok k' t" if "timer_ok k t" for t
    using that assms(5) unfolding timer_ok_def assms(2-4,6-7) by auto
  then show ?thesis using assms(1) unfolding timer_inv_def assms(2-4,7) by blast
qed

lemma tick_timer_inv:
  assumes ti: "timer_inv k" and tk: "0 \<le> os_ticks k" and st: "step Tick k = Some k'"
  shows "timer_inv k' \<and> os_ticks k' = os_ticks k + 1 \<and> (\<forall>t\<in>set (wait_list k'). os_ticks k' < wakeup_time (threads k' t))"
proof (rule tick_Some [OF st])
  fix j k1 k2
  assume j: "j = (push_ops (cur k) [Interrupt_return] (intr_disable k))
      \<lparr>in_external_intr := True, yield_on_return := False, os_ticks := i64 (os_ticks k + 1)\<rparr>"
    and k1: "thread_tick j = Some k1" and k2: "wake_loop (wait_list k1) k1 = Some k2"
    and k': "k' = push_ops (cur k2) (if yield_on_return k2 then [Thread_yield] else []) (k2\<lparr>in_external_intr := False\<rparr>)"
    and lt: "os_ticks k < 2 ^ 63 - 1"
  note c = kcore_eqD [OF thread_tick_core [OF k1]]
  have os: "os_ticks j = os_ticks k + 1" using lt tk by (simp add: j i64_id)
  have "timer_inv j" by (rule timer_inv_cong [OF ti]) (use os in \<open>auto simp: j intr_disable_def\<close>)
  then have "timer_inv k1" by (rule timer_inv_cong) (simp_all add: c(2,5,9,10,13,17))
  then have w: "timer_inv k2" "\<forall>t\<in>set (wait_list k2). os_ticks k2 < wakeup_time (threads k2 t)"
    using wake_loop_timer_inv [OF k2] by auto
  have "timer_inv k'" by (rule timer_inv_cong [OF w(1)]) (auto simp: k')
  moreover have "os_ticks k2 = os_ticks k + 1" using wake_loop_frame [OF k2] c(17) os by simp
  ultimately show ?thesis using w(2) by (simp add: k')
qed

lemma step_timer_inv:
  assumes inv: "sched_inv {cur k} k" and ti: "timer_inv k \<and> 0 \<le> os_ticks k" and st: "step a k = Some k'"
  shows "timer_inv k' \<and> 0 \<le> os_ticks k'"
proof (cases a)
  case Exec
  then obtain c rest where c: "ops (threads k (cur k)) = c # rest" "exec c (pop_op k) = Some k'"
    using st by (auto split: list.splits)
  then show ?thesis using exec_timer_inv [OF inv _ c] exec_wait_list [OF c(2)] ti by simp
next
  case (Call c)
  then obtain rest where c: "api k c" and k': "k' = push_ops (cur k) [c] k"
    using st by (auto split: list.splits kop.splits if_splits)
  then have "timer_weight u c = 0" for u by (cases c) (auto elim: api.elims)
  then have "timer_inv k'" by (intro timer_inv_cong [OF conjunct1 [OF ti]]) (auto simp: k')
  then show ?thesis using ti by (simp add: k')
next
  case Finish
  then obtain rest where k': "ops (threads k (cur k)) = Run_function # rest" "k' = pop_op k"
    using st by (auto split: list.splits kop.splits)
  then have "timer_inv k'" by (intro timer_inv_cong [OF conjunct1 [OF ti]]) auto
  then show ?thesis using ti k' by simp
next
  case Tick
  then show ?thesis using tick_timer_inv [of k k'] ti st by simp
qed

lemma thread_init_timer_inv:
  assumes "thread_init (boot q r f j m ps) = Some k"
  shows "timer_inv k \<and> 0 \<le> os_ticks k"
  by (rule thread_init_Some [OF assms]) (auto simp: timer_inv_def timer_ok_def tcore_def)

lemma reachable_timer_inv: "reachable k \<Longrightarrow> timer_inv k \<and> 0 \<le> os_ticks k"
proof (induction rule: reachable.induct)
  case (reachable_step k a k')
  then show ?case using step_timer_inv reachable_inv by blast
qed (rule thread_init_timer_inv)

section \<open>One sleep\<close>

lemma wake_loop_tview:
  "wake_loop ts k = Some k' \<Longrightarrow> tview (threads k' u) = tview (threads k u)"
proof (induction ts arbitrary: k)
  case (Cons t ts)
  then show ?case
    by (cases "os_ticks k < wakeup_time (threads k t)") (fastforce simp: opt_simps dest: sema_up_tview)+
qed simp

text \<open>
  The operations of \<open>timer_sleep\<close> after its first, and what an interrupt leaves above them: the return from the
  interrupt and from a switch.
\<close>

fun in_sleep :: "addr \<Rightarrow> kop \<Rightarrow> bool" where
  "in_sleep t Sleep_insert = True"
| "in_sleep t Sleep_link = True"
| "in_sleep t (Sema_down s) = (s = Timer_sema t)"
| "in_sleep t (Sema_down_loop s lv) = (s = Timer_sema t)"
| "in_sleep t c = False"

fun resumes :: "kop \<Rightarrow> bool" where
  "resumes Interrupt_return = True"
| "resumes Thread_yield = True"
| "resumes (Schedule_rest nxt) = True"
| "resumes (Intr_set_level lv) = True"
| "resumes c = False"

definition asleep :: "addr \<Rightarrow> kop list \<Rightarrow> kernel \<Rightarrow> bool" where
  "asleep t rest k \<longleftrightarrow> (\<exists>pre c. ops (threads k t) = pre @ c # rest \<and> list_all resumes pre \<and> in_sleep t c)"

lemma asleepI: "ops (threads k t) = pre @ c # rest \<Longrightarrow> list_all resumes pre \<Longrightarrow> in_sleep t c \<Longrightarrow> asleep t rest k"
  unfolding asleep_def by blast

lemma asleep_longer: "asleep t rest k \<Longrightarrow> length rest < length (ops (threads k t))"
  by (auto simp: asleep_def)

lemma asleep_push: "asleep t rest k \<Longrightarrow> list_all resumes xs \<Longrightarrow> ops (threads k' t) = xs @ ops (threads k t) \<Longrightarrow> asleep t rest k'"
  unfolding asleep_def by (metis append.assoc list_all_append)

text \<open>The thread sleeps on until time \<open>T\<close>, which may have come.\<close>

definition sleeps_until :: "addr \<Rightarrow> int \<Rightarrow> kop list \<Rightarrow> kernel \<Rightarrow> bool" where
  "sleeps_until t T rest k \<longleftrightarrow> T \<le> os_ticks k \<or> t \<in> set (all_list k) \<and> wakeup_time (threads k t) = T \<and> asleep t rest k"

lemma switch_ops:
  assumes "schedule k = Some k'" "status (threads k (cur k)) \<noteq> THREAD_DYING"
  shows "\<exists>nxt. ops (threads k' (cur k)) = Schedule_rest nxt # ops (threads k (cur k))"
  by (rule schedule_Some [OF assms(1), of THREAD_READY "[]"]) (use assms(2) in \<open>auto simp: frees_cur_def\<close>)

lemma resumes_exec:
  assumes "resumes c" "exec c k = Some k'"
  shows "\<exists>xs. list_all resumes xs \<and> ops (threads k' (cur k)) = xs @ ops (threads k (cur k))"
proof (cases c)
  case Thread_yield
  then obtain lv k1 where k1: "schedule k1 = Some k'" "cur k1 = cur k" "status (threads k1 (cur k)) = THREAD_READY"
    "ops (threads k1 (cur k)) = Intr_set_level lv # ops (threads k (cur k))"
    using assms(2) by (auto simp: thread_yield_def thread_current_def running_thread_def intr_disable_def opt_simps split: if_splits)
  then obtain nxt where "ops (threads k' (cur k)) = [Schedule_rest nxt, Intr_set_level lv] @ ops (threads k (cur k))"
    using switch_ops [OF k1(1)] by auto
  then show ?thesis by (intro exI [of _ "[Schedule_rest nxt, Intr_set_level lv]"]) simp
next
  case (Schedule_rest nxt)
  then show ?thesis using assms(2) kcore_eqD(2) [OF schedule_rest_core] by (auto intro!: exI [of _ "[]"])
qed (use assms in \<open>auto simp: intr_set_level_Some intro!: exI [of _ "[]"]\<close>)

lemma sleep_op_exec:
  assumes inv: "sched_inv {cur k} k" and ti: "timer_inv k" and ops: "ops (threads k (cur k)) = c # rest"
    and ex: "exec c (pop_op k) = Some k'" and c: "in_sleep (cur k) c"
  shows "wakeup_time (threads k (cur k)) \<le> os_ticks k \<or> asleep (cur k) rest k'"
proof (cases "\<exists>lv. c = Sema_down_loop (Timer_sema (cur k)) lv")
  case True
  then obtain lv where c': "c = Sema_down_loop (Timer_sema (cur k)) lv" by blast
  show ?thesis
  proof (cases "sema_value (semas k (Timer_sema (cur k))) = 0")
    case True
    then obtain k1 where k1: "schedule k1 = Some k'" "cur k1 = cur k" "status (threads k1 (cur k)) = THREAD_BLOCKED"
      "ops (threads k1 (cur k)) = c # rest"
      using ex ops c' by (auto simp: sema_down_loop_def thread_block_def thread_current_def running_thread_def opt_simps)
    then obtain nxt where "ops (threads k' (cur k)) = [Schedule_rest nxt] @ c # rest" using switch_ops [OF k1(1)] by auto
    then show ?thesis using c by (intro disjI2 asleepI [where pre = "[Schedule_rest nxt]"]) simp_all
  next
    case False
    note ok = timer_invD(4,5,7) [OF ti cur_facts(1) [OF inv]]
    have "wsum (timer_weight (cur k)) (ops (threads k (cur k))) = 1" "cur k \<notin> set (wait_list k)"
      using ok(1,2) False by (auto split: if_splits)
    then show ?thesis using ok(3) by simp
  qed
next
  case False
  then have "asleep (cur k) rest k'"
    using ex ops c
    by (cases c) (auto simp: sleep_insert_def sleep_link_def sema_down_def intr_disable_def opt_simps intro!: asleepI [where pre = "[]"])
  then show ?thesis ..
qed

lemma exec_sleeps_until:
  assumes inv: "sched_inv {cur k} k" and ti: "timer_inv k" and ops: "ops (threads k (cur k)) = c # r"
    and ex: "exec c (pop_op k) = Some k'" and sl: "sleeps_until t T rest k"
  shows "sleeps_until t T rest k'"
proof (cases "T \<le> os_ticks k")
  case True
  then show ?thesis using exec_wait_list [OF ex] by (simp add: sleeps_until_def)
next
  case False
  then have t: "t \<in> set (all_list k)" "wakeup_time (threads k t) = T" "asleep t rest k" using sl by (auto simp: sleeps_until_def)
  obtain pre c' where p: "ops (threads k t) = pre @ c' # rest" "list_all resumes pre" "in_sleep t c'" using t(3) by (auto simp: asleep_def)
  have z: "NULL \<notin> set (free_pages (pop_op k))" and fr: "t \<notin> set (free_pages k)" and d: "distinct (all_list k)"
    using inv t(1) by (auto simp: sched_inv_def inv_pages_def)
  have nx: "t = cur k \<Longrightarrow> c \<noteq> Thread_exit \<and> (\<forall>n. c \<noteq> Timer_sleep n)"
    using p ops by (cases pre) auto
  have all: "t \<in> set (all_list k')" using exec_all_list [OF ex z] t(1) nx d by (cases c) auto
  have w: "wakeup_time (threads k' t) = T"
    using exec_wakeup [OF ex _ z, of t] fr t(2) nx by (cases c) auto
  have "T \<le> os_ticks k \<or> asleep t rest k'"
  proof (cases "t = cur k")
    case True
    show ?thesis
    proof (cases pre)
      case Nil
      then show ?thesis using sleep_op_exec [OF inv ti ops ex] p ops True t(2) by auto
    next
      case (Cons q qs)
      then have "resumes c" "r = qs @ c' # rest" "list_all resumes qs" using p ops True by auto
      moreover from this(1) obtain xs where "list_all resumes xs" "ops (threads k' (cur k)) = xs @ r"
        using resumes_exec [OF _ ex] ops by auto
      ultimately show ?thesis using p(3) True by (intro disjI2 asleepI [where pre = "xs @ qs"]) simp_all
    qed
  next
    case False
    have "c \<noteq> Create_rest t fn" for fn
      using inv_newbornD(2) [OF _ cur_facts(1) [OF inv], of t] inv ops p by (cases pre) (auto simp: sched_inv_def unborn_def)
    then have "ops (threads k' t) = ops (threads k t)"
      using exec_other [OF ex, of t] z fr False ex by (cases "c = Set_tid t") (auto simp: tview_def set_tid_def)
    then show ?thesis using t(3) by (simp add: asleep_def)
  qed
  then show ?thesis using False all w by (simp add: sleeps_until_def)
qed

lemma tick_sleeps_until:
  assumes st: "step Tick k = Some k'" and tk: "0 \<le> os_ticks k" and ti: "timer_inv k" and sl: "sleeps_until t T rest k"
  shows "sleeps_until t T rest k'"
proof (rule tick_Some [OF st])
  fix j k1 k2
  assume j: "j = (push_ops (cur k) [Interrupt_return] (intr_disable k))
      \<lparr>in_external_intr := True, yield_on_return := False, os_ticks := i64 (os_ticks k + 1)\<rparr>"
    and k1: "thread_tick j = Some k1" and k2: "wake_loop (wait_list k1) k1 = Some k2"
    and k': "k' = push_ops (cur k2) (if yield_on_return k2 then [Thread_yield] else []) (k2\<lparr>in_external_intr := False\<rparr>)"
  note c = kcore_eqD [OF thread_tick_core [OF k1]]
  have "ops (threads k2 u) = ops (threads j u)" "wakeup_time (threads k2 u) = wakeup_time (threads j u)" for u
    using wake_loop_tview [OF k2, of u] c(2,5) [of u] by (simp_all add: tview_def)
  then have o: "\<exists>xs. list_all resumes xs \<and> ops (threads k' t) = xs @ ops (threads k t)" "wakeup_time (threads k' t) = wakeup_time (threads k t)"
    by (auto simp: k' j intr_disable_def intro: exI [of _ "[]"] exI [of _ "[Interrupt_return]"] exI [of _ "[Thread_yield, Interrupt_return]"] exI [of _ "[Thread_yield]"])
  have "all_list k' = all_list k" using wake_loop_frame [OF k2] c(9) by (simp add: k' j intr_disable_def)
  then show ?thesis
    using sl o asleep_push [of t rest k _ k'] tick_timer_inv [OF ti tk st] by (auto simp: sleeps_until_def)
qed

lemma step_sleeps_until:
  assumes r: "reachable k" and st: "step a k = Some k'" and sl: "sleeps_until t T rest k"
  shows "sleeps_until t T rest k'"
proof -
  have inv: "sched_inv {cur k} k" "timer_inv k" "0 \<le> os_ticks k" using reachable_inv reachable_timer_inv r by auto
  have fn: "t \<noteq> cur k \<or> T \<le> os_ticks k" if "ops (threads k (cur k)) = Run_function # r" for r
  proof (rule ccontr)
    assume "\<not> (t \<noteq> cur k \<or> T \<le> os_ticks k)"
    then obtain pre c where "ops (threads k (cur k)) = pre @ c # rest" "list_all resumes pre" "in_sleep t c"
      using sl by (auto simp: sleeps_until_def asleep_def)
    then show False using that by (cases pre) auto
  qed
  show ?thesis
  proof (cases a)
    case Exec
    then obtain c r where "ops (threads k (cur k)) = c # r" "exec c (pop_op k) = Some k'" using st by (auto split: list.splits)
    then show ?thesis by (rule exec_sleeps_until [OF inv(1,2) _ _ sl])
  next
    case (Call c)
    then obtain r where "ops (threads k (cur k)) = Run_function # r" "k' = push_ops (cur k) [c] k"
      using st by (auto split: list.splits kop.splits if_splits)
    then show ?thesis using fn sl by (auto simp: sleeps_until_def asleep_def)
  next
    case Finish
    then obtain r where "ops (threads k (cur k)) = Run_function # r" "k' = pop_op k" using st by (auto split: list.splits kop.splits)
    then show ?thesis using fn sl by (auto simp: sleeps_until_def asleep_def)
  next
    case Tick
    then show ?thesis using tick_sleeps_until [OF _ inv(3,2) sl] st by simp
  qed
qed

lemma run_sleeps_until: "run as k = Some k' \<Longrightarrow> reachable k \<Longrightarrow> sleeps_until t T rest k \<Longrightarrow> sleeps_until t T rest k'"
proof (induction as arbitrary: k)
  case (Cons a as)
  then obtain k1 where "step a k = Some k1" "run as k1 = Some k'" by (auto simp del: step.simps split: option.splits)
  then show ?case using Cons step_sleeps_until reachable_step by blast
qed simp

end
