(* ===== verification/Sync_Props.thy ===== *)
theory Sync_Props
  imports Lock_Inv Sema_Inv Timer_Inv Examples
begin

text \<open>
  What the invariants of locks, semaphores and the sleep queue give in every state the system can get into.
\<close>

section \<open>Locks\<close>

lemma two_weights:
  assumes nn: "\<And>t. t \<in> set (all_list k) \<Longrightarrow> 0 \<le> wsum w (ops (threads k t))"
    and t: "t \<in> set (all_list k)" "u \<in> set (all_list k)" "t \<noteq> u"
  shows "wsum w (ops (threads k t)) + wsum w (ops (threads k u)) \<le> stack_sum w k"
proof -
  have "(\<Sum>x\<in>{t, u}. wsum w (ops (threads k x))) \<le> (\<Sum>x\<in>set (all_list k). wsum w (ops (threads k x)))"
    by (rule sum_mono2) (use t nn in auto)
  then show ?thesis using t(3) by (simp add: stack_sum_def)
qed

text \<open>
  C1: Mutual exclusion.  The semaphore of a lock is 0 or 1, and 0 while the lock has a holder.  A thread that is
  about to make itself the holder in \<open>lock_acquire\<close> finds no holder, and it is the only one about to.
\<close>

theorem lock_mutual_exclusion:
  assumes "reachable k"
  shows "sema_value (semas k (Lock_sema l)) \<le> 1 \<and>
    (holder k l \<noteq> NULL \<longrightarrow> sema_value (semas k (Lock_sema l)) = 0) \<and>
    (\<forall>t\<in>set (all_list k). \<forall>r. ops (threads k t) = Set_holder l # r \<longrightarrow>
       holder k l = NULL \<and> sema_value (semas k (Lock_sema l)) = 0 \<and>
       (\<forall>u\<in>set (all_list k). \<forall>r'. ops (threads k u) = Set_holder l # r' \<longrightarrow> u = t))"
proof -
  have inv: "sched_inv {cur k} k" "lock_inv k" using reachable_inv reachable_lock_inv assms by auto
  note b = lock_bounds [OF inv]
  have w: "0 \<le> wsum (lock_weight l) (ops (threads k t)) \<and>
      (\<forall>r. ops (threads k t) = Set_holder l # r \<longrightarrow> 1 \<le> wsum (lock_weight l) (ops (threads k t)))"
    if "t \<in> set (all_list k)" for t
    using wf_ops_lock_weight [of "ops (threads k t)" l] inv(1) that by (auto simp: sched_inv_def inv_stacks_def)
  have "u = t" if t: "t \<in> set (all_list k)" "ops (threads k t) = Set_holder l # r"
    and u: "u \<in> set (all_list k)" "ops (threads k u) = Set_holder l # r'" for t u r r'
  proof (rule ccontr)
    assume "u \<noteq> t"
    then have "wsum (lock_weight l) (ops (threads k t)) + wsum (lock_weight l) (ops (threads k u))
        \<le> stack_sum (lock_weight l) k"
      using w t(1) u(1) by (intro two_weights) auto
    moreover have "1 \<le> wsum (lock_weight l) (ops (threads k t))" "1 \<le> wsum (lock_weight l) (ops (threads k u))"
      using w t u by blast+
    ultimately have "2 \<le> stack_sum (lock_weight l) k" by linarith
    moreover have "lock_tokens l k = 1" using inv(2) by (simp add: lock_inv_def)
    ultimately show False by (simp add: lock_tokens_def split: if_splits)
  qed
  then show ?thesis by (intro conjI ballI allI impI) (use b [where l = l] in \<open>simp_all\<close>)
qed

theorem lock_mutual_exclusion_witness:
  "holder demo_state 2 = 12288 \<and> sema_value (semas demo_state (Lock_sema 2)) = 0"
  using lock_mutual_exclusion [OF demo_reachable, of 2] by (simp add: demo_view)

section \<open>Semaphores\<close>

lemma wf_down_weight: "wf_ops xs \<Longrightarrow> wsum (down_weight s) xs \<le> 1"
proof (induction xs)
  case (Cons c xs)
  then show ?case using calm_down_weight [of xs s] by (cases c) auto
qed simp

lemma down_weight_pos: "0 < wsum (down_weight s) xs \<longleftrightarrow> (\<exists>lv. Sema_down_loop s lv \<in> set xs)"
proof (induction xs)
  case (Cons c xs)
  then show ?case using down_weight_nonneg(2) [of s xs] by (cases c) (auto simp: add_pos_nonneg)
qed simp

text \<open>
  C2: No wakeup is lost.  Every thread on the wait list of a semaphore is inside \<open>sema_down\<close> of it.  While threads
  wait, the value is at most the number of threads that have been taken off the list and are still on
  their way round the loop of \<open>sema_down\<close>: nobody waits for a unit that nobody is coming for.
\<close>

theorem no_lost_wakeup:
  assumes "reachable k" "waiters (semas k s) \<noteq> []"
  shows "(\<forall>t\<in>set (waiters (semas k s)). \<exists>lv. Sema_down_loop s lv \<in> set (ops (threads k t))) \<and>
    sema_value (semas k s) \<le> card {t \<in> set (all_list k). t \<notin> set (waiters (semas k s)) \<and>
      (\<exists>lv. Sema_down_loop s lv \<in> set (ops (threads k t)))}"
proof -
  let ?f = "\<lambda>t. wsum (down_weight s) (ops (threads k t))" and ?W = "set (waiters (semas k s))"
  let ?R = "{t \<in> set (all_list k). t \<notin> ?W \<and> (\<exists>lv. Sema_down_loop s lv \<in> set (ops (threads k t)))}"
  have inv: "sched_inv {cur k} k" "sema_inv k" using reachable_inv reachable_sema_inv assms by auto
  have W: "?W \<subseteq> set (all_list k)" "distinct (waiters (semas k s))"
    using inv(1) by (auto simp: sched_inv_def inv_waiters_def)
  have one: "?f t = 1" if "t \<in> ?W" for t using inv(2) that by (simp add: sema_inv_def)
  have le: "?f t \<le> (if t \<in> ?R then 1 else 0)" if "t \<in> set (all_list k) - ?W" for t
    using wf_down_weight [of "ops (threads k t)" s] down_weight_pos [of s "ops (threads k t)"] inv(1) that
    by (auto simp: sched_inv_def inv_stacks_def)
  have "stack_sum (down_weight s) k = (\<Sum>t\<in>?W. ?f t) + (\<Sum>t\<in>set (all_list k) - ?W. ?f t)"
    unfolding stack_sum_def by (subst sum.subset_diff [OF W(1)]) auto
  also have "(\<Sum>t\<in>?W. ?f t) = int (length (waiters (semas k s)))"
    using one W(2) by (simp add: distinct_card)
  also have "(\<Sum>t\<in>set (all_list k) - ?W. ?f t) \<le> (\<Sum>t\<in>set (all_list k) - ?W. if t \<in> ?R then 1 else 0)"
    by (rule sum_mono) (rule le)
  also have "\<dots> = int (card ?R)"
    by (simp add: sum.If_cases) (rule arg_cong [where f = card], auto)
  finally have "int (sema_value (semas k s)) \<le> int (card ?R)"
    using inv(2) assms(2) by (fastforce simp: sema_inv_def)
  moreover have "\<exists>lv. Sema_down_loop s lv \<in> set (ops (threads k t))" if "t \<in> ?W" for t
    using one [OF that] down_weight_pos [of s "ops (threads k t)"] by simp
  ultimately show ?thesis by simp
qed

theorem no_lost_wakeup_witness:
  "waiters (semas demo_state (Sema 0)) = [4096] \<and> sema_value (semas demo_state (Sema 0)) \<le>
     card {t \<in> {8192, 12288, 16384}. \<exists>lv. Sema_down_loop (Sema 0) lv \<in> set (ops (threads demo_state t))}"
proof -
  have "{t \<in> set [4096, 8192, 12288, 16384]. t \<notin> set [4096] \<and> P t} = {t \<in> {8192, 12288, 16384 :: nat}. P t}" for P
    by auto
  then show ?thesis using no_lost_wakeup [OF demo_reachable, of "Sema 0"] by (simp add: demo_view)
qed

section \<open>The sleep queue\<close>

text \<open>
  C20: No thread sleeps too little.  From the call of \<open>timer_sleep (n)\<close> on, and whatever the timer and the other threads do,
  the stack of the thread does not get back to where it was before at least \<open>n\<close> ticks have been counted.  The sum of
  the ticks so far and \<open>n\<close> is to fit 64 bits.  A run ends at a data race on the sleep queue, if there is one (\<open>wait_race\<close>).
\<close>

theorem timer_no_early_wakeup:
  assumes "reachable k" "ops (threads k (cur k)) = Timer_sleep n # rest" "0 \<le> n" "os_ticks k + n < 2 ^ 63"
    and "run (Exec # as) k = Some k'" "length (ops (threads k' (cur k))) \<le> length rest"
  shows "os_ticks k + n \<le> os_ticks k'"
proof -
  obtain k1 where k1: "step Exec k = Some k1" "run as k1 = Some k'" using assms(5) by (auto simp del: step.simps split: option.splits)
  have "0 \<le> os_ticks k" using reachable_timer_inv assms(1) by simp
  then have "i64 (os_ticks k + n) = os_ticks k + n" using assms(3,4) by (simp add: i64_id)
  moreover have "cur k \<in> set (all_list k)" using cur_facts(1) reachable_inv assms(1) by blast
  ultimately have "sleeps_until (cur k) (os_ticks k + n) rest k1"
    using k1(1) assms(2,3)
    by (auto simp: timer_sleep_def thread_current_def running_thread_def timer_ticks_def opt_simps sleeps_until_def
        intro!: asleepI [where pre = "[]" and c = Sleep_insert])
  then have "sleeps_until (cur k) (os_ticks k + n) rest k'" using run_sleeps_until [OF k1(2)] reachable_step [OF assms(1) k1(1)] by blast
  then show ?thesis using assms(6) asleep_longer by (fastforce simp: sleeps_until_def)
qed

lemma wake_loop_dropWhile:
  assumes "wake_loop ts k = Some k'" "wait_list k = ts"
  shows "wait_list k' = dropWhile (\<lambda>t. wakeup_time (threads k t) \<le> os_ticks k) ts"
  using assms
proof (induction ts arbitrary: k)
  case (Cons t ts)
  show ?case
  proof (cases "os_ticks k < wakeup_time (threads k t)")
    case False
    then obtain k1 where k1: "sema_up (Timer_sema t) k = Some k1"
      "wake_loop ts (k1\<lparr>wait_list := tl (wait_list k1)\<rparr>) = Some k'"
      using Cons.prems by (auto simp: opt_simps)
    note e = sema_up_semas [OF k1(1)] sema_up_tview [OF k1(1)]
    have "wakeup_time (threads k1 u) = wakeup_time (threads k u)" for u
      using e(2) [of u] by (auto simp: tview_def)
    then show ?thesis using Cons.IH [OF k1(2)] e(1) Cons.prems(2) False by simp
  qed (use Cons.prems in simp)
qed simp

lemma sorted_dropWhile_filter:
  "sorted (map f xs) \<Longrightarrow> dropWhile (\<lambda>x. f x \<le> (c :: int)) xs = filter (\<lambda>x. c < f x) xs"
proof (induction xs)
  case (Cons x xs)
  then show ?case by (auto intro!: filter_True [symmetric] dest: order.strict_trans2)
qed simp

text \<open>
  C21: No thread sleeps too long.  A tick takes off the sleep queue exactly the threads whose wake-up time has
  come, raises their timer semaphores, and leaves the queue sorted by wake-up time.  This is for runs without a data race on the
  queue: a run ends when a thread starts to insert itself while another is inserting itself, or when a tick finds a thread to wake
  up meanwhile (\<open>wait_race\<close>); ticks that find none may interrupt the insertion.
\<close>

theorem timer_wakes_due:
  assumes "reachable k" "step Tick k = Some k'"
  shows "os_ticks k' = os_ticks k + 1 \<and>
    wait_list k' = filter (\<lambda>t. os_ticks k + 1 < wakeup_time (threads k t)) (wait_list k) \<and>
    sorted (map (\<lambda>t. wakeup_time (threads k' t)) (wait_list k')) \<and>
    (\<forall>t\<in>set (wait_list k). wakeup_time (threads k t) \<le> os_ticks k + 1 \<longrightarrow> sema_value (semas k' (Timer_sema t)) = 1)"
proof -
  have inv: "timer_inv k" "0 \<le> os_ticks k" using reachable_timer_inv assms(1) by auto
  note after = tick_timer_inv [OF inv assms(2)]
  have "(\<forall>t. wakeup_time (threads k' t) = wakeup_time (threads k t) \<and> 
           wsum (timer_weight t) (ops (threads k' t)) = wsum (timer_weight t) (ops (threads k t))) \<and>
         all_list k' = all_list k \<and>
         wait_list k' = dropWhile (\<lambda>t. wakeup_time (threads k t) \<le> os_ticks k + 1) (wait_list k)"
  proof (rule tick_Some [OF assms(2)])
    fix j k1 k2
    assume j: "j = (push_ops (cur k) [Interrupt_return] (intr_disable k))
        \<lparr>in_external_intr := True, yield_on_return := False, os_ticks := i64 (os_ticks k + 1)\<rparr>"
      and k1: "thread_tick j = Some k1" and k2: "wake_loop (wait_list k1) k1 = Some k2"
      and k': "k' = push_ops (cur k2) (if yield_on_return k2 then [Thread_yield] else []) (k2\<lparr>in_external_intr := False\<rparr>)"
      and lt: "os_ticks k < 2 ^ 63 - 1"
    note c = kcore_eqD [OF thread_tick_core [OF k1]] and tv = wake_loop_tview [OF k2, unfolded tview_def]
    have os: "os_ticks k1 = os_ticks k + 1" using lt inv(2) c(17) by (simp add: j i64_id)
    have wk: "wakeup_time (threads k1 t) = wakeup_time (threads k t)" for t
      using c(5) [of t] by (simp add: j intr_disable_def)
    have "wait_list k1 = wait_list k" using c(10) by (simp add: j intr_disable_def)
    then have "wait_list k2 = dropWhile (\<lambda>t. wakeup_time (threads k t) \<le> os_ticks k + 1) (wait_list k)"
      using wake_loop_dropWhile [OF k2 refl] by (simp only: os wk)
    moreover have "all_list k2 = all_list k" using wake_loop_frame [OF k2] c(9) by (simp add: j intr_disable_def)
    moreover have "wakeup_time (threads k2 t) = wakeup_time (threads k t)"
      "wsum (timer_weight t) (ops (threads k2 t)) = wsum (timer_weight t) (ops (threads k t))" for t
      using tv [of t] wk [of t] c(2) [of t] by (simp_all add: j intr_disable_def)
    ultimately show ?thesis by (simp add: k')
  qed
  then have eq: "wakeup_time (threads k' t) = wakeup_time (threads k t)"
      "wsum (timer_weight t) (ops (threads k' t)) = wsum (timer_weight t) (ops (threads k t))"
      "all_list k' = all_list k" "wait_list k' = filter (\<lambda>t. os_ticks k + 1 < wakeup_time (threads k t)) (wait_list k)" for t
    using sorted_dropWhile_filter timer_invD(3) [OF inv(1)] by fastforce+
  have "sema_value (semas k' (Timer_sema t)) = 1"
    if "t \<in> set (wait_list k)" "wakeup_time (threads k t) \<le> os_ticks k + 1" for t
  proof -
    have t: "t \<in> set (all_list k)" using timer_invD(2) [OF inv(1)] that by auto
    then have "wsum (timer_weight t) (ops (threads k t)) = 1"
      using timer_invD(4,5) [OF inv(1) t] that by auto
    then show ?thesis using timer_invD(4) [of k' t] after eq that t by simp
  qed
  then show ?thesis using after timer_invD(3) [of k'] eq(4) by blast
qed

theorem timer_no_early_wakeup_witness:
  "\<exists>k'. run (Exec # nap_script) nap_state = Some k' \<and> ops (threads k' 4096) = [Run_function, Thread_exit] \<and> 3 \<le> os_ticks k'"
proof -
  obtain k' where k': "run (Exec # nap_script) nap_state = Some k'" "ops (threads k' 4096) = [Run_function, Thread_exit]"
    using nap_view(4) by blast
  have "0 + 3 \<le> os_ticks k'"
    using timer_no_early_wakeup [OF nap_reachable, of 3 "[Run_function, Thread_exit]" nap_script k'] k' nap_view(1-3) by (simp del: run.simps)
  then show ?thesis using k' by (intro exI [of _ k']) (simp del: run.simps)
qed

theorem timer_wakes_due_witness:
  "wait_list due_state = [12288] \<and> step Tick due_state = Some woken_state \<and> wait_list woken_state = [] \<and>
   sema_value (semas woken_state (Timer_sema 12288)) = 1"
  using timer_wakes_due [OF due_reachable due_states(2)] by (simp add: due_view due_states(2) del: step.simps)

end
