(* ===== verification/Stats_Inv.thy ===== *)
theory Stats_Inv
  imports Sched_Props Stack_Count
begin

text \<open>
  The scheduling statistics: the bounds on the counters, the priorities and the load average that every operation
  and every tick keeps, and what they give: the timer interrupt never panics, whatever the scheduler.
\<close>

section \<open>What the operations leave alone\<close>

definition sview :: "thread \<Rightarrow> int list \<times> int \<times> int \<times> int" where
  "sview th = (prio th, pos th, ticks th, priority th)"

definition gview :: "kernel \<Rightarrow> (addr \<Rightarrow> int list \<times> int \<times> int \<times> int) \<times> int \<times> bool \<times> bool \<times> bool" where
  "gview k = ((\<lambda>t. sview (threads k t)), load_avg k, thread_mlfqs k, roundrobin k, sjf k)"

lemma gview_upd: "sview (f (threads k t)) = sview (threads k t) \<Longrightarrow> gview (upd t f k) = gview k"
  by (auto simp: gview_def fun_eq_iff)

lemma gview_fields [simp]:
  "gview (k\<lparr>semas := a\<rparr>) = gview k" "gview (k\<lparr>ready_list := l\<rparr>) = gview k" "gview (k\<lparr>all_list := l\<rparr>) = gview k"
  "gview (k\<lparr>all_all_list := l\<rparr>) = gview k" "gview (k\<lparr>wait_list := l\<rparr>) = gview k" "gview (k\<lparr>cur := p\<rparr>) = gview k"
  "gview (k\<lparr>intr := lv\<rparr>) = gview k" "gview (k\<lparr>thread_ticks := n\<rparr>) = gview k" "gview (k\<lparr>free_pages := l\<rparr>) = gview k"
  "gview (k\<lparr>total_wait_time := i\<rparr>) = gview k" "gview (k\<lparr>holder := h\<rparr>) = gview k" "gview (k\<lparr>conds := cs\<rparr>) = gview k"
  "gview (k\<lparr>idle_thread := p\<rparr>) = gview k" "gview (k\<lparr>next_tid := i\<rparr>) = gview k"
  "gview (k\<lparr>total_ready_threads := i\<rparr>) = gview k" "gview (k\<lparr>threads_print := b\<rparr>) = gview k"
  "gview (k\<lparr>in_external_intr := b\<rparr>) = gview k" "gview (k\<lparr>yield_on_return := b\<rparr>) = gview k"
  "gview (k\<lparr>inserting := p\<rparr>) = gview k" "gview (k\<lparr>os_ticks := i\<rparr>) = gview k" "gview (k\<lparr>idle_ticks := i\<rparr>) = gview k" "gview (k\<lparr>kernel_ticks := i\<rparr>) = gview k"
  "gview (upd_sema s g k) = gview k" "gview (intr_disable k) = gview k" "gview (push_ops t xs k) = gview k"
  "gview (set_retval v k) = gview k" "gview (pop_op k) = gview k"
  by (simp_all add: gview_def upd_sema_def upd_def intr_disable_def push_ops_def set_retval_def pop_op_def sview_def fun_eq_iff)

lemma push_ops_flags [simp]: "load_avg (push_ops t xs k) = load_avg k" "thread_mlfqs (push_ops t xs k) = thread_mlfqs k"
  "roundrobin (push_ops t xs k) = roundrobin k" "sjf (push_ops t xs k) = sjf k"
  by (simp_all add: push_ops_def)

lemma gview_intr_set_level: "intr_set_level lv k = Some k' \<Longrightarrow> gview k' = gview k"
  by (auto simp: intr_set_level_Some)

lemma gview_tail: "thread_schedule_tail prev k = Some k' \<Longrightarrow> gview k' = gview k"
  by (auto simp: thread_schedule_tail_def palloc_free_page_def opt_simps sview_def gview_upd simp del: upd_sel split: if_splits)

lemma gview_schedule: "schedule k = Some k' \<Longrightarrow> gview k' = gview k"
  by (auto simp: schedule_def next_thread_to_run_def opt_simps simp del: upd_sel push_ops_sel
      split: list.splits if_splits dest!: gview_tail)

lemma gview_thread_block: "thread_block k = Some k' \<Longrightarrow> gview k' = gview k"
  by (auto simp: thread_block_def opt_simps sview_def gview_upd dest!: gview_schedule)

lemma gview_thread_yield: "thread_yield k = Some k' \<Longrightarrow> gview k' = gview k"
  by (auto simp: thread_yield_def opt_simps sview_def gview_upd dest!: gview_schedule)

lemma gview_thread_unblock: "thread_unblock t k = Some k' \<Longrightarrow> gview k' = gview k"
  by (auto simp: thread_unblock_def opt_simps sview_def gview_upd dest!: gview_intr_set_level)

lemma gview_sema_up: "sema_up s k = Some k' \<Longrightarrow> gview k' = gview k"
  by (auto simp: sema_up_def opt_simps split: list.splits dest!: gview_intr_set_level gview_thread_unblock)

lemma gview_get_total_exec_each: "get_total_exec_each t k = Some k' \<Longrightarrow> gview k' = gview k"
  by (auto simp: get_total_exec_each_def get_total_exec_def sview_def gview_upd split: option.splits prod.splits)

lemma gview_thread_exit: "thread_exit k = Some k' \<Longrightarrow> gview k' = gview k"
proof -
  have each: "gview j = gview i" if "thread_foreach get_total_exec_each i = Some j" for i j
    using that gview_get_total_exec_each by (auto simp: thread_foreach_def intro: fold_opt_frame)
  have calc: "gview j = gview i" if "calc_new_total_exec a b i = Some j" for a b i j
    using that by (auto simp: calc_new_total_exec_def opt_simps sview_def gview_upd simp del: upd_sel split: if_splits)
  assume "thread_exit k = Some k'"
  then show ?thesis
    by (auto simp: thread_exit_def sort_ready_def opt_simps sview_def gview_upd simp del: upd_sel push_ops_sel
        split: if_splits dest!: gview_schedule each calc)
qed

lemma gview_sema_down_loop: "sema_down_loop s lv k = Some k' \<Longrightarrow> gview k' = gview k"
  by (auto simp: sema_down_loop_def opt_simps split: if_splits dest!: gview_thread_block gview_intr_set_level)

lemmas gview_dests = gview_intr_set_level gview_thread_block gview_thread_yield gview_thread_unblock gview_sema_up
  gview_thread_exit gview_sema_down_loop

fun changes_stats :: "kop \<Rightarrow> bool" where
  "changes_stats (Thread_create nm pri fn) = True"
| "changes_stats (Thread_set_priority p) = True"
| "changes_stats (Thread_set_nice n) = True"
| "changes_stats c = False"

lemma exec_gview: "exec c k = Some k' \<Longrightarrow> \<not> changes_stats c \<Longrightarrow> gview k' = gview k"
proof (cases c)
  case (Schedule_rest n)
  moreover assume "exec c k = Some k'"
  ultimately show ?thesis by (auto simp: schedule_rest_def Let_def gview_upd sview_def split: if_splits)
next
  case (Create_rest t fn)
  moreover assume "exec c k = Some k'"
  ultimately show ?thesis
    by (auto simp: create_rest_def alloc_frame_def opt_simps gview_upd sview_def dest!: gview_intr_set_level)
qed (auto simp: thread_start_def setBound_def sema_init_def sema_down_def sema_try_down_def lock_acquire_def
    lock_held_by_current_thread_def lock_try_acquire_def lock_release_def cond_wait_def cond_signal_def cond_broadcast_def
    timer_sleep_def sleep_insert_def sleep_link_def allocate_tid_def kernel_thread_def idle_def idle_loop_def tid_load_def tid_store_def set_tid_def
    set_holder_def intr_enable_def opt_simps gview_upd sview_def split: if_splits list.splits dest!: gview_dests)

section \<open>Bounds\<close>

definition stat_ok :: "bool \<Rightarrow> thread \<Rightarrow> bool" where
  "stat_ok q th \<longleftrightarrow> 0 \<le> pos th \<and> pos th \<le> 10 \<and> length (prio th) = 10 \<and> 0 \<le> ticks th \<and> ticks th < int QUANTUM \<and>
     (q \<longrightarrow> PRI_MIN \<le> priority th \<and> priority th \<le> PRI_MAX)"

definition stats_ok :: "kernel \<Rightarrow> bool" where
  "stats_ok k \<longleftrightarrow> (\<forall>t. stat_ok (thread_mlfqs k) (threads k t))"

lemma gview_stats_ok: "gview k' = gview k \<Longrightarrow> stats_ok k' = stats_ok k"
  by (auto simp: gview_def sview_def stats_ok_def stat_ok_def fun_eq_iff)

lemma stat_ok_upd: "stats_ok k \<Longrightarrow> stat_ok (thread_mlfqs k) (f (threads k t)) \<Longrightarrow> stats_ok (upd t f k)"
  by (simp add: stats_ok_def)

text \<open>
  The refresh of a priority is total: the index into \<open>prio\<close> stays below 10.  It leaves every priority
  in range, whatever the thread had before.
\<close>

lemma refresh_priority_thread_total:
  assumes "0 \<le> pos (threads k t)" "pos (threads k t) \<le> 10"
  obtains th where "refresh_priority_thread t k = Some (upd t (\<lambda>_. th) k)"
    "PRI_MIN \<le> priority th" "priority th \<le> PRI_MAX" "0 \<le> pos th" "pos th \<le> 10"
    "length (prio th) = length (prio (threads k t))" "ticks th = ticks (threads k t)"
proof -
  obtain q where "div_int (recent_cpu (threads k t)) 4 = Some q" by (simp add: div_int_def)
  then show ?thesis
    using assms that by (cases "pos (threads k t) = 10")
      (auto simp: refresh_priority_thread_def Let_def PRI_MIN_def PRI_MAX_def i32_id)
qed

text \<open>
  What the statistics code keeps: the bounds, with \<open>B\<close> the bound on the load average, and the interrupt state.
\<close>

definition stats_at :: "bool \<Rightarrow> int \<Rightarrow> intr_level \<Rightarrow> bool \<Rightarrow> kernel \<Rightarrow> bool" where
  "stats_at q B lv e k \<longleftrightarrow> stats_ok k \<and> thread_mlfqs k = q \<and> 0 \<le> load_avg k \<and> load_avg k \<le> B \<and>
     intr k = lv \<and> in_external_intr k = e"

lemma stats_at_upd:
  assumes "stats_at q B lv e k" "stat_ok q (f (threads k t))"
  shows "stats_at q B lv e (upd t f k)"
  using assms by (auto simp: stats_at_def stats_ok_def)

lemma stats_at_stat_ok: "stats_at q B lv e k \<Longrightarrow> stat_ok q (threads k t)"
  by (auto simp: stats_at_def stats_ok_def)

lemma stats_at_fields [simp]:
  "stats_at q B lv e (k\<lparr>ready_list := l\<rparr>) = stats_at q B lv e k"
  "stats_at q B lv e (k\<lparr>thread_ticks := n\<rparr>) = stats_at q B lv e k"
  "stats_at q B lv e (k\<lparr>yield_on_return := b\<rparr>) = stats_at q B lv e k"
  "stats_at q B lv e (k\<lparr>idle_ticks := i\<rparr>) = stats_at q B lv e k"
  "stats_at q B lv e (k\<lparr>kernel_ticks := i\<rparr>) = stats_at q B lv e k"
  "stats_at q B lv e (sort_ready lt k) = stats_at q B lv e k"
  by (simp_all add: stats_at_def stats_ok_def sort_ready_def)

lemma refresh_priority_thread_stats:
  assumes "stats_at q B lv e k"
  shows "\<exists>k'. refresh_priority_thread t k = Some k' \<and> stats_at q B lv e k'"
proof -
  have ok: "stat_ok q (threads k t)" using assms by (rule stats_at_stat_ok)
  then have "0 \<le> pos (threads k t)" "pos (threads k t) \<le> 10" by (auto simp: stat_ok_def)
  then obtain th where th: "refresh_priority_thread t k = Some (upd t (\<lambda>_. th) k)"
    "PRI_MIN \<le> priority th" "priority th \<le> PRI_MAX" "0 \<le> pos th" "pos th \<le> 10"
    "length (prio th) = length (prio (threads k t))" "ticks th = ticks (threads k t)"
    by (rule refresh_priority_thread_total)
  then have "stats_at q B lv e (upd t (\<lambda>_. th) k)" using ok by (intro stats_at_upd assms) (simp add: stat_ok_def)
  then show ?thesis using th(1) by simp
qed

lemma refresh_priority_stats:
  assumes "stats_at q B lv e k"
  shows "\<exists>k'. refresh_priority k = Some k' \<and> stats_at q B lv e k'"
proof -
  have "\<exists>k'. fold_opt (\<lambda>t k. if t \<noteq> initial_thread k then refresh_priority_thread t k else Some k) (ready_list k) k = Some k' \<and>
      stats_at q B lv e k'"
    using assms refresh_priority_thread_stats by (intro fold_opt_total) auto
  then show ?thesis using refresh_priority_thread_stats by (fastforce simp: refresh_priority_def Let_def)
qed

lemma refresh_cpu_stats:
  assumes "stats_at q B lv e k" "B \<le> 2000 * 2 ^ 14"
  shows "\<exists>k'. refresh_cpu t k = Some k' \<and> stats_at q B lv e k'"
proof -
  have l: "0 \<le> load_avg k" "load_avg k \<le> 2000 * 2 ^ 14" using assms by (auto simp: stats_at_def)
  then have "mult_int (load_avg k) 2 = load_avg k * 2" by (simp add: mult_int_def i32_id)
  moreover from this l have "add_int (mult_int (load_avg k) 2) 1 = load_avg k * 2 + 2 ^ 14"
    by (simp add: add_int_def FP_F_def i32_id)
  ultimately have "div_fp (mult_int (load_avg k) 2) (add_int (mult_int (load_avg k) 2) 1) \<noteq> None"
    using l by (simp add: div_fp_def)
  then show ?thesis
    using assms(1) stats_at_stat_ok [OF assms(1), of t]
    by (auto simp: refresh_cpu_def Let_def stat_ok_def intro!: stats_at_upd)
qed

lemma load_avg_bound:
  assumes "0 \<le> a" "a \<le> int N * 2 ^ 14" "n \<le> N" "N \<le> 2000"
  shows "\<exists>x y. div_int (mult_int a 59) 60 = Some x \<and> div_int (int_to_fp (int n)) 60 = Some y \<and>
    add_fp x y = a * 59 div 60 + int n * 2 ^ 14 div 60 \<and> 0 \<le> add_fp x y \<and> add_fp x y \<le> int N * 2 ^ 14"
proof -
  have b: "int N * 2 ^ 14 \<le> 2000 * 2 ^ 14" "int n * 2 ^ 14 \<le> int N * 2 ^ 14" using assms by auto
  then have "mult_int a 59 = a * 59" "int_to_fp (int n) = int n * 2 ^ 14"
    using assms by (simp_all add: mult_int_def int_to_fp_def FP_F_def i32_id)
  moreover have "a * 59 div 60 + int n * 2 ^ 14 div 60 \<le> int N * 2 ^ 14"
    using assms b by linarith
  moreover from this b have "add_fp (a * 59 div 60) (int n * 2 ^ 14 div 60) = a * 59 div 60 + int n * 2 ^ 14 div 60"
    using assms by (simp add: add_fp_def i32_id)
  ultimately show ?thesis using assms by (simp add: div_int_def sdiv_nonneg)
qed

lemma refresh_load_avg_stats:
  assumes "stats_at q (int N * 2 ^ 14) lv e k" "thread_current k = Some c" "length (ready_list k) \<le> N" "N \<le> 2000"
  shows "\<exists>k'. refresh_load_avg k = Some k' \<and> stats_at q (int N * 2 ^ 14) lv e k'"
proof -
  have l: "0 \<le> load_avg k" "load_avg k \<le> int N * 2 ^ 14" using assms(1) by (auto simp: stats_at_def)
  from load_avg_bound [OF l assms(3,4)] show ?thesis
    using assms(1,2) by (auto simp: refresh_load_avg_def Let_def stats_at_def stats_ok_def)
qed

lemma thread_tick_mlfqs_stats:
  assumes st: "stats_at q (int N * 2 ^ 14) INTR_OFF True k" and cur: "thread_current k = Some c"
    and len: "length (ready_list k) \<le> N" "N \<le> 2000"
  shows "\<exists>k'. thread_tick_mlfqs t k = Some k' \<and> stats_at q (int N * 2 ^ 14) INTR_OFF True k'"
proof (cases "ready_list k")
  case (Cons n ns)
  let ?P = "stats_at q (int N * 2 ^ 14) INTR_OFF True"
  have B: "int N * 2 ^ 14 \<le> 2000 * 2 ^ 14" using len(2) by simp
  have foreach: "\<exists>k'. thread_foreach refresh_cpu k = Some k' \<and> ?P k'" if "?P k" for k
  proof -
    have "intr k = INTR_OFF" using that by (simp add: stats_at_def)
    then show ?thesis
      using fold_opt_total [where P = ?P and f = refresh_cpu, OF that refresh_cpu_stats [OF _ B]]
      by (simp add: thread_foreach_def intr_get_level_def)
  qed
  have "\<exists>k'. (if timer_ticks k smod TIMER_FREQ = 0
      then do { k \<leftarrow> refresh_load_avg k; thread_foreach refresh_cpu k } else Some k) = Some k' \<and> ?P k'"
    using refresh_load_avg_stats [OF st cur len] foreach st by auto
  then obtain k1 where k1: "(if timer_ticks k smod TIMER_FREQ = 0
      then do { k \<leftarrow> refresh_load_avg k; thread_foreach refresh_cpu k } else Some k) = Some k1" "?P k1" by blast
  define k2 where "k2 = (if status (threads k1 t) = THREAD_RUNNING
      then upd t (\<lambda>th. th\<lparr>recent_cpu := add_int (recent_cpu th) 1\<rparr>) k1 else k1)"
  have "?P k2"
    using k1(2) stats_at_stat_ok [OF k1(2), of t] by (auto simp: k2_def stat_ok_def intro!: stats_at_upd)
  then have "\<exists>k'. (if timer_ticks k2 smod (TIMER_FREQ * 4) = 0
      then do { k \<leftarrow> refresh_priority k2; Some (sort_ready (priority_cmp k) k) } else Some k2) = Some k' \<and> ?P k'"
    using refresh_priority_stats by fastforce
  then obtain k3 where k3: "(if timer_ticks k2 smod (TIMER_FREQ * 4) = 0
      then do { k \<leftarrow> refresh_priority k2; Some (sort_ready (priority_cmp k) k) } else Some k2) = Some k3" "?P k3" by blast
  moreover have "intr_context k3" using k3(2) by (simp add: stats_at_def intr_context_def)
  ultimately show ?thesis
    unfolding thread_tick_mlfqs_def Cons list.case k1(1) Option.bind.simps Let_def k2_def [symmetric] k3(1)
    by (auto simp: intr_yield_on_return_def intr_context_def)
qed (use st in \<open>simp add: thread_tick_mlfqs_def\<close>)

lemma thread_tick_stats:
  assumes st: "stats_at q (int N * 2 ^ 14) INTR_OFF True k" and cur: "thread_current k = Some c"
    and len: "length (ready_list k) \<le> N" "N \<le> 2000"
  shows "\<exists>k'. thread_tick k = Some k' \<and> stats_at q (int N * 2 ^ 14) INTR_OFF True k'"
proof -
  let ?P = "stats_at q (int N * 2 ^ 14) INTR_OFF True"
  define j where "j = (if c = idle_thread k \<or> c = initial_thread k
      then k\<lparr>idle_ticks := i64 (idle_ticks k + 1)\<rparr> else k\<lparr>kernel_ticks := i64 (kernel_ticks k + 1)\<rparr>)"
  have j: "?P j" "ready_list j = ready_list k" "thread_current j = Some c" "intr_context j"
    using st cur by (auto simp: j_def thread_current_def running_thread_def is_thread_def opt_simps intr_context_def stats_at_def
        stats_ok_def)
  note ok = stats_at_stat_ok [OF j(1), of c]
  show ?thesis
  proof (cases "sjf j")
    case True
    have "?P (upd c (\<lambda>th. th\<lparr>curr_exec := i32 (curr_exec th + 1)\<rparr>) j)"
      using ok by (intro stats_at_upd j) (simp add: stat_ok_def)
    then show ?thesis using True cur by (simp add: thread_tick_def Let_def j_def [symmetric])
  next
    case False
    show ?thesis
    proof (cases "roundrobin j")
      case True
      have "?P (upd c (\<lambda>th. th\<lparr>ticks := 0\<rparr>) ((upd c (\<lambda>th. th\<lparr>ticks := i32 (ticks th + 1)\<rparr>) j)\<lparr>yield_on_return := True\<rparr>))"
        using j(1) ok by (auto simp: stats_at_def stats_ok_def stat_ok_def QUANTUM_def)
      moreover have "?P (upd c (\<lambda>th. th\<lparr>ticks := i32 (ticks th + 1)\<rparr>) j)"
        if "\<not> int QUANTUM \<le> i32 (ticks (threads j c) + 1)"
        using ok that by (intro stats_at_upd j) (auto simp: stat_ok_def i32_id QUANTUM_def)
      ultimately show ?thesis using True False cur j(4)
        by (auto simp: thread_tick_def Let_def j_def [symmetric] intr_yield_on_return_def intr_context_def)
    next
      case False2: False
      show ?thesis
        using thread_tick_mlfqs_stats [OF j(1,3), of c] len j(1,2) False False2 cur
        by (auto simp: thread_tick_def Let_def j_def [symmetric])
    qed
  qed
qed

section \<open>Invariant\<close>

lemma sema_up_Some:
  assumes "inv_waiters k" "inv_pages k" "intr k = INTR_OFF"
  shows "\<exists>k'. sema_up s k = Some k'"
proof (cases "waiters (semas k s)")
  case (Cons t ts)
  then have "t \<in> set (waiters (semas k s))" by simp
  then have "t \<in> set (all_list k)" "status (threads k t) = THREAD_BLOCKED"
    using assms(1) unfolding inv_waiters_def by blast+
  then have "is_thread k t" "status (threads k t) = THREAD_BLOCKED"
    using assms(2) by (auto simp: inv_pages_def is_thread_def)
  then show ?thesis using Cons assms(3)
    by (auto simp: sema_up_def thread_unblock_def opt_simps is_thread_def intr_set_level_def intr_disable_def upd_def upd_sema_def
      intr_get_level_def)
qed (use assms(3) in \<open>auto simp: sema_up_def opt_simps intr_set_level_def intr_get_level_def intr_disable_def\<close>)

lemma wake_loop_total:
  assumes "sched_inv {cur k} k" "intr k = INTR_OFF"
  shows "\<exists>k'. wake_loop ts k = Some k' \<and> gview k' = gview k"
  using assms
proof (induction ts arbitrary: k)
  case (Cons t ts)
  obtain k1 where k1: "sema_up (Timer_sema t) k = Some k1"
    using sema_up_Some Cons.prems by (auto simp: sched_inv_def)
  have "sched_inv {cur k} (k1\<lparr>wait_list := tl (wait_list k1)\<rparr>)" "cur k1 = cur k" "intr k1 = INTR_OFF"
    using sema_up_inv [OF Cons.prems(1) k1] sema_up_external [OF k1] Cons.prems(2)
    by (auto intro: sched_inv_cong)
  then obtain k' where "wake_loop ts (k1\<lparr>wait_list := tl (wait_list k1)\<rparr>) = Some k'" "gview k' = gview k1"
    using Cons.IH [of "k1\<lparr>wait_list := tl (wait_list k1)\<rparr>"] by auto
  then show ?case using k1 gview_sema_up [OF k1] by simp
qed simp

lemma tick_total:
  assumes inv: "sched_inv {cur k} k" "\<not> in_external_intr k" and st: "stats_at q (int N * 2 ^ 14) INTR_ON False k"
    and len: "length (all_list k) \<le> N" "N \<le> 2000" and tk: "os_ticks k < 2 ^ 63 - 1"
    and race: "\<not> wait_race (i64 (os_ticks k + 1)) k"
  shows "\<exists>k'. step Tick k = Some k' \<and> stats_ok k' \<and> thread_mlfqs k' = q \<and> 0 \<le> load_avg k' \<and> load_avg k' \<le> int N * 2 ^ 14"
proof -
  define j where "j = (push_ops (cur k) [Interrupt_return] (intr_disable k))
      \<lparr>in_external_intr := True, yield_on_return := False, os_ticks := i64 (os_ticks k + 1)\<rparr>"
  have g: "gview j = gview k" by (simp add: j_def)
  have st_j: "stats_at q (int N * 2 ^ 14) INTR_OFF True j"
    using st gview_stats_ok [OF g] by (simp add: stats_at_def, simp add: j_def intr_disable_def push_ops_def upd_def)
  have cj: "cur j = cur k" by (simp add: j_def intr_disable_def)
  have inv_j: "sched_inv {cur j} j"
    unfolding cj by (rule sched_inv_cong [OF push_inv [OF inv(1), of "[Interrupt_return]"]]) (auto simp: j_def intr_disable_def)
  have "length (ready_list k) \<le> length (all_list k)"
    using inv(1) by (auto simp: sched_inv_def inv_status_def inv_pages_def intro!: card_mono
      simp: distinct_card [symmetric])
  then have l: "length (ready_list j) \<le> N" using len by (simp add: j_def intr_disable_def)
  have cur: "thread_current j = Some (cur j)"
    using cur_facts [OF inv_j] by (simp add: thread_current_def running_thread_def)
  obtain k1 where k1: "thread_tick j = Some k1" "stats_at q (int N * 2 ^ 14) INTR_OFF True k1"
    using thread_tick_stats [OF st_j cur l len(2)] by blast
  have inv1: "sched_inv {cur k1} k1" "intr k1 = INTR_OFF"
    using sched_inv_core [OF inv_j thread_tick_core [OF k1(1)]] kcore_eqD(7) [OF thread_tick_core [OF k1(1)]] k1(2)
    by (auto simp: stats_at_def)
  then obtain k2 where k2: "wake_loop (wait_list k1) k1 = Some k2" "gview k2 = gview k1"
    using wake_loop_total by blast
  have "intr k2 = INTR_OFF" "in_external_intr k2"
    using wake_loop_inv [OF k2(1) inv1(1)] inv1(2) k1(2) by (auto simp: stats_at_def)
  moreover have "intr k = INTR_ON" using st by (simp add: stats_at_def)
  moreover have "\<not> wait_race (os_ticks k1) k1"
    using race wait_race_core [OF thread_tick_core [OF k1(1)]] kcore_eqD(17) [OF thread_tick_core [OF k1(1)]]
    by (simp add: j_def intr_disable_def)
  moreover have "intr_handler (push_ops (cur k) [Interrupt_return] (intr_disable k)) = 
      Some (push_ops (cur k2) (if yield_on_return k2 then [Thread_yield] else []) (k2\<lparr>in_external_intr := False\<rparr>))"
    using k1(1) k2(1) calculation inv(2) unfolding j_def
    by (simp add: intr_handler_def timer_interrupt_def intr_get_level_def intr_context_def intr_disable_def push_ops_def upd_def)
  moreover have "stats_ok k2" "thread_mlfqs k2 = q" "load_avg k2 = load_avg k1"
    using k1(2) k2(2) gview_stats_ok [OF k2(2)] by (auto simp: stats_at_def gview_def)
  ultimately show ?thesis using tk k1(2) 
    by (auto simp: stats_at_def gview_stats_ok [of "push_ops a b (c\<lparr>in_external_intr := d\<rparr>)" c for a b c d])
qed

lemma refresh_priority_frame:
  assumes "refresh_priority k = Some k'"
  shows "load_avg k' = load_avg k \<and> thread_mlfqs k' = thread_mlfqs k"
proof -
  define g where "g k = (load_avg k, thread_mlfqs k)" for k :: kernel
  have one: "g k' = g k" if "refresh_priority_thread t k = Some k'" for t k k'
    using that by (auto simp: refresh_priority_thread_def opt_simps g_def split: if_splits)
  obtain k1 where k1: "fold_opt (\<lambda>t k. if t \<noteq> initial_thread k then refresh_priority_thread t k else Some k) (ready_list k) k = Some k1"
    "refresh_priority_thread (running_thread k) k1 = Some k'"
    using assms by (auto simp: refresh_priority_def opt_simps)
  have "g k1 = g k" by (rule fold_opt_frame [OF k1(1)]) (auto dest: one split: if_splits)
  then show ?thesis using one [OF k1(2)] by (simp add: g_def)
qed

text \<open>
  \<open>refresh_priority\<close> brings the priority of the running thread back into range, whatever \<open>thread_set_priority\<close>
  has stored there.
\<close>

lemma refresh_priority_restores:
  assumes ok: "\<And>t. t \<noteq> cur k \<Longrightarrow> stat_ok q (threads k t)" "stat_ok False (threads k (cur k))"
    and ex: "refresh_priority k = Some k'"
  shows "stat_ok q (threads k' t)"
proof -
  define P where "P k1 \<longleftrightarrow> (\<forall>t. t \<noteq> cur k \<longrightarrow> stat_ok q (threads k1 t)) \<and> stat_ok False (threads k1 (cur k))" for k1 :: kernel
  have one: "P k2 \<and> (t = cur k \<longrightarrow> stat_ok q (threads k2 t))" if r: "refresh_priority_thread t k1 = Some k2" and p: "P k1" for t k1 k2
  proof -
    have o: "stat_ok False (threads k1 t)" using p by (cases "t = cur k") (auto simp: P_def stat_ok_def)
    then have "0 \<le> pos (threads k1 t)" "pos (threads k1 t) \<le> 10" by (auto simp: stat_ok_def)
    then obtain th where th: "refresh_priority_thread t k1 = Some (upd t (\<lambda>_. th) k1)"
      "PRI_MIN \<le> priority th" "priority th \<le> PRI_MAX" "0 \<le> pos th" "pos th \<le> 10"
      "length (prio th) = length (prio (threads k1 t))" "ticks th = ticks (threads k1 t)"
      by (rule refresh_priority_thread_total)
    then show ?thesis using r o p by (auto simp: P_def stat_ok_def)
  qed
  obtain k1 where k1: "fold_opt (\<lambda>t k. if t \<noteq> initial_thread k then refresh_priority_thread t k else Some k) (ready_list k) k = Some k1"
    "refresh_priority_thread (cur k) k1 = Some k'"
    using ex by (auto simp: refresh_priority_def opt_simps running_thread_def)
  have "P k1"
    by (rule fold_opt_invariant [OF k1(1), where P = P]) (use ok one in \<open>auto simp: P_def split: if_splits\<close>)
  then show ?thesis using one [OF k1(2)] by (cases "t = cur k") (auto simp: P_def)
qed

lemma set_priority_stats:
  assumes "stats_ok k" "thread_set_priority p k = Some k'"
  shows "stats_ok k' \<and> load_avg k' = load_avg k"
proof (cases "thread_mlfqs k")
  case True
  define j where "j = upd (cur k) (\<lambda>th. th\<lparr>priority := p\<rparr>) k"
  have j: "refresh_priority j = Some k'"
    using assms(2) True by (auto simp: thread_set_priority_def j_def opt_simps thread_current_def running_thread_def)
  have "stat_ok True (threads k' t)" for t
    by (rule refresh_priority_restores [OF _ _ j])
      (use assms(1) True in \<open>auto simp: stats_ok_def stat_ok_def j_def\<close>)
  then show ?thesis using refresh_priority_frame [OF j] True by (simp add: stats_ok_def j_def)
next
  case False
  then show ?thesis using assms by (auto simp: thread_set_priority_def opt_simps stats_ok_def stat_ok_def)
qed

lemma set_nice_stats:
  assumes "stats_ok k" "thread_set_nice p k = Some k'"
  shows "stats_ok k' \<and> load_avg k' = load_avg k"
proof -
  define j where "j = upd (cur k) (\<lambda>th. th\<lparr>nice := p\<rparr>) k"
  have j: "stats_ok j" "load_avg j = load_avg k" "thread_mlfqs j = thread_mlfqs k"
    using assms(1) by (auto simp: stats_ok_def stat_ok_def j_def)
  have ex: "(if thread_mlfqs j then refresh_priority j else Some j) = Some k'"
    using assms(2) by (auto simp: thread_set_nice_def j_def opt_simps thread_current_def running_thread_def)
  show ?thesis
  proof (cases "thread_mlfqs j")
    case True
    then have r: "refresh_priority j = Some k'" using ex by simp
    have "stat_ok True (threads k' t)" for t
      by (rule refresh_priority_restores [OF _ _ r]) (use j(1) True in \<open>auto simp: stats_ok_def stat_ok_def\<close>)
    then show ?thesis using refresh_priority_frame [OF r] True j by (simp add: stats_ok_def)
  qed (use ex j in auto)
qed

lemma create_stats:
  assumes "stats_ok k" "thread_create nm pri fn k = Some k'"
  shows "stats_ok k' \<and> load_avg k' = load_avg k"
  using assms
  by (auto simp: thread_create_def palloc_get_page_def init_thread_def get_total_exec_def zero_thread_def opt_simps stats_ok_def
      stat_ok_def QUANTUM_def push_ops_def set_retval_def upd_def upd_sema_def split: list.splits if_splits option.splits)

section \<open>The pages\<close>

text \<open>A page is a live thread, free, or (under shortest job first) kept for ever: never more than there were.\<close>

definition page_count :: "kernel \<Rightarrow> nat" where
  "page_count k = length (all_list k) + length (free_pages k)"

lemma schedule_page_count:
  assumes "schedule k = Some k'"
  shows "page_count k' \<le> page_count k + (if status (threads k (cur k)) = THREAD_DYING then 1 else 0)"
  by (rule schedule_Some [OF assms, of undefined undefined]) (auto simp: page_count_def frees_cur_def)

lemma kcore_page_count: "kcore k' = kcore k \<Longrightarrow> page_count k' = page_count k"
  by (simp add: kcore_def page_count_def)

lemma page_count_fields [simp]:
  "page_count (k\<lparr>semas := a\<rparr>) = page_count k" "page_count (k\<lparr>ready_list := l\<rparr>) = page_count k"
  "page_count (k\<lparr>intr := lv\<rparr>) = page_count k" "page_count (upd t f k) = page_count k"
  "page_count (k\<lparr>holder := h\<rparr>) = page_count k" "page_count (k\<lparr>conds := cs\<rparr>) = page_count k"
  "page_count (k\<lparr>idle_thread := p\<rparr>) = page_count k" "page_count (k\<lparr>next_tid := i\<rparr>) = page_count k"
  "page_count (k\<lparr>wait_list := l\<rparr>) = page_count k" "page_count (k\<lparr>inserting := p\<rparr>) = page_count k"
  "page_count (upd_sema s g k) = page_count k" "page_count (intr_disable k) = page_count k"
  "page_count (push_ops t xs k) = page_count k" "page_count (set_retval v k) = page_count k" "page_count (pop_op k) = page_count k"
  by (simp_all add: page_count_def intr_disable_def set_retval_def)

lemma block_page_count: "thread_block k = Some k' \<Longrightarrow> page_count k' \<le> page_count k"
  by (auto simp: thread_block_def opt_simps thread_current_def running_thread_def dest!: schedule_page_count)

lemma intr_page_count: "intr_set_level lv k = Some k' \<Longrightarrow> page_count k' = page_count k"
  by (auto simp: intr_set_level_Some)

lemma unblock_page_count: "thread_unblock t k = Some k' \<Longrightarrow> page_count k' = page_count k"
  by (auto simp: thread_unblock_def opt_simps dest!: intr_page_count)

lemma exit_page_count:
  assumes "thread_exit k = Some k'" "cur k \<in> set (all_list k)"
  shows "page_count k' \<le> page_count k"
proof (rule thread_exit_Some [OF assms(1)])
  fix j
  assume j: "kcore j = kcore (intr_disable k)" and s: "schedule (push_ops (cur j) [Not_reached]
      (upd (cur j) (\<lambda>th. th\<lparr>status := THREAD_DYING\<rparr>) (j\<lparr>all_list := remove1 (cur j) (all_list j)\<rparr>))) = Some k'"
  have "page_count (j\<lparr>all_list := remove1 (cur j) (all_list j)\<rparr>) + 1 = page_count k"
    using kcore_eqD(7,9,18) [OF j] assms(2) length_pos_if_in_set [of "cur k" "all_list k"]
    by (simp add: page_count_def intr_disable_def length_remove1)
  then show ?thesis using schedule_page_count [OF s] by simp
qed

lemma exec_page_count:
  assumes ex: "exec c k = Some k'" and cur: "cur k \<in> set (all_list k)" and z: "NULL \<notin> set (free_pages k)"
  shows "page_count k' \<le> page_count k"
proof (cases c)
  case (Thread_create nm pri fn)
  then show ?thesis using ex z
    by (auto simp: thread_create_def palloc_get_page_def opt_simps page_count_def set_retval_def split: list.splits
      elim!: init_thread_Some)
next
  case Thread_exit
  then show ?thesis using ex cur exit_page_count by simp
next
  case (Sema_up s)
  then show ?thesis using ex by (auto simp: sema_up_def opt_simps split: list.splits dest!: intr_page_count unblock_page_count)
next
  case (Thread_set_priority p)
  then show ?thesis using ex kcore_page_count [OF thread_set_priority_core] by simp
next
  case (Thread_set_nice p)
  then show ?thesis using ex kcore_page_count [OF thread_set_nice_core] by simp
next
  case (Schedule_rest p)
  then show ?thesis using ex kcore_page_count [OF schedule_rest_core] by simp
next
  case Thread_yield
  then show ?thesis using ex
    by (auto simp: thread_yield_def opt_simps thread_current_def running_thread_def intr_disable_def
      split: if_splits dest!: schedule_page_count)
next
  case (Sema_down_loop s lv)
  then show ?thesis using ex
    by (auto simp: sema_down_loop_def opt_simps split: if_splits dest!: block_page_count intr_page_count)
qed (use ex in \<open>auto simp: thread_start_def setBound_def sema_init_def sema_down_def sema_try_down_def lock_acquire_def
    lock_held_by_current_thread_def lock_try_acquire_def lock_release_def cond_wait_def cond_signal_def cond_broadcast_def
    timer_sleep_def sleep_insert_def sleep_link_def allocate_tid_def kernel_thread_def idle_def idle_loop_def tid_load_def tid_store_def set_tid_def
    create_rest_def alloc_frame_def set_holder_def intr_enable_def opt_simps split: if_splits list.splits
    dest!: intr_page_count block_page_count unblock_page_count\<close>)

lemma wake_loop_page_count: "wake_loop ts k = Some k' \<Longrightarrow> page_count k' = page_count k"
proof (induction ts arbitrary: k)
  case (Cons t ts)
  then show ?case
    by (fastforce simp: opt_simps sema_up_def split: if_splits list.splits dest!: intr_page_count unblock_page_count)
qed simp

lemma tick_page_count:
  assumes "step Tick k = Some k'"
  shows "page_count k' = page_count k"
  by (rule tick_Some [OF assms])
    (auto simp: page_count_def intr_disable_def dest!: wake_loop_page_count kcore_page_count [OF thread_tick_core])

section \<open>The invariant of the statistics\<close>

definition stats_inv :: "nat \<Rightarrow> kernel \<Rightarrow> bool" where
  "stats_inv N k \<longleftrightarrow> stats_ok k \<and> 0 \<le> load_avg k \<and> load_avg k \<le> int N * 2 ^ 14 \<and> page_count k \<le> N"

lemma tick_exists:
  assumes "reachable k" "stats_inv N k" "N \<le> 2000" "intr k = INTR_ON" "os_ticks k < 2 ^ 63 - 1"
    and "\<not> wait_race (i64 (os_ticks k + 1)) k"
  shows "\<exists>k'. step Tick k = Some k' \<and> stats_inv N k'"
proof -
  have inv: "sched_inv {cur k} k" "\<not> in_external_intr k" using reachable_inv [OF assms(1)] by auto
  have "stats_at (thread_mlfqs k) (int N * 2 ^ 14) INTR_ON False k" "length (all_list k) \<le> N"
    using assms(2,4) inv(2) by (auto simp: stats_inv_def stats_at_def page_count_def)
  then obtain k' where "step Tick k = Some k'" "stats_ok k'" "0 \<le> load_avg k'" "load_avg k' \<le> int N * 2 ^ 14"
    using tick_total [OF inv _ _ assms(3,5,6)] by blast
  then show ?thesis using tick_page_count [of k k'] assms(2) by (auto simp: stats_inv_def simp del: step.simps)
qed

lemma exec_stats_inv:
  assumes inv: "sched_inv {cur k} k" and st: "stats_inv N k" and ex: "exec c (pop_op k) = Some k'"
  shows "stats_inv N k'"
proof -
  have ok: "stats_ok (pop_op k)" using st gview_stats_ok [of "pop_op k" k] by (simp add: stats_inv_def)
  have l: "load_avg (pop_op k) = load_avg k" by (simp add: pop_op_def)
  have "stats_ok k' \<and> load_avg k' = load_avg (pop_op k)"
  proof (cases "changes_stats c")
    case True
    then consider nm pri fn where "c = Thread_create nm pri fn" | p where "c = Thread_set_priority p"
      | n where "c = Thread_set_nice n" by (cases c) auto
    then show ?thesis
      using ex create_stats [OF ok] set_priority_stats [OF ok] set_nice_stats [OF ok] by cases simp_all
  next
    case False
    then have "gview k' = gview (pop_op k)" using exec_gview [OF ex] by simp
    then show ?thesis using ok gview_stats_ok [of k' "pop_op k"] by (simp add: gview_def)
  qed
  moreover have "page_count k' \<le> page_count k"
    using exec_page_count [OF ex] cur_facts(1) [OF inv] inv by (simp add: sched_inv_def inv_pages_def)
  ultimately show ?thesis using st l by (simp add: stats_inv_def)
qed

lemma step_stats_inv:
  assumes "reachable k" "stats_inv N k" "N \<le> 2000" "step a k = Some k'"
  shows "stats_inv N k'"
proof (cases a)
  case Exec
  then show ?thesis
    using exec_stats_inv assms reachable_inv [OF assms(1)] by (auto split: list.splits)
next
  case (Call c)
  then have "\<exists>xs. k' = push_ops (cur k) xs k" using assms(4) by (auto split: list.splits kop.splits if_splits)
  then show ?thesis using assms(2) gview_stats_ok [of k' k] by (auto simp: stats_inv_def)
next
  case Finish
  then have "k' = pop_op k" using assms(4) by (auto split: list.splits kop.splits)
  then show ?thesis using assms(2) gview_stats_ok [of k' k] by (simp add: stats_inv_def) (simp add: pop_op_def)
next
  case Tick
  moreover from this have "intr k = INTR_ON" "os_ticks k < 2 ^ 63 - 1" "\<not> wait_race (i64 (os_ticks k + 1)) k"
    using assms(4) tick_no_race [of k k'] by (auto split: if_splits)
  ultimately show ?thesis using tick_exists [OF assms(1-3)] assms(4) by (auto simp del: step.simps)
qed

lemma run_stats_inv:
  "run as k = Some k' \<Longrightarrow> reachable k \<Longrightarrow> stats_inv N k \<Longrightarrow> N \<le> 2000 \<Longrightarrow> stats_inv N k'"
proof (induction as arbitrary: k)
  case (Cons a as)
  then obtain k1 where "step a k = Some k1" "run as k1 = Some k'" by (auto simp del: step.simps split: option.splits)
  then show ?case using Cons step_stats_inv reachable_step by blast
qed simp

lemma boot_stats_inv:
  assumes "thread_init (boot q r f j m ps) = Some k"
  shows "stats_inv (Suc (length ps)) k"
  using assms
  by (auto simp: thread_init_def boot_def init_thread_def get_total_exec_def zero_thread_def opt_simps stats_inv_def stats_ok_def
      stat_ok_def QUANTUM_def PRI_MIN_def PRI_MAX_def push_ops_def upd_def upd_sema_def page_count_def
      split: if_splits option.splits)

lemma boot_run:
  assumes "boot_ok m ps" "length ps < 2000" "thread_init (boot q r f j m ps) = Some k0" "run as k0 = Some k"
  shows "reachable k" "stats_inv (Suc (length ps)) k"
proof -
  have "reachable k0" using reachable_init assms(1,3) .
  then show "reachable k" "stats_inv (Suc (length ps)) k"
    using reachable_run run_stats_inv boot_stats_inv assms by (auto simp del: run.simps)
qed

end
