(* ===== verification/Sched_Algs.thy ===== *)
theory Sched_Algs
  imports Stats_Inv Sync_Props
begin

text \<open>
  The four scheduling algorithms: what each of them guarantees about the order in which threads run and about
  the statistics it decides by.
\<close>

section \<open>The timer interrupt\<close>



text \<open>
  C22: Under the multilevel feedback queue scheduler the priority of every thread is between \<open>PRI_MIN\<close> and
  \<open>PRI_MAX\<close>, whatever \<open>nice\<close> values and priorities the threads ask for, and the load average is between 0
  and the number of pages.
\<close>

theorem mlfqs_bounds:
  assumes "boot_ok m ps" "length ps < 2000" "thread_init (boot True r f j m ps) = Some k0" "run as k0 = Some k"
    and "thread_mlfqs k"
  shows "PRI_MIN \<le> priority (threads k t) \<and> priority (threads k t) \<le> PRI_MAX \<and>
    0 \<le> load_avg k \<and> load_avg k \<le> int_to_fp (int (Suc (length ps)))"
proof -
  have "stats_inv (Suc (length ps)) k" by (rule boot_run [OF assms(1-4)])
  moreover have "int_to_fp (int (Suc (length ps))) = int (Suc (length ps)) * 2 ^ 14"
    using assms(2) by (simp add: int_to_fp_def FP_F_def i32_id)
  ultimately show ?thesis using assms(5) by (auto simp: stats_inv_def stats_ok_def stat_ok_def)
qed

theorem mlfqs_bounds_witness: "priority (threads mlfqs_state 4096) \<le> PRI_MAX"
proof -
  obtain k0 where "thread_init (boot True False False False 4096 [8192, 12288, 16384, 20480]) = Some k0"
    "run (E10 @ [Call Thread_start] @ E13 @ E13 @ [Call (Thread_set_priority 100), Exec]) k0 = Some mlfqs_state"
    using example_run [OF mlfqs_state(1)] by auto
  from mlfqs_bounds [OF example_boot_ok _ this mlfqs_state(2)] show ?thesis by simp
qed

text \<open>
  C39: The load average is the decayed average of the length of the run queue: 59/60 of the old value plus 1/60
  of the number of ready threads.  The running thread is not counted.
\<close>

theorem load_avg_formula:
  assumes "reachable k" "0 \<le> load_avg k" "load_avg k \<le> int_to_fp 2000" "length (ready_list k) \<le> 2000"
  shows "\<exists>k'. refresh_load_avg k = Some k' \<and>
    load_avg k' = load_avg k * 59 div 60 + int (length (ready_list k)) * FP_F div 60 \<and>
    load_avg k' \<le> int_to_fp 2000 \<and> threads k' = threads k \<and> ready_list k' = ready_list k"
proof -
  have "int_to_fp 2000 = int 2000 * 2 ^ 14" by (simp add: int_to_fp_def FP_F_def i32_id)
  moreover have "thread_current k = Some (cur k)"
    using cur_facts [of k] reachable_inv [OF assms(1)] by (simp add: thread_current_def running_thread_def)
  ultimately show ?thesis
    using load_avg_bound [of "load_avg k" 2000 "length (ready_list k)"] assms(2-4)
    by (fastforce simp: refresh_load_avg_def Let_def FP_F_def)
qed

theorem load_avg_formula_witness:
  "\<exists>k'. refresh_load_avg off_state = Some k' \<and> load_avg k' = 273"
  using load_avg_formula [OF off_reachable] by (auto simp: off_view FP_F_def int_to_fp_def i32_def)

section \<open>Round robin\<close>

lemma thread_tick_rr:
  assumes "roundrobin k" "\<not> sjf k" "thread_tick k = Some k'" "stat_ok q (threads k (cur k))"
  shows "ticks (threads k' (cur k)) =
      (if ticks (threads k (cur k)) = int QUANTUM - 1 then 0 else ticks (threads k (cur k)) + 1) \<and>
    (\<forall>t. t \<noteq> cur k \<longrightarrow> ticks (threads k' t) = ticks (threads k t)) \<and>
    yield_on_return k' = (yield_on_return k \<or> ticks (threads k (cur k)) = int QUANTUM - 1)"
  using assms
  by (auto simp: thread_tick_def opt_simps thread_current_def running_thread_def intr_yield_on_return_def stat_ok_def QUANTUM_def
      i32_id split: if_splits)

lemma gview_wake_loop: "wake_loop ts k = Some k' \<Longrightarrow> gview k' = gview k"
proof (induction ts arbitrary: k)
  case (Cons t ts)
  then show ?case by (fastforce simp: opt_simps split: if_splits dest: gview_sema_up)
qed simp

lemma wake_loop_yield: "wake_loop ts k = Some k' \<Longrightarrow> yield_on_return k' = yield_on_return k"
proof (induction ts arbitrary: k)
  case (Cons t ts)
  have "yield_on_return j' = yield_on_return j" if "sema_up s j = Some j'" for s j j'
    using that by (auto simp: sema_up_def thread_unblock_def opt_simps intr_set_level_Some intr_disable_def split: list.splits if_splits)
  then show ?case using Cons by (fastforce simp: opt_simps split: if_splits)
qed simp

text \<open>
  C24: Under round robin a tick counts against the running thread alone, and makes it yield exactly when it has
  used up its quantum of 7 ticks, at which point its count starts again.
\<close>

theorem rr_quantum:
  assumes "boot_ok m ps" "length ps < 2000" "thread_init (boot q r f j m ps) = Some k0" "run as k0 = Some k"
    and "roundrobin k" "\<not> sjf k" "step Tick k = Some k'"
  shows "ticks (threads k' (cur k)) =
      (if ticks (threads k (cur k)) = int QUANTUM - 1 then 0 else ticks (threads k (cur k)) + 1) \<and>
    (\<forall>t. t \<noteq> cur k \<longrightarrow> ticks (threads k' t) = ticks (threads k t)) \<and>
    ops (threads k' (cur k)) = (if ticks (threads k (cur k)) = int QUANTUM - 1 then [Thread_yield] else [])
      @ Interrupt_return # ops (threads k (cur k))"
proof (rule tick_Some [OF assms(7)])
  fix i k1 k2
  assume i: "i = (push_ops (cur k) [Interrupt_return] (intr_disable k))
      \<lparr>in_external_intr := True, yield_on_return := False, os_ticks := i64 (os_ticks k + 1)\<rparr>"
    and k1: "thread_tick i = Some k1" and k2: "wake_loop (wait_list k1) k1 = Some k2"
    and k': "k' = push_ops (cur k2) (if yield_on_return k2 then [Thread_yield] else []) (k2\<lparr>in_external_intr := False\<rparr>)"
  have st: "stat_ok (thread_mlfqs k) (threads k (cur k))"
    using boot_run(2) [OF assms(1-4)] by (simp add: stats_inv_def stats_ok_def)
  have "stat_ok (thread_mlfqs k) (threads i (cur i))" "ticks (threads i t) = ticks (threads k t)" for t
    using st by (auto simp: i stat_ok_def intr_disable_def)
  note t1 = thread_tick_rr [OF _ _ k1 this(1)] this(2)
  have g: "ticks (threads k2 t) = ticks (threads k1 t)" "ops (threads k2 t) = ops (threads i t)" for t
    using gview_wake_loop [OF k2] wake_loop_tview [OF k2, of t] kcore_eqD(2) [OF thread_tick_core [OF k1]]
    by (simp_all add: gview_def sview_def tview_def fun_eq_iff)
  have "yield_on_return k2 = yield_on_return k1" "cur k2 = cur k" "cur i = cur k"
    using wake_loop_frame [OF k2] wake_loop_yield [OF k2] kcore_eqD(7) [OF thread_tick_core [OF k1]] 
    by (auto simp: i intr_disable_def)
  moreover have "roundrobin i" "\<not> sjf i" "\<not> yield_on_return i" using assms(5,6) by (auto simp: i push_ops_def intr_disable_def)
  ultimately show ?thesis using t1 by (simp add: k' g) (simp add: i intr_disable_def)
qed

theorem rr_quantum_witness:
  "\<exists>k'. step Tick rr_state = Some k' \<and> ticks (threads k' 4096) = 0 \<and>
     ops (threads k' 4096) = [Thread_yield, Interrupt_return, Run_function, Thread_exit]"
proof -
  obtain k0 where k0: "thread_init (boot False True False False 4096 [8192, 12288, 16384, 20480]) = Some k0"
    "run (E10 @ [Call Thread_start] @ E13 @ E13 @ rr_script) k0 = Some rr_state"
    using example_run [OF rr_state] by auto
  obtain k' where k': "step Tick rr_state = Some k'"
    using tick_exists [OF boot_run [OF example_boot_ok _ k0]] by (auto simp: rr_view wait_race_def simp del: step.simps)
  then show ?thesis
    using rr_quantum [OF example_boot_ok _ k0 _ _ k'] by (simp add: rr_view QUANTUM_def del: step.simps)
qed

section \<open>First come first served\<close>

text \<open>Threads that were blocked become ready, in the order in which they join the run queue; nothing else changes status.\<close>

definition readied :: "addr list \<Rightarrow> kernel \<Rightarrow> kernel \<Rightarrow> bool" where
  "readied new k k' \<longleftrightarrow> ready_list k' = ready_list k @ new \<and>
     (\<forall>t. if t \<in> set new then status (threads k t) = THREAD_BLOCKED \<and> status (threads k' t) = THREAD_READY
          else status (threads k' t) = status (threads k t))"

text \<open>
  The running thread stays and some threads join the queue; or it goes, after joining the queue itself if it is still ready, and
  the thread at the front gets the processor.
\<close>

definition fifo_step :: "kernel \<Rightarrow> kernel \<Rightarrow> bool" where
  "fifo_step k k' \<longleftrightarrow>
     (if cur k' = cur k then \<exists>new. ready_list k' = ready_list k @ new \<and>
        (\<forall>t \<in> set new. status (threads k t) = THREAD_BLOCKED \<and> status (threads k' t) = THREAD_READY)
      else let queue = ready_list k @ (if status (threads k' (cur k)) = THREAD_READY \<and> cur k \<noteq> idle_thread k then [cur k] else [])
        in cur k' = hd (queue @ [idle_thread k]) \<and> ready_list k' = tl queue)"

lemma fifo_same: "cur k' = cur k \<Longrightarrow> ready_list k' = ready_list k \<Longrightarrow> fifo_step k k'"
  by (auto simp: fifo_step_def intro: exI [of _ "[]"])

lemma fifo_readied: "readied new k k' \<Longrightarrow> cur k' = cur k \<Longrightarrow> fifo_step k k'"
  by (auto simp: fifo_step_def readied_def split: if_splits)

lemma readied_trans: "readied as k j \<Longrightarrow> readied bs j k' \<Longrightarrow> readied (as @ bs) k k'"
  unfolding readied_def by (simp split: if_splits) (metis thread_status.distinct(7))

lemma fifo_schedule:
  assumes "schedule j = Some k'" "ready_list j = ready_list k @ q" "cur j = cur k" "idle_thread j = idle_thread k" "cur k \<notin> set (ready_list k)"
    and "q = (if status (threads j (cur k)) = THREAD_READY \<and> cur k \<noteq> idle_thread k then [cur k] else [])"
  shows "fifo_step k k'"
proof (rule schedule_Some [OF assms(1), of undefined undefined])
  fix nxt T F
  assume k': "k' = j\<lparr>threads := T, cur := nxt, ready_list := tl (ready_list j), thread_ticks := 0, free_pages := F\<rparr>"
    and nxt: "nxt = (if ready_list j = [] then idle_thread j else hd (ready_list j))"
    and st: "\<And>t. status (T t) = (if t = nxt then THREAD_RUNNING else status (threads j t))"
  show ?thesis
  proof (cases "nxt = cur k")
    case True
    then have "ready_list k = []" using nxt assms(2,5) by (cases "ready_list k") (auto split: if_splits)
    then have "ready_list k' = ready_list k @ []" using assms(2,6) by (simp add: k')
    then show ?thesis using True by (intro fifo_same) (simp_all add: k')
  next
    case False
    then have "q = (if status (threads k' (cur k)) = THREAD_READY \<and> cur k \<noteq> idle_thread k then [cur k] else [])"
      using assms(6) st by (simp add: k')
    moreover have "cur k' = hd (ready_list j @ [idle_thread k])" using nxt assms(4) by (simp add: k' hd_append)
    ultimately show ?thesis using False assms(2) by (auto simp: fifo_step_def k' Let_def)
  qed
qed

lemma fifo_block: "thread_block j = Some k' \<Longrightarrow> ready_list j = ready_list k \<Longrightarrow> cur j = cur k \<Longrightarrow> idle_thread j = idle_thread k \<Longrightarrow>
    cur k \<notin> set (ready_list k) \<Longrightarrow> fifo_step k k'"
  by (auto simp: thread_block_def opt_simps thread_current_def running_thread_def intro: fifo_schedule [where q = "[]"])

lemma ready_intr: "intr_set_level lv k = Some k' \<Longrightarrow> ready_list k' = ready_list k \<and> cur k' = cur k"
  by (auto simp: intr_set_level_Some)

lemma readied_unblock: "thread_unblock t k = Some k' \<Longrightarrow> readied [t] k k' \<and> cur k' = cur k"
  by (rule thread_unblock_Some) (auto simp: readied_def tcore_def)

lemma readied_sema_up: "sema_up s k = Some k' \<Longrightarrow> readied (take 1 (waiters (semas k s))) k k' \<and> cur k' = cur k"
proof (cases "waiters (semas k s)")
  case (Cons t ts)
  assume "sema_up s k = Some k'"
  then show ?thesis by (rule sema_up_wake_Some [OF _ Cons]) (auto simp: readied_def tcore_def Cons)
qed (auto simp: sema_up_def opt_simps intr_set_level_Some intr_disable_def readied_def)

lemma fifo_exit:
  assumes "thread_exit k = Some k'" "\<not> sjf k" "cur k \<notin> set (ready_list k)"
  shows "fifo_step k k'"
  using assms
  by (auto simp: thread_exit_def opt_simps intr_disable_def thread_current_def running_thread_def split: if_splits
      elim!: fifo_schedule [where q = "[]"])

lemma fifo_yield:
  assumes "thread_yield k = Some k'" "cur k \<notin> set (ready_list k)"
  shows "fifo_step k k'"
proof -
  obtain j where "schedule j = Some k'" "ready_list j = ready_list k @ (if cur k = idle_thread k then [] else [cur k])"
    "cur j = cur k" "idle_thread j = idle_thread k" "status (threads j (cur k)) = THREAD_READY"
    using assms(1) by (auto simp: thread_yield_def opt_simps intr_disable_def thread_current_def running_thread_def split: if_splits)
  then show ?thesis using assms(2) by (intro fifo_schedule [of j]) auto
qed

lemma exec_fifo:
  assumes ex: "exec c k = Some k'" and m: "\<not> sjf k" "\<not> thread_mlfqs k" and z: "NULL \<notin> set (free_pages k)" and r: "cur k \<notin> set (ready_list k)"
  shows "fifo_step k k'"
proof (cases c)
  case (Thread_create nm pri fn)
  then show ?thesis using ex z
    by (auto simp: thread_create_def palloc_get_page_def opt_simps set_retval_def split: list.splits elim!: init_thread_Some
        intro!: fifo_same)
next
  case (Sema_down_loop s lv)
  then show ?thesis using ex r
    by (auto simp: sema_down_loop_def opt_simps thread_current_def running_thread_def split: if_splits dest!: ready_intr
        intro: fifo_same elim!: fifo_block)
next
  case Thread_yield
  then show ?thesis using ex r fifo_yield by simp
next
  case (Thread_unblock t)
  then show ?thesis using ex readied_unblock fifo_readied by fastforce
next
  case (Sema_up s)
  then show ?thesis using ex readied_sema_up fifo_readied by fastforce
next
  case (Sema_try_down s)
  then show ?thesis using ex
    by (auto simp: sema_try_down_def set_retval_def opt_simps intr_disable_def split: if_splits dest!: ready_intr intro!: fifo_same)
next
  case (Lock_try_acquire l)
  then show ?thesis using ex
    by (auto simp: lock_try_acquire_def sema_try_down_def opt_simps intr_disable_def split: if_splits
      dest!: ready_intr intro!: fifo_same)
next
  case (Create_rest t fn)
  then show ?thesis using ex
    by (auto simp: create_rest_def alloc_frame_def opt_simps intr_disable_def dest!: ready_intr intro!: fifo_same)
qed (use ex m r in \<open>auto simp: thread_start_def setBound_def sema_init_def sema_down_def sema_try_down_def lock_acquire_def
    lock_held_by_current_thread_def lock_try_acquire_def lock_release_def cond_wait_def cond_signal_def cond_broadcast_def
    timer_sleep_def sleep_insert_def sleep_link_def allocate_tid_def kernel_thread_def idle_def idle_loop_def tid_load_def tid_store_def set_tid_def
    schedule_rest_def thread_set_priority_def thread_set_nice_def set_retval_def
    set_holder_def intr_enable_def intr_disable_def opt_simps split: if_splits list.splits
    intro: fifo_exit fifo_same fifo_block dest: ready_intr\<close>)

lemma wake_loop_ready: "wake_loop ts k = Some k' \<Longrightarrow> \<exists>new. readied new k k'"
proof (induction ts arbitrary: k)
  case Nil
  then show ?case by (intro exI [of _ "[]"]) (simp add: readied_def)
next
  case (Cons t ts)
  show ?case
  proof (cases "os_ticks k < wakeup_time (threads k t)")
    case True
    then show ?thesis using Cons.prems by (intro exI [of _ "[]"]) (simp add: readied_def)
  next
    case False
    then obtain k1 where k1: "sema_up (Timer_sema t) k = Some k1"
      "wake_loop ts (k1\<lparr>wait_list := tl (wait_list k1)\<rparr>) = Some k'"
      using Cons.prems by (auto simp: opt_simps)
    obtain new where "readied new (k1\<lparr>wait_list := tl (wait_list k1)\<rparr>) k'" using Cons.IH [OF k1(2)] by blast
    then have "readied new k1 k'" by (simp add: readied_def cong: if_cong)
    then show ?thesis using readied_sema_up [OF k1(1)] readied_trans by blast
  qed
qed

text \<open>
  C23: First come first served.  Unless the scheduler sorts (shortest job first, multilevel feedback queue), the
  run queue is a queue.  As long as a thread keeps the processor, only threads that were blocked and are now ready join the queue,
  at its end.  When the processor changes hands, the thread that gives it up joins the end of the queue if it is still ready and
  not the idle thread; then the thread at the front leaves the queue and runs, or the idle thread when the queue is empty.
\<close>

theorem fcfs_fifo:
  assumes "reachable k" "\<not> sjf k" "\<not> thread_mlfqs k" "step a k = Some k'"
  shows "fifo_step k k'"
proof (cases a)
  case Exec
  have inv: "NULL \<notin> set (free_pages k)" "cur k \<notin> set (ready_list k)"
    using reachable_inv [OF assms(1)] cur_facts(3) [of k] by (auto simp: sched_inv_def inv_pages_def)
  moreover have "\<not> sjf (pop_op k)" "\<not> thread_mlfqs (pop_op k)" using assms(2,3) by (simp_all add: pop_op_def)
  moreover obtain c where "exec c (pop_op k) = Some k'" using assms(4) Exec by (auto split: list.splits)
  ultimately have "fifo_step (pop_op k) k'" using exec_fifo by simp
  moreover have "status (threads (pop_op k) t) = status (threads k t)" for t by simp
  ultimately show ?thesis by (simp only: fifo_step_def pop_op_sel(2,3,7))
next
  case (Call c)
  then show ?thesis using assms(4) by (auto split: list.splits kop.splits if_splits intro!: fifo_same)
next
  case Finish
  then show ?thesis using assms(4) by (auto split: list.splits kop.splits intro!: fifo_same)
next
  case Tick
  then have "step Tick k = Some k'" using assms(4) by simp
  then show ?thesis
  proof (rule tick_Some)
    fix j k1 k2
    assume j: "j = (push_ops (cur k) [Interrupt_return] (intr_disable k))
        \<lparr>in_external_intr := True, yield_on_return := False, os_ticks := i64 (os_ticks k + 1)\<rparr>"
      and k1: "thread_tick j = Some k1" and k2: "wake_loop (wait_list k1) k1 = Some k2"
      and k': "k' = push_ops (cur k2) (if yield_on_return k2 then [Thread_yield] else []) (k2\<lparr>in_external_intr := False\<rparr>)"
    have "\<not> sjf j" "\<not> thread_mlfqs j" "ready_list j = ready_list k"
      using assms(2,3) by (simp_all add: j push_ops_def intr_disable_def)
    then have "ready_list k1 = ready_list k"
      using k1 by (auto simp: thread_tick_def opt_simps intr_yield_on_return_def split: if_splits)
    moreover note c = kcore_eqD(1,7) [OF thread_tick_core [OF k1]]
    have st: "status (threads k1 t) = status (threads k t)" "cur k1 = cur k" for t
      using c by (simp_all add: j intr_disable_def)
    moreover obtain new where "readied new k1 k2" using wake_loop_ready [OF k2] by blast
    ultimately have "readied new k k'" by (simp add: readied_def k' if_distrib [of status] cong: if_cong)
    moreover have "cur k' = cur k" using wake_loop_frame [OF k2] st(2) by (simp add: k')
    ultimately show ?thesis by (rule fifo_readied)
  qed
qed

theorem fcfs_fifo_witness: "fifo_step due_state woken_state"
  by (rule fcfs_fifo [OF due_reachable due_view(1,2) due_states(2)])

section \<open>Multilevel feedback queue\<close>

lemma refresh_priority_thread_ready: "refresh_priority_thread t k = Some k' \<Longrightarrow> ready_list k' = ready_list k"
  by (auto simp: refresh_priority_thread_def opt_simps split: if_splits)

lemma refresh_priority_ready:
  assumes "refresh_priority k = Some k'"
  shows "ready_list k' = ready_list k"
proof -
  obtain k1 where k1: "fold_opt (\<lambda>t k. if t \<noteq> initial_thread k then refresh_priority_thread t k else Some k) (ready_list k) k = Some k1"
    "refresh_priority_thread (running_thread k) k1 = Some k'"
    using assms by (auto simp: refresh_priority_def opt_simps)
  have "ready_list k1 = ready_list k"
    by (rule fold_opt_frame [OF k1(1)]) (auto dest: refresh_priority_thread_ready split: if_splits)
  then show ?thesis using refresh_priority_thread_ready [OF k1(2)] by simp
qed

lemma refresh_cpu_ready:
  assumes "thread_foreach refresh_cpu k = Some k'"
  shows "ready_list k' = ready_list k \<and> os_ticks k' = os_ticks k"
proof -
  have f: "fold_opt refresh_cpu (all_list k) k = Some k'" using assms by (auto simp: thread_foreach_def)
  have "(ready_list k', os_ticks k') = (ready_list k, os_ticks k)"
    by (rule fold_opt_frame [OF f, where g = "\<lambda>k. (ready_list k, os_ticks k)"])
      (auto simp: refresh_cpu_def opt_simps split: if_splits)
  then show ?thesis by simp
qed

lemma sort_ready_priority: "ready_list (sort_ready (priority_cmp k) k) = sort_key (\<lambda>u. - priority (threads k u)) (ready_list k)"
  "threads (sort_ready lt k) = threads k"
  by (simp_all add: sort_ready_def by_priority.nmsort_sort_key)

lemma sort_key_idem: "sort_key f (sort_key f xs) = sort_key f xs"
  by (rule sort_key_id_if_sorted) simp

text \<open>
  C26: Every four seconds the multilevel feedback queue recomputes the priorities and leaves the run queue stably
  sorted, highest priority first: threads of equal priority keep their order.
\<close>

theorem mlfqs_sorts:
  assumes "thread_tick_mlfqs t k = Some k'" "timer_ticks k smod (TIMER_FREQ * 4) = 0"
  shows "ready_list k' = sort_key (\<lambda>u. - priority (threads k' u)) (ready_list k)"
proof (cases "ready_list k")
  case (Cons n ns)
  from assms(1) obtain k1 where
    k1: "(if timer_ticks k smod TIMER_FREQ = 0 then do { k \<leftarrow> refresh_load_avg k; thread_foreach refresh_cpu k } else Some k) = Some k1"
    and rest: "(let k = (if status (threads k1 t) = THREAD_RUNNING
                then upd t (\<lambda>th. th\<lparr>recent_cpu := add_int (recent_cpu th) 1\<rparr>) k1 else k1) in do {
       k \<leftarrow> (if timer_ticks k smod (TIMER_FREQ * 4) = 0
             then do { k \<leftarrow> refresh_priority k; Some (sort_ready (priority_cmp k) k) }
             else Some k);
       let k = k\<lparr>thread_ticks := u32 (thread_ticks k + 1)\<rparr>;
       if QUANTUM \<le> thread_ticks k \<and> priority (threads k t) \<le> priority (threads k n)
       then do { k \<leftarrow> intr_yield_on_return k; Some (sort_ready (priority_cmp k) k) }
       else Some k }) = Some k'"
    unfolding thread_tick_mlfqs_def Cons list.case by (rule bind_SomeE)
  define k2 where "k2 = (if status (threads k1 t) = THREAD_RUNNING
     then upd t (\<lambda>th. th\<lparr>recent_cpu := add_int (recent_cpu th) 1\<rparr>) k1 else k1)"
  have "ready_list k1 = ready_list k \<and> os_ticks k1 = os_ticks k"
    using k1 by (auto simp: opt_simps refresh_load_avg_def split: if_splits dest!: refresh_cpu_ready)
  then have k2: "ready_list k2 = ready_list k" "timer_ticks k2 = timer_ticks k" by (auto simp: k2_def timer_ticks_def)
  from rest obtain j where j: "refresh_priority k2 = Some j" and
    fin: "(let k = (sort_ready (priority_cmp j) j)\<lparr>thread_ticks := u32 (thread_ticks (sort_ready (priority_cmp j) j) + 1)\<rparr> in
       if QUANTUM \<le> thread_ticks k \<and> priority (threads k t) \<le> priority (threads k n)
       then do { k \<leftarrow> intr_yield_on_return k; Some (sort_ready (priority_cmp k) k) }
       else Some k) = Some k'"
    unfolding k2_def [symmetric] Let_def k2(2) assms(2) by (auto elim!: bind_SomeE)
  then have "threads k' = threads j" "ready_list k' = sort_key (\<lambda>u. - priority (threads j u)) (ready_list j)"
    by (auto simp: Let_def intr_yield_on_return_def opt_simps sort_ready_priority sort_key_idem split: if_splits)
  then show ?thesis using refresh_priority_ready [OF j] k2(1) by simp
qed (use assms(1) in \<open>simp add: thread_tick_mlfqs_def\<close>)

theorem mlfqs_sorts_witness: "\<exists>k'. thread_tick_mlfqs 4096 nice_state = Some k' \<and> ready_list k' = [16384, 12288]"
proof -
  obtain k' where "thread_tick_mlfqs 4096 nice_state = Some k'" "priority (threads k' 12288) = 52" "priority (threads k' 16384) = 63"
    using nice_state by blast
  moreover from this(1) have "ready_list k' = sort_key (\<lambda>u. - priority (threads k' u)) (ready_list nice_state)"
    by (rule mlfqs_sorts) (simp add: nice_view TIMER_FREQ_def)
  ultimately show ?thesis by (simp add: nice_view)
qed

section \<open>Shortest job first\<close>

definition eview :: "kernel \<Rightarrow> (addr \<Rightarrow> string \<times> int) \<times> addr list" where
  "eview k = ((\<lambda>t. (name (threads k t), total_exec (threads k t))), all_all_list k)"

lemma eview_upd:
  "name (f (threads k t)) = name (threads k t) \<Longrightarrow> total_exec (f (threads k t)) = total_exec (threads k t) \<Longrightarrow>
   eview (upd t f k) = eview k"
  by (auto simp: eview_def fun_eq_iff)

lemma eview_fields [simp]:
  "eview (k\<lparr>ready_list := l\<rparr>) = eview k" "eview (k\<lparr>all_list := l\<rparr>) = eview k" "eview (k\<lparr>cur := p\<rparr>) = eview k"
  "eview (k\<lparr>intr := lv\<rparr>) = eview k" "eview (k\<lparr>thread_ticks := n\<rparr>) = eview k" "eview (k\<lparr>free_pages := l\<rparr>) = eview k"
  "eview (k\<lparr>total_wait_time := i\<rparr>) = eview k" "eview (push_ops t xs k) = eview k" "eview (pop_op k) = eview k"
  by (simp_all add: eview_def push_ops_def upd_def pop_op_def fun_eq_iff)

lemma eview_tail: "thread_schedule_tail prev k = Some k' \<Longrightarrow> eview k' = eview k"
  by (auto simp: thread_schedule_tail_def palloc_free_page_def opt_simps eview_upd simp del: upd_sel split: if_splits)

lemma eview_schedule: "schedule k = Some k' \<Longrightarrow> eview k' = eview k"
  by (auto simp: schedule_def next_thread_to_run_def opt_simps simp del: upd_sel push_ops_sel
      split: list.splits if_splits dest!: eview_tail)

lemma sjf_exit_Some:
  assumes "thread_exit k = Some k'" "sjf k"
  obtains k1 k2 k3 where
    "calc_new_total_exec (total_exec (threads k (cur k))) (curr_exec (threads k (cur k))) (intr_disable k) = Some k1"
    "thread_foreach get_total_exec_each k1 = Some k2"
    "schedule k3 = Some k'" "eview k3 = eview k2" "ready_list k3 = nmsort (duration_cmp k2) (ready_list k2)"
proof -
  obtain t where t: "thread_current k = Some t" "t = cur k" 
    using assms(1) by (auto simp: thread_exit_def opt_simps thread_current_def running_thread_def)
  from assms obtain j where
    j: "(do { j \<leftarrow> calc_new_total_exec (total_exec (threads k t)) (curr_exec (threads k t)) (intr_disable k);
          j \<leftarrow> thread_foreach get_total_exec_each j;
          Some (sort_ready (duration_cmp j) j) }) = Some j"
    and rest: "(do { i \<leftarrow> (if t \<noteq> initial_thread j \<and> t \<noteq> idle_thread j then do {
             ASSERT (repeat (threads k t) \<noteq> 0);
             Some (j\<lparr>total_wait_time := i32 (total_wait_time j + total_wait (threads j t) sdiv repeat (threads k t))\<rparr>) }
           else Some j);
         c \<leftarrow> thread_current (i\<lparr>all_list := remove1 t (all_list i)\<rparr>);
         schedule (push_ops c [Not_reached] (upd c (\<lambda>th. th\<lparr>status := THREAD_DYING\<rparr>) (i\<lparr>all_list := remove1 t (all_list i)\<rparr>))) }) = Some k'"
    using t(1) by (auto simp: thread_exit_def Let_def intr_disable_def simp del: ASSERT_bind_Some elim!: bind_SomeE)
  from j obtain k1 k2 where k12: "calc_new_total_exec (total_exec (threads k t)) (curr_exec (threads k t)) (intr_disable k) = Some k1"
    "thread_foreach get_total_exec_each k1 = Some k2" "j = sort_ready (duration_cmp k2) k2" by (auto elim!: bind_SomeE)
  from rest obtain i c where i: "(if t \<noteq> initial_thread j \<and> t \<noteq> idle_thread j then do {
             ASSERT (repeat (threads k t) \<noteq> 0);
             Some (j\<lparr>total_wait_time := i32 (total_wait_time j + total_wait (threads j t) sdiv repeat (threads k t))\<rparr>) }
           else Some j) = Some i"
    and s: "schedule (push_ops c [Not_reached] (upd c (\<lambda>th. th\<lparr>status := THREAD_DYING\<rparr>) (i\<lparr>all_list := remove1 t (all_list i)\<rparr>))) = Some k'"
    by (elim bind_SomeE)
  from i have "eview i = eview j" "ready_list i = ready_list j" by (auto split: if_splits)
  then show ?thesis using k12 t(2)
    by (intro that [OF _ k12(2) s]) (auto simp: eview_upd sort_ready_def)
qed

text \<open>
  C25: When a thread exits under shortest job first, the processor goes to a ready thread of least estimated
  execution time, and the others stay on the run queue.  The message that \<open>thread_exit\<close> prints before it gives up the processor is
  taken not to wait for the console lock.
\<close>

theorem sjf_shortest_next:
  assumes "thread_exit k = Some k'" "sjf k" "ready_list k \<noteq> []"
  shows "mset (ready_list k) = add_mset (cur k') (mset (ready_list k')) \<and>
    (\<forall>u\<in>set (ready_list k'). total_exec (threads k' (cur k')) \<le> total_exec (threads k' u))"
proof (rule sjf_exit_Some [OF assms(1,2)])
  fix k1 k2 k3
  assume k1: "calc_new_total_exec (total_exec (threads k (cur k))) (curr_exec (threads k (cur k))) (intr_disable k) = Some k1"
    and k2: "thread_foreach get_total_exec_each k1 = Some k2"
    and k3: "schedule k3 = Some k'" "eview k3 = eview k2" "ready_list k3 = nmsort (duration_cmp k2) (ready_list k2)"
  have m: "mset (ready_list k2) = mset (ready_list k)"
    using kcore_eqD(8) [OF calc_new_total_exec_core [OF k1]] kcore_eqD(8) [OF thread_foreach_core [OF k2 get_total_exec_each_core]]
    by (simp add: intr_disable_def)
  then have "ready_list k2 \<noteq> []" using assms(3) by auto
  then obtain t ts where r: "sort_key (\<lambda>u. total_exec (threads k2 u)) (ready_list k2) = t # ts"
    by (metis list.exhaust set_empty set_sort)
  have e: "total_exec (threads k' u) = total_exec (threads k2 u)" for u
    using eview_schedule [OF k3(1)] k3(2) by (auto simp: eview_def fun_eq_iff)
  have "cur k' = t" "ready_list k' = ts"
    using k3(3) by (auto intro: schedule_Some [OF k3(1), of undefined undefined] simp: by_duration.nmsort_sort_key r)
  moreover have "sorted (map (\<lambda>u. total_exec (threads k2 u)) (t # ts))" using r by (metis sorted_sort_key)
  moreover have "mset (ready_list k) = mset (t # ts)" using m r by (metis mset_sort)
  ultimately show ?thesis by (simp add: e)
qed

theorem sjf_shortest_next_witness:
  "\<exists>k'. thread_exit (pop_op sjf_state) = Some k' \<and> cur k' = 4096 \<and> list_all (\<lambda>u. total_exec (threads k' (cur k')) \<le> total_exec (threads k' u)) (ready_list k')"
proof -
  obtain k' where k': "thread_exit (pop_op sjf_state) = Some k'" using sjf_state(2) by blast
  then show ?thesis using sjf_shortest_next [OF k'] by (auto simp: sjf_view pop_op_def list_all_iff)
qed

text \<open>
  The new estimate is the average of the old one and the time just used, rounded to nearest (halves up);
  a thread with no estimate yet gets the time just used.  The bound keeps the fixed-point
  arithmetic within 32 bits.
\<close>

theorem sjf_estimate:
  assumes "reachable k" "0 \<le> old" "0 \<le> recent" "old + recent < 2 ^ 17"
  shows "\<exists>k'. calc_new_total_exec old recent k = Some k' \<and>
    total_exec (threads k' (cur k)) = (if old = 0 then recent else (old + recent + 1) div 2)"
proof -
  have cur: "thread_current k = Some (cur k)"
    using cur_facts [of k] reachable_inv [OF assms(1)] by (simp add: thread_current_def running_thread_def)
  have a: "div_int (int_to_fp 1) 2 = Some (2 ^ 13)" "sub_fp (int_to_fp 1) (2 ^ 13) = 2 ^ 13"
    by (simp_all add: fp_defs i32_def)
  have m: "mult_int (2 ^ 13) recent = 2 ^ 13 * recent" "mult_int (2 ^ 13) old = 2 ^ 13 * old"
    using assms(2-4) by (simp_all add: mult_int_def i32_id)
  then have s: "add_fp (2 ^ 13 * recent) (2 ^ 13 * old) = 2 ^ 13 * (old + recent)"
    using assms(2-4) by (simp add: add_fp_def i32_id algebra_simps)
  have "fp_to_int_round (2 ^ 13 * (old + recent)) = (2 ^ 13 * (old + recent) + 2 ^ 13) div 2 ^ 14"
    using assms(2-4) by (intro fp_to_int_round_nonneg) auto
  also have "\<dots> = (2 ^ 13 * (old + recent + 1)) div (2 ^ 13 * 2)" by (simp add: algebra_simps)
  also have "\<dots> = (old + recent + 1) div 2" by (rule div_mult_mult1) simp
  finally show ?thesis
    using cur by (simp only: calc_new_total_exec_def Let_def a m s Option.bind.simps) simp
qed

theorem sjf_estimate_witness:
  "\<exists>k'. calc_new_total_exec 7 4 demo_state = Some k' \<and> total_exec (threads k' 8192) = 6"
  using sjf_estimate [OF demo_reachable, of 7 4] by (simp add: demo_view)

lemma find_exec_cong:
  "(\<And>t. t \<in> set ts \<Longrightarrow> name (threads k' t) = name (threads k t) \<and> total_exec (threads k' t) = total_exec (threads k t)) \<Longrightarrow>
   find_exec k' nm ts = find_exec k nm ts"
  by (induction ts) auto

lemma find_exec_append: "find_exec k nm ts = Some e \<Longrightarrow> find_exec k nm (ts @ us) = Some e"
  by (induction ts) (auto split: if_splits)

text \<open>Storing the recorded estimate of its own name in a thread changes no recorded estimate.\<close>

lemma find_exec_upd:
  assumes "find_exec k nm ts = Some e"
  shows "find_exec (upd t (\<lambda>th. th\<lparr>total_exec := e'\<rparr>) k) nm ts =
    Some (if find (\<lambda>u. name (threads k u) = nm) ts = Some t then e' else e)"
  using assms by (induction ts) (auto split: if_splits)

lemma find_exec_find: "find_exec k nm ts = map_option (\<lambda>u. total_exec (threads k u)) (find (\<lambda>u. name (threads k u) = nm) ts)"
  by (induction ts) auto

lemma find_name: "find (\<lambda>u. name (threads k u) = nm) ts = Some t \<Longrightarrow> name (threads k t) = nm"
  by (auto simp: find_Some_iff)

lemma get_total_exec_each_keeps:
  assumes "get_total_exec_each t k = Some k'" "find_exec k nm (all_all_list k) = Some e"
  shows "find_exec k' nm (all_all_list k') = Some e"
proof (cases "find_exec k (name (threads k t)) (all_all_list k)")
  case None
  then have k': "k' = upd t (\<lambda>th. th\<lparr>total_exec := 0\<rparr>) (k\<lparr>all_all_list := all_all_list k @ [t]\<rparr>)"
    using assms(1) by (simp add: get_total_exec_each_def get_total_exec_def)
  have "find (\<lambda>u. name (threads k u) = nm) (all_all_list k) \<noteq> Some t"
    using None assms(2) by (auto dest: find_name)
  then have "find_exec (upd t (\<lambda>th. th\<lparr>total_exec := 0\<rparr>) k) nm (all_all_list k @ [t]) = Some e"
    using find_exec_upd [OF assms(2), of t 0] find_exec_append by simp
  moreover have "find_exec k' nm ts = find_exec (upd t (\<lambda>th. th\<lparr>total_exec := 0\<rparr>) k) nm ts" for ts
    by (rule find_exec_cong) (simp add: k')
  ultimately show ?thesis by (simp add: k')
next
  case (Some e')
  then have k': "k' = upd t (\<lambda>th. th\<lparr>total_exec := e'\<rparr>) k"
    using assms(1) by (simp add: get_total_exec_each_def get_total_exec_def)
  have "find (\<lambda>u. name (threads k u) = nm) (all_all_list k) = Some t \<longrightarrow> e' = e"
    using Some assms(2) by (auto dest: find_name)
  then show ?thesis using find_exec_upd [OF assms(2), of t e'] by (auto simp: k')
qed

text \<open>
  Only the first thread of a name ever updates the estimate for that name.  \<open>all_all_list\<close> records one thread
  per name; when another thread of the same name exits, the estimate it has just computed is overwritten
  with the recorded one, so that the recorded estimate stays what it was, however long the thread ran.
\<close>

theorem sjf_estimate_kept:
  assumes "thread_exit k = Some k'" "sjf k"
    and "find (\<lambda>u. name (threads k u) = nm) (all_all_list k) = Some u" "u \<noteq> cur k"
  shows "find_exec k' nm (all_all_list k') = Some (total_exec (threads k u))"
proof (rule sjf_exit_Some [OF assms(1,2)])
  fix k1 k2 k3
  assume k1: "calc_new_total_exec (total_exec (threads k (cur k))) (curr_exec (threads k (cur k))) (intr_disable k) = Some k1"
    and k2: "thread_foreach get_total_exec_each k1 = Some k2"
    and k3: "schedule k3 = Some k'" "eview k3 = eview k2"
  have e: "find_exec k nm (all_all_list k) = Some (total_exec (threads k u))" using assms(3) by (simp add: find_exec_find)
  obtain res where res: "k1 = upd (cur k) (\<lambda>th. th\<lparr>total_exec := res\<rparr>) (intr_disable k)"
    using k1 by (auto simp: calc_new_total_exec_def opt_simps thread_current_def running_thread_def intr_disable_def)
  have "find_exec k1 nm ts = find_exec (upd (cur k) (\<lambda>th. th\<lparr>total_exec := res\<rparr>) k) nm ts" for ts
    by (rule find_exec_cong) (simp add: res intr_disable_def)
  then have "find_exec k1 nm (all_all_list k1) = Some (total_exec (threads k u))"
    using find_exec_upd [OF e, of "cur k" res] assms(3,4) by (simp add: res intr_disable_def)
  moreover have f: "fold_opt get_total_exec_each (all_list k1) k1 = Some k2" using k2 by (auto simp: thread_foreach_def)
  ultimately have "find_exec k2 nm (all_all_list k2) = Some (total_exec (threads k u))"
    by (intro fold_opt_invariant [OF f, where P = "\<lambda>j. find_exec j nm (all_all_list j) = Some (total_exec (threads k u))"])
      (blast intro: get_total_exec_each_keeps)+
  moreover have eq: "all_all_list k' = all_all_list k2"
    "name (threads k' t) = name (threads k2 t) \<and> total_exec (threads k' t) = total_exec (threads k2 t)" for t
    using eview_schedule [OF k3(1)] k3(2) by (auto simp: eview_def dest: fun_cong)
  moreover have "find_exec k' nm (all_all_list k2) = find_exec k2 nm (all_all_list k2)"
    by (rule find_exec_cong) (rule eq(2))
  ultimately show ?thesis by (simp only:)
qed

theorem sjf_estimate_kept_witness:
  "\<exists>k'. curr_exec (threads sjf_state 16384) = 2 \<and> thread_exit (pop_op sjf_state) = Some k' \<and> find_exec k' ''a'' (all_all_list k') = Some 0"
proof -
  obtain k' where k': "thread_exit (pop_op sjf_state) = Some k'" using sjf_state(2) by blast
  then show ?thesis
    using sjf_estimate_kept [OF k', of "''a''" 12288] by (simp add: sjf_view pop_op_def upd_def)
qed

section \<open>Exit\<close>

lemma get_total_exec_each_total: "\<exists>k'. get_total_exec_each t k = Some k'"
  by (simp add: get_total_exec_each_def split: prod.split)

lemma sjf_refresh_total:
  assumes "thread_current k = Some t" "intr k = INTR_OFF"
  shows "\<exists>j. (do {
      k \<leftarrow> calc_new_total_exec old recent k;
      k \<leftarrow> thread_foreach get_total_exec_each k;
      Some (sort_ready (duration_cmp k) k) }) = Some j"
proof -
  obtain k1 where k1: "calc_new_total_exec old recent k = Some k1"
    using assms(1) by (cases "old = 0") (auto simp: calc_new_total_exec_def div_int_def Let_def)
  have "intr k1 = INTR_OFF" using kcore_eqD(19) [OF calc_new_total_exec_core [OF k1]] assms(2) by simp
  moreover obtain k2 where "fold_opt get_total_exec_each (all_list k1) k1 = Some k2"
    using fold_opt_total [where P = "\<lambda>_. True" and f = get_total_exec_each] get_total_exec_each_total by blast
  ultimately show ?thesis using k1 by (simp add: thread_foreach_def intr_get_level_def)
qed

lemma schedule_total:
  assumes "intr k = INTR_OFF" "status (threads k (cur k)) \<noteq> THREAD_RUNNING" "is_thread k (hd (ready_list k @ [idle_thread k]))"
    and "hd (ready_list k @ [idle_thread k]) \<noteq> cur k"
  shows "\<exists>k'. schedule k = Some k'"
proof -
  let ?n = "hd (ready_list k @ [idle_thread k])"
  have "next_thread_to_run k = (?n, k\<lparr>ready_list := tl (ready_list k)\<rparr>)"
    by (auto simp: next_thread_to_run_def split: list.splits)
  then show ?thesis
    using assms by (auto simp: schedule_def thread_schedule_tail_def running_thread_def is_thread_def opt_simps intr_get_level_def)
qed

lemma exit_schedules:
  assumes inv: "sched_inv {cur k} k" and idle: "idle_thread k \<noteq> NULL" "cur k \<noteq> idle_thread k" and j: "kcore j = kcore (intr_disable k)"
  shows "\<exists>k'. schedule (push_ops (cur k) [Not_reached] (upd (cur k) (\<lambda>th. th\<lparr>status := THREAD_DYING\<rparr>)
    (j\<lparr>all_list := remove1 (cur k) (all_list j)\<rparr>))) = Some k'"
proof -
  note c = kcore_eqD [OF j]
  define n where "n = hd (ready_list j @ [idle_thread k])"
  have "set (ready_list j) = set (ready_list k)" using mset_eq_setD [OF c(8)] by (simp add: intr_disable_def)
  then have "n \<in> set (all_list k)" "n \<noteq> cur k"
    using inv idle cur_facts(3) [OF inv] by (cases "ready_list j"; auto simp: n_def sched_inv_def inv_status_def inv_idle_def)+
  then have "is_thread k n" "n \<noteq> cur k" using inv by (auto simp: sched_inv_def inv_pages_def is_thread_def)
  then show ?thesis
    using c(3,7,11,19) by (intro schedule_total) (auto simp: n_def is_thread_def intr_disable_def)
qed

text \<open>
  C40: When \<open>thread_exit\<close> takes the kernel down.  It divides the waiting time by \<open>repeat\<close>, which counts the returns from \<open>schedule\<close>
  and is 0 for a thread that has never been switched out.  In every state with an idle thread, the call panics exactly for a
  thread other than \<open>main\<close> and the idle thread whose count is 0.
\<close>

theorem exit_unswitched_panics:
  assumes "reachable k" "ops (threads k (cur k)) = Thread_exit # rest" "idle_thread k \<noteq> NULL"
  shows "step Exec k = None \<longleftrightarrow> cur k \<noteq> initial_thread k \<and> cur k \<noteq> idle_thread k \<and> repeat (threads k (cur k)) = 0"
proof -
  have inv: "sched_inv {cur k} k" "\<not> in_external_intr k" using reachable_inv [OF assms(1)] by auto
  have ni: "cur k \<noteq> idle_thread k" using cur_facts(8) [OF inv(1)] wf_rest(1) [OF inv(1) assms(2)] assms(2) inert_no_loop by auto
  let ?k = "pop_op k" and ?t = "cur k"
  have cur: "thread_current ?k = Some ?t" "thread_current (intr_disable ?k) = Some ?t" "intr (intr_disable ?k) = INTR_OFF"
    using cur_facts [OF inv(1)] by (simp_all add: thread_current_def running_thread_def is_thread_def intr_disable_def)
  obtain j where j: "(if sjf (intr_disable ?k) then do {
       k \<leftarrow> calc_new_total_exec (total_exec (threads (intr_disable ?k) ?t)) (curr_exec (threads (intr_disable ?k) ?t)) (intr_disable ?k);
       k \<leftarrow> thread_foreach get_total_exec_each k;
       Some (sort_ready (duration_cmp k) k) } else Some (intr_disable ?k)) = Some j"
    using sjf_refresh_total [OF cur(2,3)] by (cases "sjf (intr_disable ?k)") auto
  have core: "kcore j = kcore (intr_disable ?k)"
    using j by (auto simp: opt_simps split: if_splits dest!: calc_new_total_exec_core thread_foreach_core [OF _ get_total_exec_each_core])
  let ?m = "\<lambda>i. push_ops ?t [Not_reached] (upd ?t (\<lambda>th. th\<lparr>status := THREAD_DYING\<rparr>) (i\<lparr>all_list := remove1 ?t (all_list i)\<rparr>))"
  have fin: "\<exists>k'. schedule (?m i) = Some k'" if "kcore i = kcore (intr_disable ?k)" for i
    using exit_schedules [of ?k i] that pop_inv [OF inv(1) assms(2)] assms(3) ni by simp
  have idle: "initial_thread j = initial_thread k" "idle_thread j = idle_thread k"
    using kcore_eqD(11,12) [OF core] by (simp_all add: intr_disable_def)
  have cur': "thread_current (i\<lparr>all_list := a\<rparr>) = Some ?t" if "kcore i = kcore (intr_disable ?k)" for i a
    using cur(2) kcore_eqD(1,3,7) [OF that] by (auto simp: thread_current_def running_thread_def is_thread_def)
  have W: "kcore (j\<lparr>total_wait_time := w\<rparr>) = kcore (intr_disable ?k)" for w using core by simp
  have rep: "repeat (threads ?k ?t) = repeat (threads k ?t)" "\<not> intr_context ?k" using inv(2) by (simp_all add: intr_context_def)
  have "thread_exit ?k = (do {
      i \<leftarrow> (if ?t \<noteq> initial_thread k \<and> ?t \<noteq> idle_thread k then do {
             ASSERT (repeat (threads k ?t) \<noteq> 0);
             Some (j\<lparr>total_wait_time := i32 (total_wait_time j + total_wait (threads j ?t) sdiv repeat (threads k ?t))\<rparr>) }
           else Some j);
      schedule (?m i) })"
    unfolding thread_exit_def Let_def cur(1) Option.bind.simps j rep(1) idle
    using cur' [OF core] cur' [OF W] by (auto simp: rep(2) ni)
  moreover have "step Exec k = thread_exit ?k" using assms(2) by simp
  moreover have "schedule (?m j) \<noteq> None" "schedule (?m (j\<lparr>total_wait_time := w\<rparr>)) \<noteq> None" for w using fin [OF core] fin [OF W] by auto
  ultimately show ?thesis using ni by (cases "cur k = initial_thread k"; cases "repeat (threads k (cur k)) = 0") simp_all
qed

theorem exit_unswitched_panics_witness:
  "\<exists>k. example False False False exit_script = Some k \<and> ops (threads k (cur k)) = [Thread_exit] \<and> step Exec k = None"
proof -
  obtain k where k: "example False False False exit_script = Some k" "ops (threads k (cur k)) = [Thread_exit]" "cur k = 12288"
     "initial_thread k = 4096" "idle_thread k = 8192" "repeat (threads k 12288) = 0"
    using exit_run by blast
  then show ?thesis using exit_unswitched_panics [OF example_reachable [OF k(1)] k(2)] by (simp del: step.simps)
qed

end
