(* ===== verification/Words.thy ===== *)
theory Words
  imports Prelude "HOL-Library.Word"
begin

unbundle bit_operations_syntax

text \<open>
  Machine words as numbers: the lemmas on \<open>unat\<close> that the components with 32- and 64-bit words share.
\<close>

lemma unat32_less: "unat (w :: 32 word) < 4294967296"
  using unsigned_less [where 'a = nat, of w] by simp

lemma unat64_less: "unat (w :: 64 word) < 18446744073709551616"
  using unsigned_less [where 'a = nat, of w] by simp

lemma unat32_of_nat: "n < 4294967296 \<Longrightarrow> unat (of_nat n :: 32 word) = n"
  by (simp add: unat_of_nat take_bit_eq_mod)

lemma unat_ucast_up: "unat (ucast (w :: 32 word) :: 64 word) = unat w"
  using unat32_less [of w] by (simp add: unsigned_ucast_eq take_bit_nat_eq_self)

lemma unat_ucast_down: "unat (ucast (w :: 64 word) :: 32 word) = unat w mod 4294967296"
  by (simp add: unsigned_ucast_eq take_bit_eq_mod)

lemma unat_drop_bit: "unat (drop_bit k w) = unat w div 2 ^ k" for w :: "'a :: len word"
  unfolding unsigned_drop_bit_eq by (simp add: drop_bit_eq_div take_bit_nat_eq_self)

lemma unat_push_bit: "unat w * 2 ^ k < 2 ^ LENGTH('a) \<Longrightarrow> unat (push_bit k w) = unat w * 2 ^ k" for w :: "'a :: len word"
proof -
  assume *: "unat w * 2 ^ k < 2 ^ LENGTH('a)"
  show ?thesis
  proof (cases "k < LENGTH('a)")
    case True
    show ?thesis unfolding unsigned_push_bit_eq using * by (simp add: push_bit_eq_mult take_bit_nat_eq_self)
  next
    case False
    then have "unat w = 0" using * by (cases "unat w") (auto simp: not_less dest: power_increasing [of "LENGTH('a)" k "2 :: nat"])
    then have "w = 0" by (simp add: unat_eq_zero)
    then show ?thesis by simp
  qed
qed

end
