(* ===== verification/Vaddr.thy ===== *)
theory Vaddr
  imports Words
begin

unbundle bit_operations_syntax

text \<open>
  \<open>threads/vaddr.h\<close> and \<open>threads/pte.h\<close>: virtual addresses, page directory entries and page table entries,
  as 32-bit words.  Pointers and \<open>uintptr_t\<close> are the same type here; pointer arithmetic wraps.
\<close>

section \<open>Virtual addresses\<close>

definition BITMASK :: "nat \<Rightarrow> nat \<Rightarrow> 32 word" where
  "BITMASK shift cnt = push_bit shift (push_bit cnt 1 - 1)"

definition PGSHIFT :: nat where "PGSHIFT = 0"
definition PGBITS :: nat where "PGBITS = 12"
definition PGMASK :: "32 word" where "PGMASK = BITMASK PGSHIFT PGBITS"

definition pg_ofs :: "32 word \<Rightarrow> 32 word" where
  "pg_ofs va = va AND PGMASK"

definition pg_no :: "32 word \<Rightarrow> 32 word" where
  "pg_no va = drop_bit PGBITS va"

definition pg_round_up :: "32 word \<Rightarrow> 32 word" where
  "pg_round_up va = (va + of_nat PGSIZE - 1) AND NOT PGMASK"

definition pg_round_down :: "32 word \<Rightarrow> 32 word" where
  "pg_round_down va = va AND NOT PGMASK"

definition PHYS_BASE :: "32 word" where "PHYS_BASE = 0xc0000000"

definition is_user_vaddr :: "32 word \<Rightarrow> bool" where
  "is_user_vaddr vaddr \<longleftrightarrow> vaddr < PHYS_BASE"

definition is_kernel_vaddr :: "32 word \<Rightarrow> bool" where
  "is_kernel_vaddr vaddr \<longleftrightarrow> vaddr \<ge> PHYS_BASE"

definition ptov :: "32 word \<Rightarrow> 32 word option" where
  "ptov paddr = do { ASSERT (paddr < PHYS_BASE); Some (paddr + PHYS_BASE) }"

definition vtop :: "32 word \<Rightarrow> 32 word option" where
  "vtop vaddr = do { ASSERT (is_kernel_vaddr vaddr); Some (vaddr - PHYS_BASE) }"

section \<open>Page table entries\<close>

definition PTBITS :: nat where "PTBITS = 10"
definition PTSHIFT :: nat where "PTSHIFT = PGBITS"
definition PTMASK :: "32 word" where "PTMASK = BITMASK PTSHIFT PTBITS"
definition PDSHIFT :: nat where "PDSHIFT = PTSHIFT + PTBITS"

definition pt_no :: "32 word \<Rightarrow> 32 word" where
  "pt_no va = drop_bit PTSHIFT (va AND PTMASK)"

definition pd_no :: "32 word \<Rightarrow> 32 word" where
  "pd_no va = drop_bit PDSHIFT va"

definition PTE_ADDR :: "32 word" where "PTE_ADDR = 0xfffff000"
definition PTE_P :: "32 word" where "PTE_P = 0x1"
definition PTE_W :: "32 word" where "PTE_W = 0x2"
definition PTE_U :: "32 word" where "PTE_U = 0x4"
definition PTE_A :: "32 word" where "PTE_A = 0x20"
definition PTE_D :: "32 word" where "PTE_D = 0x40"

definition pde_create :: "32 word \<Rightarrow> 32 word option" where
  "pde_create pt = do {
     ASSERT (pg_ofs pt = 0);
     p \<leftarrow> vtop pt;
     Some (p OR PTE_U OR PTE_P OR PTE_W) }"

definition pde_get_pt :: "32 word \<Rightarrow> 32 word option" where
  "pde_get_pt pde = do { ASSERT (pde AND PTE_P \<noteq> 0); ptov (pde AND PTE_ADDR) }"

definition pte_create_kernel :: "32 word \<Rightarrow> bool \<Rightarrow> 32 word option" where
  "pte_create_kernel page writable = do {
     ASSERT (pg_ofs page = 0);
     p \<leftarrow> vtop page;
     Some (p OR PTE_P OR (if writable then PTE_W else 0)) }"

definition pte_create_user :: "32 word \<Rightarrow> bool \<Rightarrow> 32 word option" where
  "pte_create_user page writable = do { e \<leftarrow> pte_create_kernel page writable; Some (e OR PTE_U) }"

definition pte_get_page :: "32 word \<Rightarrow> 32 word option" where
  "pte_get_page pte = ptov (pte AND PTE_ADDR)"

section \<open>Arithmetic of pages\<close>

named_theorems addr_simps \<open>page arithmetic on words as arithmetic on numbers\<close>

lemmas addr_defs = BITMASK_def PGSHIFT_def PGBITS_def PGMASK_def pg_ofs_def pg_no_def pg_round_up_def pg_round_down_def
  PHYS_BASE_def is_user_vaddr_def is_kernel_vaddr_def PTBITS_def PTSHIFT_def PTMASK_def PDSHIFT_def pt_no_def pd_no_def

lemma PGMASK_mask: "PGMASK = mask 12"
  by (simp add: addr_defs mask_eq_exp_minus_1)

lemma pg_ofs_take: "pg_ofs va = take_bit 12 va"
  by (simp add: pg_ofs_def PGMASK_mask take_bit_eq_mask)

lemma unat_pg_ofs [addr_simps]: "unat (pg_ofs va) = unat va mod 4096"
  by (simp add: pg_ofs_take take_bit_eq_mod unat_mod_distrib)

lemma unat_pg_no [addr_simps]: "unat (pg_no va) = unat va div 4096"
  by (simp add: pg_no_def PGBITS_def drop_bit_eq_div unat_div_distrib)

lemma unat_pd_no [addr_simps]: "unat (pd_no va) = unat va div 2 ^ 22"
  by (simp add: addr_defs drop_bit_eq_div unat_div_distrib)

lemma PTMASK_eq: "PTMASK = push_bit 12 (mask 10)"
  by (simp add: PTMASK_def BITMASK_def PTSHIFT_def PGBITS_def PTBITS_def mask_eq_exp_minus_1)

lemma pt_no_eq: "pt_no va = take_bit 10 (drop_bit 12 va)"
  by (rule bit_eqI) (auto simp: pt_no_def PTMASK_eq PTSHIFT_def PGBITS_def bit_simps)

lemma unat_pt_no [addr_simps]: "unat (pt_no va) = unat va div 4096 mod 1024"
  by (simp add: pt_no_eq take_bit_eq_mod drop_bit_eq_div unat_mod_distrib unat_div_distrib)

lemma pg_round_down_sub: "pg_round_down va = va - pg_ofs va"
proof -
  have "pg_round_down va = push_bit 12 (drop_bit 12 va)"
    by (rule bit_eqI) (auto simp: pg_round_down_def PGMASK_mask bit_simps)
  then show ?thesis using bits_ident [of 12 va] by (simp add: pg_ofs_take eq_diff_eq)
qed

lemma unat_pg_round_down [addr_simps]: "unat (pg_round_down va) = unat va - unat va mod 4096"
proof -
  have "pg_ofs va \<le> va" by (simp add: word_le_nat_alt unat_pg_ofs)
  then show ?thesis by (simp add: pg_round_down_sub unat_sub unat_pg_ofs)
qed

lemma pg_round_up_down: "pg_round_up va = pg_round_down (va + 4095)"
  by (simp add: pg_round_up_def pg_round_down_def PGSIZE_def add.assoc add.commute [of va])

lemma aligned_iff: "pg_ofs va = 0 \<longleftrightarrow> 4096 dvd unat va"
  by (metis unat_pg_ofs unat_0 unat_eq_zero dvd_eq_mod_eq_0)

text \<open>An address is its directory index, its table index and its offset.\<close>

lemma vaddr_decompose: "va = push_bit 22 (pd_no va) OR push_bit 12 (pt_no va) OR pg_ofs va"
proof (rule bit_eqI)
  fix n assume "possible_bit TYPE(32 word) n"
  consider "n < 12" | "12 \<le> n" "n < 22" | "22 \<le> n" by linarith
  then show "bit va n = bit (push_bit 22 (pd_no va) OR push_bit 12 (pt_no va) OR pg_ofs va) n"
    by cases (use \<open>possible_bit TYPE(32 word) n\<close> in \<open>auto simp: pt_no_eq pg_ofs_take pd_no_def PDSHIFT_def PTSHIFT_def PTBITS_def PGBITS_def bit_simps\<close>)
qed

lemma pg_no_eq_iff: "pg_no a = pg_no b \<longleftrightarrow> pd_no a = pd_no b \<and> pt_no a = pt_no b"
proof -
  have *: "unat (pd_no va) = unat (pg_no va) div 1024" "unat (pt_no va) = unat (pg_no va) mod 1024" for va
    by (simp_all add: unat_pd_no unat_pg_no unat_pt_no div_mult2_eq [symmetric])
  show ?thesis unfolding word_unat_eq_iff * by (metis div_mult_mod_eq)
qed

section \<open>Translation and entries\<close>

lemma ptov_vtop: "vtop v = Some p \<Longrightarrow> ptov p = Some v"
  using unat32_less [of v] by (auto simp: vtop_def ptov_def addr_defs word_less_nat_alt word_le_nat_alt unat_sub)

text \<open>
  The assertion in \<open>ptov\<close> admits physical addresses up to 3 GB, but the mapping starts at \<open>PHYS_BASE\<close> and the
  addition wraps: the result is a kernel address, and \<open>vtop\<close> takes it back, exactly for the first gigabyte.
\<close>

lemma ptov_range:
  assumes "p < PHYS_BASE"
  shows "\<exists>v. ptov p = Some v \<and> (if p < 0x40000000 then vtop v = Some p else is_user_vaddr v \<and> vtop v = None)"
proof (cases "p < 0x40000000")
  case True
  then show ?thesis using assms
    by (auto simp: ptov_def vtop_def addr_defs word_less_nat_alt word_le_nat_alt unat_word_ariths)
next
  case False
  then have "unat p + 0xc0000000 \<ge> 2 ^ 32" by (simp add: word_less_nat_alt)
  then have "(unat p + 0xc0000000) mod 2 ^ 32 = unat p + 0xc0000000 - 2 ^ 32" using unat32_less [of p]
    by (subst le_mod_geq) simp_all
  then show ?thesis using False assms
    by (auto simp: ptov_def vtop_def addr_defs word_less_nat_alt word_le_nat_alt unat_word_ariths)
qed

text \<open>The flags are single bits.\<close>

lemma bit_PTE_P: "bit PTE_P n \<longleftrightarrow> n = 0"
  using bit_exp_iff [where 'a = "32 word" and m = 0 and n = n] by (auto simp: PTE_P_def possible_bit_def)

lemma and_PTE_P: "e AND PTE_P = 0 \<longleftrightarrow> \<not> bit e 0"
  using bit_iff_and_push_bit_not_eq_0 [of e 0] by (simp add: PTE_P_def)

lemma bit_PTE_W: "bit PTE_W n \<longleftrightarrow> n = 1"
  using bit_exp_iff [where 'a = "32 word" and m = 1 and n = n] by (auto simp: PTE_W_def possible_bit_def)

lemma and_PTE_W: "e AND PTE_W = 0 \<longleftrightarrow> \<not> bit e 1"
  using bit_iff_and_push_bit_not_eq_0 [of e 1] by (simp add: PTE_W_def)

lemma bit_PTE_U: "bit PTE_U n \<longleftrightarrow> n = 2"
  using bit_exp_iff [where 'a = "32 word" and m = 2 and n = n] by (auto simp: PTE_U_def possible_bit_def)

lemma and_PTE_U: "e AND PTE_U = 0 \<longleftrightarrow> \<not> bit e 2"
  using bit_iff_and_push_bit_not_eq_0 [of e 2] by (simp add: PTE_U_def)

lemma bit_PTE_A: "bit PTE_A n \<longleftrightarrow> n = 5"
  using bit_exp_iff [where 'a = "32 word" and m = 5 and n = n] by (auto simp: PTE_A_def possible_bit_def)

lemma and_PTE_A: "e AND PTE_A = 0 \<longleftrightarrow> \<not> bit e 5"
  using bit_iff_and_push_bit_not_eq_0 [of e 5] by (simp add: PTE_A_def)

lemma bit_PTE_D: "bit PTE_D n \<longleftrightarrow> n = 6"
  using bit_exp_iff [where 'a = "32 word" and m = 6 and n = n] by (auto simp: PTE_D_def possible_bit_def)

lemma and_PTE_D: "e AND PTE_D = 0 \<longleftrightarrow> \<not> bit e 6"
  using bit_iff_and_push_bit_not_eq_0 [of e 6] by (simp add: PTE_D_def)

lemmas flag_simps = bit_PTE_P bit_PTE_W bit_PTE_U bit_PTE_A bit_PTE_D and_PTE_P and_PTE_W and_PTE_U and_PTE_A and_PTE_D

lemma PTE_ADDR_not_mask: "PTE_ADDR = NOT (mask 12)"
  by (simp add: PTE_ADDR_def mask_eq_exp_minus_1)

lemma vtop_aligned: "vtop page = Some p \<Longrightarrow> pg_ofs page = 0 \<Longrightarrow> pg_ofs p = 0"
  by (auto simp: vtop_def aligned_iff is_kernel_vaddr_def PHYS_BASE_def word_le_nat_alt unat_sub intro!: dvd_diff_nat)

lemma aligned_bits: "pg_ofs a = 0 \<Longrightarrow> n < 12 \<Longrightarrow> \<not> bit a n"
  unfolding pg_ofs_take by (metis bit_0_eq bit_take_bit_iff bot_apply bot_bool_def)

text \<open>A page address survives being put into an entry, whatever the flags.\<close>

lemma entry_addr:
  assumes "vtop page = Some p" "pg_ofs page = 0" "f AND NOT (mask 12) = 0"
  shows "ptov ((p OR f) AND PTE_ADDR) = Some page"
proof -
  have "p AND NOT (mask 12) = p"
    using pg_round_down_sub [of p] vtop_aligned [OF assms(1,2)] by (simp add: pg_round_down_def PGMASK_mask)
  then have "(p OR f) AND PTE_ADDR = p" using assms(3) by (simp add: PTE_ADDR_not_mask bit.conj_disj_distrib2)
  then show ?thesis using ptov_vtop [OF assms(1)] by simp
qed

lemma flag_small: "f \<in> {0, PTE_P, PTE_W, PTE_U, PTE_A, PTE_D} \<Longrightarrow> f AND NOT (mask 12) = 0"
  by (auto simp: PTE_P_def PTE_W_def PTE_U_def PTE_A_def PTE_D_def mask_eq_exp_minus_1)

lemma pte_roundtrip:
  assumes "pte_create_user page w = Some e"
  shows "pte_get_page e = Some page" "bit e 0" "bit e 1 = w" "bit e 2" "\<not> bit e 6"
proof -
  obtain p where p: "pg_ofs page = 0" "vtop page = Some p" "e = p OR (PTE_P OR (if w then PTE_W else 0) OR PTE_U)"
    using assms by (auto simp: pte_create_user_def pte_create_kernel_def or.assoc elim!: bind_SomeE)
  show "pte_get_page e = Some page"
    unfolding pte_get_page_def p(3) by (rule entry_addr [OF p(2,1)]) (simp add: bit.conj_disj_distrib2 flag_small)
  show "bit e 0" "bit e 1 = w" "bit e 2" "\<not> bit e 6"
    using aligned_bits [OF vtop_aligned [OF p(2,1)]] by (auto simp: p(3) bit_or_iff flag_simps)
qed

lemma pde_roundtrip:
  assumes "pde_create pt = Some e"
  shows "pde_get_pt e = Some pt" "bit e 0"
proof -
  obtain p where p: "pg_ofs pt = 0" "vtop pt = Some p" "e = p OR (PTE_U OR PTE_P OR PTE_W)"
    using assms by (auto simp: pde_create_def or.assoc elim!: bind_SomeE)
  have "ptov (e AND PTE_ADDR) = Some pt"
    unfolding p(3) by (rule entry_addr [OF p(2,1)]) (simp add: bit.conj_disj_distrib2 flag_small)
  moreover show "bit e 0" by (simp add: p(3) bit_or_iff flag_simps)
  ultimately show "pde_get_pt e = Some pt" by (simp add: pde_get_pt_def flag_simps)
qed

lemma create_kernel_page:
  assumes "pg_ofs page = 0" "is_kernel_vaddr page"
  shows "\<exists>e. pte_create_user page w = Some e" "\<exists>e. pde_create page = Some e"
  using assms by (auto simp: pte_create_user_def pte_create_kernel_def pde_create_def vtop_def)

end
