(* ===== verification/Bitmap.thy ===== *)
theory Bitmap
  imports Prelude "HOL-Library.Word"
begin

unbundle bit_operations_syntax

text \<open>
  \<open>lib/kernel/bitmap.c\<close>: an array of bits in an array of 32-bit elements.  \<open>size_t\<close> arithmetic wraps modulo
  \<open>2 ^ 32\<close>; an access outside the element array is a panic.  The abstract view \<open>bits_of\<close> is the list of the
  bits.
\<close>

section \<open>Operations\<close>

record bitmap =
  bit_cnt :: nat
  bits :: "32 word list"

definition ELEM_BITS :: nat where "ELEM_BITS = 32"

definition BITMAP_ERROR :: nat where "BITMAP_ERROR = 2 ^ 32 - 1"

definition elem_idx :: "nat \<Rightarrow> nat" where
  "elem_idx bit_idx = bit_idx div ELEM_BITS"

definition bit_mask :: "nat \<Rightarrow> 32 word" where
  "bit_mask bit_idx = push_bit (bit_idx mod ELEM_BITS) 1"

text \<open>\<open>DIV_ROUND_UP (X, STEP)\<close> of \<open>lib/round.h\<close>\<close>

definition DIV_ROUND_UP :: "nat \<Rightarrow> nat \<Rightarrow> nat" where
  "DIV_ROUND_UP x step = u32 (x + step - 1) div step"

definition elem_cnt :: "nat \<Rightarrow> nat" where
  "elem_cnt n = DIV_ROUND_UP n ELEM_BITS"

definition byte_cnt :: "nat \<Rightarrow> nat" where
  "byte_cnt n = u32 (4 * elem_cnt n)"

definition last_mask :: "bitmap \<Rightarrow> 32 word" where
  "last_mask b = (let last_bits = bit_cnt b mod ELEM_BITS
     in if last_bits \<noteq> 0 then push_bit last_bits 1 - 1 else - 1)"

definition bitmap_buf_size :: "nat \<Rightarrow> nat" where
  "bitmap_buf_size n = u32 (8 + byte_cnt n)"

definition bitmap_size :: "bitmap \<Rightarrow> nat" where
  "bitmap_size b = bit_cnt b"

definition bitmap_mark :: "bitmap \<Rightarrow> nat \<Rightarrow> bitmap option" where
  "bitmap_mark b bit_idx = do {
     let idx = elem_idx bit_idx;
     let mask = bit_mask bit_idx;
     ASSERT (idx < length (bits b));
     Some (b\<lparr>bits := (bits b)[idx := (bits b ! idx) OR mask]\<rparr>) }"

definition bitmap_reset :: "bitmap \<Rightarrow> nat \<Rightarrow> bitmap option" where
  "bitmap_reset b bit_idx = do {
     let idx = elem_idx bit_idx;
     let mask = bit_mask bit_idx;
     ASSERT (idx < length (bits b));
     Some (b\<lparr>bits := (bits b)[idx := (bits b ! idx) AND NOT mask]\<rparr>) }"

definition bitmap_flip :: "bitmap \<Rightarrow> nat \<Rightarrow> bitmap option" where
  "bitmap_flip b bit_idx = do {
     let idx = elem_idx bit_idx;
     let mask = bit_mask bit_idx;
     ASSERT (idx < length (bits b));
     Some (b\<lparr>bits := (bits b)[idx := (bits b ! idx) XOR mask]\<rparr>) }"

definition bitmap_set :: "bitmap \<Rightarrow> nat \<Rightarrow> bool \<Rightarrow> bitmap option" where
  "bitmap_set b idx v = do {
     ASSERT (idx < bit_cnt b);
     if v then bitmap_mark b idx else bitmap_reset b idx }"

definition bitmap_test :: "bitmap \<Rightarrow> nat \<Rightarrow> bool option" where
  "bitmap_test b idx = do {
     ASSERT (idx < bit_cnt b);
     ASSERT (elem_idx idx < length (bits b));
     Some ((bits b ! elem_idx idx) AND bit_mask idx \<noteq> 0) }"

text \<open>The loop over the \<open>n\<close> bits from \<open>i\<close> on.\<close>

primrec set_loop :: "nat \<Rightarrow> nat \<Rightarrow> bool \<Rightarrow> bitmap \<Rightarrow> bitmap option" where
  "set_loop 0 i v b = Some b"
| "set_loop (Suc n) i v b = do { b \<leftarrow> bitmap_set b (u32 i) v; set_loop n (i + 1) v b }"

definition bitmap_set_multiple :: "bitmap \<Rightarrow> nat \<Rightarrow> nat \<Rightarrow> bool \<Rightarrow> bitmap option" where
  "bitmap_set_multiple b start cnt v = do {
     ASSERT (start \<le> bit_cnt b);
     ASSERT (u32 (start + cnt) \<le> bit_cnt b);
     set_loop cnt start v b }"

definition bitmap_set_all :: "bitmap \<Rightarrow> bool \<Rightarrow> bitmap option" where
  "bitmap_set_all b v = bitmap_set_multiple b 0 (bitmap_size b) v"

primrec count_loop :: "nat \<Rightarrow> nat \<Rightarrow> bool \<Rightarrow> bitmap \<Rightarrow> nat \<Rightarrow> nat option" where
  "count_loop 0 i v b value_cnt = Some value_cnt"
| "count_loop (Suc n) i v b value_cnt = do {
     x \<leftarrow> bitmap_test b (u32 i);
     count_loop n (i + 1) v b (if x = v then u32 (value_cnt + 1) else value_cnt) }"

definition bitmap_count :: "bitmap \<Rightarrow> nat \<Rightarrow> nat \<Rightarrow> bool \<Rightarrow> nat option" where
  "bitmap_count b start cnt v = do {
     ASSERT (start \<le> bit_cnt b);
     ASSERT (u32 (start + cnt) \<le> bit_cnt b);
     count_loop cnt start v b 0 }"

primrec contains_loop :: "nat \<Rightarrow> nat \<Rightarrow> bool \<Rightarrow> bitmap \<Rightarrow> bool option" where
  "contains_loop 0 i v b = Some False"
| "contains_loop (Suc n) i v b = do {
     x \<leftarrow> bitmap_test b (u32 i);
     if x = v then Some True else contains_loop n (i + 1) v b }"

definition bitmap_contains :: "bitmap \<Rightarrow> nat \<Rightarrow> nat \<Rightarrow> bool \<Rightarrow> bool option" where
  "bitmap_contains b start cnt v = do {
     ASSERT (start \<le> bit_cnt b);
     ASSERT (u32 (start + cnt) \<le> bit_cnt b);
     contains_loop cnt start v b }"

definition bitmap_any :: "bitmap \<Rightarrow> nat \<Rightarrow> nat \<Rightarrow> bool option" where
  "bitmap_any b start cnt = bitmap_contains b start cnt True"

definition bitmap_none :: "bitmap \<Rightarrow> nat \<Rightarrow> nat \<Rightarrow> bool option" where
  "bitmap_none b start cnt = map_option Not (bitmap_contains b start cnt True)"

definition bitmap_all :: "bitmap \<Rightarrow> nat \<Rightarrow> nat \<Rightarrow> bool option" where
  "bitmap_all b start cnt = map_option Not (bitmap_contains b start cnt False)"

text \<open>The loop over the \<open>n\<close> candidates from \<open>i\<close> on.\<close>

primrec scan_loop :: "nat \<Rightarrow> nat \<Rightarrow> nat \<Rightarrow> bool \<Rightarrow> bitmap \<Rightarrow> nat option" where
  "scan_loop 0 i cnt v b = Some BITMAP_ERROR"
| "scan_loop (Suc n) i cnt v b = do {
     c \<leftarrow> bitmap_contains b i cnt (\<not> v);
     if \<not> c then Some i else scan_loop n (i + 1) cnt v b }"

definition bitmap_scan :: "bitmap \<Rightarrow> nat \<Rightarrow> nat \<Rightarrow> bool \<Rightarrow> nat option" where
  "bitmap_scan b start cnt v = do {
     ASSERT (start \<le> bit_cnt b);
     if cnt \<le> bit_cnt b
     then (let last = bit_cnt b - cnt in scan_loop (last + 1 - start) start cnt v b)
     else Some BITMAP_ERROR }"

definition bitmap_scan_and_flip :: "bitmap \<Rightarrow> nat \<Rightarrow> nat \<Rightarrow> bool \<Rightarrow> (nat \<times> bitmap) option" where
  "bitmap_scan_and_flip b start cnt v = do {
     idx \<leftarrow> bitmap_scan b start cnt v;
     if idx \<noteq> BITMAP_ERROR then do { b \<leftarrow> bitmap_set_multiple b idx cnt (\<not> v); Some (idx, b) }
     else Some (idx, b) }"

text \<open>
  \<open>bitmap_create\<close> and \<open>bitmap_create_in_buf\<close> lay out a bitmap in memory with whatever is in it, and clear it.
  What \<open>malloc\<close> returns is a parameter: \<open>struct_ok\<close> whether the structure could be allocated, and \<open>garbage\<close> the
  elements, \<open>None\<close> for a null pointer.  The result is \<open>Some None\<close> for a null pointer.
\<close>

definition bitmap_create :: "nat \<Rightarrow> bool \<Rightarrow> 32 word list option \<Rightarrow> bitmap option option" where
  "bitmap_create n struct_ok garbage =
     (if struct_ok \<and> (garbage \<noteq> None \<or> n = 0)
      then map_option Some (bitmap_set_all \<lparr>bit_cnt = n, bits = (case garbage of None \<Rightarrow> [] | Some g \<Rightarrow> g)\<rparr> False)
      else Some None)"

definition bitmap_create_in_buf :: "nat \<Rightarrow> 32 word list \<Rightarrow> nat \<Rightarrow> bitmap option" where
  "bitmap_create_in_buf n block block_size = do {
     ASSERT (bitmap_buf_size n \<le> block_size);
     bitmap_set_all \<lparr>bit_cnt = n, bits = block\<rparr> False }"

section \<open>File format\<close>

definition bitmap_file_size :: "bitmap \<Rightarrow> nat" where
  "bitmap_file_size b = byte_cnt (bit_cnt b)"

text \<open>
  \<open>data\<close> is what \<open>file_read_at\<close> has left in \<open>bits\<close>, element by element, and \<open>n\<close> the number of bytes it says it has read;
  \<open>bitmap_write\<close> gives the elements it passes to \<open>file_write_at\<close>, which says that it has written \<open>n\<close> bytes.
\<close>

definition bitmap_read :: "bitmap \<Rightarrow> 32 word list \<Rightarrow> nat \<Rightarrow> (bool \<times> bitmap) option" where
  "bitmap_read b data n =
     (if bit_cnt b > 0 then do {
        let size = byte_cnt (bit_cnt b);
        let success = (n = size);
        let b = b\<lparr>bits := data\<rparr>;
        let i = elem_cnt (bit_cnt b) - 1;
        ASSERT (i < length (bits b));
        Some (success, b\<lparr>bits := (bits b)[i := (bits b ! i) AND last_mask b]\<rparr>) }
      else Some (True, b))"

definition bitmap_write :: "bitmap \<Rightarrow> nat \<Rightarrow> 32 word list \<times> bool" where
  "bitmap_write b n = (bits b, n = byte_cnt (bit_cnt b))"

section \<open>Abstract view\<close>

definition bit_at :: "bitmap \<Rightarrow> nat \<Rightarrow> bool" where
  "bit_at b i = bit (bits b ! (i div 32)) (i mod 32)"

definition bits_of :: "bitmap \<Rightarrow> bool list" where
  "bits_of b = map (bit_at b) [0..<bit_cnt b]"

definition bitmap_ok :: "bitmap \<Rightarrow> bool" where
  "bitmap_ok b \<longleftrightarrow> bit_cnt b < 2 ^ 32 - 32 \<and> length (bits b) = elem_cnt (bit_cnt b)"

lemma length_bits_of [simp]: "length (bits_of b) = bit_cnt b"
  by (simp add: bits_of_def)

lemma nth_bits_of: "i < bit_cnt b \<Longrightarrow> bits_of b ! i = bit_at b i"
  by (simp add: bits_of_def)

lemma elem_cnt_eq: "n < 2 ^ 32 - 32 \<Longrightarrow> elem_cnt n = (n + 31) div 32"
  by (simp add: elem_cnt_def DIV_ROUND_UP_def ELEM_BITS_def u32_id)

lemma elem_idx_less:
  assumes "bitmap_ok b" "i < bit_cnt b"
  shows "i div 32 < length (bits b)"
proof -
  have "i div 32 < (bit_cnt b + 31) div 32" using assms(2) by linarith
  then show ?thesis using assms(1) by (simp add: bitmap_ok_def elem_cnt_eq)
qed

lemma bit_exp32: "n < 32 \<Longrightarrow> bit (2 ^ m :: 32 word) n \<longleftrightarrow> n = m"
  by (auto simp: bit_exp_iff)

lemma bit_at_update:
  assumes "i div 32 < length (bits b)" "\<And>n. n < 32 \<Longrightarrow> bit w n = (if n = i mod 32 then v else bit (bits b ! (i div 32)) n)"
  shows "bit_at (b\<lparr>bits := (bits b)[i div 32 := w]\<rparr>) j = (if j = i then v else bit_at b j)"
proof (cases "j div 32 = i div 32")
  case True
  then have "j = i \<longleftrightarrow> j mod 32 = i mod 32" by (metis div_mult_mod_eq)
  then show ?thesis using assms True by (simp add: bit_at_def)
qed (use assms in \<open>auto simp: bit_at_def\<close>)

lemma bits_of_update:
  assumes "bitmap_ok b" "i < bit_cnt b" "\<And>n. n < 32 \<Longrightarrow> bit w n = (if n = i mod 32 then v else bit (bits b ! (i div 32)) n)"
  shows "bits_of (b\<lparr>bits := (bits b)[i div 32 := w]\<rparr>) = (bits_of b)[i := v] \<and> bitmap_ok (b\<lparr>bits := (bits b)[i div 32 := w]\<rparr>)"
  using assms(1,2) bit_at_update [OF elem_idx_less [OF assms(1,2)] assms(3)]
  by (auto simp: bitmap_ok_def nth_list_update nth_bits_of intro!: nth_equalityI)

lemmas elem_defs = elem_idx_def bit_mask_def ELEM_BITS_def

lemma bitmap_set_eq:
  assumes "bitmap_ok b" "i < bit_cnt b"
  shows "\<exists>b'. bitmap_set b i v = Some b' \<and> bitmap_ok b' \<and> bit_cnt b' = bit_cnt b \<and> bits_of b' = (bits_of b)[i := v]"
proof -
  let ?w = "bits b ! (i div 32)" and ?m = "push_bit (i mod 32) 1 :: 32 word"
  have "bit (if v then ?w OR ?m else ?w AND NOT ?m) n = (if n = i mod 32 then v else bit ?w n)" if "n < 32" for n
    using that by (auto simp: bit_or_iff bit_and_iff bit_not_iff bit_exp32)
  from bits_of_update [OF assms this] show ?thesis
    using assms elem_idx_less [OF assms]
    by (cases v) (auto simp: bitmap_set_def bitmap_mark_def bitmap_reset_def elem_defs Let_def)
qed

lemma bitmap_flip_eq:
  assumes "bitmap_ok b" "i < bit_cnt b"
  shows "\<exists>b'. bitmap_flip b i = Some b' \<and> bitmap_ok b' \<and> bit_cnt b' = bit_cnt b \<and> bits_of b' = (bits_of b)[i := \<not> bits_of b ! i]"
proof -
  let ?w = "bits b ! (i div 32)" and ?m = "push_bit (i mod 32) 1 :: 32 word"
  have "bit (?w XOR ?m) n = (if n = i mod 32 then \<not> bits_of b ! i else bit ?w n)" if "n < 32" for n
    using that assms by (auto simp: bit_xor_iff bit_exp32 nth_bits_of bit_at_def)
  from bits_of_update [OF assms this] show ?thesis
    using elem_idx_less [OF assms] by (auto simp: bitmap_flip_def elem_defs Let_def)
qed

lemma bitmap_test_eq:
  assumes "bitmap_ok b" "i < bit_cnt b"
  shows "bitmap_test b i = Some (bits_of b ! i)"
  using assms elem_idx_less [OF assms]
  by (simp add: bitmap_test_def elem_defs nth_bits_of bit_at_def bit_iff_and_push_bit_not_eq_0)

section \<open>Ranges of bits\<close>

definition fill :: "nat \<Rightarrow> nat \<Rightarrow> 'a \<Rightarrow> 'a list \<Rightarrow> 'a list" where
  "fill i n v xs = take i xs @ replicate n v @ drop (i + n) xs"

lemma fill_0 [simp]: "fill i 0 v xs = xs"
  by (simp add: fill_def)

lemma length_fill [simp]: "i + n \<le> length xs \<Longrightarrow> length (fill i n v xs) = length xs"
  by (simp add: fill_def)

lemma nth_fill: "i + n \<le> length xs \<Longrightarrow> j < length xs \<Longrightarrow> fill i n v xs ! j = (if i \<le> j \<and> j < i + n then v else xs ! j)"
  by (auto simp: fill_def nth_append)

lemma fill_Suc: "i + Suc n \<le> length xs \<Longrightarrow> fill (Suc i) n v (xs[i := v]) = fill i (Suc n) v xs"
  by (rule nth_equalityI) (auto simp: nth_fill nth_list_update)

lemma set_loop_eq:
  assumes "bitmap_ok b" "i + n \<le> bit_cnt b"
  shows "\<exists>b'. set_loop n i v b = Some b' \<and> bitmap_ok b' \<and> bit_cnt b' = bit_cnt b \<and> bits_of b' = fill i n v (bits_of b)"
  using assms
proof (induction n arbitrary: i b)
  case (Suc n)
  then have i: "i < bit_cnt b" "u32 i = i" by (auto simp: bitmap_ok_def u32_id)
  then obtain b1 where "bitmap_set b (u32 i) v = Some b1" "bitmap_ok b1" "bit_cnt b1 = bit_cnt b" "bits_of b1 = (bits_of b)[i := v]"
    using bitmap_set_eq [OF Suc.prems(1) i(1)] by auto
  then show ?case using Suc.IH [of b1 "Suc i"] Suc.prems(2) by (auto simp: fill_Suc)
qed simp

lemma bitmap_set_multiple_eq:
  assumes "bitmap_ok b" "start + cnt \<le> bit_cnt b"
  shows "\<exists>b'. bitmap_set_multiple b start cnt v = Some b' \<and> bitmap_ok b' \<and> bit_cnt b' = bit_cnt b \<and>
    bits_of b' = fill start cnt v (bits_of b)"
  using set_loop_eq [OF assms] assms by (simp add: bitmap_set_multiple_def bitmap_ok_def u32_id)

lemma contains_loop_eq:
  assumes "bitmap_ok b" "i + n \<le> bit_cnt b"
  shows "contains_loop n i v b = Some (\<exists>j<n. bits_of b ! (i + j) = v)"
  using assms(2)
proof (induction n arbitrary: i)
  case (Suc n)
  then have i: "i < bit_cnt b" "u32 i = i" using assms(1) by (auto simp: bitmap_ok_def u32_id)
  have "(\<exists>j<Suc n. bits_of b ! (i + j) = v) \<longleftrightarrow> bits_of b ! i = v \<or> (\<exists>j<n. bits_of b ! (Suc i + j) = v)"
    by (simp only: Ex_less_Suc2) simp
  then show ?case using Suc i bitmap_test_eq [OF assms(1) i(1)] by simp
qed simp

lemma bitmap_contains_eq:
  assumes "bitmap_ok b" "start + cnt \<le> bit_cnt b"
  shows "bitmap_contains b start cnt v = Some (\<exists>j<cnt. bits_of b ! (start + j) = v)"
  using contains_loop_eq [OF assms] assms by (simp add: bitmap_contains_def bitmap_ok_def u32_id)

lemma count_loop_eq:
  assumes "bitmap_ok b" "i + n \<le> bit_cnt b" "c + n < 2 ^ 32"
  shows "count_loop n i v b c = Some (c + length (filter (\<lambda>x. x = v) (take n (drop i (bits_of b)))))"
  using assms(2,3)
proof (induction n arbitrary: i c)
  case (Suc n)
  then have i: "i < bit_cnt b" "u32 i = i" "u32 (c + 1) = c + 1" using assms(1) by (auto simp: bitmap_ok_def u32_id)
  have "drop i (bits_of b) = bits_of b ! i # drop (Suc i) (bits_of b)" using i(1) by (simp add: Cons_nth_drop_Suc)
  then show ?case using Suc i bitmap_test_eq [OF assms(1) i(1)] by simp
qed simp

lemma bitmap_count_eq:
  assumes "bitmap_ok b" "start + cnt \<le> bit_cnt b"
  shows "bitmap_count b start cnt v = Some (length (filter (\<lambda>x. x = v) (take cnt (drop start (bits_of b)))))"
  using count_loop_eq [OF assms, of 0 v] assms by (simp add: bitmap_count_def bitmap_ok_def u32_id)

section \<open>Scanning\<close>

definition first_group :: "bool list \<Rightarrow> nat \<Rightarrow> nat \<Rightarrow> bool \<Rightarrow> nat option" where
  "first_group xs start cnt v = find (\<lambda>i. \<forall>j<cnt. xs ! (i + j) = v) [start..<Suc (length xs) - cnt]"

lemma scan_loop_eq:
  assumes "bitmap_ok b" "i + n + cnt \<le> Suc (bit_cnt b)" "cnt \<le> bit_cnt b"
  shows "scan_loop n i cnt v b = Some (case find (\<lambda>i. \<forall>j<cnt. bits_of b ! (i + j) = v) [i..<i + n] of
     Some k \<Rightarrow> k | None \<Rightarrow> BITMAP_ERROR)"
  using assms(2)
proof (induction n arbitrary: i)
  case (Suc n)
  then have "bitmap_contains b i cnt (\<not> v) = Some (\<exists>j<cnt. bits_of b ! (i + j) = (\<not> v))"
    using assms by (intro bitmap_contains_eq) auto
  moreover have "[i..<i + Suc n] = i # [Suc i..<Suc i + n]" by (simp add: upt_rec)
  ultimately show ?case using Suc by auto
qed simp

lemma bitmap_scan_eq:
  assumes "bitmap_ok b" "start \<le> bit_cnt b"
  shows "bitmap_scan b start cnt v = Some (case first_group (bits_of b) start cnt v of
     Some k \<Rightarrow> k | None \<Rightarrow> BITMAP_ERROR)"
proof (cases "cnt \<le> bit_cnt b")
  case True
  show ?thesis
  proof (cases "start \<le> bit_cnt b - cnt")
    case le: True
    then have "start + (bit_cnt b - cnt + 1 - start) = Suc (bit_cnt b) - cnt" using True by simp
    then show ?thesis
      using scan_loop_eq [OF assms(1) _ True, of start "bit_cnt b - cnt + 1 - start" v] True le assms(2)
      by (simp add: bitmap_scan_def first_group_def Let_def)
  qed (use assms(2) True in \<open>simp add: bitmap_scan_def first_group_def Let_def\<close>)
qed (use assms(2) in \<open>simp add: bitmap_scan_def first_group_def\<close>)

lemma first_group_Some:
  assumes "first_group xs start cnt v = Some i"
  shows "start \<le> i \<and> i + cnt \<le> length xs \<and> (\<forall>j<cnt. xs ! (i + j) = v)"
  using assms by (auto simp: first_group_def find_Some_iff)

lemma first_group_None:
  assumes "first_group xs start cnt v = None" "start \<le> i" "i + cnt \<le> length xs"
  shows "\<exists>j<cnt. xs ! (i + j) \<noteq> v"
  using assms by (auto simp: first_group_def find_None_iff)

lemma first_group_least:
  assumes "first_group xs start cnt v = Some i" "start \<le> k" "k < i"
  shows "\<exists>j<cnt. xs ! (k + j) \<noteq> v"
proof -
  obtain m where m: "m < length [start..<Suc (length xs) - cnt]" "i = [start..<Suc (length xs) - cnt] ! m"
    "\<forall>j<m. \<not> (\<forall>l<cnt. xs ! ([start..<Suc (length xs) - cnt] ! j + l) = v)"
    using assms(1) by (auto simp: first_group_def find_Some_iff)
  then have "i = start + m" by simp
  then have "k - start < m" "[start..<Suc (length xs) - cnt] ! (k - start) = k" using assms(2,3) m(1) by auto
  then show ?thesis using m(3) by fastforce
qed

lemma bitmap_scan_and_flip_eq:
  assumes "bitmap_ok b" "start \<le> bit_cnt b"
  shows "case first_group (bits_of b) start cnt v of
      None \<Rightarrow> bitmap_scan_and_flip b start cnt v = Some (BITMAP_ERROR, b)
    | Some i \<Rightarrow> \<exists>b'. bitmap_scan_and_flip b start cnt v = Some (i, b') \<and> bitmap_ok b' \<and> bits_of b' = fill i cnt (\<not> v) (bits_of b)"
proof (cases "first_group (bits_of b) start cnt v")
  case None
  then show ?thesis using bitmap_scan_eq [OF assms, of cnt v] by (simp add: bitmap_scan_and_flip_def)
next
  case (Some i)
  then have i: "i + cnt \<le> bit_cnt b" using first_group_Some by fastforce
  then have "i \<noteq> BITMAP_ERROR" using assms(1) by (auto simp: bitmap_ok_def BITMAP_ERROR_def)
  then show ?thesis
    using Some bitmap_scan_eq [OF assms, of cnt v] bitmap_set_multiple_eq [OF assms(1) i, of "\<not> v"]
    by (auto simp: bitmap_scan_and_flip_def)
qed

section \<open>The interface of the allocators\<close>

text \<open>
  The page allocator and the free map of the file system use a bitmap to hand out groups of consecutive units:
  \<open>True\<close> is in use.  What they rely on:
\<close>

locale unit_map =
  fixes ok :: "'b \<Rightarrow> bool" and view :: "'b \<Rightarrow> bool list" and scan_flip :: "'b \<Rightarrow> nat \<Rightarrow> nat \<Rightarrow> bool \<Rightarrow> (nat \<times> 'b) option"
    and set_multiple :: "'b \<Rightarrow> nat \<Rightarrow> nat \<Rightarrow> bool \<Rightarrow> 'b option" and all_set :: "'b \<Rightarrow> nat \<Rightarrow> nat \<Rightarrow> bool option" and err :: nat
  assumes small: "ok b \<Longrightarrow> length (view b) < err"
    and scan: "ok b \<Longrightarrow> case first_group (view b) 0 cnt False of
        None \<Rightarrow> scan_flip b 0 cnt False = Some (err, b)
      | Some i \<Rightarrow> \<exists>b'. scan_flip b 0 cnt False = Some (i, b') \<and> ok b' \<and> view b' = fill i cnt True (view b)"
    and set_spec: "ok b \<Longrightarrow> i + n \<le> length (view b) \<Longrightarrow>
        \<exists>b'. set_multiple b i n v = Some b' \<and> ok b' \<and> view b' = fill i n v (view b)"
    and all_spec: "ok b \<Longrightarrow> i + n \<le> length (view b) \<Longrightarrow> all_set b i n = Some (\<forall>j<n. view b ! (i + j))"
begin

text \<open>Allocation hands out free units only, and marks exactly those.\<close>

lemma alloc:
  assumes "ok b"
  obtains (full) "scan_flip b 0 cnt False = Some (err, b)" "\<And>i. i + cnt \<le> length (view b) \<Longrightarrow> \<exists>j<cnt. view b ! (i + j)"
  | (group) i b' where "scan_flip b 0 cnt False = Some (i, b')" "i \<noteq> err" "ok b'" "i + cnt \<le> length (view b)"
      "\<And>j. j < cnt \<Longrightarrow> \<not> view b ! (i + j)" "view b' = fill i cnt True (view b)"
      "\<And>k. k < i \<Longrightarrow> \<exists>j<cnt. view b ! (k + j)"
proof (cases "first_group (view b) 0 cnt False")
  case None
  then show ?thesis using full scan [OF assms, of cnt] first_group_None [OF None] by auto
next
  case (Some i)
  have f: "i + cnt \<le> length (view b)" "\<And>j. j < cnt \<Longrightarrow> \<not> view b ! (i + j)" using first_group_Some [OF Some] by auto
  obtain b' where "scan_flip b 0 cnt False = Some (i, b')" "ok b'" "view b' = fill i cnt True (view b)"
    using scan [OF assms, of cnt] Some by auto
  then show ?thesis using group [of i b'] f small [OF assms] first_group_least [OF Some] by fastforce
qed

text \<open>Releasing what was allocated restores the map.\<close>

lemma release_alloc:
  assumes "ok b" "scan_flip b 0 cnt False = Some (i, b')" "i \<noteq> err"
  shows "all_set b' i cnt = Some True \<and> (\<exists>b''. set_multiple b' i cnt False = Some b'' \<and> ok b'' \<and> view b'' = view b)"
proof (rule alloc [OF assms(1), of cnt])
  fix i0 b0 assume *: "scan_flip b 0 cnt False = Some (i0, b0)" "ok b0" "i0 + cnt \<le> length (view b)"
    "\<And>j. j < cnt \<Longrightarrow> \<not> view b ! (i0 + j)" "view b0 = fill i0 cnt True (view b)"
  then have eq: "i0 = i" "b0 = b'" using assms(2) by auto
  have "fill i cnt False (fill i cnt True (view b)) = view b"
    using * unfolding eq by (intro nth_equalityI) (auto simp: nth_fill dest: le_Suc_ex)
  moreover have "\<forall>j<cnt. view b' ! (i + j)" using * unfolding eq by (simp add: nth_fill)
  ultimately show ?thesis using * set_spec [of b' i cnt False] all_spec [of b' i cnt] unfolding eq by auto
qed (use assms(2,3) in auto)

end

interpretation units: unit_map bitmap_ok bits_of bitmap_scan_and_flip bitmap_set_multiple bitmap_all BITMAP_ERROR
proof
  fix b cnt assume ok: "bitmap_ok b"
  show "length (bits_of b) < BITMAP_ERROR" using ok by (simp add: bitmap_ok_def BITMAP_ERROR_def)
  show "case first_group (bits_of b) 0 cnt False of
        None \<Rightarrow> bitmap_scan_and_flip b 0 cnt False = Some (BITMAP_ERROR, b)
      | Some i \<Rightarrow> \<exists>b'. bitmap_scan_and_flip b 0 cnt False = Some (i, b') \<and> bitmap_ok b' \<and> bits_of b' = fill i cnt True (bits_of b)"
    using bitmap_scan_and_flip_eq [OF ok, of 0 cnt False] by (simp split: option.splits)
next
  fix b i n v assume "bitmap_ok b" "i + n \<le> length (bits_of b)"
  then show "\<exists>b'. bitmap_set_multiple b i n v = Some b' \<and> bitmap_ok b' \<and> bits_of b' = fill i n v (bits_of b)"
    "bitmap_all b i n = Some (\<forall>j<n. bits_of b ! (i + j))"
    using bitmap_set_multiple_eq [of b i n v] by (auto simp: bitmap_all_def bitmap_contains_eq)
qed

section \<open>Properties\<close>

text \<open>
  \<open>bitmap_scan_and_flip\<close> finds the first group of \<open>cnt\<close> consecutive bits equal to \<open>v\<close> at or after \<open>start\<close> and
  flips exactly these; when there is none it returns \<open>BITMAP_ERROR\<close> and changes nothing.
\<close>

theorem bitmap_scan_and_flip_correct:
  assumes "bitmap_ok b" "start \<le> bit_cnt b"
  shows "\<exists>idx b'. bitmap_scan_and_flip b start cnt v = Some (idx, b') \<and> bitmap_ok b' \<and>
    (if \<exists>i\<ge>start. i + cnt \<le> bit_cnt b \<and> (\<forall>j<cnt. bits_of b ! (i + j) = v)
     then start \<le> idx \<and> idx + cnt \<le> bit_cnt b \<and> (\<forall>j<cnt. bits_of b ! (idx + j) = v) \<and>
       (\<forall>k. start \<le> k \<and> k < idx \<longrightarrow> (\<exists>j<cnt. bits_of b ! (k + j) \<noteq> v)) \<and>
       bits_of b' = map (\<lambda>k. if idx \<le> k \<and> k < idx + cnt then \<not> v else bits_of b ! k) [0..<bit_cnt b]
     else idx = BITMAP_ERROR \<and> b' = b)"
proof (cases "first_group (bits_of b) start cnt v")
  case None
  then show ?thesis
    using bitmap_scan_and_flip_eq [OF assms, of cnt v] first_group_None [OF None] assms(1) by fastforce
next
  case (Some i)
  note f = first_group_Some [OF Some]
  obtain b' where "bitmap_scan_and_flip b start cnt v = Some (i, b')" "bitmap_ok b'" "bits_of b' = fill i cnt (\<not> v) (bits_of b)"
    using bitmap_scan_and_flip_eq [OF assms, of cnt v] Some by auto
  moreover have "fill i cnt (\<not> v) (bits_of b) = map (\<lambda>k. if i \<le> k \<and> k < i + cnt then \<not> v else bits_of b ! k) [0..<bit_cnt b]"
    using f by (intro nth_equalityI) (auto simp: nth_fill)
  ultimately show ?thesis using f first_group_least [OF Some] by auto
qed

theorem bitmap_scan_and_flip_correct_witness:
  "\<exists>b'. bitmap_scan_and_flip \<lparr>bit_cnt = 6, bits = [11]\<rparr> 0 2 False = Some (4, b') \<and>
     bits_of b' = [True, True, False, True, True, True]"
proof -
  let ?b = "\<lparr>bit_cnt = 6, bits = [11]\<rparr>"
  have ok: "bitmap_ok ?b" by (simp add: bitmap_ok_def elem_cnt_eq)
  have view: "bits_of ?b = [True, True, False, True, False, False]"
    by (simp add: bits_of_def bit_at_def upt_rec)
  have "\<exists>i\<ge>0. i + 2 \<le> bit_cnt ?b \<and> (\<forall>j<2. bits_of ?b ! (i + j) = False)"
    by (rule exI [of _ 4]) (simp add: view numeral_2_eq_2 less_Suc_eq)
  then obtain idx b' where r: "bitmap_scan_and_flip ?b 0 2 False = Some (idx, b')" "idx + 2 \<le> 6"
    "\<forall>j<2. bits_of ?b ! (idx + j) = False" "\<forall>k. 0 \<le> k \<and> k < idx \<longrightarrow> (\<exists>j<2. bits_of ?b ! (k + j) \<noteq> False)"
    "bits_of b' = map (\<lambda>k. if idx \<le> k \<and> k < idx + 2 then \<not> False else bits_of ?b ! k) [0..<6]"
    using bitmap_scan_and_flip_correct [OF ok, of 0 2 False] by auto
  have "idx = 0 \<or> idx = 1 \<or> idx = 2 \<or> idx = 3 \<or> idx = 4" using r(2) by arith
  moreover have "\<not> bits_of ?b ! idx" "\<not> bits_of ?b ! (idx + 1)" using spec [OF r(3), of 0] spec [OF r(3), of 1] by simp_all
  ultimately have "idx = 4" unfolding view by (elim disjE) simp_all
  then show ?thesis using r(1,5) by (simp add: view upt_rec)
qed

lemma last_elem:
  fixes n :: nat
  assumes "0 < n"
  shows "n = 32 * ((n - 1) div 32) + (if n mod 32 = 0 then 32 else n mod 32)"
proof (cases "n mod 32 = 0")
  case True
  then obtain q where "n = 32 * q" by (auto simp: mod_eq_0_iff_dvd)
  then obtain p where "n = 32 * Suc p" using assms by (cases q) auto
  then show ?thesis by simp
next
  case False
  then have "(n - 1) div 32 = n div 32" by (metis Suc_pred' assms div_Suc mod_0_imp_dvd dvd_imp_mod_0)
  then show ?thesis using False by simp
qed

lemma digits_unique: "32 * a + r = i \<Longrightarrow> r < 32 \<Longrightarrow> 32 * l + m \<le> i \<Longrightarrow> i < 32 * Suc l \<Longrightarrow> a = l \<and> m \<le> (r :: nat)"
  by (cases "a = l") auto

lemma last_mask_bit: "n < 32 \<Longrightarrow> bit (last_mask b) n \<longleftrightarrow> bit_cnt b mod 32 = 0 \<or> n < bit_cnt b mod 32"
  by (auto simp: last_mask_def Let_def ELEM_BITS_def mask_eq_exp_minus_1 [symmetric] bit_mask_iff)

text \<open>Clearing the unused bits of the last element does not change the bitmap.\<close>

lemma mask_last_bits:
  assumes "bitmap_ok b" "0 < bit_cnt b" "l = elem_cnt (bit_cnt b) - 1"
  shows "l < length (bits b)" "bits_of (b\<lparr>bits := (bits b)[l := (bits b ! l) AND last_mask b]\<rparr>) = bits_of b"
    "bit_cnt b \<le> i \<Longrightarrow> i < 32 * length (bits b) \<Longrightarrow> \<not> bit_at (b\<lparr>bits := (bits b)[l := (bits b ! l) AND last_mask b]\<rparr>) i"
proof -
  have l: "l = (bit_cnt b - 1) div 32" and len: "length (bits b) = Suc l"
    using assms by (simp_all add: bitmap_ok_def elem_cnt_eq)
  have bits: "bit_cnt b = 32 * l + (if bit_cnt b mod 32 = 0 then 32 else bit_cnt b mod 32)"
    using last_elem assms(2) unfolding l by simp
  let ?b = "b\<lparr>bits := (bits b)[l := (bits b ! l) AND last_mask b]\<rparr>"
  have at: "bit_at ?b i \<longleftrightarrow> bit_at b i \<and> (i div 32 = l \<longrightarrow> bit_cnt b mod 32 = 0 \<or> i mod 32 < bit_cnt b mod 32)" if "i div 32 \<le> l" for i
    using that len last_mask_bit [of "i mod 32" b] by (auto simp: bit_at_def nth_list_update bit_and_iff)
  show "l < length (bits b)" using len by simp
  have "i div 32 \<le> l \<and> (i div 32 = l \<longrightarrow> bit_cnt b mod 32 = 0 \<or> i mod 32 < bit_cnt b mod 32)" if "i < bit_cnt b" for i
  proof -
    have "32 * (i div 32) + i mod 32 = i" "i mod 32 < 32" by simp_all
    then show ?thesis using that bits by (cases "bit_cnt b mod 32 = 0"; simp; linarith)
  qed
  then show "bits_of ?b = bits_of b" using at by (auto simp: bits_of_def)
  assume that: "bit_cnt b \<le> i" "i < 32 * length (bits b)"
  have i: "32 * (i div 32) + i mod 32 = i" "i mod 32 < 32" by simp_all
  have m: "bit_cnt b mod 32 \<noteq> 0" "32 * l + bit_cnt b mod 32 \<le> i" using that bits len by (auto split: if_splits)
  have "i div 32 = l \<and> \<not> (bit_cnt b mod 32 = 0 \<or> i mod 32 < bit_cnt b mod 32)"
    using digits_unique [OF i m(2)] m(1) that(2) len by simp
  then show "\<not> bit_at ?b i" using at [of i] by simp
qed

text \<open>
  A bitmap written to a file and read back is the same bitmap, and the unused bits of its last element are
  zero.
\<close>

theorem bitmap_file_roundtrip:
  assumes "bitmap_ok b" "bit_cnt c = bit_cnt b" "bitmap_write b (bitmap_file_size b) = (data, ok)"
  shows "ok \<and> (\<exists>c'. bitmap_read c data (bitmap_file_size b) = Some (True, c') \<and> bits_of c' = bits_of b \<and>
    (\<forall>i. bit_cnt b \<le> i \<and> i < 32 * length data \<and> 0 < bit_cnt b \<longrightarrow> \<not> bit_at c' i))"
proof (cases "bit_cnt b = 0")
  case False
  have data: "data = bits b" "ok" using assms(3) by (auto simp: bitmap_write_def bitmap_file_size_def)
  let ?c = "c\<lparr>bits := data\<rparr>"
  have c: "bitmap_ok ?c" "0 < bit_cnt ?c" "elem_cnt (bit_cnt b) - 1 = elem_cnt (bit_cnt ?c) - 1" "bits_of ?c = bits_of b"
    using assms(1,2) False data by (simp_all add: bitmap_ok_def bits_of_def bit_at_def)
  note mask = mask_last_bits [OF c(1-3)]
  then show ?thesis using False assms(2) data c(4) by (auto simp: bitmap_read_def bitmap_file_size_def Let_def)
next
  case True
  then show ?thesis using assms(2,3)
    by (auto simp: bitmap_read_def bitmap_write_def bitmap_file_size_def bits_of_def)
qed

theorem bitmap_file_roundtrip_witness:
  "\<exists>c'. bitmap_read \<lparr>bit_cnt = 3, bits = [0]\<rparr> [13] 4 = Some (True, c') \<and> bits_of c' = [True, False, True]"
proof -
  have ok: "bitmap_ok \<lparr>bit_cnt = 3, bits = [13]\<rparr>" "bitmap_file_size \<lparr>bit_cnt = 3, bits = [13]\<rparr> = 4"
    by (simp_all add: bitmap_ok_def bitmap_file_size_def byte_cnt_def elem_cnt_eq u32_id)
  have "bits_of \<lparr>bit_cnt = 3, bits = [13]\<rparr> = [True, False, True]"
    by (simp add: bits_of_def bit_at_def upt_rec)
  then show ?thesis
    using bitmap_file_roundtrip [OF ok(1), of "\<lparr>bit_cnt = 3, bits = [0]\<rparr>" "[13]" True] ok(2)
    by (auto simp: bitmap_write_def bitmap_file_size_def)
qed

end
