(* ===== verification/Palloc.thy ===== *)
theory Palloc
  imports Vaddr Bitmap
begin

unbundle bit_operations_syntax

text \<open>
  \<open>threads/palloc.c\<close>: the page allocator over its two pools.  Memory is an array of 32-bit words indexed by
  word-aligned addresses, which is how its clients in this development (the page tables) use it.  The bitmap of a pool
  lies in memory below the pool; it is kept in \<open>used_map\<close>.  The lock of a pool encloses the scan of the bitmap,
  which is one step here.
\<close>

section \<open>Operations\<close>

record pool =
  used_map :: bitmap
  base :: "32 word"

record palloc_state =
  kernel_pool :: pool
  user_pool :: pool
  mem :: "32 word \<Rightarrow> 32 word"

definition PAL_ASSERT :: "32 word" where "PAL_ASSERT = 1"
definition PAL_ZERO :: "32 word" where "PAL_ZERO = 2"
definition PAL_USER :: "32 word" where "PAL_USER = 4"

text \<open>\<open>memset\<close> over whole words: \<open>v\<close> is the byte repeated four times, \<open>n\<close> the number of bytes.\<close>

definition memset_words :: "32 word \<Rightarrow> 32 word \<Rightarrow> nat \<Rightarrow> (32 word \<Rightarrow> 32 word) \<Rightarrow> 32 word \<Rightarrow> 32 word" where
  "memset_words dst v n m = (\<lambda>a. if unat (a - dst) < n then v else m a)"

definition page_from_pool :: "pool \<Rightarrow> 32 word \<Rightarrow> bool" where
  "page_from_pool pool page =
     (let page_no = unat (pg_no page);
          start_page = unat (pg_no (base pool));
          end_page = u32 (start_page + bitmap_size (used_map pool))
      in page_no \<ge> start_page \<and> page_no < end_page)"

definition init_pool :: "32 word \<Rightarrow> nat \<Rightarrow> (32 word \<Rightarrow> 32 word) \<Rightarrow> pool option" where
  "init_pool start page_cnt m = do {
     let bm_pages = DIV_ROUND_UP (bitmap_buf_size page_cnt) PGSIZE;
     ASSERT (\<not> bm_pages > page_cnt);
     let page_cnt = page_cnt - bm_pages;
     let garbage = map (\<lambda>i. m (start + 8 + 4 * of_nat i)) [0..<elem_cnt page_cnt];
     b \<leftarrow> bitmap_create_in_buf page_cnt garbage (u32 (bm_pages * PGSIZE));
     Some \<lparr>used_map = b, base = start + of_nat (bm_pages * PGSIZE)\<rparr> }"

definition palloc_init :: "nat \<Rightarrow> 32 word \<Rightarrow> (32 word \<Rightarrow> 32 word) \<Rightarrow> palloc_state option" where
  "palloc_init user_page_limit init_ram_pages m = do {
     free_start \<leftarrow> ptov (1024 * 1024);
     free_end \<leftarrow> ptov (init_ram_pages * of_nat PGSIZE);
     let free_pages = unat (word_of_int (sint (free_end - free_start) sdiv int PGSIZE) :: 32 word);
     let user_pages = free_pages div 2;
     let user_pages = (if user_pages > user_page_limit then user_page_limit else user_pages);
     let kernel_pages = free_pages - user_pages;
     kp \<leftarrow> init_pool free_start kernel_pages m;
     up \<leftarrow> init_pool (free_start + of_nat (kernel_pages * PGSIZE)) user_pages m;
     Some \<lparr>kernel_pool = kp, user_pool = up, mem = m\<rparr> }"

definition palloc_get_multiple :: "32 word \<Rightarrow> nat \<Rightarrow> 'a palloc_state_scheme \<Rightarrow> (32 word \<times> 'a palloc_state_scheme) option" where
  "palloc_get_multiple flags page_cnt s =
     (if page_cnt = 0 then Some (0, s)
      else do {
        let pool = (if flags AND PAL_USER \<noteq> 0 then user_pool s else kernel_pool s);
        (page_idx, b) \<leftarrow> bitmap_scan_and_flip (used_map pool) 0 page_cnt False;
        let pool = pool\<lparr>used_map := b\<rparr>;
        let s = (if flags AND PAL_USER \<noteq> 0 then s\<lparr>user_pool := pool\<rparr> else s\<lparr>kernel_pool := pool\<rparr>);
        let pages = (if page_idx \<noteq> BITMAP_ERROR then base pool + of_nat (PGSIZE * page_idx) else 0);
        if pages \<noteq> 0
        then Some (pages, if flags AND PAL_ZERO \<noteq> 0
                          then s\<lparr>mem := memset_words pages 0 (u32 (PGSIZE * page_cnt)) (mem s)\<rparr> else s)
        else do { ASSERT (flags AND PAL_ASSERT = 0); Some (pages, s) } })"

definition palloc_get_page :: "32 word \<Rightarrow> 'a palloc_state_scheme \<Rightarrow> (32 word \<times> 'a palloc_state_scheme) option" where
  "palloc_get_page flags = palloc_get_multiple flags 1"

definition palloc_free_multiple :: "32 word \<Rightarrow> nat \<Rightarrow> 'a palloc_state_scheme \<Rightarrow> 'a palloc_state_scheme option" where
  "palloc_free_multiple pages page_cnt s = do {
     ASSERT (pg_ofs pages = 0);
     if pages = 0 \<or> page_cnt = 0 then Some s
     else do {
       ASSERT (page_from_pool (kernel_pool s) pages \<or> page_from_pool (user_pool s) pages);
       let from_kernel = page_from_pool (kernel_pool s) pages;
       let pool = (if from_kernel then kernel_pool s else user_pool s);
       let page_idx = unat (pg_no pages - pg_no (base pool));
       let s = s\<lparr>mem := memset_words pages 0xcccccccc (u32 (PGSIZE * page_cnt)) (mem s)\<rparr>;
       all_used \<leftarrow> bitmap_all (used_map pool) page_idx page_cnt;
       ASSERT all_used;
       b \<leftarrow> bitmap_set_multiple (used_map pool) page_idx page_cnt False;
       Some (if from_kernel then s\<lparr>kernel_pool := pool\<lparr>used_map := b\<rparr>\<rparr> else s\<lparr>user_pool := pool\<lparr>used_map := b\<rparr>\<rparr>) } }"

definition palloc_free_page :: "32 word \<Rightarrow> 'a palloc_state_scheme \<Rightarrow> 'a palloc_state_scheme option" where
  "palloc_free_page page = palloc_free_multiple page 1"

section \<open>Well-formed pools\<close>

definition pool_ok :: "pool \<Rightarrow> bool" where
  "pool_ok p \<longleftrightarrow> bitmap_ok (used_map p) \<and> pg_ofs (base p) = 0 \<and> is_kernel_vaddr (base p) \<and>
     unat (base p) + PGSIZE * bit_cnt (used_map p) \<le> 2 ^ 32"

definition pool_page :: "pool \<Rightarrow> nat \<Rightarrow> 32 word" where
  "pool_page p i = base p + of_nat (PGSIZE * i)"

definition palloc_ok :: "'a palloc_state_scheme \<Rightarrow> bool" where
  "palloc_ok s \<longleftrightarrow> pool_ok (kernel_pool s) \<and> pool_ok (user_pool s) \<and>
     unat (base (kernel_pool s)) + PGSIZE * bit_cnt (used_map (kernel_pool s)) \<le> unat (base (user_pool s))"

text \<open>The pages of a pool that are free, as addresses in increasing order.\<close>

definition free_list :: "pool \<Rightarrow> nat list" where
  "free_list p = map (\<lambda>i. unat (base p) + PGSIZE * i) (filter (\<lambda>i. \<not> bits_of (used_map p) ! i) [0..<bit_cnt (used_map p)])"

lemma unat_pool_page:
  assumes "pool_ok p" "i < bit_cnt (used_map p)"
  shows "unat (pool_page p i) = unat (base p) + 4096 * i"
proof -
  have le: "unat (base p) + 4096 * Suc i \<le> 2 ^ 32"
    using assms mult_le_mono2 [of "Suc i" "bit_cnt (used_map p)" 4096] by (simp add: pool_ok_def PGSIZE_def)
  then have "unat (of_nat (4096 * i) :: 32 word) = 4096 * i" by (intro unat32_of_nat) simp
  then show ?thesis using le by (simp add: pool_page_def PGSIZE_def unat_word_ariths)
qed

lemma pool_page_aligned:
  assumes "pool_ok p" "i < bit_cnt (used_map p)"
  shows "pg_ofs (pool_page p i) = 0" "is_kernel_vaddr (pool_page p i)" "pool_page p i \<noteq> 0"
proof -
  show "pg_ofs (pool_page p i) = 0" using assms by (simp add: aligned_iff unat_pool_page pool_ok_def)
  show k: "is_kernel_vaddr (pool_page p i)"
    using assms(1) by (auto simp: is_kernel_vaddr_def word_le_nat_alt unat_pool_page [OF assms] pool_ok_def)
  then show "pool_page p i \<noteq> 0" by (auto simp: is_kernel_vaddr_def PHYS_BASE_def)
qed

lemma page_from_pool_iff:
  assumes "pool_ok p" "pg_ofs a = 0"
  shows "page_from_pool p a \<longleftrightarrow> (\<exists>i<bit_cnt (used_map p). a = pool_page p i)"
proof -
  obtain x y where xy: "unat a = 4096 * x" "unat (base p) = 4096 * y"
    using assms by (auto simp: pool_ok_def aligned_iff elim!: dvdE)
  have small: "u32 (y + bit_cnt (used_map p)) = y + bit_cnt (used_map p)"
    using assms(1) xy by (intro u32_id) (simp add: pool_ok_def PGSIZE_def)
  have page: "a = pool_page p i \<longleftrightarrow> x = y + i" if "i < bit_cnt (used_map p)" for i
    using unat_pool_page [OF assms(1) that] xy by (auto simp: word_unat_eq_iff)
  have "page_from_pool p a \<longleftrightarrow> y \<le> x \<and> x < y + bit_cnt (used_map p)"
    by (simp add: page_from_pool_def Let_def bitmap_size_def unat_pg_no xy small)
  also have "\<dots> \<longleftrightarrow> (\<exists>i<bit_cnt (used_map p). x = y + i)" by (auto simp: le_iff_add)
  also have "\<dots> \<longleftrightarrow> (\<exists>i<bit_cnt (used_map p). a = pool_page p i)" using page by blast
  finally show ?thesis .
qed

lemma pool_page_idx:
  assumes "pool_ok p" "i < bit_cnt (used_map p)"
  shows "unat (pg_no (pool_page p i) - pg_no (base p)) = i"
proof -
  obtain y where y: "unat (base p) = 4096 * y" using assms by (auto simp: pool_ok_def aligned_iff elim!: dvdE)
  have "pg_no (base p) \<le> pg_no (pool_page p i)"
    by (simp add: word_le_nat_alt unat_pg_no unat_pool_page [OF assms] div_le_mono)
  then show ?thesis by (simp add: unat_sub unat_pg_no unat_pool_page [OF assms] y)
qed

lemma pool_page_inj:
  assumes "pool_ok p" "i < bit_cnt (used_map p)" "j < bit_cnt (used_map p)" "pool_page p i = pool_page p j"
  shows "i = j"
  using pool_page_idx [OF assms(1,2)] pool_page_idx [OF assms(1,3)] unfolding assms(4) by (rule box_equals [OF refl])

lemma pools_disjoint:
  assumes "palloc_ok s" "i < bit_cnt (used_map (kernel_pool s))" "j < bit_cnt (used_map (user_pool s))"
  shows "pool_page (kernel_pool s) i \<noteq> pool_page (user_pool s) j"
proof
  assume eq: "pool_page (kernel_pool s) i = pool_page (user_pool s) j"
  have "unat (base (kernel_pool s)) + 4096 * i = unat (base (user_pool s)) + 4096 * j"
    using eq unat_pool_page [of "kernel_pool s" i] unat_pool_page [of "user_pool s" j] assms by (simp add: palloc_ok_def)
  then show False using assms(1,2) by (simp add: palloc_ok_def PGSIZE_def)
qed

text \<open>Which pages are in use.\<close>

definition in_use :: "pool \<Rightarrow> 32 word \<Rightarrow> bool" where
  "in_use p a \<longleftrightarrow> (\<exists>i<bit_cnt (used_map p). a = pool_page p i \<and> bits_of (used_map p) ! i)"

definition is_free :: "pool \<Rightarrow> 32 word \<Rightarrow> bool" where
  "is_free p a \<longleftrightarrow> (\<exists>i<bit_cnt (used_map p). a = pool_page p i \<and> \<not> bits_of (used_map p) ! i)"

text \<open>The \<open>cnt\<close> pages from number \<open>i\<close> on exist and are free.\<close>

definition group_free :: "pool \<Rightarrow> nat \<Rightarrow> nat \<Rightarrow> bool" where
  "group_free p cnt i \<longleftrightarrow> i + cnt \<le> bit_cnt (used_map p) \<and> (\<forall>j<cnt. is_free p (pool_page p (i + j)))"

text \<open>What changes in a pool when the \<open>cnt\<close> units from \<open>i\<close> on are set to \<open>v\<close>.\<close>

lemma used_map_update:
  assumes "pool_ok p" "bitmap_ok b" "bits_of b = fill i cnt v (bits_of (used_map p))" "i + cnt \<le> bit_cnt (used_map p)"
  shows "pool_ok (p\<lparr>used_map := b\<rparr>)" "bit_cnt b = bit_cnt (used_map p)" "pool_page (p\<lparr>used_map := b\<rparr>) = pool_page p"
proof -
  show n: "bit_cnt b = bit_cnt (used_map p)" using arg_cong [OF assms(3), of length] assms(4) by simp
  show "pool_ok (p\<lparr>used_map := b\<rparr>)" using assms(1,2) n by (simp add: pool_ok_def)
  show "pool_page (p\<lparr>used_map := b\<rparr>) = pool_page p" by (simp add: pool_page_def fun_eq_iff)
qed

lemma in_use_update:
  assumes "pool_ok p" "bitmap_ok b" "bits_of b = fill i cnt v (bits_of (used_map p))" "i + cnt \<le> bit_cnt (used_map p)"
  shows "in_use (p\<lparr>used_map := b\<rparr>) a \<longleftrightarrow>
    (if \<exists>j<cnt. a = pool_page p (i + j) then v else in_use p a)"
    "is_free (p\<lparr>used_map := b\<rparr>) a \<longleftrightarrow>
    (if \<exists>j<cnt. a = pool_page p (i + j) then \<not> v else is_free p a)"
proof -
  note upd = used_map_update [OF assms]
  have at: "bits_of b ! k = (if i \<le> k \<and> k < i + cnt then v else bits_of (used_map p) ! k)" if "k < bit_cnt (used_map p)" for k
    using that assms(3,4) by (simp add: nth_fill)
  have hit: "i \<le> k \<and> k < i + cnt \<longleftrightarrow> (\<exists>j<cnt. pool_page p k = pool_page p (i + j))" if "k < bit_cnt (used_map p)" for k
  proof
    assume "i \<le> k \<and> k < i + cnt"
    then show "\<exists>j<cnt. pool_page p k = pool_page p (i + j)" by (intro exI [of _ "k - i"]) auto
  next
    assume "\<exists>j<cnt. pool_page p k = pool_page p (i + j)"
    then obtain j where j: "j < cnt" "pool_page p k = pool_page p (i + j)" by blast
    then have "k = i + j" using assms(4) by (intro pool_page_inj [OF assms(1) that]) simp_all
    then show "i \<le> k \<and> k < i + cnt" using j(1) by simp
  qed
  have out: "\<exists>k<bit_cnt (used_map p). a = pool_page p k" if hit: "\<exists>j<cnt. a = pool_page p (i + j)"
  proof -
    obtain j where "j < cnt" "a = pool_page p (i + j)" using hit by blast
    then show ?thesis using assms(4) by (intro exI [of _ "i + j"]) simp
  qed
  show "in_use (p\<lparr>used_map := b\<rparr>) a \<longleftrightarrow> (if \<exists>j<cnt. a = pool_page p (i + j) then v else in_use p a)"
  proof (cases "\<exists>k<bit_cnt (used_map p). a = pool_page p k")
    case True
    then obtain k where k: "k < bit_cnt (used_map p)" "a = pool_page p k" by blast
    have "in_use (p\<lparr>used_map := b\<rparr>) a \<longleftrightarrow> bits_of b ! k" "in_use p a \<longleftrightarrow> bits_of (used_map p) ! k"
      using k pool_page_inj [OF assms(1)] by (auto simp: in_use_def upd)
    then show ?thesis using at [OF k(1)] hit [OF k(1)] k(2) by auto
  next
    case False
    then show ?thesis using out by (auto simp: in_use_def upd)
  qed
  show "is_free (p\<lparr>used_map := b\<rparr>) a \<longleftrightarrow> (if \<exists>j<cnt. a = pool_page p (i + j) then \<not> v else is_free p a)"
  proof (cases "\<exists>k<bit_cnt (used_map p). a = pool_page p k")
    case True
    then obtain k where k: "k < bit_cnt (used_map p)" "a = pool_page p k" by blast
    have "is_free (p\<lparr>used_map := b\<rparr>) a \<longleftrightarrow> \<not> bits_of b ! k" "is_free p a \<longleftrightarrow> \<not> bits_of (used_map p) ! k"
      using k pool_page_inj [OF assms(1)] by (auto simp: is_free_def upd)
    then show ?thesis using at [OF k(1)] hit [OF k(1)] k(2) by auto
  next
    case False
    then show ?thesis using out by (auto simp: is_free_def upd)
  qed
qed

section \<open>The operations on well-formed pools\<close>

text \<open>The pool that the flags select.\<close>

definition the_pool :: "bool \<Rightarrow> 'a palloc_state_scheme \<Rightarrow> pool" where
  "the_pool user s = (if user then user_pool s else kernel_pool s)"

definition set_pool :: "bool \<Rightarrow> bitmap \<Rightarrow> 'a palloc_state_scheme \<Rightarrow> 'a palloc_state_scheme" where
  "set_pool user b s = (if user then s\<lparr>user_pool := user_pool s\<lparr>used_map := b\<rparr>\<rparr> else s\<lparr>kernel_pool := kernel_pool s\<lparr>used_map := b\<rparr>\<rparr>)"

lemma the_pool_set_pool [simp]:
  "the_pool u (set_pool user b s) = (if u = user then (the_pool u s)\<lparr>used_map := b\<rparr> else the_pool u s)"
  "mem (set_pool user b s) = mem s"
  by (simp_all add: the_pool_def set_pool_def)

lemma the_pool_mem [simp]: "the_pool u (s\<lparr>mem := m\<rparr>) = the_pool u s"
  by (simp add: the_pool_def)

lemma palloc_ok_pool: "palloc_ok s \<Longrightarrow> pool_ok (the_pool user s)"
  by (simp add: palloc_ok_def the_pool_def)

lemma palloc_ok_mem [simp]: "palloc_ok (s\<lparr>mem := m\<rparr>) = palloc_ok s"
  by (simp add: palloc_ok_def)

lemma palloc_ok_set_pool:
  assumes "palloc_ok s" "bitmap_ok b" "bit_cnt b = bit_cnt (used_map (the_pool user s))"
  shows "palloc_ok (set_pool user b s)"
  using assms by (cases user) (simp_all add: palloc_ok_def set_pool_def the_pool_def pool_ok_def)

lemma set_pool_same [simp]: "set_pool user (used_map (the_pool user s)) s = s"
  by (cases user) (simp_all add: set_pool_def the_pool_def)

lemma is_free_nth:
  assumes "pool_ok p" "i < bit_cnt (used_map p)"
  shows "is_free p (pool_page p i) \<longleftrightarrow> \<not> bits_of (used_map p) ! i" "in_use p (pool_page p i) \<longleftrightarrow> bits_of (used_map p) ! i"
  using assms pool_page_inj by (auto simp: is_free_def in_use_def)

lemma free_not_in_use: "pool_ok p \<Longrightarrow> is_free p a \<Longrightarrow> \<not> in_use p a"
  by (auto simp: in_use_def is_free_nth(1))

lemma get_multiple_unfold:
  assumes "0 < cnt"
  shows "palloc_get_multiple flags cnt s = do {
     let user = (flags AND PAL_USER \<noteq> 0);
     (i, b) \<leftarrow> bitmap_scan_and_flip (used_map (the_pool user s)) 0 cnt False;
     let s' = set_pool user b s;
     let pages = (if i \<noteq> BITMAP_ERROR then pool_page (the_pool user s) i else 0);
     if pages \<noteq> 0
     then Some (pages, if flags AND PAL_ZERO \<noteq> 0 then s'\<lparr>mem := memset_words pages 0 (u32 (PGSIZE * cnt)) (mem s')\<rparr> else s')
     else do { ASSERT (flags AND PAL_ASSERT = 0); Some (pages, s') } }"
  using assms by (cases "flags AND PAL_USER = 0") (simp_all add: palloc_get_multiple_def the_pool_def set_pool_def pool_page_def Let_def case_prod_unfold cong: if_cong)

lemma get_multiple_Some:
  fixes flags :: "32 word" and s :: "'a palloc_state_scheme"
  assumes "palloc_ok s" "0 < cnt"
  defines "user \<equiv> flags AND PAL_USER \<noteq> 0"
  defines "p \<equiv> the_pool user s"
  obtains (full) "\<And>i. i + cnt \<le> bit_cnt (used_map p) \<Longrightarrow> \<exists>j<cnt. in_use p (pool_page p (i + j))"
      "palloc_get_multiple flags cnt s = (if flags AND PAL_ASSERT = 0 then Some (0, s) else None)"
  | (group) i b where "i + cnt \<le> bit_cnt (used_map p)" "\<And>j. j < cnt \<Longrightarrow> is_free p (pool_page p (i + j))"
      "bitmap_ok b" "bits_of b = fill i cnt True (bits_of (used_map p))"
      "\<And>k. k < i \<Longrightarrow> \<exists>j<cnt. in_use p (pool_page p (k + j))"
      "palloc_get_multiple flags cnt s = Some (pool_page p i,
         if flags AND PAL_ZERO \<noteq> 0
         then (set_pool user b s)\<lparr>mem := memset_words (pool_page p i) 0 (PGSIZE * cnt) (mem s)\<rparr> else set_pool user b s)"
proof -
  have ok: "pool_ok p" "bitmap_ok (used_map p)" using palloc_ok_pool [OF assms(1), of user] by (simp_all add: p_def pool_ok_def)
  show thesis
  proof (rule units.alloc [OF ok(2), of cnt])
    assume *: "bitmap_scan_and_flip (used_map p) 0 cnt False = Some (BITMAP_ERROR, used_map p)"
      "\<And>i. i + cnt \<le> length (bits_of (used_map p)) \<Longrightarrow> \<exists>j<cnt. bits_of (used_map p) ! (i + j)"
    show thesis
    proof (rule full)
      show "palloc_get_multiple flags cnt s = (if flags AND PAL_ASSERT = 0 then Some (0, s) else None)"
        using * by (simp add: get_multiple_unfold [OF assms(2)] user_def [symmetric] p_def)
      show "\<exists>j<cnt. in_use p (pool_page p (i + j))" if "i + cnt \<le> bit_cnt (used_map p)" for i
        using *(2) [of i] that is_free_nth(2) [OF ok(1)] by fastforce
    qed
  next
    fix i b
    assume *: "bitmap_scan_and_flip (used_map p) 0 cnt False = Some (i, b)" "i \<noteq> BITMAP_ERROR" "bitmap_ok b"
      "i + cnt \<le> length (bits_of (used_map p))" "\<And>j. j < cnt \<Longrightarrow> \<not> bits_of (used_map p) ! (i + j)"
      "bits_of b = fill i cnt True (bits_of (used_map p))" "\<And>k. k < i \<Longrightarrow> \<exists>j<cnt. bits_of (used_map p) ! (k + j)"
    show thesis
    proof (rule group)
      show "i + cnt \<le> bit_cnt (used_map p)" "bitmap_ok b" "bits_of b = fill i cnt True (bits_of (used_map p))" using * by simp_all
      show "is_free p (pool_page p (i + j))" if "j < cnt" for j
        using *(4) *(5) [OF that] that is_free_nth(1) [OF ok(1), of "i + j"] by simp
      show "\<exists>j<cnt. in_use p (pool_page p (k + j))" if k: "k < i" for k
      proof -
        obtain j where "j < cnt" "bits_of (used_map p) ! (k + j)" using *(7) [OF k] by blast
        then show ?thesis using *(4) k is_free_nth(2) [OF ok(1), of "k + j"] by auto
      qed
      have "0 < bit_cnt (used_map p)" "pool_page p i \<noteq> 0" "PGSIZE * cnt < 2 ^ 32"
        using *(4) assms(2) pool_page_aligned [OF ok(1), of i] ok(1)
        by (auto simp: pool_ok_def PGSIZE_def is_kernel_vaddr_def PHYS_BASE_def word_le_nat_alt)
      then show "palloc_get_multiple flags cnt s = Some (pool_page p i,
         if flags AND PAL_ZERO \<noteq> 0
         then (set_pool user b s)\<lparr>mem := memset_words (pool_page p i) 0 (PGSIZE * cnt) (mem s)\<rparr> else set_pool user b s)"
        using * by (simp add: get_multiple_unfold [OF assms(2)] user_def [symmetric] p_def [symmetric] u32_id Let_def)
    qed
  qed
qed

lemma get_multiple_group:
  fixes s :: "'a palloc_state_scheme"
  assumes "palloc_ok s" "i + cnt \<le> bit_cnt (used_map (the_pool user s))" "bitmap_ok b"
    "bits_of b = fill i cnt v (bits_of (used_map (the_pool user s)))"
  shows "palloc_ok (set_pool user b s)"
    "in_use (the_pool u (set_pool user b s)) a \<longleftrightarrow>
       (if u = user \<and> (\<exists>j<cnt. a = pool_page (the_pool user s) (i + j)) then v else in_use (the_pool u s) a)"
    "is_free (the_pool u (set_pool user b s)) a \<longleftrightarrow>
       (if u = user \<and> (\<exists>j<cnt. a = pool_page (the_pool user s) (i + j)) then \<not> v else is_free (the_pool u s) a)"
proof -
  note ok = palloc_ok_pool [OF assms(1), of user]
  show "palloc_ok (set_pool user b s)"
    using palloc_ok_set_pool [OF assms(1,3)] used_map_update [OF ok assms(3,4,2)] by simp
  show "in_use (the_pool u (set_pool user b s)) a \<longleftrightarrow>
       (if u = user \<and> (\<exists>j<cnt. a = pool_page (the_pool user s) (i + j)) then v else in_use (the_pool u s) a)"
    "is_free (the_pool u (set_pool user b s)) a \<longleftrightarrow>
       (if u = user \<and> (\<exists>j<cnt. a = pool_page (the_pool user s) (i + j)) then \<not> v else is_free (the_pool u s) a)"
    by (cases "u = user"; use in_use_update [OF ok assms(3,4,2)] in auto)+
qed

lemma free_multiple_unfold:
  assumes "palloc_ok s" "i < bit_cnt (used_map (the_pool user s))" "0 < cnt"
  shows "palloc_free_multiple (pool_page (the_pool user s) i) cnt s = do {
     all_used \<leftarrow> bitmap_all (used_map (the_pool user s)) i cnt;
     ASSERT all_used;
     b \<leftarrow> bitmap_set_multiple (used_map (the_pool user s)) i cnt False;
     Some (set_pool user b (s\<lparr>mem := memset_words (pool_page (the_pool user s) i) 0xcccccccc (u32 (PGSIZE * cnt)) (mem s)\<rparr>)) }"
proof -
  let ?p = "the_pool user s" and ?a = "pool_page (the_pool user s) i"
  have ok: "pool_ok (kernel_pool s)" "pool_ok (user_pool s)" "pool_ok ?p"
    using assms(1) palloc_ok_pool [of s user] by (simp_all add: palloc_ok_def)
  note al = pool_page_aligned [OF ok(3) assms(2)]
  have k: "page_from_pool (kernel_pool s) ?a \<longleftrightarrow> \<not> user"
  proof (cases user)
    case True
    then show ?thesis using pools_disjoint [OF assms(1), of _ i] assms(2) page_from_pool_iff [OF ok(1) al(1)]
      by (metis the_pool_def)
  next
    case False
    then show ?thesis using assms(2) page_from_pool_iff [OF ok(1) al(1)] by (auto simp: the_pool_def)
  qed
  have u: "user \<Longrightarrow> page_from_pool (user_pool s) ?a"
    using assms(2) page_from_pool_iff [OF ok(2) al(1)] by (auto simp: the_pool_def)
  have idx: "unat (pg_no ?a - pg_no (base ?p)) = i" by (rule pool_page_idx [OF ok(3) assms(2)])
  show ?thesis
    using al k u idx assms(3)
    by (cases user) (simp_all add: palloc_free_multiple_def the_pool_def set_pool_def Let_def)
qed

lemma free_multiple_eq:
  fixes s :: "'a palloc_state_scheme"
  assumes "palloc_ok s" "0 < cnt" "i + cnt \<le> bit_cnt (used_map (the_pool user s))"
  shows "palloc_free_multiple (pool_page (the_pool user s) i) cnt s = do {
     ASSERT (\<forall>j<cnt. bits_of (used_map (the_pool user s)) ! (i + j));
     b \<leftarrow> bitmap_set_multiple (used_map (the_pool user s)) i cnt False;
     Some (set_pool user b (s\<lparr>mem := memset_words (pool_page (the_pool user s) i) 0xcccccccc (PGSIZE * cnt) (mem s)\<rparr>)) }"
proof -
  have ok: "pool_ok (the_pool user s)" "bitmap_ok (used_map (the_pool user s))"
    using palloc_ok_pool [OF assms(1), of user] by (simp_all add: pool_ok_def)
  have small: "PGSIZE * cnt < 2 ^ 32" using ok(1) assms(3)
    by (auto simp: pool_ok_def PGSIZE_def is_kernel_vaddr_def PHYS_BASE_def word_le_nat_alt)
  show ?thesis
    using free_multiple_unfold [OF assms(1), of i user cnt] assms(2,3) units.all_spec [OF ok(2), of i cnt]
    by (simp add: u32_id [OF small])
qed

section \<open>Initialization\<close>

lemma init_pool_ok:
  assumes "init_pool start n m = Some p" "pg_ofs start = 0" "is_kernel_vaddr start" "unat start + 4096 * n < 2 ^ 32"
  shows "pool_ok p" "\<And>a. \<not> in_use p a" "unat (base p) + 4096 * bit_cnt (used_map p) = unat start + 4096 * n"
    "bit_cnt (used_map p) \<le> n"
proof -
  define q where "q = DIV_ROUND_UP (bitmap_buf_size n) PGSIZE"
  obtain b where qn: "q \<le> n" and p: "p = \<lparr>used_map = b, base = start + of_nat (q * PGSIZE)\<rparr>"
    and b: "bitmap_set_all \<lparr>bit_cnt = n - q, bits = map (\<lambda>i. m (start + 8 + 4 * of_nat i)) [0..<elem_cnt (n - q)]\<rparr> False = Some b"
    using assms(1) by (auto simp: init_pool_def bitmap_create_in_buf_def Let_def q_def [symmetric] elim!: bind_SomeE)
  define b0 where "b0 = \<lparr>bit_cnt = n - q, bits = map (\<lambda>i. m (start + 8 + 4 * of_nat i)) [0..<elem_cnt (n - q)]\<rparr>"
  have n: "n \<le> 2 ^ 20" using assms(4) by simp
  have ok0: "bitmap_ok b0" using n by (simp add: b0_def bitmap_ok_def)
  have b': "bitmap_ok b" "bits_of b = fill 0 (n - q) False (bits_of b0)"
    using units.set_spec [OF ok0, of 0 "n - q" False] b by (auto simp: bitmap_set_all_def bitmap_size_def b0_def)
  have cnt: "bit_cnt b = n - q" using arg_cong [OF b'(2), of length] by (simp add: b0_def)
  have free: "\<not> bits_of b ! i" if "i < n - q" for i using that b'(2) by (simp add: nth_fill b0_def)
  have "unat (of_nat (q * PGSIZE) :: 32 word) = 4096 * q" using assms(4) qn
    by (subst unat32_of_nat) (simp_all add: PGSIZE_def)
  then have ub: "unat (base p) = unat start + 4096 * q" using assms(4) qn by (simp add: p unat_word_ariths)
  show "\<And>a. \<not> in_use p a" using free cnt by (auto simp: in_use_def p)
  show top: "unat (base p) + 4096 * bit_cnt (used_map p) = unat start + 4096 * n" "bit_cnt (used_map p) \<le> n"
    using qn by (simp_all add: ub) (simp_all add: p cnt)
  have "pg_ofs (base p) = 0" using assms(2) ub by (simp add: aligned_iff)
  moreover have "is_kernel_vaddr (base p)" using assms(3) ub by (simp add: is_kernel_vaddr_def word_le_nat_alt)
  ultimately show "pool_ok p" using b'(1) top(1) assms(4) by (simp add: pool_ok_def PGSIZE_def) (simp add: p)
qed

text \<open>On a machine with more than 1 MB and less than 1 GB of memory, what \<open>palloc_init\<close> sets up is well formed and free.\<close>

lemma palloc_init_ok:
  assumes "palloc_init limit ram m = Some s" "256 \<le> unat ram" "unat ram < 0x40000"
  shows "palloc_ok s" "\<And>u a. \<not> in_use (the_pool u s) a" "mem s = m"
proof -
  have ram: "unat (ram * 4096) = unat ram * 4096" using assms(3) by (simp add: unat_word_ariths)
  have start: "ptov (1024 * 1024) = Some 0xc0100000" by (simp add: ptov_def PHYS_BASE_def)
  define fe where "fe = ram * 4096 + PHYS_BASE"
  have ufe: "unat fe = 0xc0000000 + 4096 * unat ram" using assms(3) ram by (simp add: fe_def PHYS_BASE_def unat_word_ariths)
  have fe: "ptov (ram * of_nat PGSIZE) = Some fe"
    using assms(3) ram by (simp add: ptov_def PGSIZE_def fe_def PHYS_BASE_def word_less_nat_alt)
  have d: "unat (fe - 0xc0100000) = 4096 * (unat ram - 256)"
    using ufe assms(2) by (subst unat_sub) (simp_all add: word_le_nat_alt)
  have u: "uint (fe - 0xc0100000) = int (4096 * (unat ram - 256))" unfolding d [symmetric] by simp
  have "sint (fe - 0xc0100000) = int (4096 * (unat ram - 256))"
    unfolding sint_uint u by (rule signed_take_bit_int_eq_self) (use assms(3) in simp_all)
  then have "sint (fe - 0xc0100000) sdiv int PGSIZE = int (unat ram - 256)"
    using sdiv_mult_self [of 4096 "int (unat ram - 256)"] by (simp add: PGSIZE_def mult.commute)
  then have fp: "unat (word_of_int (sint (fe - 0xc0100000) sdiv int PGSIZE) :: 32 word) = unat ram - 256"
    using assms(3) unat32_of_nat [of "unat ram - 256"] by simp
  define un where "un = (if (unat ram - 256) div 2 > limit then limit else (unat ram - 256) div 2)"
  define kn where "kn = unat ram - 256 - un"
  have un: "un \<le> unat ram - 256" "kn + un = unat ram - 256" by (auto simp: un_def kn_def)
  define ust :: "32 word" where "ust = 0xc0100000 + of_nat (kn * PGSIZE)"
  obtain kp up where kp: "init_pool 0xc0100000 kn m = Some kp" and up: "init_pool ust un m = Some up" and s: "s = \<lparr>kernel_pool = kp, user_pool = up, mem = m\<rparr>"
    using assms(1) unfolding palloc_init_def start fe Option.bind.simps Let_def fp un_def [symmetric] kn_def [symmetric] ust_def [symmetric]
    by (auto elim!: bind_SomeE)
  have us: "unat ust = 0xc0100000 + 4096 * kn"
    using un(2) assms(3) unat32_of_nat [of "kn * 4096"] by (simp add: ust_def PGSIZE_def unat_word_ariths)
  note k = init_pool_ok [OF kp] and u = init_pool_ok [OF up]
  have k': "pool_ok kp" "\<And>a. \<not> in_use kp a" "unat (base kp) + 4096 * bit_cnt (used_map kp) = 0xc0100000 + 4096 * kn"
    using k un(2) assms(3) by (simp_all add: aligned_iff is_kernel_vaddr_def PHYS_BASE_def)
  have u': "pool_ok up" "\<And>a. \<not> in_use up a" "unat (base up) + 4096 * bit_cnt (used_map up) = 0xc0100000 + 4096 * kn + 4096 * un"
    "bit_cnt (used_map up) \<le> un"
    using u un(2) assms(3) by (simp_all add: us aligned_iff is_kernel_vaddr_def PHYS_BASE_def word_le_nat_alt)
  show "palloc_ok s" using k'(1,3) u'(1,3,4) by (simp add: palloc_ok_def s PGSIZE_def)
  show "\<And>u a. \<not> in_use (the_pool u s) a" "mem s = m" using k'(2) u'(2) by (simp_all add: s the_pool_def)
qed

section \<open>Properties\<close>

text \<open>
  C18: A successful \<open>palloc_get_multiple\<close> returns the lowest group of \<open>cnt\<close> consecutive pages of the pool that the
  flags select, all free before and in use after; no other page changes hands and no memory changes but the pages
  when \<open>PAL_ZERO\<close> asks for zeros.  It fails only when the pool has no such group, with a null pointer, or with a panic
  when \<open>PAL_ASSERT\<close> is set.
\<close>

theorem palloc_get_multiple_correct:
  assumes "palloc_ok s" "0 < cnt"
  shows "let user = flags AND PAL_USER \<noteq> 0; p = the_pool user s
    in if \<exists>i. group_free p cnt i
       then \<exists>i s'. palloc_get_multiple flags cnt s = Some (pool_page p i, s') \<and> palloc_ok s' \<and>
         group_free p cnt i \<and> (\<forall>k<i. \<not> group_free p cnt k) \<and>
         (\<forall>u a. in_use (the_pool u s') a \<longleftrightarrow> in_use (the_pool u s) a \<or> (u = user \<and> (\<exists>j<cnt. a = pool_page p (i + j)))) \<and>
         (\<forall>a. mem s' a = (if flags AND PAL_ZERO \<noteq> 0 \<and> unat (a - pool_page p i) < PGSIZE * cnt then 0 else mem s a))
       else palloc_get_multiple flags cnt s = (if flags AND PAL_ASSERT = 0 then Some (0, s) else None)"
proof -
  define user where "user = (flags AND PAL_USER \<noteq> 0)"
  define p where "p = the_pool user s"
  have ok: "pool_ok p" using palloc_ok_pool [OF assms(1)] by (simp add: p_def)
  note excl = free_not_in_use [OF ok]
  show ?thesis
  proof (rule get_multiple_Some [OF assms, of flags, folded user_def, folded p_def])
    assume *: "\<And>i. i + cnt \<le> bit_cnt (used_map p) \<Longrightarrow> \<exists>j<cnt. in_use p (pool_page p (i + j))"
      "palloc_get_multiple flags cnt s = (if flags AND PAL_ASSERT = 0 then Some (0, s) else None)"
    then have "\<not> (\<exists>i. group_free p cnt i)" using excl by (auto simp: group_free_def)
    then show ?thesis using *(2) by (simp add: Let_def user_def [symmetric] p_def [symmetric])
  next
    fix i b
    assume *: "i + cnt \<le> bit_cnt (used_map p)" "\<And>j. j < cnt \<Longrightarrow> is_free p (pool_page p (i + j))" "bitmap_ok b"
      "bits_of b = fill i cnt True (bits_of (used_map p))" "\<And>k. k < i \<Longrightarrow> \<exists>j<cnt. in_use p (pool_page p (k + j))"
      "palloc_get_multiple flags cnt s = Some (pool_page p i,
         if flags AND PAL_ZERO \<noteq> 0
         then (set_pool user b s)\<lparr>mem := memset_words (pool_page p i) 0 (PGSIZE * cnt) (mem s)\<rparr> else set_pool user b s)"
    define s' where "s' = (if flags AND PAL_ZERO \<noteq> 0
         then (set_pool user b s)\<lparr>mem := memset_words (pool_page p i) 0 (PGSIZE * cnt) (mem s)\<rparr> else set_pool user b s)"
    have fits: "group_free p cnt i" using *(1,2) by (simp add: group_free_def)
    have least: "\<not> group_free p cnt k" if "k < i" for k using *(5) [OF that] excl by (auto simp: group_free_def)
    note grp = get_multiple_group [OF assms(1), of i cnt user b True, folded p_def, OF *(1,3,4)]
    have "palloc_ok s'" using grp(1) by (simp add: s'_def)
    moreover have "in_use (the_pool u s') a \<longleftrightarrow> in_use (the_pool u s) a \<or> (u = user \<and> (\<exists>j<cnt. a = pool_page p (i + j)))" for u a
      using grp(2) [of u a] by (auto simp: s'_def)
    moreover have "mem s' a = (if flags AND PAL_ZERO \<noteq> 0 \<and> unat (a - pool_page p i) < PGSIZE * cnt then 0 else mem s a)" for a
      by (simp add: s'_def memset_words_def)
    ultimately show ?thesis using *(6) fits least
      unfolding Let_def user_def [symmetric] p_def [symmetric] s'_def [symmetric]
      by (auto intro!: exI [of _ i] exI [of _ s'])
  qed
qed

text \<open>Two pools of four pages; the first page of the kernel pool is in use.\<close>

definition small_pools :: palloc_state where
  "small_pools = \<lparr>kernel_pool = \<lparr>used_map = \<lparr>bit_cnt = 4, bits = [1]\<rparr>, base = 0xc0200000\<rparr>,
     user_pool = \<lparr>used_map = \<lparr>bit_cnt = 4, bits = [0]\<rparr>, base = 0xc0300000\<rparr>, mem = (\<lambda>_. 7)\<rparr>"

lemma small_pools_ok: "palloc_ok small_pools"
  by (simp add: small_pools_def palloc_ok_def pool_ok_def bitmap_ok_def elem_cnt_eq aligned_iff is_kernel_vaddr_def PHYS_BASE_def PGSIZE_def)

lemma small_pools_bits: "bits_of (used_map (the_pool False small_pools)) = [True, False, False, False]"
  by (simp add: small_pools_def the_pool_def bits_of_def bit_at_def upt_rec)

lemma small_pools_page:
  "is_free (the_pool False small_pools) (pool_page (the_pool False small_pools) i) \<longleftrightarrow> i \<noteq> 0" if "i < 4"
proof -
  have "i = 0 \<or> i = 1 \<or> i = 2 \<or> i = 3" using that by arith
  then show ?thesis
    using is_free_nth(1) [OF palloc_ok_pool [OF small_pools_ok], of i False] that small_pools_bits
    by (auto simp: the_pool_def small_pools_def)
qed

theorem palloc_get_multiple_correct_witness:
  "\<exists>s'. palloc_get_multiple PAL_ZERO 2 small_pools = Some (0xc0201000, s') \<and> mem s' 0xc0202ffc = 0 \<and> mem s' 0xc0203000 = 7"
proof -
  let ?p = "the_pool False small_pools"
  have u: "(PAL_ZERO AND PAL_USER \<noteq> 0) = False" by (simp add: PAL_ZERO_def PAL_USER_def)
  have n: "bit_cnt (used_map ?p) = 4" "base ?p = 0xc0200000" by (simp_all add: the_pool_def small_pools_def)
  have g: "group_free ?p 2 1" "\<not> group_free ?p 2 0"
    using small_pools_page [of 0] small_pools_page [of 1] small_pools_page [of 2]
    by (auto simp: group_free_def n less_2_cases_iff numeral_2_eq_2 less_Suc_eq)
  have ex: "(\<exists>i. group_free ?p 2 i) = True" using g(1) by blast
  obtain i s' where r: "palloc_get_multiple PAL_ZERO 2 small_pools = Some (pool_page ?p i, s')" "group_free ?p 2 i" "\<forall>k<i. \<not> group_free ?p 2 k"
    "\<forall>a. mem s' a = (if PAL_ZERO AND PAL_ZERO \<noteq> 0 \<and> unat (a - pool_page ?p i) < PGSIZE * 2 then 0 else mem small_pools a)"
    using palloc_get_multiple_correct [OF small_pools_ok, of 2 PAL_ZERO] unfolding u Let_def ex if_True by auto
  have "i = 1" using g r(2,3) by (metis less_one nat_neq_iff)
  then have page: "pool_page ?p i = 0xc0201000" by (simp add: pool_page_def n PGSIZE_def)
  show ?thesis using r(1,4) unfolding page by (intro exI [of _ s']) (simp add: PAL_ZERO_def PGSIZE_def small_pools_def)
qed

text \<open>
  C37: \<open>palloc_free_multiple\<close> takes back pages that are all in use and nothing else, fills them with \<open>0xcc\<close>, and
  panics when one of them is not in use, in particular when pages are freed twice.
\<close>

theorem palloc_free_multiple_correct:
  assumes "palloc_ok s" "0 < cnt" "i + cnt \<le> bit_cnt (used_map (the_pool user s))"
  shows "let p = the_pool user s; page = pool_page p i
    in if \<forall>j<cnt. in_use p (pool_page p (i + j))
       then \<exists>s'. palloc_free_multiple page cnt s = Some s' \<and> palloc_ok s' \<and> palloc_free_multiple page cnt s' = None \<and>
         (\<forall>u a. is_free (the_pool u s') a \<longleftrightarrow> is_free (the_pool u s) a \<or> (u = user \<and> (\<exists>j<cnt. a = pool_page p (i + j)))) \<and>
         (\<forall>a. mem s' a = (if unat (a - page) < PGSIZE * cnt then 0xcccccccc else mem s a))
       else palloc_free_multiple page cnt s = None"
proof -
  define p where "p = the_pool user s"
  have ok: "pool_ok p" "bitmap_ok (used_map p)" using palloc_ok_pool [OF assms(1), of user] by (simp_all add: p_def pool_ok_def)
  have cnt: "i + cnt \<le> length (bits_of (used_map p))" "i < bit_cnt (used_map p)" using assms(2,3) by (simp_all add: p_def)
  have used: "(\<forall>j<cnt. in_use p (pool_page p (i + j))) \<longleftrightarrow> (\<forall>j<cnt. bits_of (used_map p) ! (i + j))"
    using is_free_nth(2) [OF ok(1)] cnt by simp
  note unf = free_multiple_eq [OF assms, folded p_def]
  show ?thesis
  proof (cases "\<forall>j<cnt. in_use p (pool_page p (i + j))")
    case False
    then have "palloc_free_multiple (pool_page p i) cnt s = None" using unf used by (auto simp: ASSERT_def)
    then show ?thesis using False by (auto simp: p_def [symmetric] Let_def)
  next
    case True
    obtain b where b: "bitmap_set_multiple (used_map p) i cnt False = Some b" "bitmap_ok b" "bits_of b = fill i cnt False (bits_of (used_map p))"
      using units.set_spec [OF ok(2) cnt(1), of False] by blast
    define s0 s' where "s0 = s\<lparr>mem := memset_words (pool_page p i) 0xcccccccc (PGSIZE * cnt) (mem s)\<rparr>" and "s' = set_pool user b s0"
    have ok0: "palloc_ok s0" "the_pool u s0 = the_pool u s" for u using assms(1) by (simp_all add: s0_def)
    note grp = get_multiple_group [OF ok0(1), of i cnt user b False, unfolded ok0(2), folded p_def s'_def, OF _ b(2,3)]
    have ok': "palloc_ok s'" using grp(1) cnt by simp
    have p': "the_pool user s' = p\<lparr>used_map := b\<rparr>" by (simp add: s'_def ok0(2) p_def)
    note upd = used_map_update [OF ok(1) b(2,3)]
    have n: "bit_cnt b = bit_cnt (used_map p)" "pool_page (the_pool user s') = pool_page p" using upd(2,3) cnt(1) p' by simp_all
    have "\<not> in_use (p\<lparr>used_map := b\<rparr>) (pool_page p i)" using grp(2) [of user "pool_page p i"] cnt assms(2) p' by (auto intro: exI [of _ 0])
    then have nu: "\<not> bits_of b ! i"
      using is_free_nth(2) [of "p\<lparr>used_map := b\<rparr>" i] upd cnt by simp
    then have "\<not> (\<forall>j<cnt. bits_of b ! (i + j))" using assms(2) by (metis add_0_right)
    then have "palloc_free_multiple (pool_page p i) cnt s' = None"
      using free_multiple_unfold [OF ok', of i user cnt] n cnt assms(2) units.all_spec [OF b(2), of i cnt]
      by (auto simp: p' ASSERT_def)
    moreover have "mem s' a = (if unat (a - pool_page p i) < PGSIZE * cnt then 0xcccccccc else mem s a)" for a
      by (simp add: s'_def s0_def memset_words_def)
    moreover have "is_free (the_pool u s') a \<longleftrightarrow> is_free (the_pool u s) a \<or> (u = user \<and> (\<exists>j<cnt. a = pool_page p (i + j)))" for u a
      using grp(3) [of u a] cnt by (auto simp: ok0(2))
    moreover have "palloc_free_multiple (pool_page p i) cnt s = Some s'" using unf b(1) True used by (simp add: s'_def s0_def)
    ultimately show ?thesis using True ok' by (simp add: p_def [symmetric] Let_def)
  qed
qed

theorem palloc_free_multiple_correct_witness:
  "\<exists>s'. palloc_free_multiple 0xc0200000 1 small_pools = Some s' \<and> palloc_free_multiple 0xc0200000 1 s' = None"
proof -
  let ?p = "the_pool False small_pools"
  have n: "bit_cnt (used_map ?p) = 4" "pool_page ?p 0 = 0xc0200000" by (simp_all add: the_pool_def small_pools_def pool_page_def)
  have "\<forall>j<1. in_use ?p (pool_page ?p (0 + j))"
    using is_free_nth(2) [OF palloc_ok_pool [OF small_pools_ok], of 0 False] n small_pools_bits by simp
  then show ?thesis using palloc_free_multiple_correct [OF small_pools_ok, of 1 0 False] n by (simp add: Let_def) blast
qed

end
