(* ===== verification/Palloc_Refine.thy ===== *)
theory Palloc_Refine
  imports Palloc Kernel_State
begin

unbundle bit_operations_syntax

text \<open>
  The scheduler's model of the kernel (\<open>Kernel_State\<close>) keeps the free pages as an increasing list of addresses.  The page
  allocator with its bitmaps implements that list.
\<close>

lemma sorted_free_list: "sorted_wrt (<) (free_list p)"
proof -
  have "sorted_wrt (<) (filter (\<lambda>i. \<not> bits_of (used_map p) ! i) [0..<bit_cnt (used_map p)])"
    by (rule sorted_wrt_filter) simp
  then show ?thesis unfolding free_list_def sorted_wrt_map by (rule sorted_wrt_mono_rel [rotated]) (simp add: PGSIZE_def)
qed

lemma set_free_list: "pool_ok p \<Longrightarrow> set (free_list p) = unat ` {a. is_free p a}"
  by (auto simp: free_list_def is_free_def unat_pool_page PGSIZE_def image_iff) (metis unat_pool_page)

lemma free_list_eqI:
  assumes "pool_ok p" "sorted_wrt (<) xs" "set xs = unat ` {a. is_free p a}"
  shows "free_list p = xs"
proof -
  have "sorted (free_list p)" "distinct (free_list p)" "sorted xs" "distinct xs"
    using sorted_free_list [of p] assms(2) by (auto simp: strict_sorted_iff)
  then show ?thesis using assms(3) set_free_list [OF assms(1)] by (intro sorted_distinct_set_unique) simp_all
qed

text \<open>Taking a page that is below all other free ones takes the head of the list; giving one back inserts it.\<close>

lemma free_list_take:
  assumes "pool_ok p" "pool_ok q" "is_free p a" "\<And>b. is_free p b \<Longrightarrow> unat a \<le> unat b"
    and "\<And>b. is_free q b \<longleftrightarrow> is_free p b \<and> b \<noteq> a"
  shows "free_list p = unat a # free_list q"
proof (rule free_list_eqI [OF assms(1)])
  have "unat a < x" if x: "x \<in> set (free_list q)" for x
  proof -
    obtain b where b: "x = unat b" "is_free q b" using x set_free_list [OF assms(2)] by auto
    then have "unat a \<le> unat b" "unat a \<noteq> unat b" using assms(4,5) by (auto simp: word_unat_eq_iff)
    then show ?thesis using b(1) by simp
  qed
  then show "sorted_wrt (<) (unat a # free_list q)" using sorted_free_list [of q] by simp
  show "set (unat a # free_list q) = unat ` {a. is_free p a}"
    using assms(3,5) by (auto simp: set_free_list [OF assms(2)])
qed

lemma free_list_put:
  assumes "pool_ok p" "pool_ok q" "\<not> is_free p a" "\<And>b. is_free q b \<longleftrightarrow> is_free p b \<or> b = a"
  shows "free_list q = insort (unat a) (free_list p)"
proof (rule free_list_eqI [OF assms(2)])
  have "unat a \<notin> set (free_list p)" using assms(3) by (auto simp: set_free_list [OF assms(1)] word_unat_eq_iff [symmetric])
  then show "sorted_wrt (<) (insort (unat a) (free_list p))"
    using sorted_free_list [of p] by (simp add: strict_sorted_iff sorted_insort distinct_insort)
  show "set (insort (unat a) (free_list p)) = unat ` {a. is_free q a}"
    using assms(4) by (auto simp: set_insort_key set_free_list [OF assms(1)])
qed

lemma pool_page_mono:
  assumes "pool_ok p" "j < bit_cnt (used_map p)" "i \<le> j"
  shows "unat (pool_page p i) \<le> unat (pool_page p j)"
  using assms by (simp add: unat_pool_page)

lemma get_page_refines:
  assumes "palloc_ok s" "flags AND PAL_USER = 0" "flags AND PAL_ASSERT = 0"
  obtains (full) "Palloc.palloc_get_page flags s = Some (0, s)" "free_list (kernel_pool s) = []"
  | (page) a s' where "Palloc.palloc_get_page flags s = Some (a, s')" "palloc_ok s'"
      "free_list (kernel_pool s) = unat a # free_list (kernel_pool s')"
proof -
  have u: "(flags AND PAL_USER \<noteq> 0) = False" and p: "the_pool False s = kernel_pool s"
    using assms(2) by (simp_all add: the_pool_def)
  have ok: "pool_ok (kernel_pool s)" using assms(1) by (simp add: palloc_ok_def)
  show thesis
  proof (rule get_multiple_Some [OF assms(1) zero_less_one, of flags, unfolded u p])
    assume *: "\<And>i. i + 1 \<le> bit_cnt (used_map (kernel_pool s)) \<Longrightarrow> \<exists>j<1. in_use (kernel_pool s) (pool_page (kernel_pool s) (i + j))"
      "palloc_get_multiple flags 1 s = (if flags AND PAL_ASSERT = 0 then Some (0, s) else None)"
    then have "\<not> is_free (kernel_pool s) a" for a using free_not_in_use [OF ok] by (fastforce simp: is_free_def)
    then have "set (free_list (kernel_pool s)) = {}" by (simp add: set_free_list [OF ok])
    then show thesis using full *(2) assms(3) by (simp add: Palloc.palloc_get_page_def)
  next
    fix i b
    let ?p = "kernel_pool s"
    assume *: "i + 1 \<le> bit_cnt (used_map ?p)" "\<And>j. j < 1 \<Longrightarrow> is_free ?p (pool_page ?p (i + j))" "bitmap_ok b"
      "bits_of b = fill i 1 True (bits_of (used_map ?p))" "\<And>k. k < i \<Longrightarrow> \<exists>j<1. in_use ?p (pool_page ?p (k + j))"
      and r: "palloc_get_multiple flags 1 s = Some (pool_page ?p i,
         if flags AND PAL_ZERO \<noteq> 0
         then (set_pool False b s)\<lparr>mem := memset_words (pool_page ?p i) 0 (PGSIZE * 1) (mem s)\<rparr> else set_pool False b s)"
    define s' where "s' = (if flags AND PAL_ZERO \<noteq> 0
         then (set_pool False b s)\<lparr>mem := memset_words (pool_page ?p i) 0 (PGSIZE * 1) (mem s)\<rparr> else set_pool False b s)"
    note grp = get_multiple_group [OF assms(1), of i 1 False b True, unfolded p, OF *(1,3,4)]
    have ok': "palloc_ok s'" and q: "kernel_pool s' = the_pool False (set_pool False b s)"
      using grp(1) by (simp_all add: s'_def set_pool_def the_pool_def)
    have "free_list ?p = unat (pool_page ?p i) # free_list (kernel_pool s')"
    proof (rule free_list_take [OF ok])
      show "pool_ok (kernel_pool s')" using ok' by (simp add: palloc_ok_def)
      show "is_free ?p (pool_page ?p i)" using *(2) [of 0] by simp
      show "unat (pool_page ?p i) \<le> unat c" if "is_free ?p c" for c
        using that *(5) free_not_in_use [OF ok] pool_page_mono [OF ok, of _ i] unfolding is_free_def
        by (metis add_0_right less_one linorder_le_less_linear)
      show "is_free (kernel_pool s') c \<longleftrightarrow> is_free ?p c \<and> c \<noteq> pool_page ?p i" for c
        unfolding q grp(3) by (simp add: p)
    qed
    then show thesis using page [of "pool_page ?p i" s'] r ok' by (simp add: Palloc.palloc_get_page_def s'_def)
  qed
qed

lemma free_page_refines:
  assumes "palloc_ok s" "in_use (kernel_pool s) a"
  shows "\<exists>s'. Palloc.palloc_free_page a s = Some s' \<and> palloc_ok s' \<and> free_list (kernel_pool s') = insort (unat a) (free_list (kernel_pool s))"
proof -
  have p: "the_pool False s = kernel_pool s" by (simp add: the_pool_def)
  have ok: "pool_ok (kernel_pool s)" "bitmap_ok (used_map (kernel_pool s))" using assms(1) by (simp_all add: palloc_ok_def pool_ok_def)
  obtain i where i: "i < bit_cnt (used_map (kernel_pool s))" "a = pool_page (kernel_pool s) i" "bits_of (used_map (kernel_pool s)) ! i"
    using assms(2) by (auto simp: in_use_def)
  obtain b where b: "bitmap_set_multiple (used_map (kernel_pool s)) i 1 False = Some b" "bitmap_ok b"
    "bits_of b = fill i 1 False (bits_of (used_map (kernel_pool s)))"
    using units.set_spec [OF ok(2), of i 1 False] i(1) by auto
  define s0 where "s0 = s\<lparr>mem := memset_words a 0xcccccccc PGSIZE (mem s)\<rparr>"
  define s' where "s' = set_pool False b s0"
  have s0: "palloc_ok s0" "the_pool u s0 = the_pool u s" for u using assms(1) by (simp_all add: s0_def)
  have r: "Palloc.palloc_free_page a s = Some s'"
    using free_multiple_eq [OF assms(1) zero_less_one, of i False] i b(1) by (simp add: p Palloc.palloc_free_page_def s'_def s0_def)
  note grp = get_multiple_group [OF s0(1), of i 1 False b False, unfolded s0(2) p, folded s'_def, OF _ b(2,3)]
  have ok': "palloc_ok s'" using grp(1) i(1) by simp
  have "free_list (kernel_pool s') = insort (unat a) (free_list (kernel_pool s))"
  proof (rule free_list_put [OF ok(1)])
    show "pool_ok (kernel_pool s')" using ok' by (simp add: palloc_ok_def)
    show "\<not> is_free (kernel_pool s) a" using assms(2) free_not_in_use [OF ok(1)] by blast
    show "is_free (kernel_pool s') c \<longleftrightarrow> is_free (kernel_pool s) c \<or> c = a" for c
      using grp(3) [of False c] i by (simp add: p) (simp add: the_pool_def)
  qed
  then show ?thesis using r ok' by blast
qed

text \<open>
  C8: The page allocator implements the free list of the scheduler's model: \<open>palloc_get_page\<close> from the kernel pool
  returns the head of the list, or a null pointer when it is empty, and \<open>palloc_free_page\<close> of a page in use inserts
  it; the pools stay well formed and abstract to the list again.
\<close>

theorem palloc_refines:
  assumes "palloc_ok s" "free_pages k = free_list (kernel_pool s)"
    and "flags AND PAL_USER = 0" "flags AND PAL_ASSERT = 0"
  shows "(\<exists>a s'. Palloc.palloc_get_page flags s = Some (a, s') \<and> palloc_ok s' \<and>
      fst (Kernel_State.palloc_get_page k) = unat a \<and> free_pages (snd (Kernel_State.palloc_get_page k)) = free_list (kernel_pool s')) \<and>
    (\<forall>b. in_use (kernel_pool s) b \<longrightarrow>
      (\<exists>s'. Palloc.palloc_free_page b s = Some s' \<and> palloc_ok s' \<and>
        free_pages (Kernel_State.palloc_free_page (unat b) k) = free_list (kernel_pool s')))"
proof (intro conjI allI impI)
  show "\<exists>a s'. Palloc.palloc_get_page flags s = Some (a, s') \<and> palloc_ok s' \<and>
      fst (Kernel_State.palloc_get_page k) = unat a \<and> free_pages (snd (Kernel_State.palloc_get_page k)) = free_list (kernel_pool s')"
    by (rule get_page_refines [OF assms(1,3,4)]) (use assms(1,2) in \<open>auto simp: Kernel_State.palloc_get_page_def\<close>)
  show "\<exists>s'. Palloc.palloc_free_page b s = Some s' \<and> palloc_ok s' \<and>
        free_pages (Kernel_State.palloc_free_page (unat b) k) = free_list (kernel_pool s')" if "in_use (kernel_pool s) b" for b
    using free_page_refines [OF assms(1) that] assms(2) by (simp add: Kernel_State.palloc_free_page_def) metis
qed

theorem palloc_refines_witness:
  "\<exists>a s'. Palloc.palloc_get_page PAL_ZERO small_pools = Some (a, s') \<and> unat a = 0xc0201000"
proof -
  let ?k = "(undefined :: kernel)\<lparr>free_pages := free_list (kernel_pool small_pools)\<rparr>"
  have fl: "free_list (kernel_pool small_pools) = [0xc0201000, 0xc0202000, 0xc0203000]"
    using small_pools_bits by (simp add: free_list_def the_pool_def) (simp add: small_pools_def PGSIZE_def upt_rec)
  have "PAL_ZERO AND PAL_USER = 0" "PAL_ZERO AND PAL_ASSERT = 0" by (simp_all add: PAL_ZERO_def PAL_USER_def PAL_ASSERT_def)
  then show ?thesis using palloc_refines [OF small_pools_ok, of ?k PAL_ZERO]
    by (auto simp: Kernel_State.palloc_get_page_def fl)
qed

end
