(* ===== verification/Pagedir.thy ===== *)
theory Pagedir
  imports Palloc
begin

unbundle bit_operations_syntax

text \<open>
  \<open>userprog/pagedir.c\<close>: two-level page tables in the memory of the page allocator.  A page directory is a page of 1024
  entries; the entries below \<open>pd_no (PHYS_BASE)\<close> are the user part.  Pointers to entries are byte addresses.
\<close>

section \<open>Operations\<close>

record vm = palloc_state +
  init_page_dir :: "32 word"
  init_ram_pages :: "32 word"
  cr3 :: "32 word"

definition memcpy_words :: "32 word \<Rightarrow> 32 word \<Rightarrow> nat \<Rightarrow> (32 word \<Rightarrow> 32 word) \<Rightarrow> 32 word \<Rightarrow> 32 word" where
  "memcpy_words dst src n m = (\<lambda>a. if unat (a - dst) < n then m (src + (a - dst)) else m a)"

definition pagedir_create :: "vm \<Rightarrow> (32 word \<times> vm) option" where
  "pagedir_create s = do {
     (pd, s) \<leftarrow> palloc_get_page 0 s;
     Some (pd, if pd \<noteq> 0 then s\<lparr>mem := memcpy_words pd (init_page_dir s) PGSIZE (mem s)\<rparr> else s) }"

text \<open>The two loops of \<open>pagedir_destroy\<close>, with the number of entries that are left.\<close>

primrec free_ptes :: "nat \<Rightarrow> 32 word \<Rightarrow> vm \<Rightarrow> vm option" where
  "free_ptes 0 pte s = Some s"
| "free_ptes (Suc n) pte s = do {
     s \<leftarrow> (if mem s pte AND PTE_P \<noteq> 0
          then do { page \<leftarrow> pte_get_page (mem s pte); palloc_free_page page s }
          else Some s);
     free_ptes n (pte + 4) s }"

primrec free_pdes :: "nat \<Rightarrow> 32 word \<Rightarrow> vm \<Rightarrow> vm option" where
  "free_pdes 0 pde s = Some s"
| "free_pdes (Suc n) pde s = do {
     s \<leftarrow> (if mem s pde AND PTE_P \<noteq> 0
          then do {
            pt \<leftarrow> pde_get_pt (mem s pde);
            s \<leftarrow> free_ptes (PGSIZE div 4) pt s;
            palloc_free_page pt s }
          else Some s);
     free_pdes n (pde + 4) s }"

definition pagedir_destroy :: "32 word \<Rightarrow> vm \<Rightarrow> vm option" where
  "pagedir_destroy pd s =
     (if pd = 0 then Some s
      else do {
        ASSERT (pd \<noteq> init_page_dir s);
        s \<leftarrow> free_pdes (unat (pd_no PHYS_BASE)) pd s;
        palloc_free_page pd s })"

definition lookup_page :: "32 word \<Rightarrow> 32 word \<Rightarrow> bool \<Rightarrow> vm \<Rightarrow> (32 word \<times> vm) option" where
  "lookup_page pd vaddr create s = do {
     ASSERT (pd \<noteq> 0);
     ASSERT (\<not> create \<or> is_user_vaddr vaddr);
     let pde = pd + 4 * pd_no vaddr;
     (found, s) \<leftarrow> (if mem s pde = 0 then
         (if create then do {
            (pt, s) \<leftarrow> palloc_get_page PAL_ZERO s;
            if pt = 0 then Some (False, s)
            else do { e \<leftarrow> pde_create pt; Some (True, s\<lparr>mem := (mem s)(pde := e)\<rparr>) } }
          else Some (False, s))
        else Some (True, s));
     if \<not> found then Some (0, s)
     else do { pt \<leftarrow> pde_get_pt (mem s pde); Some (pt + 4 * pt_no vaddr, s) } }"

definition pagedir_set_page :: "32 word \<Rightarrow> 32 word \<Rightarrow> 32 word \<Rightarrow> bool \<Rightarrow> vm \<Rightarrow> (bool \<times> vm) option" where
  "pagedir_set_page pd upage kpage writable s = do {
     ASSERT (pg_ofs upage = 0);
     ASSERT (pg_ofs kpage = 0);
     ASSERT (is_user_vaddr upage);
     p \<leftarrow> vtop kpage;
     ASSERT (drop_bit PTSHIFT p < init_ram_pages s);
     ASSERT (pd \<noteq> init_page_dir s);
     (pte, s) \<leftarrow> lookup_page pd upage True s;
     if pte \<noteq> 0 then do {
       ASSERT (mem s pte AND PTE_P = 0);
       e \<leftarrow> pte_create_user kpage writable;
       Some (True, s\<lparr>mem := (mem s)(pte := e)\<rparr>) }
     else Some (False, s) }"

definition pagedir_get_page :: "32 word \<Rightarrow> 32 word \<Rightarrow> vm \<Rightarrow> 32 word option" where
  "pagedir_get_page pd uaddr s = do {
     ASSERT (is_user_vaddr uaddr);
     (pte, s) \<leftarrow> lookup_page pd uaddr False s;
     if pte \<noteq> 0 \<and> mem s pte AND PTE_P \<noteq> 0
     then do { page \<leftarrow> pte_get_page (mem s pte); Some (page + pg_ofs uaddr) }
     else Some 0 }"

definition pagedir_activate :: "32 word \<Rightarrow> vm \<Rightarrow> vm option" where
  "pagedir_activate pd s = do {
     let pd = (if pd = 0 then init_page_dir s else pd);
     p \<leftarrow> vtop pd;
     Some (s\<lparr>cr3 := p\<rparr>) }"

definition active_pd :: "vm \<Rightarrow> 32 word option" where
  "active_pd s = ptov (cr3 s)"

definition invalidate_pagedir :: "32 word \<Rightarrow> vm \<Rightarrow> vm option" where
  "invalidate_pagedir pd s = do {
     a \<leftarrow> active_pd s;
     if a = pd then pagedir_activate pd s else Some s }"

definition pagedir_clear_page :: "32 word \<Rightarrow> 32 word \<Rightarrow> vm \<Rightarrow> vm option" where
  "pagedir_clear_page pd upage s = do {
     ASSERT (pg_ofs upage = 0);
     ASSERT (is_user_vaddr upage);
     (pte, s) \<leftarrow> lookup_page pd upage False s;
     if pte \<noteq> 0 \<and> mem s pte AND PTE_P \<noteq> 0
     then invalidate_pagedir pd (s\<lparr>mem := (mem s)(pte := mem s pte AND NOT PTE_P)\<rparr>)
     else Some s }"

definition pagedir_is_dirty :: "32 word \<Rightarrow> 32 word \<Rightarrow> vm \<Rightarrow> bool option" where
  "pagedir_is_dirty pd vpage s = do {
     (pte, s) \<leftarrow> lookup_page pd vpage False s;
     Some (pte \<noteq> 0 \<and> mem s pte AND PTE_D \<noteq> 0) }"

definition pagedir_set_dirty :: "32 word \<Rightarrow> 32 word \<Rightarrow> bool \<Rightarrow> vm \<Rightarrow> vm option" where
  "pagedir_set_dirty pd vpage dirty s = do {
     (pte, s) \<leftarrow> lookup_page pd vpage False s;
     if pte \<noteq> 0
     then (if dirty then Some (s\<lparr>mem := (mem s)(pte := mem s pte OR PTE_D)\<rparr>)
           else invalidate_pagedir pd (s\<lparr>mem := (mem s)(pte := mem s pte AND NOT PTE_D)\<rparr>))
     else Some s }"

definition pagedir_is_accessed :: "32 word \<Rightarrow> 32 word \<Rightarrow> vm \<Rightarrow> bool option" where
  "pagedir_is_accessed pd vpage s = do {
     (pte, s) \<leftarrow> lookup_page pd vpage False s;
     Some (pte \<noteq> 0 \<and> mem s pte AND PTE_A \<noteq> 0) }"

definition pagedir_set_accessed :: "32 word \<Rightarrow> 32 word \<Rightarrow> bool \<Rightarrow> vm \<Rightarrow> vm option" where
  "pagedir_set_accessed pd vpage accessed s = do {
     (pte, s) \<leftarrow> lookup_page pd vpage False s;
     if pte \<noteq> 0
     then (if accessed then Some (s\<lparr>mem := (mem s)(pte := mem s pte OR PTE_A)\<rparr>)
           else invalidate_pagedir pd (s\<lparr>mem := (mem s)(pte := mem s pte AND NOT PTE_A)\<rparr>))
     else Some s }"

section \<open>Well-formed page directories\<close>

text \<open>Words of a page lie in that page, so different pages have different words.\<close>

lemma in_page:
  assumes "pg_ofs page = 0" "unat d < 4096"
  shows "pg_round_down (page + d) = page"
proof -
  obtain q where q: "unat page = 4096 * q" using assms(1) by (auto simp: aligned_iff)
  have "q < 1048576" using q unat32_less [of page] by simp
  then have "unat (page + d) = 4096 * q + unat d" using q assms(2) by (simp add: unat_word_ariths)
  then have "pg_ofs (page + d) = d" using assms(2) by (simp add: word_unat_eq_iff unat_pg_ofs)
  then show ?thesis by (simp add: pg_round_down_sub)
qed

lemma index_small: "unat x < 1024 \<Longrightarrow> unat (4 * x :: 32 word) = 4 * unat x"
  by (simp add: unat_word_ariths)

lemma entry_page: "pg_ofs page = 0 \<Longrightarrow> unat x < 1024 \<Longrightarrow> pg_round_down (page + 4 * x) = page"
  by (rule in_page) (simp_all add: index_small)

lemma entry_inj:
  assumes "pg_ofs p = 0" "pg_ofs q = 0" "unat x < 1024" "unat y < 1024"
  shows "p + 4 * x = q + 4 * y \<longleftrightarrow> p = q \<and> x = y"
proof
  assume eq: "p + 4 * x = q + 4 * y"
  then have p: "p = q" using entry_page [OF assms(1,3)] entry_page [OF assms(2,4)] by simp
  then have "unat (4 * x) = unat (4 * y)" using eq by simp
  then show "p = q \<and> x = y" using p assms(3,4) by (simp add: index_small word_unat_eq_iff)
qed simp

lemma entry_in_page:
  assumes "pg_ofs p = 0" "pg_ofs q = 0" "unat x < 1024"
  shows "unat (p + 4 * x - q) < 4096 \<longleftrightarrow> p = q"
proof
  assume "unat (p + 4 * x - q) < 4096"
  then show "p = q" using in_page [OF assms(2), of "p + 4 * x - q"] entry_page [OF assms(1,3)] by simp
qed (use assms in \<open>simp add: index_small\<close>)

text \<open>The page table of entry \<open>i\<close> of a page directory, and the entry of an address in it; 0 where there is no table.\<close>

definition pt_of :: "'a palloc_state_scheme \<Rightarrow> 32 word \<Rightarrow> 32 word \<Rightarrow> 32 word option" where
  "pt_of s pd i = (if mem s (pd + 4 * i) = 0 then None else pde_get_pt (mem s (pd + 4 * i)))"

definition pte_of :: "'a palloc_state_scheme \<Rightarrow> 32 word \<Rightarrow> 32 word \<Rightarrow> 32 word" where
  "pte_of s pd va = (case pt_of s pd (pd_no va) of None \<Rightarrow> 0 | Some pt \<Rightarrow> mem s (pt + 4 * pt_no va))"

text \<open>
  A page directory is well formed when it is an allocated page and its user entries are 0 or lead to pages that are
  allocated, pairwise different, and different from the directory.
\<close>

definition pd_ok :: "'a palloc_state_scheme \<Rightarrow> 32 word \<Rightarrow> bool" where
  "pd_ok s pd \<longleftrightarrow> palloc_ok s \<and> in_use (kernel_pool s) pd \<and>
     (\<forall>i<768. mem s (pd + 4 * i) \<noteq> 0 \<longrightarrow> (\<exists>pt. pt_of s pd i = Some pt \<and> in_use (kernel_pool s) pt \<and> pt \<noteq> pd)) \<and>
     (\<forall>i<768. \<forall>j<768. \<forall>pt. pt_of s pd i = Some pt \<and> pt_of s pd j = Some pt \<longrightarrow> i = j)"

lemma in_use_page:
  assumes "pool_ok p" "in_use p a"
  shows "pg_ofs a = 0" "is_kernel_vaddr a" "a \<noteq> 0"
  using assms pool_page_aligned by (auto simp: in_use_def)

lemma user_pd_no: "is_user_vaddr va \<Longrightarrow> pd_no va < 768"
  by (simp add: is_user_vaddr_def PHYS_BASE_def word_less_nat_alt unat_pd_no less_mult_imp_div_less)

lemma pt_no_less: "unat (pt_no va) < 1024"
  by (simp add: unat_pt_no)

lemma pd_no_less: "unat (pd_no va) < 1024"
  using unat32_less [of va] by (simp add: unat_pd_no less_mult_imp_div_less)

lemma less_768: "i < 768 \<Longrightarrow> unat (i :: 32 word) < 1024"
  by (simp add: word_less_nat_alt)

lemma pd_okD:
  assumes "pd_ok s pd"
  shows "pool_ok (kernel_pool s)" "palloc_ok s" "in_use (kernel_pool s) pd" "pg_ofs pd = 0" "pd \<noteq> 0"
    "\<And>i pt. i < 768 \<Longrightarrow> pt_of s pd i = Some pt \<Longrightarrow> in_use (kernel_pool s) pt \<and> pt \<noteq> pd \<and> pg_ofs pt = 0 \<and> is_kernel_vaddr pt"
    "\<And>i. i < 768 \<Longrightarrow> mem s (pd + 4 * i) \<noteq> 0 \<Longrightarrow> \<exists>pt. pt_of s pd i = Some pt"
    "\<And>i j pt. i < 768 \<Longrightarrow> j < 768 \<Longrightarrow> pt_of s pd i = Some pt \<Longrightarrow> pt_of s pd j = Some pt \<Longrightarrow> i = j"
proof -
  show p: "pool_ok (kernel_pool s)" "palloc_ok s" "in_use (kernel_pool s) pd" using assms by (simp_all add: pd_ok_def palloc_ok_def)
  show "pg_ofs pd = 0" "pd \<noteq> 0" using in_use_page [OF p(1,3)] by simp_all
  show "in_use (kernel_pool s) pt \<and> pt \<noteq> pd \<and> pg_ofs pt = 0 \<and> is_kernel_vaddr pt" if "i < 768" "pt_of s pd i = Some pt" for i pt
  proof -
    have "mem s (pd + 4 * i) \<noteq> 0" using that(2) by (auto simp: pt_of_def split: if_splits)
    then have "in_use (kernel_pool s) pt" "pt \<noteq> pd" using assms that by (auto simp: pd_ok_def)
    then show ?thesis using in_use_page [OF p(1)] by simp
  qed
  show "\<exists>pt. pt_of s pd i = Some pt" if "i < 768" "mem s (pd + 4 * i) \<noteq> 0" for i using assms that by (auto simp: pd_ok_def)
  show "i = j" if "i < 768" "j < 768" "pt_of s pd i = Some pt" "pt_of s pd j = Some pt" for i j pt
    using assms that unfolding pd_ok_def by blast
qed

lemma lookup_page_existing:
  assumes "pd_ok s pd" "is_user_vaddr va"
  shows "lookup_page pd va False s = Some (case pt_of s pd (pd_no va) of None \<Rightarrow> 0 | Some pt \<Rightarrow> pt + 4 * pt_no va, s)"
  using pd_okD(5) [OF assms(1)] pd_okD(7) [OF assms(1) user_pd_no [OF assms(2)]]
  by (auto simp: lookup_page_def pt_of_def Let_def split: if_splits)

lemma entry_not_null: "pg_ofs pt = 0 \<Longrightarrow> is_kernel_vaddr pt \<Longrightarrow> pt + 4 * pt_no va \<noteq> 0"
  using entry_page [OF _ pt_no_less, of pt va]
  by (auto simp: is_kernel_vaddr_def PHYS_BASE_def pg_round_down_def)

lemma pagedir_get_page_eq:
  assumes "pd_ok s pd" "is_user_vaddr va"
  shows "pagedir_get_page pd va s =
    (if bit (pte_of s pd va) 0 then map_option (\<lambda>page. page + pg_ofs va) (pte_get_page (pte_of s pd va)) else Some 0)"
  using assms lookup_page_existing [OF assms] pd_okD(6) [OF assms(1) user_pd_no [OF assms(2)]] entry_not_null
  by (auto simp: pagedir_get_page_def pte_of_def flag_simps map_option_case split: option.splits)

text \<open>A page table entry is changed: nothing else of the directory is.\<close>

lemma pte_write:
  assumes "pd_ok s pd" "is_user_vaddr va" "pt_of s pd (pd_no va) = Some pt"
    and s': "kernel_pool s' = kernel_pool s" "palloc_ok s'" "mem s' = (mem s)(pt + 4 * pt_no va := x)"
  shows "pd_ok s' pd" "is_user_vaddr w \<Longrightarrow> pte_of s' pd w = (if pg_no w = pg_no va then x else pte_of s pd w)"
proof -
  note d = pd_okD [OF assms(1)]
  note pt = d(6) [OF user_pd_no [OF assms(2)] assms(3)]
  have pde: "mem s' (pd + 4 * i) = mem s (pd + 4 * i)" if "i < 768" for i
    using entry_inj [OF d(4) _ less_768 [OF that] pt_no_less, of pt va] pt by (auto simp: s'(3))
  then have pts: "pt_of s' pd i = pt_of s pd i" if "i < 768" for i using that by (simp add: pt_of_def)
  show "pd_ok s' pd" using assms(1) s'(1,2) pts pde by (simp add: pd_ok_def)
  assume w: "is_user_vaddr w"
  note same = pg_no_eq_iff [of w va]
  show "pte_of s' pd w = (if pg_no w = pg_no va then x else pte_of s pd w)"
  proof (cases "pt_of s pd (pd_no w)")
    case None
    then show ?thesis using assms(3) same pts [OF user_pd_no [OF w]] by (auto simp: pte_of_def)
  next
    case (Some q)
    have "q + 4 * pt_no w = pt + 4 * pt_no va \<longleftrightarrow> pg_no w = pg_no va"
      using entry_inj [OF _ _ pt_no_less pt_no_less, of q pt w va] d(6) [OF user_pd_no [OF w] Some] pt
        d(8) [OF user_pd_no [OF w] user_pd_no [OF assms(2)] Some] same assms(3) Some by auto
    then show ?thesis using Some pts [OF user_pd_no [OF w]] by (simp add: pte_of_def s'(3))
  qed
qed

text \<open>A cleared page that was free becomes a page table: no address gains or loses an entry.\<close>

lemma pt_install:
  assumes "pd_ok s pd" "i < 768" "pt_of s pd i = None" "is_free (kernel_pool s) a" "pde_create a = Some e"
    and s': "palloc_ok s'" "\<And>c. in_use (kernel_pool s') c \<longleftrightarrow> in_use (kernel_pool s) c \<or> c = a"
      "mem s' = (memset_words a 0 4096 (mem s))(pd + 4 * i := e)"
  shows "pd_ok s' pd" "pt_of s' pd i = Some a" "is_user_vaddr w \<Longrightarrow> pte_of s' pd w = pte_of s pd w"
proof -
  note d = pd_okD [OF assms(1)] and e = pde_roundtrip [OF assms(5)]
  have a: "\<not> in_use (kernel_pool s) a" "pg_ofs a = 0" using free_not_in_use [OF d(1) assms(4)] assms(4) pool_page_aligned [OF d(1)] by (auto simp: is_free_def)
  then have pa: "pd \<noteq> a" using d(3) by blast
  have "e \<noteq> 0" using e(2) by auto
  have pde: "mem s' (pd + 4 * j) = (if j = i then e else mem s (pd + 4 * j))" if "j < 768" for j
    using entry_inj [OF d(4) d(4) less_768 [OF that] less_768 [OF assms(2)]] entry_in_page [OF d(4) a(2) less_768 [OF that]] pa
    by (simp add: s'(3) memset_words_def)
  have pts: "pt_of s' pd j = (if j = i then Some a else pt_of s pd j)" if "j < 768" for j
    using pde [OF that] e(1) \<open>e \<noteq> 0\<close> by (cases "j = i") (simp_all add: pt_of_def)
  then show "pt_of s' pd i = Some a" using assms(2) by simp
  have ne: "pt \<noteq> a" if "j < 768" "pt_of s pd j = Some pt" for j pt using d(6) [OF that] a(1) by blast
  show "pd_ok s' pd" unfolding pd_ok_def
  proof (intro conjI allI impI)
    show "palloc_ok s'" "in_use (kernel_pool s') pd" using s'(1,2) d(3) by simp_all
    show "\<exists>pt. pt_of s' pd j = Some pt \<and> in_use (kernel_pool s') pt \<and> pt \<noteq> pd" if "j < 768" "mem s' (pd + 4 * j) \<noteq> 0" for j
      using that pts [OF that(1)] pde [OF that(1)] pa s'(2) d(6) [OF that(1)] d(7) [OF that(1)] by (cases "j = i") auto
    show "j = k" if "j < 768" "k < 768" "pt_of s' pd j = Some pt \<and> pt_of s' pd k = Some pt" for j k pt
      using that pts [OF that(1)] pts [OF that(2)] ne d(8) [OF that(1,2)] by (auto split: if_splits)
  qed
  assume w: "is_user_vaddr w"
  have word: "mem s' (q + 4 * pt_no w) = (if q = a then 0 else mem s (q + 4 * pt_no w))" if "pg_ofs q = 0" "q \<noteq> pd" for q
    using entry_inj [OF that(1) d(4) pt_no_less less_768 [OF assms(2)], of w] entry_in_page [OF that(1) a(2) pt_no_less, of w] that(2)
    by (simp add: s'(3) memset_words_def)
  show "pte_of s' pd w = pte_of s pd w"
  proof (cases "pt_of s pd (pd_no w)")
    case None
    then show ?thesis using word [OF a(2)] pa pts [OF user_pd_no [OF w]] by (simp add: pte_of_def)
  next
    case (Some q)
    then have "pd_no w \<noteq> i" using assms(3) by auto
    then show ?thesis using Some word [of q] d(6) [OF user_pd_no [OF w] Some] ne [OF user_pd_no [OF w] Some] pts [OF user_pd_no [OF w]]
      by (simp add: pte_of_def)
  qed
qed

lemma lookup_page_create:
  assumes "pd_ok s pd" "is_user_vaddr va"
  obtains (nomem) "lookup_page pd va True s = Some (0, s)" "\<And>a. \<not> is_free (kernel_pool s) a"
  | (entry) pt s' where "lookup_page pd va True s = Some (pt + 4 * pt_no va, s')" "pd_ok s' pd" "pt_of s' pd (pd_no va) = Some pt"
      "\<And>w. is_user_vaddr w \<Longrightarrow> pte_of s' pd w = pte_of s pd w"
proof (cases "pt_of s pd (pd_no va)")
  case (Some pt)
  then have "lookup_page pd va True s = Some (pt + 4 * pt_no va, s)"
    using pd_okD(5) [OF assms(1)] assms(2) by (auto simp: lookup_page_def pt_of_def split: if_splits)
  then show thesis using entry Some assms(1) by blast
next
  case None
  note d = pd_okD [OF assms(1)]
  have pde: "mem s (pd + 4 * pd_no va) = 0" using None d(7) [OF user_pd_no [OF assms(2)]] by fastforce
  have u: "(PAL_ZERO AND PAL_USER \<noteq> 0) = False" "(PAL_ZERO AND PAL_ASSERT = 0) = True" "(PAL_ZERO AND PAL_ZERO \<noteq> 0) = True"
    and p: "the_pool False s = kernel_pool s" by (simp_all add: PAL_ZERO_def PAL_USER_def PAL_ASSERT_def the_pool_def)
  show thesis
  proof (rule get_multiple_Some [OF d(2) zero_less_one, of PAL_ZERO, unfolded u p if_True])
    assume *: "\<And>i. i + 1 \<le> bit_cnt (used_map (kernel_pool s)) \<Longrightarrow> \<exists>j<1. in_use (kernel_pool s) (pool_page (kernel_pool s) (i + j))"
      "palloc_get_multiple PAL_ZERO 1 s = Some (0, s)"
    then have "\<not> is_free (kernel_pool s) a" for a using free_not_in_use [OF d(1)] by (fastforce simp: is_free_def)
    then show thesis using nomem * pde d(5) assms(2) by (simp add: lookup_page_def palloc_get_page_def)
  next
    fix i b
    let ?p = "kernel_pool s"
    assume *: "i + 1 \<le> bit_cnt (used_map ?p)" "\<And>j. j < 1 \<Longrightarrow> is_free ?p (pool_page ?p (i + j))" "bitmap_ok b"
      "bits_of b = fill i 1 True (bits_of (used_map ?p))"
      and r: "palloc_get_multiple PAL_ZERO 1 s = Some (pool_page ?p i, (set_pool False b s)\<lparr>mem := memset_words (pool_page ?p i) 0 (PGSIZE * 1) (mem s)\<rparr>)"
    define a where "a = pool_page ?p i"
    have a: "is_free ?p a" "pg_ofs a = 0" "is_kernel_vaddr a" "a \<noteq> 0"
      using *(1) *(2) [of 0] pool_page_aligned [OF d(1), of i] by (simp_all add: a_def)
    obtain e where e: "pde_create a = Some e" using create_kernel_page(2) [OF a(2,3)] by blast
    define s' where "s' = (set_pool False b s)\<lparr>mem := (memset_words a 0 4096 (mem s))(pd + 4 * pd_no va := e)\<rparr>"
    note grp = get_multiple_group [OF d(2), of i 1 False b True, unfolded p, OF *(1,3,4)]
    have "kernel_pool s' = the_pool False (set_pool False b s)" by (simp add: s'_def the_pool_def)
    then have s': "palloc_ok s'" "\<And>c. in_use (kernel_pool s') c \<longleftrightarrow> in_use ?p c \<or> c = a"
      "mem s' = (memset_words a 0 4096 (mem s))(pd + 4 * pd_no va := e)"
      using grp(1) grp(2) [of False] by (simp_all add: s'_def a_def p)
    note inst = pt_install [OF assms(1) user_pd_no [OF assms(2)] None a(1) e s']
    have "lookup_page pd va True s = Some (a + 4 * pt_no va, s')"
      using r pde d(5) assms(2) a(4) e pde_roundtrip(1) [OF e]
      by (simp add: lookup_page_def palloc_get_page_def Let_def a_def [symmetric] PGSIZE_def s'_def)
    then show thesis using entry inst by blast
  qed
qed

section \<open>The operations as updates of the mapping\<close>

lemma invalidate_pagedir_Some:
  assumes "pd_ok s pd" "cr3 s < PHYS_BASE"
  shows "\<exists>c. invalidate_pagedir pd s = Some (s\<lparr>cr3 := c\<rparr>)"
proof -
  have "is_kernel_vaddr pd" using in_use_page(2) [OF pd_okD(1) [OF assms(1)] pd_okD(3) [OF assms(1)]] .
  then show ?thesis using assms(2) pd_okD(5) [OF assms(1)]
    by (cases "cr3 s + PHYS_BASE = pd") (auto simp: invalidate_pagedir_def active_pd_def ptov_def pagedir_activate_def vtop_def intro: exI [of _ "cr3 s"])
qed

lemma pd_ok_cr3 [simp]: "pd_ok (s\<lparr>cr3 := c\<rparr>) pd = pd_ok s pd" "pte_of (s\<lparr>cr3 := c\<rparr>) pd va = pte_of s pd va"
  by (simp_all add: pd_ok_def pt_of_def pte_of_def palloc_ok_def split: option.split)

text \<open>\<open>pagedir_clear_page\<close> clears the present bit of the page and keeps everything else.\<close>

lemma pagedir_clear_page_eq:
  assumes "pd_ok s pd" "pg_ofs upage = 0" "is_user_vaddr upage" "cr3 s < PHYS_BASE"
  obtains s' where "pagedir_clear_page pd upage s = Some s'" "pd_ok s' pd"
    "\<And>w. is_user_vaddr w \<Longrightarrow> pte_of s' pd w = (if pg_no w = pg_no upage then pte_of s pd w AND NOT PTE_P else pte_of s pd w)"
proof (cases "bit (pte_of s pd upage) 0")
  case False
  have same: "pte_of s pd w AND NOT PTE_P = pte_of s pd w" if "pg_no w = pg_no upage" for w
  proof -
    have "pte_of s pd w = pte_of s pd upage" using that by (simp add: pg_no_eq_iff pte_of_def split: option.split)
    then show ?thesis using False by (intro bit_eqI) (auto simp: bit_simps flag_simps intro!: gr0I)
  qed
  have "pagedir_clear_page pd upage s = Some s"
    using False assms lookup_page_existing [OF assms(1,3)]
    by (auto simp: pagedir_clear_page_def pte_of_def flag_simps split: option.splits)
  then show thesis using that assms(1) same by simp
next
  case True
  then obtain pt where pt: "pt_of s pd (pd_no upage) = Some pt" by (auto simp: pte_of_def split: option.splits)
  let ?a = "pt + 4 * pt_no upage"
  define s1 where "s1 = s\<lparr>mem := (mem s)(?a := mem s ?a AND NOT PTE_P)\<rparr>"
  have s1: "kernel_pool s1 = kernel_pool s" "palloc_ok s1" "mem s1 = (mem s)(?a := mem s ?a AND NOT PTE_P)" "cr3 s1 < PHYS_BASE"
    using pd_okD(2) [OF assms(1)] assms(4) by (simp_all add: s1_def)
  note w = pte_write [OF assms(1,3) pt s1(1-3)]
  obtain c where "invalidate_pagedir pd s1 = Some (s1\<lparr>cr3 := c\<rparr>)" using invalidate_pagedir_Some [OF w(1) s1(4)] by blast
  moreover have "?a \<noteq> 0" using pd_okD(6) [OF assms(1) user_pd_no [OF assms(3)] pt] entry_not_null by blast
  ultimately have "pagedir_clear_page pd upage s = Some (s1\<lparr>cr3 := c\<rparr>)"
    using True assms pt lookup_page_existing [OF assms(1,3)] by (simp add: pagedir_clear_page_def pte_of_def flag_simps s1_def)
  moreover have "pte_of s pd w = mem s ?a" if "pg_no w = pg_no upage" for w using that pt by (simp add: pg_no_eq_iff pte_of_def)
  ultimately show thesis using that [of "s1\<lparr>cr3 := c\<rparr>"] w by simp
qed

text \<open>
  C9: On a well-formed page directory \<open>pagedir_set_page\<close> of a page that is not mapped either maps it, so that every
  address in it is translated to the address at the same offset in \<open>kpage\<close>, or returns false because no page is left for
  a page table.  The translation of every other user address is the same as before, and the directory stays well formed.
\<close>

theorem pagedir_set_page_correct:
  assumes "pd_ok s pd" "pd \<noteq> init_page_dir s" "pg_ofs upage = 0" "is_user_vaddr upage"
    and "pg_ofs kpage = 0" "vtop kpage = Some f" "drop_bit PTSHIFT f < init_ram_pages s"
    and "pte_of s pd upage AND PTE_P = 0"
  shows "\<exists>ok s'. pagedir_set_page pd upage kpage writable s = Some (ok, s') \<and> pd_ok s' pd \<and>
    (ok \<or> (\<forall>a. \<not> is_free (kernel_pool s) a)) \<and>
    (\<forall>va. is_user_vaddr va \<longrightarrow> pagedir_get_page pd va s' =
      (if ok \<and> pg_no va = pg_no upage then Some (kpage + pg_ofs va) else pagedir_get_page pd va s))"
proof (rule lookup_page_create [OF assms(1,4)])
  assume "lookup_page pd upage True s = Some (0, s)" "\<And>a. \<not> is_free (kernel_pool s) a"
  then show ?thesis using assms by (intro exI [of _ False] exI [of _ s]) (simp add: pagedir_set_page_def)
next
  fix pt s1
  assume l: "lookup_page pd upage True s = Some (pt + 4 * pt_no upage, s1)" and s1: "pd_ok s1 pd" "pt_of s1 pd (pd_no upage) = Some pt"
    "\<And>w. is_user_vaddr w \<Longrightarrow> pte_of s1 pd w = pte_of s pd w"
  have pt: "pt + 4 * pt_no upage \<noteq> 0" using pd_okD(6) [OF s1(1) user_pd_no [OF assms(4)] s1(2)] entry_not_null by blast
  have "mem s1 (pt + 4 * pt_no upage) AND PTE_P = 0" using s1(2) s1(3) [OF assms(4)] assms(8) by (simp add: pte_of_def)
  moreover obtain e where e: "pte_create_user kpage writable = Some e"
    using assms(5,6) by (auto simp: pte_create_user_def pte_create_kernel_def)
  moreover define s' where "s' = s1\<lparr>mem := (mem s1)(pt + 4 * pt_no upage := e)\<rparr>"
  ultimately have r: "pagedir_set_page pd upage kpage writable s = Some (True, s')" using l pt assms by (simp add: pagedir_set_page_def)
  have s': "kernel_pool s' = kernel_pool s1" "palloc_ok s'" "mem s' = (mem s1)(pt + 4 * pt_no upage := e)"
    using pd_okD(2) [OF s1(1)] by (simp_all add: s'_def)
  note w = pte_write [OF s1(1) assms(4) s1(2) s']
  show ?thesis using r w(1) w(2) s1(3) pte_roundtrip [OF e] pagedir_get_page_eq [OF w(1)] pagedir_get_page_eq [OF assms(1)]
    by (intro exI [of _ True] exI [of _ s']) simp
qed

definition small_vm :: vm where
  "small_vm = palloc_state.extend (small_pools\<lparr>mem := \<lambda>_. 0\<rparr>) \<lparr>init_page_dir = 0xc0101000, init_ram_pages = 1024, cr3 = 0x101000\<rparr>"

lemma small_vm_pools: "kernel_pool small_vm = kernel_pool small_pools" "palloc_ok small_vm" "mem small_vm = (\<lambda>_. 0)"
  using small_pools_ok by (simp_all add: small_vm_def palloc_state.defs palloc_ok_def)

lemma small_vm_ok: "pd_ok small_vm 0xc0200000" "is_free (kernel_pool small_vm) (pool_page (kernel_pool small_vm) 1)"
proof -
  let ?p = "the_pool False small_pools"
  have p: "?p = kernel_pool small_pools" by (simp add: the_pool_def)
  have n: "bit_cnt (used_map ?p) = 4" "pool_page ?p 0 = 0xc0200000" by (simp_all add: the_pool_def small_pools_def pool_page_def)
  have "in_use ?p 0xc0200000" using is_free_nth(2) [OF palloc_ok_pool [OF small_pools_ok], of 0 False] n small_pools_bits by simp
  then show "pd_ok small_vm 0xc0200000" using small_vm_pools by (simp add: pd_ok_def pt_of_def p)
  show "is_free (kernel_pool small_vm) (pool_page (kernel_pool small_vm) 1)"
    using small_pools_page [of 1] by (simp add: small_vm_pools p)
qed

theorem pagedir_set_page_correct_witness:
  "\<exists>s'. pagedir_set_page 0xc0200000 0x08048000 0xc0300000 True small_vm = Some (True, s') \<and>
     pagedir_get_page 0xc0200000 0x08048123 s' = Some 0xc0300123"
proof -
  have h: "0xc0200000 \<noteq> init_page_dir small_vm" "pg_ofs 0x08048000 = 0" "is_user_vaddr 0x08048000" "pg_ofs 0xc0300000 = 0"
    "vtop 0xc0300000 = Some 0x300000" "drop_bit PTSHIFT 0x300000 < init_ram_pages small_vm" "pte_of small_vm 0xc0200000 0x08048000 AND PTE_P = 0"
    using small_vm_pools by (simp_all add: small_vm_def palloc_state.defs aligned_iff is_user_vaddr_def vtop_def is_kernel_vaddr_def
        PHYS_BASE_def PTSHIFT_def PGBITS_def pte_of_def pt_of_def drop_bit_eq_div)
  have "is_user_vaddr 0x08048123" "pg_no 0x08048123 = pg_no 0x08048000" "pg_ofs 0x08048123 = 0x123"
    by (simp_all add: is_user_vaddr_def PHYS_BASE_def word_unat_eq_iff unat_pg_no unat_pg_ofs)
  then show ?thesis
    using pagedir_set_page_correct [OF small_vm_ok(1) h, of True] small_vm_ok(2) by fastforce
qed

end
