(* ===== verification/Hash.thy ===== *)
theory Hash
  imports Prelude "HOL-Library.Word"
begin

unbundle bit_operations_syntax

text \<open>
  \<open>lib/kernel/hash.c\<close>: a hash table with chaining.  A bucket is the list of its elements (an element stands for its
  address); the comparison and hash functions are fields of the table, as in the code, with their auxiliary data
  applied.  Whether \<open>malloc\<close> finds memory is the parameter \<open>mem_ok\<close>.
\<close>

section \<open>Operations\<close>

record 'e hash_table =
  elem_cnt :: nat
  bucket_cnt :: nat
  buckets :: "'e list list"
  hash_func :: "'e \<Rightarrow> 32 word"
  less_func :: "'e \<Rightarrow> 'e \<Rightarrow> bool"

text \<open>The elements for which the destructor is called, in order, and the table.\<close>

definition hash_clear :: "bool \<Rightarrow> 'e hash_table \<Rightarrow> 'e list \<times> 'e hash_table" where
  "hash_clear destructor h =
     (if destructor then concat (take (bucket_cnt h) (buckets h)) else [],
      h\<lparr>buckets := replicate (bucket_cnt h) [], elem_cnt := 0\<rparr>)"

definition hash_init :: "bool \<Rightarrow> ('e \<Rightarrow> 32 word) \<Rightarrow> ('e \<Rightarrow> 'e \<Rightarrow> bool) \<Rightarrow> bool \<times> 'e hash_table" where
  "hash_init mem_ok hash lessf =
     (let h = \<lparr>elem_cnt = 0, bucket_cnt = 4, buckets = [], hash_func = hash, less_func = lessf\<rparr>
      in if mem_ok then (True, snd (hash_clear False h)) else (False, h))"

definition hash_destroy :: "bool \<Rightarrow> 'e hash_table \<Rightarrow> 'e list" where
  "hash_destroy destructor h = (if destructor then fst (hash_clear True h) else [])"

definition bucket_idx :: "'e hash_table \<Rightarrow> 'e \<Rightarrow> nat" where
  "bucket_idx h e = unat (hash_func h e AND (of_nat (bucket_cnt h) - 1))"

definition find_bucket :: "'e hash_table \<Rightarrow> 'e \<Rightarrow> nat option" where
  "find_bucket h e = do { let i = bucket_idx h e; ASSERT (i < length (buckets h)); Some i }"

definition find_elem :: "'e hash_table \<Rightarrow> nat \<Rightarrow> 'e \<Rightarrow> 'e option" where
  "find_elem h bucket e = find (\<lambda>hi. \<not> less_func h hi e \<and> \<not> less_func h e hi) (buckets h ! bucket)"

definition turn_off_least_1bit :: "32 word \<Rightarrow> 32 word" where
  "turn_off_least_1bit x = x AND (x - 1)"

definition is_power_of_2 :: "32 word \<Rightarrow> bool" where
  "is_power_of_2 x \<longleftrightarrow> x \<noteq> 0 \<and> turn_off_least_1bit x = 0"

partial_function (option) power_loop :: "32 word \<Rightarrow> 32 word option" where
  "power_loop x = (if \<not> is_power_of_2 x then power_loop (turn_off_least_1bit x) else Some x)"

definition BEST_ELEMS_PER_BUCKET :: nat where "BEST_ELEMS_PER_BUCKET = 2"

text \<open>One round of the moving loop: \<open>elem\<close> leaves its old bucket for the front of the new one.\<close>

definition move_elem :: "'e \<Rightarrow> 'e hash_table \<Rightarrow> 'e hash_table option" where
  "move_elem e h = do { i \<leftarrow> find_bucket h e; Some (h\<lparr>buckets := (buckets h)[i := e # buckets h ! i]\<rparr>) }"

definition rehash :: "bool \<Rightarrow> 'e hash_table \<Rightarrow> 'e hash_table option" where
  "rehash mem_ok h = do {
     let old_buckets = buckets h;
     let old_bucket_cnt = bucket_cnt h;
     let new_bucket_cnt = elem_cnt h div BEST_ELEMS_PER_BUCKET;
     let new_bucket_cnt = (if new_bucket_cnt < 4 then 4 else new_bucket_cnt);
     w \<leftarrow> power_loop (of_nat new_bucket_cnt);
     let new_bucket_cnt = unat w;
     if new_bucket_cnt = old_bucket_cnt \<or> \<not> mem_ok then Some h
     else fold_opt move_elem (concat (take old_bucket_cnt old_buckets))
            (h\<lparr>buckets := replicate new_bucket_cnt [], bucket_cnt := new_bucket_cnt\<rparr>) }"

definition insert_elem :: "nat \<Rightarrow> 'e \<Rightarrow> 'e hash_table \<Rightarrow> 'e hash_table" where
  "insert_elem bucket e h =
     h\<lparr>buckets := (buckets h)[bucket := e # buckets h ! bucket], elem_cnt := u32 (elem_cnt h + 1)\<rparr>"

text \<open>\<open>list_remove\<close> takes the element out of the list it is in.\<close>

definition remove_elem :: "'e \<Rightarrow> 'e hash_table \<Rightarrow> 'e hash_table" where
  "remove_elem e h = h\<lparr>elem_cnt := u32 (elem_cnt h + (2 ^ 32 - 1)), buckets := map (remove1 e) (buckets h)\<rparr>"

definition hash_insert :: "bool \<Rightarrow> 'e hash_table \<Rightarrow> 'e \<Rightarrow> ('e option \<times> 'e hash_table) option" where
  "hash_insert mem_ok h new = do {
     bucket \<leftarrow> find_bucket h new;
     let old = find_elem h bucket new;
     let h = (if old = None then insert_elem bucket new h else h);
     h \<leftarrow> rehash mem_ok h;
     Some (old, h) }"

definition hash_replace :: "bool \<Rightarrow> 'e hash_table \<Rightarrow> 'e \<Rightarrow> ('e option \<times> 'e hash_table) option" where
  "hash_replace mem_ok h new = do {
     bucket \<leftarrow> find_bucket h new;
     let old = find_elem h bucket new;
     let h = (case old of None \<Rightarrow> h | Some o' \<Rightarrow> remove_elem o' h);
     let h = insert_elem bucket new h;
     h \<leftarrow> rehash mem_ok h;
     Some (old, h) }"

definition hash_find :: "'e hash_table \<Rightarrow> 'e \<Rightarrow> 'e option option" where
  "hash_find h e = do { bucket \<leftarrow> find_bucket h e; Some (find_elem h bucket e) }"

definition hash_delete :: "bool \<Rightarrow> 'e hash_table \<Rightarrow> 'e \<Rightarrow> ('e option \<times> 'e hash_table) option" where
  "hash_delete mem_ok h e = do {
     bucket \<leftarrow> find_bucket h e;
     let found = find_elem h bucket e;
     h \<leftarrow> (case found of None \<Rightarrow> Some h | Some f \<Rightarrow> rehash mem_ok (remove_elem f h));
     Some (found, h) }"

definition hash_apply :: "('e \<Rightarrow> 's \<Rightarrow> 's) \<Rightarrow> 'e hash_table \<Rightarrow> 's \<Rightarrow> 's" where
  "hash_apply action h s = fold action (concat (take (bucket_cnt h) (buckets h))) s"

definition hash_size :: "'e hash_table \<Rightarrow> nat" where
  "hash_size h = elem_cnt h"

definition hash_empty :: "'e hash_table \<Rightarrow> bool" where
  "hash_empty h \<longleftrightarrow> elem_cnt h = 0"

section \<open>Iteration\<close>

text \<open>
  The position in a bucket: 0 is the list head, \<open>n\<close> the \<open>n\<close>-th element, one more than the length the list tail.
  The null pointer at the end of the table is \<open>None\<close>.
\<close>

record hash_iterator =
  it_bucket :: nat
  it_elem :: "nat option"

definition hash_first :: "hash_iterator" where
  "hash_first = \<lparr>it_bucket = 0, it_elem = Some 0\<rparr>"

function next_bucket :: "nat \<Rightarrow> nat \<Rightarrow> 'e hash_table \<Rightarrow> hash_iterator" where
  "next_bucket p b h =
     (if p = Suc (length (buckets h ! b))
      then (if Suc b \<ge> bucket_cnt h then \<lparr>it_bucket = Suc b, it_elem = None\<rparr> else next_bucket 1 (Suc b) h)
      else \<lparr>it_bucket = b, it_elem = Some p\<rparr>)"
  by pat_completeness auto
termination
  by (relation "measure (\<lambda>(p, b, h). bucket_cnt h - b)") auto

declare next_bucket.simps [simp del]

definition hash_next :: "hash_iterator \<Rightarrow> 'e hash_table \<Rightarrow> hash_iterator option" where
  "hash_next i h = do {
     p \<leftarrow> it_elem i;
     ASSERT (p \<le> length (buckets h ! it_bucket i));
     Some (next_bucket (Suc p) (it_bucket i) h) }"

definition hash_cur :: "hash_iterator \<Rightarrow> 'e hash_table \<Rightarrow> 'e option" where
  "hash_cur i h = map_option (\<lambda>p. buckets h ! it_bucket i ! (p - 1)) (it_elem i)"

section \<open>Hash functions\<close>

definition FNV_32_PRIME :: "32 word" where "FNV_32_PRIME = 16777619"
definition FNV_32_BASIS :: "32 word" where "FNV_32_BASIS = 2166136261"

definition hash_bytes :: "8 word list \<Rightarrow> 32 word" where
  "hash_bytes buf = foldl (\<lambda>hash b. (hash * FNV_32_PRIME) XOR ucast b) FNV_32_BASIS buf"

definition hash_string :: "8 word list \<Rightarrow> 32 word" where
  "hash_string s = foldl (\<lambda>hash b. (hash * FNV_32_PRIME) XOR ucast b) FNV_32_BASIS (takeWhile (\<lambda>b. b \<noteq> 0) s)"

text \<open>The four bytes of an \<open>int\<close>, least significant first.\<close>

definition hash_int :: "32 word \<Rightarrow> 32 word" where
  "hash_int i = hash_bytes [ucast i, ucast (drop_bit 8 i), ucast (drop_bit 16 i), ucast (drop_bit 24 i)]"

section \<open>The number of buckets\<close>

lemma and_pred_even: "0 < m \<Longrightarrow> (2 * m) AND (2 * m - 1) = 2 * (m AND (m - 1))" for m :: nat
proof -
  assume "0 < m"
  then have "2 * m - 1 = Suc (2 * (m - 1))" by simp
  then show ?thesis by (simp add: and_nat_rec [of "2 * m"])
qed

lemma and_pred_odd: "Suc (2 * m) AND (Suc (2 * m) - 1) = 2 * m" for m :: nat
  by (simp add: and_nat_rec [of "Suc (2 * m)"])

lemma and_pred:
  assumes "2 ^ k \<le> n" "n < 2 ^ Suc k"
  shows "n AND (n - 1) < n" "n AND (n - 1) \<noteq> (0 :: nat) \<Longrightarrow> 2 ^ k \<le> n AND (n - 1)" "n AND (n - 1) = 0 \<Longrightarrow> n = 2 ^ k"
proof -
  have "n AND (n - 1) < n \<and> (n AND (n - 1) \<noteq> 0 \<longrightarrow> 2 ^ k \<le> n AND (n - 1)) \<and> (n AND (n - 1) = 0 \<longrightarrow> n = 2 ^ k)"
    using assms
  proof (induction k arbitrary: n)
    case 0
    then have "n = 1" by simp
    then show ?case by simp
  next
    case (Suc k)
    show ?case
    proof (cases "even n")
      case True
      then obtain m where m: "n = 2 * m" by blast
      then have "0 < m" "2 ^ k \<le> m" "m < 2 ^ Suc k" using Suc.prems by simp_all
      then show ?thesis using Suc.IH [of m] m and_pred_even [of m] by simp
    next
      case False
      then obtain m where m: "n = Suc (2 * m)" using oddE by fastforce
      then have "2 ^ k \<le> m" using Suc.prems by simp
      then have "0 < m" by (meson less_le_trans zero_less_numeral zero_less_power)
      then show ?thesis using \<open>2 ^ k \<le> m\<close> and_pred_odd [of m] by (simp add: m)
    qed
  qed
  then show "n AND (n - 1) < n" "n AND (n - 1) \<noteq> 0 \<Longrightarrow> 2 ^ k \<le> n AND (n - 1)" "n AND (n - 1) = 0 \<Longrightarrow> n = 2 ^ k" by simp_all
qed

lemma unat_turn_off: "x \<noteq> 0 \<Longrightarrow> unat (turn_off_least_1bit x) = unat x AND (unat x - 1)"
  by (simp add: turn_off_least_1bit_def unsigned_and_eq unat_minus_one)

lemma is_power_of_2_iff:
  assumes "2 ^ k \<le> unat x" "unat x < 2 ^ Suc k"
  shows "is_power_of_2 x \<longleftrightarrow> unat x = 2 ^ k"
proof -
  have "x \<noteq> 0" using assms(1) by auto
  have "(2 ^ k :: nat) AND (2 ^ k - 1) = 0" using and_pred(2) [of k "2 ^ k"] and_pred(1) [of k "2 ^ k"] by fastforce
  moreover have "is_power_of_2 x \<longleftrightarrow> unat x AND (unat x - 1) = 0"
    using \<open>x \<noteq> 0\<close> unat_turn_off [OF \<open>x \<noteq> 0\<close>] by (simp add: is_power_of_2_def word_unat_eq_iff [of "turn_off_least_1bit x"])
  ultimately show ?thesis using and_pred(3) [OF assms] by metis
qed

text \<open>The loop in \<open>rehash\<close> ends with the largest power of 2 that is not above its start.\<close>

lemma power_loop_eq: "2 ^ k \<le> unat x \<Longrightarrow> unat x < 2 ^ Suc k \<Longrightarrow> \<exists>w. power_loop x = Some w \<and> unat w = 2 ^ k"
proof (induction "unat x" arbitrary: x rule: less_induct)
  case less
  note step = and_pred [OF less.prems] and pow = is_power_of_2_iff [OF less.prems]
  have "x \<noteq> 0" using less.prems(1) by auto
  show ?case
  proof (cases "is_power_of_2 x")
    case True
    then show ?thesis using pow by (subst power_loop.simps) simp
  next
    case False
    then have u: "unat (turn_off_least_1bit x) \<noteq> 0"
      using \<open>x \<noteq> 0\<close> unat_eq_zero by (auto simp: is_power_of_2_def)
    then have "\<exists>w. power_loop (turn_off_least_1bit x) = Some w \<and> unat w = 2 ^ k"
      using step less.prems(2) by (intro less.hyps) (simp_all add: unat_turn_off [OF \<open>x \<noteq> 0\<close>])
    then show ?thesis using False by (subst power_loop.simps) simp
  qed
qed

section \<open>Well-formed tables\<close>

text \<open>What a table asks of its functions: \<open>less\<close> is a strict weak order, and equal elements have equal hashes.\<close>

locale hash_contract =
  fixes hash :: "'e \<Rightarrow> 32 word" and lessf :: "'e \<Rightarrow> 'e \<Rightarrow> bool"
  assumes less_irrefl: "\<not> lessf x x"
    and same_trans: "\<not> lessf x y \<Longrightarrow> \<not> lessf y x \<Longrightarrow> \<not> lessf y z \<Longrightarrow> \<not> lessf z y \<Longrightarrow> \<not> lessf x z \<and> \<not> lessf z x"
    and same_hash: "\<not> lessf x y \<Longrightarrow> \<not> lessf y x \<Longrightarrow> hash x = hash y"

definition same_elem :: "'e hash_table \<Rightarrow> 'e \<Rightarrow> 'e \<Rightarrow> bool" where
  "same_elem h x y \<longleftrightarrow> \<not> less_func h x y \<and> \<not> less_func h y x"

definition elems :: "'e hash_table \<Rightarrow> 'e set" where
  "elems h = set (concat (buckets h))"

definition table_shape :: "'e hash_table \<Rightarrow> bool" where
  "table_shape h \<longleftrightarrow> (\<exists>k<32. bucket_cnt h = 2 ^ k) \<and> length (buckets h) = bucket_cnt h \<and>
     (\<forall>i<bucket_cnt h. \<forall>e\<in>set (buckets h ! i). bucket_idx h e = i)"

definition hash_ok :: "'e hash_table \<Rightarrow> bool" where
  "hash_ok h \<longleftrightarrow> table_shape h \<and> distinct (concat (buckets h)) \<and>
     (\<forall>x\<in>elems h. \<forall>y\<in>elems h. same_elem h x y \<longrightarrow> x = y) \<and> elem_cnt h = length (concat (buckets h))"

lemma bucket_idx_less:
  assumes "k < 32" "bucket_cnt h = 2 ^ k"
  shows "bucket_idx h e < 2 ^ k"
proof -
  have "of_nat (2 ^ k) - 1 = (mask k :: 32 word)" by (simp add: mask_eq_exp_minus_1)
  then have "bucket_idx h e = unat (take_bit k (hash_func h e))"
    by (simp add: bucket_idx_def assms(2) take_bit_eq_mask)
  also have "\<dots> < 2 ^ k" by (simp add: unsigned_take_bit_eq)
  finally show ?thesis .
qed

lemma table_shapeD:
  assumes "table_shape h"
  shows "bucket_idx h e < bucket_cnt h" "bucket_idx h e < length (buckets h)"
    "length (buckets h) = bucket_cnt h" "find_bucket h e = Some (bucket_idx h e)"
  using assms bucket_idx_less [of _ h e] by (auto simp: table_shape_def find_bucket_def)

lemma elems_bucket:
  assumes "table_shape h"
  shows "e \<in> elems h \<longleftrightarrow> e \<in> set (buckets h ! bucket_idx h e)"
proof
  assume "e \<in> elems h"
  then obtain bucket where "bucket \<in> set (buckets h)" "e \<in> set bucket" by (auto simp: elems_def)
  then obtain i where "i < bucket_cnt h" "e \<in> set (buckets h ! i)"
    using table_shapeD(3) [OF assms] by (metis in_set_conv_nth)
  moreover from this have "bucket_idx h e = i" using assms by (auto simp: table_shape_def)
  ultimately show "e \<in> set (buckets h ! bucket_idx h e)" by simp
next
  assume "e \<in> set (buckets h ! bucket_idx h e)"
  then show "e \<in> elems h" using table_shapeD(2) [OF assms, of e] by (auto simp: elems_def)
qed

lemma mset_concat_update: "i < length bs \<Longrightarrow> mset (concat (bs[i := e # bs ! i])) = add_mset e (mset (concat bs))"
  by (induction bs arbitrary: i) (auto simp: less_Suc_eq_0_disj)

text \<open>Putting an element at the front of its bucket.\<close>

lemma table_upd [simp]:
  "bucket_idx (h\<lparr>elem_cnt := n\<rparr>) = bucket_idx h" "bucket_idx (h\<lparr>buckets := bs\<rparr>) = bucket_idx h"
  "same_elem (h\<lparr>elem_cnt := n\<rparr>) = same_elem h" "same_elem (h\<lparr>buckets := bs\<rparr>) = same_elem h"
  "same_elem (h\<lparr>bucket_cnt := m\<rparr>) = same_elem h" "table_shape (h\<lparr>elem_cnt := n\<rparr>) = table_shape h"
  by (simp_all add: bucket_idx_def same_elem_def table_shape_def fun_eq_iff)

lemma push_shape:
  assumes "table_shape h"
  shows "table_shape (h\<lparr>buckets := (buckets h)[bucket_idx h e := e # buckets h ! bucket_idx h e]\<rparr>)"
  using assms table_shapeD(2) [OF assms, of e] by (auto simp: table_shape_def nth_list_update)

lemma move_loop:
  assumes "table_shape h"
  shows "\<exists>bs. fold_opt move_elem es h = Some (h\<lparr>buckets := bs\<rparr>) \<and> table_shape (h\<lparr>buckets := bs\<rparr>) \<and>
    mset (concat bs) = mset es + mset (concat (buckets h))"
  using assms
proof (induction es arbitrary: h)
  case Nil
  then show ?case by (intro exI [of _ "buckets h"]) simp
next
  case (Cons e es)
  let ?i = "bucket_idx h e"
  let ?bs = "(buckets h)[?i := e # buckets h ! ?i]"
  have "table_shape (h\<lparr>buckets := ?bs\<rparr>)" using push_shape [OF Cons.prems] by simp
  then obtain bs where bs: "fold_opt move_elem es (h\<lparr>buckets := ?bs\<rparr>) = Some (h\<lparr>buckets := bs\<rparr>)"
    "table_shape (h\<lparr>buckets := bs\<rparr>)" "mset (concat bs) = mset es + mset (concat ?bs)"
    using Cons.IH [of "h\<lparr>buckets := ?bs\<rparr>"] by auto
  moreover have "move_elem e h = Some (h\<lparr>buckets := ?bs\<rparr>)" using table_shapeD(4) [OF Cons.prems] by (simp add: move_elem_def)
  ultimately show ?case using table_shapeD(2) [OF Cons.prems, of e] mset_concat_update [of ?i "buckets h" e]
    by (intro exI [of _ bs]) simp
qed

lemma rehash_eq:
  assumes "table_shape h" "elem_cnt h < 2 ^ 32"
  obtains bs n where "rehash m h = Some (h\<lparr>buckets := bs, bucket_cnt := n\<rparr>)" "table_shape (h\<lparr>buckets := bs, bucket_cnt := n\<rparr>)"
    "mset (concat bs) = mset (concat (buckets h))"
proof -
  define c where "c = (if elem_cnt h div 2 < 4 then 4 else elem_cnt h div 2)"
  have c: "4 \<le> c" "c < 2 ^ 32" using assms(2) by (auto simp: c_def)
  then have uc: "unat (of_nat c :: 32 word) = c" by (simp add: unat_of_nat take_bit_eq_mod)
  obtain k where k: "2 ^ k \<le> c" "c < 2 ^ Suc k" using c(1) ex_power_ivl1 [of 2 c] by auto
  obtain w where w: "power_loop (of_nat c) = Some w" "unat w = 2 ^ k" using power_loop_eq [of k "of_nat c"] k uc by auto
  have "(2 :: nat) ^ k < 2 ^ 32" using k(1) c(2) by (rule le_less_trans)
  then have k32: "k < 32" by (simp only: power_strict_increasing_iff [of 2] one_less_numeral_iff semiring_norm)
  have r: "rehash m h = (if 2 ^ k = bucket_cnt h \<or> \<not> m then Some h
     else fold_opt move_elem (concat (take (bucket_cnt h) (buckets h))) (h\<lparr>buckets := replicate (2 ^ k) [], bucket_cnt := 2 ^ k\<rparr>))"
    using w by (simp add: rehash_def BEST_ELEMS_PER_BUCKET_def Let_def c_def [symmetric])
  show thesis
  proof (cases "2 ^ k = bucket_cnt h \<or> \<not> m")
    case True
    then show ?thesis using that [of "bucket_cnt h" "buckets h"] r assms(1) by simp
  next
    case False
    let ?h = "h\<lparr>buckets := replicate (2 ^ k) [], bucket_cnt := 2 ^ k\<rparr>"
    have sh: "table_shape ?h" using k32 by (auto simp: table_shape_def)
    have all: "take (bucket_cnt h) (buckets h) = buckets h" using table_shapeD(3) [OF assms(1)] by simp
    obtain bs where "fold_opt move_elem (concat (buckets h)) ?h = Some (?h\<lparr>buckets := bs\<rparr>)" "table_shape (?h\<lparr>buckets := bs\<rparr>)"
      "mset (concat bs) = mset (concat (buckets h)) + mset (concat (buckets ?h))"
      using move_loop [OF sh, of "concat (buckets h)"] by blast
    moreover have "concat (buckets ?h) = []" by simp
    moreover have "?h\<lparr>buckets := bs\<rparr> = h\<lparr>buckets := bs, bucket_cnt := 2 ^ k\<rparr>" by simp
    ultimately show ?thesis using that [of "2 ^ k" bs] r False unfolding all by simp
  qed
qed

text \<open>Rehashing is a permutation of the elements, so it keeps a table well formed.\<close>

lemma rehash_ok:
  assumes "hash_ok h" "elem_cnt h < 2 ^ 32"
  shows "\<exists>h'. rehash m h = Some h' \<and> hash_ok h' \<and> elems h' = elems h \<and> hash_func h' = hash_func h \<and> less_func h' = less_func h"
proof -
  have sh: "table_shape h" using assms(1) by (simp add: hash_ok_def)
  obtain bs n where r: "rehash m h = Some (h\<lparr>buckets := bs, bucket_cnt := n\<rparr>)" "table_shape (h\<lparr>buckets := bs, bucket_cnt := n\<rparr>)"
    "mset (concat bs) = mset (concat (buckets h))" using rehash_eq [OF sh assms(2)] by blast
  let ?h = "h\<lparr>buckets := bs, bucket_cnt := n\<rparr>"
  have "elems ?h = elems h" using mset_eq_setD [OF r(3)] by (simp add: elems_def)
  moreover have "length (concat bs) = length (concat (buckets h))" "distinct (concat bs) = distinct (concat (buckets h))"
    using mset_eq_length [OF r(3)] mset_eq_imp_distinct_iff [OF r(3)] by simp_all
  ultimately show ?thesis using r(1,2) assms(1) by (intro exI [of _ ?h]) (simp add: hash_ok_def)
qed

section \<open>The table as a set of elements\<close>

text \<open>The element equal to \<open>e\<close>, if there is one.\<close>

definition found :: "'e hash_table \<Rightarrow> 'e \<Rightarrow> 'e option \<Rightarrow> bool" where
  "found h e r \<longleftrightarrow> (\<forall>x. r = Some x \<longleftrightarrow> x \<in> elems h \<and> same_elem h x e)"

lemma remove1_filter: "distinct b \<Longrightarrow> remove1 e b = filter (\<lambda>x. x \<noteq> e) b"
  by (auto simp: distinct_remove1_removeAll removeAll_filter_not_eq intro!: filter_cong)

lemma concat_remove1:
  assumes "distinct (concat bs)"
  shows "concat (map (remove1 e) bs) = filter (\<lambda>x. x \<noteq> e) (concat bs)"
proof -
  have "remove1 e b = filter (\<lambda>x. x \<noteq> e) b" if "b \<in> set bs" for b
    using that assms by (simp add: distinct_concat_iff remove1_filter)
  then have "map (remove1 e) bs = map (filter (\<lambda>x. x \<noteq> e)) bs" by (rule map_cong [OF refl])
  then show ?thesis by (simp only: filter_concat)
qed

context hash_contract
begin

lemma same_refl: "less_func h = lessf \<Longrightarrow> same_elem h x x"
  by (simp add: same_elem_def less_irrefl)

lemma same_sym: "same_elem h x y \<Longrightarrow> same_elem h y x"
  by (simp add: same_elem_def)

lemma same_equiv: "less_func h = lessf \<Longrightarrow> same_elem h x y \<Longrightarrow> same_elem h y z \<Longrightarrow> same_elem h x z"
  using same_trans [of x y z] by (simp add: same_elem_def)

lemma same_idx: "hash_func h = hash \<Longrightarrow> less_func h = lessf \<Longrightarrow> same_elem h x y \<Longrightarrow> bucket_idx h x = bucket_idx h y"
  using same_hash [of x y] by (simp add: same_elem_def bucket_idx_def)

lemma find_elem_found:
  assumes "hash_ok h" "hash_func h = hash" "less_func h = lessf"
  shows "found h e (find_elem h (bucket_idx h e) e)"
proof -
  have sh: "table_shape h" using assms(1) by (simp add: hash_ok_def)
  have "x \<in> set (buckets h ! bucket_idx h e)" if "x \<in> elems h" "same_elem h x e" for x
    using elems_bucket [OF sh, of x] that same_idx [OF assms(2,3) that(2)] by simp
  moreover have "x \<in> elems h" if "x \<in> set (buckets h ! bucket_idx h e)" for x
    using that table_shapeD(2) [OF sh, of e] by (auto simp: elems_def)
  moreover have "x = y" if "x \<in> elems h" "y \<in> elems h" "same_elem h x e" "same_elem h y e" for x y
    using same_equiv [OF assms(3) that(3) same_sym [OF that(4)]] that(1,2) assms(1) by (simp add: hash_ok_def)
  moreover have "found h e r" if fr: "r = find (\<lambda>hi. same_elem h hi e) (buckets h ! bucket_idx h e)"
    and in_b: "\<And>x. x \<in> elems h \<Longrightarrow> same_elem h x e \<Longrightarrow> x \<in> set (buckets h ! bucket_idx h e)"
    and in_t: "\<And>x. x \<in> set (buckets h ! bucket_idx h e) \<Longrightarrow> x \<in> elems h"
    and uniq: "\<And>x y. x \<in> elems h \<Longrightarrow> y \<in> elems h \<Longrightarrow> same_elem h x e \<Longrightarrow> same_elem h y e \<Longrightarrow> x = y" for r
  proof (cases r)
    case None
    then have "\<not> same_elem h x e" if "x \<in> set (buckets h ! bucket_idx h e)" for x
      using that fr by (metis find_None_iff)
    then show ?thesis using None in_b by (auto simp: found_def)
  next
    case (Some y)
    then have "y \<in> set (buckets h ! bucket_idx h e)" "same_elem h y e"
      using fr by (metis find_Some_iff nth_mem)+
    then have "y \<in> elems h \<and> same_elem h y e" using in_t by simp
    then show ?thesis using Some uniq by (auto simp: found_def)
  qed
  ultimately show ?thesis by (simp add: find_elem_def same_elem_def)
qed

lemma insert_elem_ok:
  assumes "hash_ok h" "\<And>x. x \<in> elems h \<Longrightarrow> \<not> same_elem h x e" "elem_cnt h + 1 < 2 ^ 32" "less_func h = lessf"
  shows "hash_ok (insert_elem (bucket_idx h e) e h)" "elems (insert_elem (bucket_idx h e) e h) = insert e (elems h)"
proof -
  let ?h = "insert_elem (bucket_idx h e) e h"
  have sh: "table_shape h" using assms(1) by (simp add: hash_ok_def)
  have m: "mset (concat (buckets ?h)) = add_mset e (mset (concat (buckets h)))"
    using mset_concat_update [OF table_shapeD(2) [OF sh]] by (simp add: insert_elem_def)
  show el: "elems ?h = insert e (elems h)" using arg_cong [OF m, of set_mset] by (simp only: elems_def set_mset_mset set_mset_add_mset_insert)
  have "e \<notin> elems h" using assms(2) same_refl [OF assms(4)] by blast
  then have "distinct (e # concat (buckets h))" using assms(1) by (simp add: hash_ok_def elems_def)
  moreover have "mset (concat (buckets ?h)) = mset (e # concat (buckets h))" using m by simp
  ultimately have "distinct (concat (buckets ?h))" "length (concat (buckets ?h)) = Suc (length (concat (buckets h)))"
    using mset_eq_imp_distinct_iff mset_eq_length by fastforce+
  moreover have "table_shape ?h" using push_shape [OF sh, of e] by (simp add: insert_elem_def)
  moreover have "same_elem ?h = same_elem h" by (simp add: insert_elem_def)
  moreover have "elem_cnt ?h = Suc (elem_cnt h)" using assms(3) by (simp add: insert_elem_def u32_id)
  moreover have "\<And>x y. x \<in> elems h \<Longrightarrow> y \<in> elems h \<Longrightarrow> same_elem h x y \<Longrightarrow> x = y" using assms(1) by (simp add: hash_ok_def)
  then have "\<forall>x\<in>elems ?h. \<forall>y\<in>elems ?h. same_elem h x y \<longrightarrow> x = y"
    using assms(2) same_sym unfolding el by (metis insert_iff)
  ultimately show "hash_ok ?h" using assms(1) by (simp add: hash_ok_def)
qed

lemma remove_elem_ok:
  assumes "hash_ok h" "x \<in> elems h" "elem_cnt h < 2 ^ 32"
  shows "hash_ok (remove_elem x h)" "elems (remove_elem x h) = elems h - {x}" "elem_cnt (remove_elem x h) = elem_cnt h - 1"
    "bucket_idx (remove_elem x h) = bucket_idx h" "same_elem (remove_elem x h) = same_elem h"
proof -
  let ?h = "remove_elem x h"
  have d: "distinct (concat (buckets h))" and sh: "table_shape h" using assms(1) by (simp_all add: hash_ok_def)
  have c: "concat (buckets ?h) = filter (\<lambda>y. y \<noteq> x) (concat (buckets h))" using concat_remove1 [OF d] by (simp add: remove_elem_def)
  show el: "elems ?h = elems h - {x}" unfolding elems_def c by auto
  have xc: "x \<in> set (concat (buckets h))" using assms(2) by (simp add: elems_def)
  have "filter (\<lambda>y. y \<noteq> x) (concat (buckets h)) = remove1 x (concat (buckets h))"
    by (rule remove1_filter [OF d, symmetric])
  then have len: "length (concat (buckets ?h)) = length (concat (buckets h)) - 1" using xc by (simp only: c length_remove1 if_True)
  have cnt: "elem_cnt h = length (concat (buckets h))" using assms(1) by (simp add: hash_ok_def)
  have "0 < elem_cnt h" using xc unfolding cnt by (metis length_pos_if_in_set)
  then have "elem_cnt h + (2 ^ 32 - 1) = (elem_cnt h - 1) + 2 ^ 32" by simp
  then have "u32 (elem_cnt h + (2 ^ 32 - 1)) = (elem_cnt h - 1) mod 2 ^ 32" unfolding u32_def by (simp only: mod_add_self2)
  then have "u32 (elem_cnt h + (2 ^ 32 - 1)) = elem_cnt h - 1" using assms(3) by simp
  then show e: "elem_cnt ?h = elem_cnt h - 1" by (simp add: remove_elem_def)
  show b: "bucket_idx ?h = bucket_idx h" "same_elem ?h = same_elem h" by (simp_all add: remove_elem_def)
  have "table_shape ?h" using sh unfolding table_shape_def b
    by (auto simp: remove_elem_def dest!: set_remove1_subset [THEN subsetD])
  moreover have "distinct (concat (buckets ?h))" using d by (simp add: c)
  moreover have "\<forall>x\<in>elems ?h. \<forall>y\<in>elems ?h. same_elem ?h x y \<longrightarrow> x = y" using assms(1) unfolding el b hash_ok_def by blast
  ultimately show "hash_ok ?h" using e len cnt by (simp add: hash_ok_def)
qed

lemma hash_insert_spec:
  assumes "hash_ok h" "hash_func h = hash" "less_func h = lessf" "elem_cnt h + 1 < 2 ^ 32"
  shows "\<exists>r h'. hash_insert m h e = Some (r, h') \<and> found h e r \<and> hash_ok h' \<and> hash_func h' = hash \<and> less_func h' = lessf \<and>
    elems h' = (if r = None then insert e (elems h) else elems h)"
proof -
  let ?r = "find_elem h (bucket_idx h e) e"
  have sh: "table_shape h" using assms(1) by (simp add: hash_ok_def)
  note f = find_elem_found [OF assms(1-3), of e]
  define h1 where "h1 = (if ?r = None then insert_elem (bucket_idx h e) e h else h)"
  have none: "x \<in> elems h \<Longrightarrow> \<not> same_elem h x e" if "?r = None" for x using f that by (auto simp: found_def)
  have h1: "hash_ok h1" "hash_func h1 = hash" "less_func h1 = lessf" "elem_cnt h1 < 2 ^ 32"
    "elems h1 = (if ?r = None then insert e (elems h) else elems h)"
    using insert_elem_ok [OF assms(1) none assms(4,3)] assms u32_less [of "Suc (elem_cnt h)"] by (auto simp: h1_def insert_elem_def)
  obtain h' where "rehash m h1 = Some h'" "hash_ok h'" "elems h' = elems h1" "hash_func h' = hash_func h1" "less_func h' = less_func h1"
    using rehash_ok [OF h1(1,4), of m] by blast
  then show ?thesis using f h1 table_shapeD(4) [OF sh, of e] by (simp add: hash_insert_def Let_def h1_def)
qed

lemma hash_delete_spec:
  assumes "hash_ok h" "hash_func h = hash" "less_func h = lessf" "elem_cnt h < 2 ^ 32"
  shows "\<exists>r h'. hash_delete m h e = Some (r, h') \<and> found h e r \<and> hash_ok h' \<and> hash_func h' = hash \<and> less_func h' = lessf \<and>
    elems h' = elems h - set_option r"
proof -
  let ?r = "find_elem h (bucket_idx h e) e"
  have sh: "table_shape h" using assms(1) by (simp add: hash_ok_def)
  note f = find_elem_found [OF assms(1-3), of e]
  show ?thesis
  proof (cases ?r)
    case None
    then show ?thesis using f assms table_shapeD(4) [OF sh, of e] by (simp add: hash_delete_def)
  next
    case (Some x)
    then have x: "x \<in> elems h" using f by (auto simp: found_def)
    note rm = remove_elem_ok [OF assms(1) x assms(4)]
    have lt: "elem_cnt (remove_elem x h) < 2 ^ 32" "hash_func (remove_elem x h) = hash" "less_func (remove_elem x h) = lessf"
      using rm(3) assms by (simp_all add: remove_elem_def)
    obtain h' where "rehash m (remove_elem x h) = Some h'" "hash_ok h'" "elems h' = elems (remove_elem x h)"
      "hash_func h' = hash" "less_func h' = lessf"
      using rehash_ok [OF rm(1) lt(1), of m] lt(2,3) by auto
    then show ?thesis using f Some rm(2) table_shapeD(4) [OF sh, of e] by (simp add: hash_delete_def)
  qed
qed

lemma hash_replace_spec:
  assumes "hash_ok h" "hash_func h = hash" "less_func h = lessf" "elem_cnt h + 1 < 2 ^ 32"
  shows "\<exists>r h'. hash_replace m h e = Some (r, h') \<and> found h e r \<and> hash_ok h' \<and> hash_func h' = hash \<and> less_func h' = lessf \<and>
    elems h' = insert e (elems h - set_option r)"
proof -
  let ?r = "find_elem h (bucket_idx h e) e"
  have sh: "table_shape h" using assms(1) by (simp add: hash_ok_def)
  note f = find_elem_found [OF assms(1-3), of e]
  define h1 where "h1 = (case ?r of None \<Rightarrow> h | Some x \<Rightarrow> remove_elem x h)"
  have h1: "hash_ok h1 \<and> elems h1 = elems h - set_option ?r \<and> elem_cnt h1 + 1 < 2 ^ 32 \<and> bucket_idx h1 = bucket_idx h \<and>
    same_elem h1 = same_elem h \<and> hash_func h1 = hash \<and> less_func h1 = lessf"
  proof (cases ?r)
    case (Some x)
    then have "x \<in> elems h" using f by (auto simp: found_def)
    then show ?thesis using Some assms remove_elem_ok [OF assms(1), of x] by (auto simp: h1_def remove_elem_def)
  qed (use assms in \<open>simp add: h1_def\<close>)
  have "\<not> same_elem h1 x e" if "x \<in> elems h1" for x using that f h1 by (auto simp: found_def)
  then have h2: "hash_ok (insert_elem (bucket_idx h e) e h1)" "elems (insert_elem (bucket_idx h e) e h1) = insert e (elems h - set_option ?r)"
    using insert_elem_ok [of h1 e] h1 by auto
  have lt: "elem_cnt (insert_elem (bucket_idx h e) e h1) < 2 ^ 32" "hash_func (insert_elem (bucket_idx h e) e h1) = hash"
    "less_func (insert_elem (bucket_idx h e) e h1) = lessf"
    using h1 u32_less [of "Suc (elem_cnt h1)"] by (simp_all add: insert_elem_def)
  obtain h' where "rehash m (insert_elem (bucket_idx h e) e h1) = Some h'" "hash_ok h'"
    "elems h' = elems (insert_elem (bucket_idx h e) e h1)" "hash_func h' = hash" "less_func h' = lessf"
    using rehash_ok [OF h2(1) lt(1), of m] lt(2,3) by auto
  then show ?thesis using f h2(2) table_shapeD(4) [OF sh, of e] by (simp add: hash_replace_def Let_def h1_def)
qed

end

text \<open>Tables of integers, hashed with \<open>hash_int\<close> and compared as signed numbers.\<close>

interpretation int_keys: hash_contract hash_int "\<lambda>x y. sint x < sint y"
proof
  fix x y :: "32 word"
  assume "\<not> sint x < sint y" "\<not> sint y < sint x"
  then have "sint x = sint y" by simp
  then have "x = y" by (rule signed_word_eqI)
  then show "hash_int x = hash_int y" by simp
qed auto

section \<open>Iterating\<close>

text \<open>The iteration idiom of the comment on \<open>hash_first\<close>: the elements that \<open>hash_cur\<close> gives, with at most \<open>n\<close> calls of \<open>hash_next\<close>.\<close>

primrec hash_walk :: "nat \<Rightarrow> hash_iterator \<Rightarrow> 'e hash_table \<Rightarrow> 'e list option" where
  "hash_walk 0 i h = None"
| "hash_walk (Suc n) i h = do {
     i \<leftarrow> hash_next i h;
     case hash_cur i h of None \<Rightarrow> Some [] | Some e \<Rightarrow> map_option (Cons e) (hash_walk n i h) }"

lemma next_bucket_spec:
  assumes "b < length (buckets h)" "p \<le> length (buckets h ! b)" "bucket_cnt h = length (buckets h)"
  shows "case drop p (buckets h ! b) @ concat (drop (Suc b) (buckets h)) of
      [] \<Rightarrow> it_elem (next_bucket (Suc p) b h) = None
    | e # rest \<Rightarrow> \<exists>b' p'. next_bucket (Suc p) b h = \<lparr>it_bucket = b', it_elem = Some (Suc p')\<rparr> \<and> b' < length (buckets h) \<and>
        p' < length (buckets h ! b') \<and> e = buckets h ! b' ! p' \<and> rest = drop (Suc p') (buckets h ! b') @ concat (drop (Suc b') (buckets h))"
  using assms
proof (induction "length (buckets h) - b" arbitrary: b p)
  case (Suc n)
  show ?case
  proof (cases "p = length (buckets h ! b)")
    case False
    then have "drop p (buckets h ! b) = buckets h ! b ! p # drop (Suc p) (buckets h ! b)"
      using Suc.prems(2) by (intro Cons_nth_drop_Suc [symmetric]) simp
    moreover have "next_bucket (Suc p) b h = \<lparr>it_bucket = b, it_elem = Some (Suc p)\<rparr>" using False by (subst next_bucket.simps) simp
    ultimately show ?thesis using False Suc.prems by auto
  next
    case True
    show ?thesis
    proof (cases "Suc b < length (buckets h)")
      case False
      then show ?thesis using True Suc.prems by (subst next_bucket.simps) simp
    next
      case more: True
      then have "drop (Suc b) (buckets h) = buckets h ! Suc b # drop (Suc (Suc b)) (buckets h)" by (rule Cons_nth_drop_Suc [symmetric])
      then have rem: "drop p (buckets h ! b) @ concat (drop (Suc b) (buckets h)) = drop 0 (buckets h ! Suc b) @ concat (drop (Suc (Suc b)) (buckets h))"
        using True by simp
      have nb: "next_bucket (Suc p) b h = next_bucket (Suc 0) (Suc b) h"
        using True more Suc.prems(3) by (subst next_bucket.simps) simp
      show ?thesis unfolding rem nb using Suc.hyps(2) more Suc.prems(3) by (intro Suc.hyps(1)) simp_all
    qed
  qed
qed simp

lemma hash_walk_from:
  assumes "bucket_cnt h = length (buckets h)" "b < length (buckets h)" "p \<le> length (buckets h ! b)"
    and "drop p (buckets h ! b) @ concat (drop (Suc b) (buckets h)) = es"
  shows "hash_walk (Suc (length es)) \<lparr>it_bucket = b, it_elem = Some p\<rparr> h = Some es"
  using assms(2-4)
proof (induction es arbitrary: b p)
  case Nil
  have "it_elem (next_bucket (Suc p) b h) = None" using next_bucket_spec [OF Nil.prems(1,2) assms(1)] unfolding Nil.prems(3) by simp
  then show ?case using Nil.prems(2) by (simp add: hash_next_def hash_cur_def)
next
  case (Cons e es)
  obtain b' p' where n: "next_bucket (Suc p) b h = \<lparr>it_bucket = b', it_elem = Some (Suc p')\<rparr>" "b' < length (buckets h)"
    "p' < length (buckets h ! b')" "e = buckets h ! b' ! p'" "es = drop (Suc p') (buckets h ! b') @ concat (drop (Suc b') (buckets h))"
    using next_bucket_spec [OF Cons.prems(1,2) assms(1)] Cons.prems(3) by auto
  then show ?case using Cons.IH [of b' "Suc p'"] Cons.prems(2) by (simp add: hash_next_def hash_cur_def)
qed

text \<open>An iteration visits every element once and ends, after one call of \<open>hash_next\<close> more than there are elements.\<close>

lemma hash_walk_complete:
  assumes "hash_ok h"
  shows "hash_walk (Suc (hash_size h)) hash_first h = Some (concat (buckets h))"
proof -
  have sh: "table_shape h" "hash_size h = length (concat (buckets h))" using assms by (simp_all add: hash_ok_def hash_size_def)
  have n: "bucket_cnt h = length (buckets h)" "0 < length (buckets h)" using sh(1) by (auto simp: table_shape_def)
  have "concat (buckets h) = drop 0 (buckets h ! 0) @ concat (drop (Suc 0) (buckets h))"
    using n(2) by (cases "buckets h") simp_all
  then show ?thesis using hash_walk_from [OF n, of 0 "concat (buckets h)"] sh(2) by (simp add: hash_first_def)
qed

section \<open>Properties\<close>

text \<open>
  C10: A table is a set of elements that are pairwise different for \<open>less\<close>, whatever becomes of the memory for the
  buckets.  \<open>hash_find\<close> returns the element equal to its argument; \<open>hash_insert\<close> adds its argument unless an equal
  element is there, which it returns; \<open>hash_delete\<close> removes and returns the equal element; \<open>hash_replace\<close> puts its argument in
  place of it.  None of them panics, and every one keeps the table well formed.
\<close>

theorem hash_refines_set:
  assumes "hash_contract (hash_func h) (less_func h)" "hash_ok h" "hash_size h + 1 < 2 ^ 32"
  shows "(\<exists>r. hash_find h e = Some r \<and> found h e r) \<and>
    (\<exists>r h'. hash_insert m h e = Some (r, h') \<and> found h e r \<and> hash_ok h' \<and> elems h' = (if r = None then insert e (elems h) else elems h)) \<and>
    (\<exists>r h'. hash_delete m h e = Some (r, h') \<and> found h e r \<and> hash_ok h' \<and> elems h' = elems h - set_option r) \<and>
    (\<exists>r h'. hash_replace m h e = Some (r, h') \<and> found h e r \<and> hash_ok h' \<and> elems h' = insert e (elems h - set_option r))"
proof (intro conjI)
  have n: "elem_cnt h + 1 < 2 ^ 32" "elem_cnt h < 2 ^ 32" using assms(3) by (simp_all add: hash_size_def)
  have sh: "table_shape h" using assms(2) by (simp add: hash_ok_def)
  show "\<exists>r. hash_find h e = Some r \<and> found h e r"
    using hash_contract.find_elem_found [OF assms(1,2) refl refl, of e] table_shapeD(4) [OF sh, of e] by (simp add: hash_find_def)
  show "\<exists>r h'. hash_insert m h e = Some (r, h') \<and> found h e r \<and> hash_ok h' \<and> elems h' = (if r = None then insert e (elems h) else elems h)"
    using hash_contract.hash_insert_spec [OF assms(1,2) refl refl n(1), of m e] by blast
  show "\<exists>r h'. hash_delete m h e = Some (r, h') \<and> found h e r \<and> hash_ok h' \<and> elems h' = elems h - set_option r"
    using hash_contract.hash_delete_spec [OF assms(1,2) refl refl n(2), of m e] by blast
  show "\<exists>r h'. hash_replace m h e = Some (r, h') \<and> found h e r \<and> hash_ok h' \<and> elems h' = insert e (elems h - set_option r)"
    using hash_contract.hash_replace_spec [OF assms(1,2) refl refl n(1), of m e] by blast
qed

lemma hash_init_ok: "hash_ok (snd (hash_init True hash lessf))" "elems (snd (hash_init True hash lessf)) = {}"
  by (simp_all add: hash_init_def hash_clear_def hash_ok_def table_shape_def elems_def exI [of _ 2])

theorem hash_refines_set_witness:
  "\<exists>h'. hash_insert True (snd (hash_init True hash_int (\<lambda>x y. sint x < sint y))) 7 = Some (None, h') \<and> elems h' = {7}"
proof -
  let ?h = "snd (hash_init True hash_int (\<lambda>x y. sint x < sint y)) :: 32 word hash_table"
  have f: "hash_func ?h = hash_int" "less_func ?h = (\<lambda>x y. sint x < sint y)" "hash_size ?h = 0"
    by (simp_all add: hash_init_def hash_clear_def hash_size_def)
  have "hash_contract (hash_func ?h) (less_func ?h)" using int_keys.hash_contract_axioms f by simp
  then obtain r h' where "hash_insert True ?h 7 = Some (r, h')" "found ?h 7 r" "elems h' = (if r = None then insert 7 (elems ?h) else elems ?h)"
    using hash_refines_set [of ?h 7 True] hash_init_ok [of hash_int "\<lambda>x y. sint x < sint y"] f(3) by auto
  moreover have "r = None" using \<open>found ?h 7 r\<close> hash_init_ok(2) [of hash_int "\<lambda>x y. sint x < sint y"] by (cases r) (auto simp: found_def)
  ultimately show ?thesis using hash_init_ok(2) [of hash_int "\<lambda>x y. sint x < sint y"] by simp
qed

text \<open>
  The loop in \<open>rehash\<close> that clears the lowest bits of the wanted number of buckets ends for every positive number,
  with the largest power of 2 that is not above it.
\<close>

theorem power_loop_terminates:
  assumes "x \<noteq> 0"
  shows "\<exists>w k. power_loop x = Some w \<and> is_power_of_2 w \<and> unat w = 2 ^ k \<and> unat w \<le> unat x \<and> unat x < 2 * unat w"
proof -
  have "1 \<le> unat x" using assms by (simp add: Suc_le_eq unat_gt_0)
  then obtain k where k: "2 ^ k \<le> unat x" "unat x < 2 ^ Suc k" using ex_power_ivl1 [of 2 "unat x"] by auto
  then obtain w where w: "power_loop x = Some w" "unat w = 2 ^ k" using power_loop_eq by blast
  have "is_power_of_2 w" using is_power_of_2_iff [of k w] w(2) by simp
  then show ?thesis using k w by auto
qed

theorem power_loop_terminates_witness: "power_loop 100 = Some 64"
proof -
  obtain w k where w: "power_loop 100 = Some w" "unat w = 2 ^ k" "unat w \<le> 100" "100 < 2 * unat w"
    using power_loop_terminates [of 100] by auto
  then have "(2 :: nat) ^ k < 2 ^ 7" "(2 :: nat) ^ 5 < 2 ^ k" by simp_all
  then have "k < 7" "5 < k" by (simp_all only: power_strict_increasing_iff one_less_numeral_iff semiring_norm)
  then have "k = 6" by simp
  then have "w = 64" using w(2) by (simp add: word_unat_eq_iff)
  then show ?thesis using w(1) by simp
qed

end
