(* ===== verification/Arithmetic.thy ===== *)
theory Arithmetic
  imports Words "HOL-Library.Signed_Division"
begin

unbundle bit_operations_syntax

text \<open>
  \<open>lib/arithmetic.c\<close>: 64-bit division from the processor's \<open>divl\<close>, which divides a 64-bit number by a 32-bit one and
  traps (\<^term>\<open>None\<close>) when the divisor is 0 or the quotient needs more than 32 bits.
\<close>

section \<open>Operations\<close>

definition divl :: "64 word \<Rightarrow> 32 word \<Rightarrow> 32 word option" where
  "divl n d = do {
     ASSERT (d \<noteq> 0);
     let q = unat n div unat d;
     ASSERT (q < 2 ^ 32);
     Some (of_nat q) }"

text \<open>One test of \<open>nlz\<close>: shift left by \<open>k\<close> when the upper bits are 0.\<close>

definition nlz_step :: "32 word \<Rightarrow> nat \<Rightarrow> nat \<times> 32 word \<Rightarrow> nat \<times> 32 word" where
  "nlz_step bound k = (\<lambda>(n, x). if x \<le> bound then (n + k, push_bit k x) else (n, x))"

definition nlz :: "32 word \<Rightarrow> nat" where
  "nlz x = (let
     (n, x) = nlz_step 0x0000FFFF 16 (0, x);
     (n, x) = nlz_step 0x00FFFFFF 8 (n, x);
     (n, x) = nlz_step 0x0FFFFFFF 4 (n, x);
     (n, x) = nlz_step 0x3FFFFFFF 2 (n, x)
     in if x \<le> 0x7FFFFFFF then n + 1 else n)"

definition udiv64 :: "64 word \<Rightarrow> 64 word \<Rightarrow> 64 word option" where
  "udiv64 n d =
     (if drop_bit 32 d = 0 then do {
        let b = push_bit 32 (1 :: 64 word);
        let n1 = (ucast (drop_bit 32 n) :: 32 word);
        let n0 = (ucast n :: 32 word);
        let d0 = (ucast d :: 32 word);
        ASSERT (d0 \<noteq> 0);
        q \<leftarrow> divl (b * ucast (n1 mod d0) + ucast n0) d0;
        Some (ucast q + b * ucast (n1 div d0)) }
      else if n < d then Some 0
      else do {
        let d1 = (ucast (drop_bit 32 d) :: 32 word);
        let s = nlz d1;
        q0 \<leftarrow> divl (drop_bit 1 n) (ucast (drop_bit 32 (push_bit s d)));
        let q = (ucast (drop_bit (31 - s) q0) :: 64 word);
        Some (if n - (q - 1) * d < d then q - 1 else q) })"

definition umod64 :: "64 word \<Rightarrow> 64 word \<Rightarrow> 32 word option" where
  "umod64 n d = do { q \<leftarrow> udiv64 n d; Some (ucast (n - d * q)) }"

text \<open>Signed numbers are words read with \<open>sint\<close>; negation and multiplication wrap.\<close>

definition sdiv64 :: "64 word \<Rightarrow> 64 word \<Rightarrow> 64 word option" where
  "sdiv64 n d = do {
     let n_abs = (if sint n \<ge> 0 then n else - n);
     let d_abs = (if sint d \<ge> 0 then d else - d);
     q_abs \<leftarrow> udiv64 n_abs d_abs;
     Some (if (sint n < 0) = (sint d < 0) then q_abs else - q_abs) }"

definition smod64 :: "64 word \<Rightarrow> 64 word \<Rightarrow> 32 word option" where
  "smod64 n d = do { q \<leftarrow> sdiv64 n d; Some (ucast (n - d * q)) }"

definition divdi3 :: "64 word \<Rightarrow> 64 word \<Rightarrow> 64 word option" where
  "divdi3 = sdiv64"

definition moddi3 :: "64 word \<Rightarrow> 64 word \<Rightarrow> 64 word option" where
  "moddi3 n d = map_option scast (smod64 n d)"

definition udivdi3 :: "64 word \<Rightarrow> 64 word \<Rightarrow> 64 word option" where
  "udivdi3 = udiv64"

definition umoddi3 :: "64 word \<Rightarrow> 64 word \<Rightarrow> 64 word option" where
  "umoddi3 n d = map_option ucast (umod64 n d)"

section \<open>Leading zeros\<close>

lemma nlz_step_eq:
  assumes "nlz_step bound k (n, x) = (n', x')" "unat bound + 1 = 2 ^ (32 - k)" "k \<le> 16" "2 ^ (32 - 2 * k) \<le> unat x" "unat x = y * 2 ^ n"
  shows "2 ^ (32 - k) \<le> unat x'" "unat x' = y * 2 ^ n'" "n' \<le> n + k"
proof -
  have p: "(2 :: nat) ^ (32 - k) * 2 ^ k = 2 ^ 32" "(2 :: nat) ^ (32 - 2 * k) * 2 ^ k = 2 ^ (32 - k)"
    using assms(3) by (simp_all flip: power_add)
  show "2 ^ (32 - k) \<le> unat x'" "unat x' = y * 2 ^ n'" "n' \<le> n + k"
  proof (atomize (full), cases "x \<le> bound")
    case True
    then have "unat x < 2 ^ (32 - k)" using assms(2) by (simp add: word_le_nat_alt)
    then have "unat x * 2 ^ k < 2 ^ 32" unfolding p(1) [symmetric] by simp
    then have "unat x' = unat x * 2 ^ k" "n' = n + k" using True assms(1) unat_push_bit [of x k] by (auto simp: nlz_step_def)
    moreover have "2 ^ (32 - k) \<le> unat x * 2 ^ k" using assms(4) unfolding p(2) [symmetric] by simp
    ultimately show "2 ^ (32 - k) \<le> unat x' \<and> unat x' = y * 2 ^ n' \<and> n' \<le> n + k" using assms(5) by (simp add: power_add)
  next
    case False
    then have "2 ^ (32 - k) \<le> unat x" using assms(2) by (simp add: word_le_nat_alt)
    then show "2 ^ (32 - k) \<le> unat x' \<and> unat x' = y * 2 ^ n' \<and> n' \<le> n + k"
      using False assms(1,5) by (auto simp: nlz_step_def)
  qed
qed

lemma nlz_eq:
  assumes "x \<noteq> 0"
  shows "2 ^ 31 \<le> unat x * 2 ^ nlz x" "unat x * 2 ^ nlz x < 2 ^ 32" "nlz x \<le> 31"
proof -
  obtain n1 x1 where s1: "nlz_step 0x0000FFFF 16 (0, x) = (n1, x1)" by (rule prod.exhaust)
  obtain n2 x2 where s2: "nlz_step 0x00FFFFFF 8 (n1, x1) = (n2, x2)" by (rule prod.exhaust)
  obtain n3 x3 where s3: "nlz_step 0x0FFFFFFF 4 (n2, x2) = (n3, x3)" by (rule prod.exhaust)
  obtain n4 x4 where s4: "nlz_step 0x3FFFFFFF 2 (n3, x3) = (n4, x4)" by (rule prod.exhaust)
  obtain n5 x5 where s5: "nlz_step 0x7FFFFFFF 1 (n4, x4) = (n5, x5)" by (rule prod.exhaust)
  have "nlz x = fst (nlz_step 0x7FFFFFFF 1 (n4, x4))"
    unfolding nlz_def Let_def s1 prod.case s2 s3 s4 by (simp add: nlz_step_def)
  then have n: "nlz x = n5" using s5 by simp
  have "1 \<le> unat x" using assms by (simp add: Suc_le_eq unat_gt_0)
  then have e1: "2 ^ 16 \<le> unat x1" "unat x1 = unat x * 2 ^ n1" "n1 \<le> 16" using nlz_step_eq [OF s1] by simp_all
  then have e2: "2 ^ 24 \<le> unat x2" "unat x2 = unat x * 2 ^ n2" "n2 \<le> 24" using nlz_step_eq [OF s2 _ _ _ e1(2)] by simp_all
  then have e3: "2 ^ 28 \<le> unat x3" "unat x3 = unat x * 2 ^ n3" "n3 \<le> 28" using nlz_step_eq [OF s3 _ _ _ e2(2)] by simp_all
  then have e4: "2 ^ 30 \<le> unat x4" "unat x4 = unat x * 2 ^ n4" "n4 \<le> 30" using nlz_step_eq [OF s4 _ _ _ e3(2)] by simp_all
  then have e5: "2 ^ 31 \<le> unat x5" "unat x5 = unat x * 2 ^ n5" "n5 \<le> 31" using nlz_step_eq [OF s5 _ _ _ e4(2)] by simp_all
  then show "2 ^ 31 \<le> unat x * 2 ^ nlz x" "unat x * 2 ^ nlz x < 2 ^ 32" "nlz x \<le> 31" using n unat32_less [of x5] by simp_all
qed

section \<open>Quotients\<close>

lemma divl_eq: "d \<noteq> 0 \<Longrightarrow> unat n div unat d < 2 ^ 32 \<Longrightarrow> \<exists>q. divl n d = Some q \<and> unat q = unat n div unat d"
  by (simp add: divl_def unat32_of_nat)

lemma unat_digits:
  fixes x :: "64 word" and lo :: "32 word"
  assumes "unat x = hi" "4294967296 * hi + unat lo < 18446744073709551616"
  shows "unat (ucast lo + push_bit 32 1 * x) = 4294967296 * hi + unat lo"
proof -
  have "unat (push_bit 32 1 * x) = 4294967296 * hi" using assms by (simp add: unat_word_ariths)
  then show ?thesis using assms(2) by (simp add: unat_word_ariths(1) unat_ucast_up)
qed

text \<open>The first case: school division with digits to the base \<open>2 ^ 32\<close>.\<close>

lemma udiv64_short:
  assumes "d \<noteq> 0" "drop_bit 32 d = 0"
  shows "\<exists>q. udiv64 n d = Some q \<and> unat q = unat n div unat d"
proof -
  define n1 n0 d0 where "n1 = (ucast (drop_bit 32 n) :: 32 word)" and "n0 = (ucast n :: 32 word)" and "d0 = (ucast d :: 32 word)"
  have "unat d div 4294967296 = 0" using assms(2) unat_drop_bit [of 32 d] by simp
  then have d: "unat d < 4294967296" by simp
  have d0: "unat d0 = unat d" using d by (simp add: d0_def unat_ucast_down)
  have dpos: "0 < unat d" using assms(1) by (simp add: unat_gt_0)
  have n: "unat n = 4294967296 * unat n1 + unat n0"
    using unat64_less [of n] by (simp add: n1_def n0_def unat_ucast_down unat_drop_bit)
  let ?x = "4294967296 * (unat n1 mod unat d) + unat n0"
  have small: "?x < 4294967296 * unat d"
  proof -
    have "Suc (unat n1 mod unat d) \<le> unat d" using dpos by (simp add: Suc_le_eq)
    then have "4294967296 * Suc (unat n1 mod unat d) \<le> 4294967296 * unat d" by (rule mult_le_mono2)
    then show ?thesis using unat32_less [of n0] by simp
  qed
  then have q: "?x div unat d < 4294967296" using dpos by (simp add: less_mult_imp_div_less mult.commute)
  define a :: "64 word" where "a = push_bit 32 1 * ucast (n1 mod d0) + ucast n0"
  have "unat (ucast (n1 mod d0) :: 64 word) = unat n1 mod unat d" by (simp add: unat_ucast_up unat_mod_distrib d0)
  then have a: "unat a = ?x" using small d by (simp add: a_def unat_word_ariths unat_ucast_up)
  have "d0 \<noteq> 0" using dpos d0 by auto
  then obtain q0 where q0: "divl a d0 = Some q0" "unat q0 = ?x div unat d" using divl_eq [of d0 a] a d0 q by auto
  have "unat n = ?x + unat d * (4294967296 * (unat n1 div unat d))"
    using arg_cong [OF mult_div_mod_eq [of "unat d" "unat n1"], of "(*) 4294967296"] by (simp only: n distrib_left distrib_right ac_simps)
  then have quot: "unat n div unat d = 4294967296 * (unat n1 div unat d) + ?x div unat d"
    using dpos by (simp only: div_mult_self2 [OF less_imp_neq [OF dpos, symmetric]])
  have le: "unat n div unat d < 18446744073709551616" using unat64_less [of n] div_le_dividend [of "unat n" "unat d"] by (rule le_less_trans [rotated])
  define r :: "64 word" where "r = ucast q0 + push_bit 32 1 * ucast (n1 div d0)"
  have "unat (ucast (n1 div d0) :: 64 word) = unat n1 div unat d" by (simp add: unat_ucast_up unat_div_distrib d0)
  moreover have "4294967296 * (unat n1 div unat d) + unat q0 < 18446744073709551616" using le q0(2) quot by simp
  ultimately have "unat r = 4294967296 * (unat n1 div unat d) + unat q0" unfolding r_def by (rule unat_digits)
  then have "unat r = unat n div unat d" using q0(2) quot by simp
  moreover have "udiv64 n d = Some r"
    using assms(2) \<open>d0 \<noteq> 0\<close> q0(1)
    unfolding udiv64_def Let_def n1_def [symmetric] n0_def [symmetric] d0_def [symmetric] a_def [symmetric]
    by (simp add: r_def)
  ultimately show ?thesis by blast
qed

text \<open>Dividing by an \<open>e\<close> a little smaller than \<open>d\<close> gives the quotient or one more.\<close>

lemma quotient_estimate:
  fixes n d e :: nat
  assumes "0 < e" "e \<le> d" "n * (d - e) < e * d"
  shows "n div d \<le> n div e" "n div e \<le> n div d + 1"
proof -
  show "n div d \<le> n div e" using assms(1,2) by (rule div_le_mono2)
  show "n div e \<le> n div d + 1"
  proof (rule ccontr)
    assume "\<not> n div e \<le> n div d + 1"
    then have "(n div d + 2) * e \<le> n div e * e" by (intro mult_le_mono1) simp
    then have lo: "(n div d + 2) * e \<le> n" using div_times_less_eq_dividend [of n e] by linarith
    have "n < (n div d + 1) * d" using assms(1,2) by (simp add: dividend_less_div_times)
    then have "e * (n + d) < e * ((n div d + 2) * d)" using assms(1) by simp
    also have "\<dots> = ((n div d + 2) * e) * d" by (simp only: ac_simps)
    also have "\<dots> \<le> n * d" using lo by (rule mult_le_mono1)
    finally have "e * n + e * d < n * d" by (simp add: distrib_left)
    moreover have "n * d < e * d + e * n" using assms(2,3) by (simp add: diff_mult_distrib2 mult.commute)
    ultimately show False by simp
  qed
qed

lemma four_times: "4 * (t - 1) \<le> t * (t :: nat)"
proof (cases "2 \<le> t")
  case True
  then obtain u where "t = u + 2" using le_Suc_ex by (metis add.commute)
  then show ?thesis by simp
next
  case False
  then have "t = 0 \<or> t = 1" by auto
  then show ?thesis by auto
qed

text \<open>
  The second case.  \<open>v\<close> is the divisor's leading 32 bits, so \<open>e = v * 2 ^ k\<close> is the divisor with its last \<open>k\<close> bits cleared.
\<close>

lemma leading_bits_estimate:
  fixes n d v k :: nat
  assumes "n < 2 ^ 64" "v = d div 2 ^ k" "2 ^ 31 \<le> v"
  shows "n div d \<le> n div (v * 2 ^ k)" "n div (v * 2 ^ k) \<le> n div d + 1"
proof -
  define e where "e = v * 2 ^ k"
  have e: "e \<le> d" "d - e = d mod 2 ^ k" by (simp_all add: e_def assms(2) minus_div_mult_eq_mod)
  have lo: "2 ^ 31 * 2 ^ k \<le> e" unfolding e_def using assms(3) by (rule mult_le_mono1)
  then have pos: "0 < e" by (rule less_le_trans [rotated]) simp
  have "n * (d - e) < e * d"
  proof (cases "d - e = 0")
    case True
    then show ?thesis using pos e(1) by simp
  next
    case False
    have "d - e \<le> 2 ^ k - 1" unfolding e(2) by (simp add: Suc_leI le_diff_conv2 flip: Suc_eq_plus1)
    then have "n * (d - e) \<le> n * (2 ^ k - 1)" by (rule mult_le_mono2)
    moreover have "0 < (2 :: nat) ^ k - 1" using False \<open>d - e \<le> 2 ^ k - 1\<close> by linarith
    then have "n * (2 ^ k - 1) < 2 ^ 64 * (2 ^ k - 1)" using assms(1) by (simp only: mult_less_cancel2)
    moreover have "2 ^ 64 * (2 ^ k - 1) \<le> (2 ^ 31 * 2 ^ k) * (2 ^ 31 * 2 ^ k :: nat)"
      using mult_le_mono2 [OF four_times [of "2 ^ k"], of "2 ^ 62"] by (simp add: ac_simps)
    moreover have "(2 ^ 31 * 2 ^ k) * (2 ^ 31 * 2 ^ k) \<le> e * d" using lo e(1) by (intro mult_le_mono) linarith+
    ultimately show ?thesis by linarith
  qed
  then show "n div d \<le> n div (v * 2 ^ k)" "n div (v * 2 ^ k) \<le> n div d + 1"
    using quotient_estimate [OF pos e(1)] by (simp_all add: e_def)
qed

text \<open>The correction of an estimate that is right or one too large.\<close>

lemma correct_step:
  fixes n d q :: "64 word"
  assumes "d \<le> n" "d \<noteq> 0" "unat n div unat d \<le> unat q" "unat q \<le> unat n div unat d + 1"
  shows "unat (if n - (q - 1) * d < d then q - 1 else q) = unat n div unat d"
proof -
  have dpos: "0 < unat d" using assms(2) by (simp add: unat_gt_0)
  have "1 \<le> unat n div unat d" using div_le_mono [of "unat d" "unat n" "unat d"] dpos assms(1) by (simp add: word_le_nat_alt)
  then have "q \<noteq> 0" using assms(3) by auto
  then have q1: "unat (q - 1) = unat q - 1" by (rule unat_minus_one)
  have "(unat q - 1) * unat d \<le> unat n div unat d * unat d" using assms(4) by (intro mult_le_mono1) simp
  then have le: "(unat q - 1) * unat d \<le> unat n" using div_times_less_eq_dividend [of "unat n" "unat d"] by linarith
  then have m: "unat ((q - 1) * d) = (unat q - 1) * unat d" using unat64_less [of n] by (simp add: unat_word_ariths q1)
  then have "unat (n - (q - 1) * d) = unat n - (unat q - 1) * unat d" using le by (simp add: unat_sub word_le_nat_alt)
  then have c: "n - (q - 1) * d < d \<longleftrightarrow> unat n - (unat q - 1) * unat d < unat d" by (simp add: word_less_nat_alt)
  have rem: "unat n - unat n div unat d * unat d < unat d" using dpos by (simp add: minus_div_mult_eq_mod)
  show ?thesis
  proof (cases "unat q = unat n div unat d")
    case True
    obtain k where k: "unat q = Suc k" using \<open>1 \<le> unat n div unat d\<close> True not0_implies_Suc [of "unat q"] by auto
    have "unat q * unat d \<le> unat n" unfolding True by (rule div_times_less_eq_dividend)
    then have "\<not> unat n - (unat q - 1) * unat d < unat d" by (simp add: k)
    then show ?thesis using c True by simp
  next
    case False
    then have "unat q - 1 = unat n div unat d" using assms(3,4) by simp
    then show ?thesis using c rem q1 by simp
  qed
qed

lemma udiv64_long:
  assumes "drop_bit 32 d \<noteq> 0" "d \<le> n"
  shows "\<exists>q. udiv64 n d = Some q \<and> unat q = unat n div unat d"
proof -
  define d1 where "d1 = (ucast (drop_bit 32 d) :: 32 word)"
  define s where "s = nlz d1"
  have ud1: "unat d1 = unat d div 4294967296"
    using unat64_less [of d] by (simp add: d1_def unat_ucast_down unat_drop_bit)
  then have "d1 \<noteq> 0" using assms(1) unat_drop_bit [of 32 d] by (auto simp: word_unat_eq_iff)
  note s = nlz_eq [OF this, folded s_def]
  have p: "(2 :: nat) ^ s * 2 ^ (32 - s) = 4294967296" using s(3) by (simp flip: power_add)
  have d1k: "unat d1 < 2 ^ (32 - s)"
  proof (rule ccontr)
    assume "\<not> unat d1 < 2 ^ (32 - s)"
    then have "2 ^ (32 - s) * 2 ^ s \<le> unat d1 * 2 ^ s" by (intro mult_le_mono1) simp
    then show False using s(2) p by (simp add: mult.commute)
  qed
  have "unat d < 4294967296 * (unat d1 + 1)" unfolding ud1 by (simp add: dividend_less_div_times mult.commute)
  also have "\<dots> \<le> 4294967296 * 2 ^ (32 - s)" using d1k by simp
  finally have dk: "unat d < 4294967296 * 2 ^ (32 - s)" .
  then have "unat d * 2 ^ s < (4294967296 * 2 ^ (32 - s)) * 2 ^ s" by simp
  also have "\<dots> = 18446744073709551616" using p by (simp add: ac_simps)
  finally have ds: "unat (push_bit s d) = unat d * 2 ^ s" by (intro unat_push_bit) simp
  define v where "v = (ucast (drop_bit 32 (push_bit s d)) :: 32 word)"
  have vd: "unat v = unat d div 2 ^ (32 - s)"
  proof -
    have "unat d * 2 ^ s div 4294967296 = unat d div 2 ^ (32 - s)" unfolding p [symmetric] by (simp add: mult.commute [of "2 ^ s"])
    moreover have "unat d div 2 ^ (32 - s) < 4294967296" using dk by (simp add: less_mult_imp_div_less mult.commute)
    ultimately show ?thesis by (simp add: v_def unat_ucast_down unat_drop_bit ds)
  qed
  have v31: "2 ^ 31 \<le> unat v"
  proof -
    have "unat d1 * 4294967296 \<le> unat d" unfolding ud1 by (rule div_times_less_eq_dividend)
    then have "unat d1 * 4294967296 * 2 ^ s \<le> unat d * 2 ^ s" by (rule mult_le_mono1)
    then have "unat d1 * 2 ^ s * 4294967296 div 4294967296 \<le> unat d * 2 ^ s div 4294967296" by (intro div_le_mono) (simp add: ac_simps)
    moreover have "unat d * 2 ^ s div 4294967296 = unat v" using vd unfolding p [symmetric] by (simp add: mult.commute [of "2 ^ s"])
    ultimately show ?thesis using s(1) by simp
  qed
  have "v \<noteq> 0" using v31 by auto
  have "unat n div 2 < 2 ^ 63" using unat64_less [of n] by simp
  also have "\<dots> \<le> 2 ^ 32 * unat v" using mult_le_mono2 [OF v31, of "2 ^ 32"] by simp
  finally have "unat n div 2 div unat v < 2 ^ 32" by (simp add: less_mult_imp_div_less)
  then obtain q0 where q0: "divl (drop_bit 1 n) v = Some q0" "unat q0 = unat n div 2 div unat v"
    using divl_eq [OF \<open>v \<noteq> 0\<close>, of "drop_bit 1 n"] by (auto simp: unat_drop_bit)
  define q :: "64 word" where "q = ucast (drop_bit (31 - s) q0)"
  have "(2 :: nat) * 2 ^ (31 - s) = 2 ^ (32 - s)" using s(3) by (simp add: Suc_diff_le flip: power_Suc)
  then have "unat q = unat n div (unat v * 2 ^ (32 - s))"
    by (simp add: q_def unat_ucast_up unat_drop_bit q0(2) ac_simps flip: div_mult2_eq)
  then have est: "unat n div unat d \<le> unat q" "unat q \<le> unat n div unat d + 1"
    using leading_bits_estimate [OF _ vd v31, of "unat n"] unat64_less [of n] by simp_all
  have r: "udiv64 n d = Some (if n - (q - 1) * d < d then q - 1 else q)"
    using assms q0(1) by (simp add: udiv64_def Let_def d1_def [symmetric] s_def [symmetric] v_def [symmetric] q_def [symmetric] not_less [symmetric])
  have "d \<noteq> 0" using assms(1) by auto
  then show ?thesis using correct_step [OF assms(2) _ est] r by simp
qed

lemma udiv64_eq:
  assumes "d \<noteq> 0"
  shows "udiv64 n d = Some (n div d)"
proof -
  have "n < d \<Longrightarrow> n div d = 0" by (simp add: word_unat_eq_iff unat_div_distrib word_less_nat_alt)
  moreover have "drop_bit 32 d \<noteq> 0 \<Longrightarrow> n < d \<Longrightarrow> udiv64 n d = Some 0" by (simp add: udiv64_def)
  moreover have "drop_bit 32 d = 0 \<or> d \<le> n \<Longrightarrow> \<exists>q. udiv64 n d = Some q \<and> unat q = unat n div unat d"
    using udiv64_short [OF assms] udiv64_long [of d n] by blast
  ultimately show ?thesis by (metis not_le option.inject unat_div_distrib word_unat_eq_iff)
qed

lemma umod64_eq: "d \<noteq> 0 \<Longrightarrow> umod64 n d = Some (ucast (n mod d))"
  by (simp add: umod64_def udiv64_eq minus_mult_div_eq_mod)

text \<open>The absolute value of the code, and the quotient with its sign.\<close>

lemma uint_abs:
  fixes n :: "64 word"
  shows "uint (if sint n \<ge> 0 then n else - n) = \<bar>sint n\<bar>"
proof -
  have r: "- (2 ^ 63) \<le> sint n" "sint n < 2 ^ 63" using sint_ge [of n] sint_lt [of n] by simp_all
  have "uint (word_of_int (\<bar>sint n\<bar>) :: 64 word) = \<bar>sint n\<bar>" using r by (simp add: uint_word_of_int)
  moreover have "word_of_int (\<bar>sint n\<bar>) = (if sint n \<ge> 0 then n else - n)" by (simp add: abs_if)
  ultimately show ?thesis by simp
qed

lemma sdiv64_eq:
  assumes "d \<noteq> 0"
  shows "sdiv64 n d = Some (word_of_int (sint n sdiv sint d))"
proof -
  define n_abs d_abs where "n_abs = (if sint n \<ge> 0 then n else - n)" and "d_abs = (if sint d \<ge> 0 then d else - d)"
  have "d_abs \<noteq> 0" using assms by (simp add: d_abs_def)
  have "uint (n_abs div d_abs) = \<bar>sint n\<bar> div \<bar>sint d\<bar>"
    unfolding n_abs_def d_abs_def uint_div_distrib uint_abs ..
  then have q: "n_abs div d_abs = word_of_int (\<bar>sint n\<bar> div \<bar>sint d\<bar>)" by (metis word_of_int_uint)
  have "sdiv64 n d = Some (if (sint n < 0) = (sint d < 0) then n_abs div d_abs else - (n_abs div d_abs))"
    using udiv64_eq [OF \<open>d_abs \<noteq> 0\<close>] by (simp add: sdiv64_def n_abs_def d_abs_def Let_def)
  moreover have "sint d \<noteq> 0" using uint_abs [of d] \<open>d_abs \<noteq> 0\<close> by (auto simp: d_abs_def uint_0_iff)
  ultimately show ?thesis unfolding q by (cases "sint n" "0 :: int" rule: linorder_cases; cases "sint d" "0 :: int" rule: linorder_cases; simp add: signed_divide_int_def)
qed

lemma ucast_word_of_int: "ucast (word_of_int k :: 64 word) = (word_of_int k :: 32 word)"
  by (rule bit_word_eqI) (simp add: bit_simps)

lemma smod64_eq:
  assumes "d \<noteq> 0"
  shows "smod64 n d = Some (word_of_int (sint n smod sint d))"
proof -
  have "n - d * word_of_int (sint n sdiv sint d) = word_of_int (sint n - sint n sdiv sint d * sint d)" by simp
  then show ?thesis by (simp only: smod64_def sdiv64_eq [OF assms] bind.bind_lunit minus_sdiv_mult_eq_smod ucast_word_of_int)
qed

lemma ucast_ucast_low:
  fixes x :: "64 word"
  shows "ucast (ucast x :: 32 word) = take_bit 32 x"
  by (rule bit_word_eqI) (auto simp: bit_simps)

lemma scast_word_of_int: "scast (word_of_int k :: 32 word) = (word_of_int (signed_take_bit 31 k) :: 64 word)"
  by (rule bit_word_eqI) (simp add: bit_simps bit_signed_take_bit_iff min_def)

text \<open>
  C19: the four routines the compiler calls for 64-bit division never trap for a divisor other than 0.  The quotients are
  those of the language: rounded down for unsigned operands, towards 0 (and wrapped at 64 bits) for signed ones.  The
  remainders keep their low 32 bits only, as \<open>umod64\<close> and \<open>smod64\<close> return 32-bit numbers.
\<close>

theorem division_routines_correct:
  assumes "d \<noteq> 0"
  shows "udivdi3 n d = Some (n div d)
    \<and> divdi3 n d = Some (word_of_int (sint n sdiv sint d))
    \<and> umoddi3 n d = Some (take_bit 32 (n mod d))
    \<and> moddi3 n d = Some (word_of_int (signed_take_bit 31 (sint n smod sint d)))"
  using assms
  by (simp add: udivdi3_def divdi3_def umoddi3_def moddi3_def udiv64_eq sdiv64_eq umod64_eq smod64_eq ucast_ucast_low scast_word_of_int)

theorem division_routines_correct_witness:
  "udivdi3 0xFFFFFFFFFFFFFFFF 0x100000001 = Some 0xFFFFFFFF \<and> divdi3 (- 7) 2 = Some (- 3)
    \<and> umoddi3 0x500000003 0x600000000 = Some 3 \<and> moddi3 (- 7) 2 = Some (- 1)"
  using division_routines_correct [of "0x100000001" "0xFFFFFFFFFFFFFFFF"] division_routines_correct [of 2 "- 7"]
    division_routines_correct [of "0x600000000" "0x500000003"]
  by simp

end
