(* ===== verification/Cmem.thy ===== *)
theory Cmem
  imports Words
begin

text \<open>
  Byte-addressed memory for the C library: a list of bytes, with its indices as addresses and address 0 as the null
  pointer.  An access outside the memory is a fault, \<^term>\<open>None\<close>.  Also \<open>lib/ctype.h\<close>.
\<close>

type_synonym byte = "8 word"
type_synonym mem = "byte list"

definition NULL :: nat where
  "NULL = 0"

section \<open>Loads and stores\<close>

definition rd :: "mem \<Rightarrow> nat \<Rightarrow> byte option" where
  "rd m p = (if p < length m then Some (m ! p) else None)"

definition wr :: "mem \<Rightarrow> nat \<Rightarrow> byte \<Rightarrow> mem option" where
  "wr m p b = (if p < length m then Some (m[p := b]) else None)"

text \<open>The \<open>n\<close> bytes at \<open>p\<close>.\<close>

definition bytes :: "mem \<Rightarrow> nat \<Rightarrow> nat \<Rightarrow> byte list" where
  "bytes m p n = take n (drop p m)"

lemma rd_in [simp]: "p < length m \<Longrightarrow> rd m p = Some (m ! p)"
  by (simp add: rd_def)

lemma wr_in [simp]: "p < length m \<Longrightarrow> wr m p b = Some (m[p := b])"
  by (simp add: wr_def)

lemma length_bytes [simp]: "p + n \<le> length m \<Longrightarrow> length (bytes m p n) = n"
  by (simp add: bytes_def)

lemma nth_bytes [simp]: "p + n \<le> length m \<Longrightarrow> i < n \<Longrightarrow> bytes m p n ! i = m ! (p + i)"
  by (simp add: bytes_def)

lemma bytes_eqI:
  assumes "length m' = length m" "p + n \<le> length m" "q + n \<le> length m" "\<And>i. i < n \<Longrightarrow> m' ! (p + i) = m ! (q + i)"
  shows "bytes m' p n = bytes m q n"
  using assms by (intro nth_equalityI) simp_all

text \<open>Numbers in memory have the least significant byte first.\<close>

primrec le_nat :: "byte list \<Rightarrow> nat" where
  "le_nat [] = 0" |
  "le_nat (b # bs) = unat b + 256 * le_nat bs"

lemma unat8_less: "unat (b :: 8 word) < 256"
  using unsigned_less [where 'a = nat, of b] by simp

lemma le_nat_less: "le_nat bs < 256 ^ length bs"
proof (induction bs)
  case (Cons b bs)
  then have "Suc (le_nat bs) * 256 \<le> 256 ^ length bs * 256" by (intro mult_le_mono1) simp
  then show ?case using unat8_less [of b] by simp
qed simp

text \<open>The null-terminated string at \<open>s\<close>.\<close>

primrec cstring :: "mem \<Rightarrow> nat \<Rightarrow> byte list \<Rightarrow> bool" where
  "cstring m s [] \<longleftrightarrow> rd m s = Some 0" |
  "cstring m s (c # cs) \<longleftrightarrow> rd m s = Some c \<and> c \<noteq> 0 \<and> cstring m (Suc s) cs"

lemma rd_Some_iff: "rd m p = Some c \<longleftrightarrow> p < length m \<and> m ! p = c"
  by (simp add: rd_def)

lemma cstring_append: "cstring m s (xs @ ys) \<Longrightarrow> cstring m (s + length xs) ys"
  by (induction xs arbitrary: s) (auto simp flip: add_Suc)

lemma cstring_iff:
  "cstring m s cs \<longleftrightarrow> s + length cs < length m \<and> bytes m s (length cs) = cs \<and> 0 \<notin> set cs \<and> m ! (s + length cs) = 0"
proof (induction cs arbitrary: s)
  case Nil
  then show ?case by (simp add: rd_Some_iff bytes_def)
next
  case (Cons c cs)
  have "s < length m \<Longrightarrow> bytes m s (Suc n) = m ! s # bytes m (Suc s) n" for n
    by (simp add: bytes_def Cons_nth_drop_Suc [symmetric])
  then show ?case using Cons.IH [of "Suc s"] by (auto simp: rd_Some_iff)
qed

section \<open>Character classes\<close>

text \<open>The arguments are C \<open>int\<close>s.  A \<open>char\<close> is signed.\<close>

definition char_of_byte :: "byte \<Rightarrow> int" where
  "char_of_byte b = sint b"

definition islower :: "int \<Rightarrow> bool" where
  "islower c \<longleftrightarrow> c \<ge> 97 \<and> c \<le> 122"

definition isupper :: "int \<Rightarrow> bool" where
  "isupper c \<longleftrightarrow> c \<ge> 65 \<and> c \<le> 90"

definition isalpha :: "int \<Rightarrow> bool" where
  "isalpha c \<longleftrightarrow> islower c \<or> isupper c"

definition isdigit :: "int \<Rightarrow> bool" where
  "isdigit c \<longleftrightarrow> c \<ge> 48 \<and> c \<le> 57"

definition isalnum :: "int \<Rightarrow> bool" where
  "isalnum c \<longleftrightarrow> isalpha c \<or> isdigit c"

definition isxdigit :: "int \<Rightarrow> bool" where
  "isxdigit c \<longleftrightarrow> isdigit c \<or> (c \<ge> 97 \<and> c \<le> 102) \<or> (c \<ge> 65 \<and> c \<le> 70)"

definition isspace :: "int \<Rightarrow> bool" where
  "isspace c \<longleftrightarrow> c = 32 \<or> c = 12 \<or> c = 10 \<or> c = 13 \<or> c = 9 \<or> c = 11"

definition isblank :: "int \<Rightarrow> bool" where
  "isblank c \<longleftrightarrow> c = 32 \<or> c = 9"

definition isgraph :: "int \<Rightarrow> bool" where
  "isgraph c \<longleftrightarrow> c > 32 \<and> c < 127"

definition isprint :: "int \<Rightarrow> bool" where
  "isprint c \<longleftrightarrow> c \<ge> 32 \<and> c < 127"

definition iscntrl :: "int \<Rightarrow> bool" where
  "iscntrl c \<longleftrightarrow> (c \<ge> 0 \<and> c < 32) \<or> c = 127"

definition isascii :: "int \<Rightarrow> bool" where
  "isascii c \<longleftrightarrow> c \<ge> 0 \<and> c < 128"

definition ispunct :: "int \<Rightarrow> bool" where
  "ispunct c \<longleftrightarrow> isprint c \<and> \<not> isalnum c \<and> \<not> isspace c"

definition tolower :: "int \<Rightarrow> int" where
  "tolower c = (if isupper c then c - 65 + 97 else c)"

definition toupper :: "int \<Rightarrow> int" where
  "toupper c = (if islower c then c - 97 + 65 else c)"

lemmas ctype_defs = islower_def isupper_def isalpha_def isdigit_def isalnum_def isxdigit_def isspace_def isblank_def
  isgraph_def isprint_def iscntrl_def isascii_def ispunct_def tolower_def toupper_def

text \<open>Every ASCII character is a control character, a space, a letter, a digit or punctuation, and only one of them.\<close>

lemma ascii_partition:
  assumes "isascii c"
  shows "iscntrl c \<or> c = 32 \<or> isalpha c \<or> isdigit c \<or> ispunct c"
    and "\<not> (isalpha c \<and> isdigit c)" "\<not> (ispunct c \<and> isalnum c)" "\<not> (iscntrl c \<and> isprint c)"
  using assms by (auto simp: ctype_defs)

lemma case_roundtrip: "isupper c \<Longrightarrow> toupper (tolower c) = c" "islower c \<Longrightarrow> tolower (toupper c) = c"
  by (simp_all add: ctype_defs)

end
