(* ===== verification/Stdlib.thy ===== *)
theory Stdlib
  imports Cmem
begin

text \<open>
  \<open>lib/stdlib.c\<close>: \<open>atoi\<close>, heap sort and binary search over arrays of \<open>size\<close>-byte elements in memory.  The comparison
  is a parameter: it receives the bytes of the two elements and \<open>aux\<close>, and returns a result like \<open>strcmp\<close>.
\<close>

type_synonym 'x comparison = "byte list \<Rightarrow> byte list \<Rightarrow> 'x \<Rightarrow> int"

section \<open>Operations\<close>

subsection \<open>Numbers\<close>

partial_function (option) skip_space :: "mem \<Rightarrow> nat \<Rightarrow> nat option" where
  "skip_space m s = do { c \<leftarrow> rd m s; if isspace (uint c) then skip_space m (s + 1) else Some s }"

partial_function (option) parse_digits :: "mem \<Rightarrow> nat \<Rightarrow> int \<Rightarrow> int option" where
  "parse_digits m s value = do {
     c \<leftarrow> rd m s;
     if isdigit (char_of_byte c) then parse_digits m (s + 1) (i32 (value * 10 - (char_of_byte c - 48)))
     else Some value }"

definition atoi :: "mem \<Rightarrow> nat \<Rightarrow> int option" where
  "atoi m s = do {
     ASSERT (s \<noteq> NULL);
     s \<leftarrow> skip_space m s;
     c \<leftarrow> rd m s;
     let (negative, s) = (if c = 43 then (False, s + 1) else if c = 45 then (True, s + 1) else (False, s));
     value \<leftarrow> parse_digits m s 0;
     Some (if \<not> negative then i32 (- value) else value) }"

subsection \<open>Sorting\<close>

primrec swap_bytes :: "nat \<Rightarrow> mem \<Rightarrow> nat \<Rightarrow> nat \<Rightarrow> mem option" where
  "swap_bytes 0 m a b = Some m" |
  "swap_bytes (Suc n) m a b = do {
     t \<leftarrow> rd m a;
     u \<leftarrow> rd m b;
     m \<leftarrow> wr m a u;
     m \<leftarrow> wr m b t;
     swap_bytes n m (a + 1) (b + 1) }"

definition do_swap :: "mem \<Rightarrow> nat \<Rightarrow> nat \<Rightarrow> nat \<Rightarrow> nat \<Rightarrow> mem option" where
  "do_swap m array a_idx b_idx sz = swap_bytes sz m (array + (a_idx - 1) * sz) (array + (b_idx - 1) * sz)"

text \<open>The element with the 1-based index \<open>k\<close>.\<close>

definition elem :: "mem \<Rightarrow> nat \<Rightarrow> nat \<Rightarrow> nat \<Rightarrow> byte list" where
  "elem m array sz k = bytes m (array + (k - 1) * sz) sz"

definition do_compare :: "mem \<Rightarrow> nat \<Rightarrow> nat \<Rightarrow> nat \<Rightarrow> nat \<Rightarrow> 'x comparison \<Rightarrow> 'x \<Rightarrow> int option" where
  "do_compare m array a_idx b_idx sz compare aux = do {
     ASSERT (array + a_idx * sz \<le> length m \<and> array + b_idx * sz \<le> length m);
     Some (compare (elem m array sz a_idx) (elem m array sz b_idx) aux) }"

partial_function (option) heapify :: "mem \<Rightarrow> nat \<Rightarrow> nat \<Rightarrow> nat \<Rightarrow> nat \<Rightarrow> 'x comparison \<Rightarrow> 'x \<Rightarrow> mem option" where
  "heapify m array i cnt sz compare aux = do {
     let left = u32 (2 * i);
     let right = u32 (2 * i + 1);
     mx \<leftarrow> (if left \<le> cnt then do {
         c \<leftarrow> do_compare m array left i sz compare aux;
         Some (if c > 0 then left else i) }
       else Some i);
     mx \<leftarrow> (if right \<le> cnt then do {
         c \<leftarrow> do_compare m array right mx sz compare aux;
         Some (if c > 0 then right else mx) }
       else Some mx);
     if mx = i then Some m
     else do {
       m \<leftarrow> do_swap m array i mx sz;
       heapify m array mx cnt sz compare aux } }"

text \<open>The two loops of \<open>sort\<close>, each with its counter \<open>i\<close>.\<close>

primrec build_heap :: "nat \<Rightarrow> mem \<Rightarrow> nat \<Rightarrow> nat \<Rightarrow> nat \<Rightarrow> 'x comparison \<Rightarrow> 'x \<Rightarrow> mem option" where
  "build_heap 0 m array cnt sz compare aux = Some m" |
  "build_heap (Suc i) m array cnt sz compare aux = do {
     m \<leftarrow> heapify m array (Suc i) cnt sz compare aux;
     build_heap i m array cnt sz compare aux }"

fun sort_heap :: "nat \<Rightarrow> mem \<Rightarrow> nat \<Rightarrow> nat \<Rightarrow> 'x comparison \<Rightarrow> 'x \<Rightarrow> mem option" where
  "sort_heap i m array sz compare aux =
     (if i > 1 then do {
        m \<leftarrow> do_swap m array 1 i sz;
        m \<leftarrow> heapify m array 1 (i - 1) sz compare aux;
        sort_heap (i - 1) m array sz compare aux }
      else Some m)"

definition sort_array :: "mem \<Rightarrow> nat \<Rightarrow> nat \<Rightarrow> nat \<Rightarrow> 'x comparison \<Rightarrow> 'x \<Rightarrow> mem option" where
  "sort_array m array cnt sz compare aux = do {
     ASSERT (array \<noteq> NULL \<or> cnt = 0);
     ASSERT (sz > 0);
     m \<leftarrow> build_heap (cnt div 2) m array cnt sz compare aux;
     sort_heap cnt m array sz compare aux }"

definition compare_thunk :: "(byte list \<Rightarrow> byte list \<Rightarrow> int) comparison" where
  "compare_thunk a b aux = aux a b"

definition qsort :: "mem \<Rightarrow> nat \<Rightarrow> nat \<Rightarrow> nat \<Rightarrow> (byte list \<Rightarrow> byte list \<Rightarrow> int) \<Rightarrow> mem option" where
  "qsort m array cnt sz compare = sort_array m array cnt sz compare_thunk compare"

subsection \<open>Searching\<close>

text \<open>The result is the address of the match; \<^term>\<open>NULL\<close> when there is none.\<close>

partial_function (option) search_loop ::
  "mem \<Rightarrow> byte list \<Rightarrow> nat \<Rightarrow> nat \<Rightarrow> nat \<Rightarrow> 'x comparison \<Rightarrow> 'x \<Rightarrow> nat option" where
  "search_loop m key fst_p lst_p sz compare aux =
     (if fst_p < lst_p then do {
        let rng = (lst_p - fst_p) div sz;
        let middle = fst_p + (rng div 2) * sz;
        ASSERT (middle + sz \<le> length m);
        let cmp = compare key (bytes m middle sz) aux;
        if cmp < 0 then search_loop m key fst_p middle sz compare aux
        else if cmp > 0 then search_loop m key (middle + sz) lst_p sz compare aux
        else Some middle }
      else Some NULL)"

definition binary_search :: "mem \<Rightarrow> byte list \<Rightarrow> nat \<Rightarrow> nat \<Rightarrow> nat \<Rightarrow> 'x comparison \<Rightarrow> 'x \<Rightarrow> nat option" where
  "binary_search m key array cnt sz compare aux =
     search_loop m key array (array + sz * cnt) sz compare aux"

definition bsearch ::
  "mem \<Rightarrow> byte list \<Rightarrow> nat \<Rightarrow> nat \<Rightarrow> nat \<Rightarrow> (byte list \<Rightarrow> byte list \<Rightarrow> int) \<Rightarrow> nat option" where
  "bsearch m key array cnt sz compare = binary_search m key array cnt sz compare_thunk compare"

subsection \<open>Integer arrays\<close>

definition int_at :: "byte list \<Rightarrow> int" where
  "int_at bs = i32 (int (le_nat (take 4 bs)))"

definition compare_ints :: "byte list \<Rightarrow> byte list \<Rightarrow> int" where
  "compare_ints a b = (if int_at a < int_at b then - 1 else if int_at a > int_at b then 1 else 0)"

declare heapify.simps [code] search_loop.simps [code] sort_heap.simps [simp del]

section \<open>Reading numbers\<close>

definition digit :: "nat \<Rightarrow> byte" where
  "digit d = of_nat (48 + d)"

definition decimal :: "nat list \<Rightarrow> int" where
  "decimal = foldl (\<lambda>v d. v * 10 + int d) 0"

lemma char_digit:
  assumes "d < 10"
  shows "char_of_byte (digit d) = 48 + int d" "uint (digit d) = 48 + int d" "digit d \<noteq> 0"
proof -
  have "d \<in> {0, 1, 2, 3, 4, 5, 6, 7, 8, 9}" using assms by auto
  then show "char_of_byte (digit d) = 48 + int d" "uint (digit d) = 48 + int d" "digit d \<noteq> 0"
    by (auto simp: char_of_byte_def digit_def)
qed

lemma i32_shift: "i32 (x + k * 2 ^ 32) = i32 x"
proof -
  have "(x + k * 2 ^ 32 + 2 ^ 31) mod 2 ^ 32 = (x + 2 ^ 31 + k * 2 ^ 32) mod (2 ^ 32 :: int)" by (simp only: ac_simps)
  then show ?thesis unfolding i32_def by simp
qed

lemma i32_wrapped: "\<exists>k. i32 x = x + k * 2 ^ 32"
  by (rule exI [of _ "- ((x + 2 ^ 31) div 2 ^ 32)"]) (simp add: i32_def minus_div_mult_eq_mod [symmetric])

lemma i32_step: "i32 (i32 v * 10 - d) = i32 (v * 10 - d)"
proof -
  obtain k where "i32 v = v + k * 2 ^ 32" using i32_wrapped by blast
  then have "i32 v * 10 - d = v * 10 - d + k * 10 * 2 ^ 32" by simp
  then show ?thesis by (simp only: i32_shift)
qed

lemma i32_minus: "i32 (- i32 v) = i32 (- v)"
proof -
  obtain k where "i32 v = v + k * 2 ^ 32" using i32_wrapped by blast
  then have "- i32 v = - v + (- k) * 2 ^ 32" by simp
  then show ?thesis by (simp only: i32_shift)
qed

lemma parse_digits_spec:
  "cstring m s (map digit ds) \<Longrightarrow> \<forall>d \<in> set ds. d < 10 \<Longrightarrow>
    parse_digits m s (i32 v) = Some (i32 (foldl (\<lambda>v d. v * 10 - int d) v ds))"
proof (induction ds arbitrary: s v)
  case Nil
  then show ?case by (simp add: parse_digits.simps char_of_byte_def isdigit_def)
next
  case (Cons d ds)
  then show ?case using Cons.IH [of "Suc s" "v * 10 - int d"]
    by (subst parse_digits.simps) (simp add: char_digit isdigit_def i32_step)
qed

lemma foldl_negative: "foldl (\<lambda>v d. v * 10 - int d) (- v) ds = - foldl (\<lambda>v d. v * 10 + int d) v ds"
proof (induction ds arbitrary: v)
  case (Cons d ds)
  then show ?case using Cons.IH [of "v * 10 + int d"] by simp
qed simp

lemma skip_space_spec:
  "cstring m s (ws @ cs) \<Longrightarrow> \<forall>c \<in> set ws. isspace (uint c) \<Longrightarrow> cs = [] \<or> \<not> isspace (uint (hd cs)) \<Longrightarrow>
    skip_space m s = Some (s + length ws)"
proof (induction ws arbitrary: s)
  case Nil
  then show ?case by (cases cs) (auto simp: skip_space.simps isspace_def)
next
  case (Cons c ws)
  then show ?case by (subst skip_space.simps) simp
qed

text \<open>\<open>atoi\<close> skips white space and reads a signed decimal number, wrapped to an \<open>int\<close>.\<close>

lemma atoi_decimal:
  assumes "s \<noteq> NULL" "cstring m s (ws @ (if negative then [45] else []) @ map digit ds)"
    "\<forall>c \<in> set ws. isspace (uint c)" "\<forall>d \<in> set ds. d < 10"
  shows "atoi m s = Some (i32 (if negative then - decimal ds else decimal ds))"
proof -
  let ?sign = "if negative then [45] else [] :: byte list"
  have hd: "?sign @ map digit ds = [] \<or> \<not> isspace (uint (hd (?sign @ map digit ds)))"
    using assms(4) by (cases ds) (auto simp: isspace_def char_digit)
  have skip: "skip_space m s = Some (s + length ws)" using skip_space_spec [OF assms(2,3) hd] .
  have c: "cstring m (s + length ws) (?sign @ map digit ds)" using cstring_append [OF assms(2)] .
  have p: "parse_digits m t 0 = Some (i32 (- decimal ds))" if "cstring m t (map digit ds)" for t
    using parse_digits_spec [OF that assms(4), of 0] foldl_negative [of 0 ds] by (simp add: i32_def decimal_def)
  have "i32 (- i32 (- decimal ds)) = i32 (decimal ds)" by (simp add: i32_minus)
  moreover have "\<not> negative \<Longrightarrow> \<exists>b. rd m (s + length ws) = Some b \<and> b \<noteq> 43 \<and> b \<noteq> 45"
    using c assms(4) by (cases ds) (auto dest: char_digit(2))
  ultimately show ?thesis using assms(1) skip c p [of "s + length ws"] p [of "Suc (s + length ws)"]
    by (auto simp: atoi_def)
qed

section \<open>Swapping elements\<close>

definition apart :: "nat \<Rightarrow> nat \<Rightarrow> nat \<Rightarrow> bool" where
  "apart n a b \<longleftrightarrow> a = b \<or> a + n \<le> b \<or> b + n \<le> a"

lemma swap_bytes_spec:
  assumes "a + n \<le> length m" "b + n \<le> length m" "apart n a b"
  shows "\<exists>m'. swap_bytes n m a b = Some m' \<and> length m' = length m
    \<and> (\<forall>i < n. m' ! (a + i) = m ! (b + i) \<and> m' ! (b + i) = m ! (a + i))
    \<and> (\<forall>j. \<not> (a \<le> j \<and> j < a + n) \<longrightarrow> \<not> (b \<le> j \<and> j < b + n) \<longrightarrow> m' ! j = m ! j)"
  using assms
proof (induction n arbitrary: m a b)
  case 0
  then show ?case by auto
next
  case (Suc n)
  define m1 where "m1 = m[a := m ! b, b := m ! a]"
  have m1: "m1 ! a = m ! b" "m1 ! b = m ! a" "\<And>j. j \<noteq> a \<Longrightarrow> j \<noteq> b \<Longrightarrow> m1 ! j = m ! j" "length m1 = length m"
    using Suc.prems(1,2) by (auto simp: m1_def nth_list_update)
  have ap: "a = b \<or> a + Suc n \<le> b \<or> b + Suc n \<le> a" using Suc.prems(3) by (simp add: apart_def)
  have "apart n (Suc a) (Suc b)" using ap by (auto simp: apart_def)
  then obtain m' where m': "swap_bytes n m1 (Suc a) (Suc b) = Some m'" "length m' = length m1"
    "\<And>i. i < n \<Longrightarrow> m' ! (Suc a + i) = m1 ! (Suc b + i) \<and> m' ! (Suc b + i) = m1 ! (Suc a + i)"
    "\<And>j. \<not> (Suc a \<le> j \<and> j < Suc a + n) \<Longrightarrow> \<not> (Suc b \<le> j \<and> j < Suc b + n) \<Longrightarrow> m' ! j = m1 ! j"
    using Suc.IH [of "Suc a" m1 "Suc b"] Suc.prems(1,2) m1(4) by auto
  have "swap_bytes (Suc n) m a b = Some m'" using Suc.prems(1,2) m'(1) by (simp add: m1_def)
  moreover have "m' ! (a + i) = m ! (b + i) \<and> m' ! (b + i) = m ! (a + i)" if "i < Suc n" for i
  proof (cases i)
    case 0
    have "m' ! a = m1 ! a" "m' ! b = m1 ! b" using ap by (auto intro!: m'(4))
    then show ?thesis using 0 m1 by simp
  next
    case (Suc k)
    have "a + i \<noteq> b \<and> b + i \<noteq> a \<and> 0 < i" using ap that Suc by auto
    then show ?thesis using m'(3) [of k] that Suc m1(3) [of "b + i"] m1(3) [of "a + i"] by simp
  qed
  moreover have "m' ! j = m ! j" if "\<not> (a \<le> j \<and> j < a + Suc n)" "\<not> (b \<le> j \<and> j < b + Suc n)" for j
  proof -
    have "m' ! j = m1 ! j" using that by (intro m'(4)) auto
    then show ?thesis using m1(3) [of j] that by auto
  qed
  ultimately show ?case using m'(2) m1(4) by metis
qed

text \<open>Elements of an array do not overlap.\<close>

lemma block_le: "1 \<le> a \<Longrightarrow> a < b \<Longrightarrow> (a - 1) * sz + sz \<le> (b - 1) * (sz :: nat)"
proof -
  assume "1 \<le> a" "a < b"
  then have "a * sz \<le> (b - 1) * sz" by (intro mult_le_mono1) simp
  moreover have "(a - 1) * sz + sz = a * sz" using \<open>1 \<le> a\<close> by (simp add: mult_eq_if)
  ultimately show ?thesis by simp
qed

lemma block_end: "1 \<le> a \<Longrightarrow> a \<le> cnt \<Longrightarrow> (a - 1) * sz + sz \<le> cnt * (sz :: nat)"
  using block_le [of a "Suc cnt" sz] by simp

text \<open>Memory outside the array is as it was.\<close>

definition only_array :: "mem \<Rightarrow> nat \<Rightarrow> nat \<Rightarrow> mem \<Rightarrow> bool" where
  "only_array m array n m' \<longleftrightarrow> length m' = length m \<and> take array m' = take array m \<and> drop (array + n) m' = drop (array + n) m"

lemma only_arrayI:
  assumes "length m' = length m" "\<And>j. \<not> (array \<le> j \<and> j < array + n) \<Longrightarrow> m' ! j = m ! j"
  shows "only_array m array n m'"
  using assms by (auto simp: only_array_def intro!: nth_equalityI)

lemma only_array_refl [simp]: "only_array m array n m"
  by (simp add: only_array_def)

lemma only_array_trans: "only_array m array n m' \<Longrightarrow> only_array m' array n m'' \<Longrightarrow> only_array m array n m''"
  by (simp add: only_array_def)

definition swap_fun :: "(nat \<Rightarrow> 'e) \<Rightarrow> nat \<Rightarrow> nat \<Rightarrow> nat \<Rightarrow> 'e" where
  "swap_fun e a b = e(a := e b, b := e a)"

lemma do_swap_spec:
  assumes "array + cnt * sz \<le> length m" "1 \<le> a" "a \<le> cnt" "1 \<le> b" "b \<le> cnt"
  shows "\<exists>m'. do_swap m array a b sz = Some m' \<and> only_array m array (cnt * sz) m'
    \<and> (\<forall>k. 1 \<le> k \<longrightarrow> k \<le> cnt \<longrightarrow> elem m' array sz k = swap_fun (elem m array sz) a b k)"
proof -
  define p where "p k = array + (k - 1) * sz" for k
  have fits: "p k + sz \<le> length m" "p k + sz \<le> array + cnt * sz" "array \<le> p k" if "1 \<le> k" "k \<le> cnt" for k
    using block_end [OF that, of sz] assms(1) by (simp_all add: p_def)
  have sep: "p k + sz \<le> p l \<or> p l + sz \<le> p k" if "1 \<le> k" "1 \<le> l" "k \<noteq> l" for k l
    using block_le [of k l sz] block_le [of l k sz] that by (auto simp: p_def nat_neq_iff)
  have "apart sz (p a) (p b)" using sep [of a b] assms(2,4) by (auto simp: apart_def)
  then obtain m' where m': "swap_bytes sz m (p a) (p b) = Some m'" "length m' = length m"
    "\<And>i. i < sz \<Longrightarrow> m' ! (p a + i) = m ! (p b + i) \<and> m' ! (p b + i) = m ! (p a + i)"
    "\<And>j. \<not> (p a \<le> j \<and> j < p a + sz) \<Longrightarrow> \<not> (p b \<le> j \<and> j < p b + sz) \<Longrightarrow> m' ! j = m ! j"
    using swap_bytes_spec [of "p a" sz m "p b"] fits assms by blast
  have "only_array m array (cnt * sz) m'"
    using fits [of a] fits [of b] assms by (intro only_arrayI m' impI) auto
  moreover have "elem m' array sz k = swap_fun (elem m array sz) a b k" if k: "1 \<le> k" "k \<le> cnt" for k
  proof -
    define q where "q = (if k = b then a else if k = a then b else k)"
    have "1 \<le> q" "q \<le> cnt" using k assms by (simp_all add: q_def)
    have "m' ! (p k + i) = m ! (p q + i)" if "i < sz" for i
    proof (cases "k = a \<or> k = b")
      case True
      then show ?thesis using m'(3) [OF that] by (auto simp: q_def)
    next
      case False
      then have "q = k" by (simp add: q_def)
      moreover have "m' ! (p k + i) = m ! (p k + i)"
        using False sep [of k a] sep [of k b] k(1) assms(2,4) that by (intro m'(4)) auto
      ultimately show ?thesis by simp
    qed
    then have "bytes m' (p k) sz = bytes m (p q) sz"
      using fits(1) [OF k] fits(1) [OF \<open>1 \<le> q\<close> \<open>q \<le> cnt\<close>] m'(2) by (intro bytes_eqI) simp_all
    then show ?thesis by (simp add: elem_def swap_fun_def p_def q_def)
  qed
  ultimately show ?thesis using m'(1) by (auto simp: do_swap_def p_def)
qed

section \<open>Heaps\<close>

text \<open>
  The contract of a comparison, for one \<open>aux\<close>: swapping the arguments swaps the sign, and the order is transitive.
  The element with index \<open>k\<close> has the parent \<open>k div 2\<close>.
\<close>

definition heap :: "('e \<Rightarrow> 'e \<Rightarrow> int) \<Rightarrow> nat \<Rightarrow> nat \<Rightarrow> (nat \<Rightarrow> 'e) \<Rightarrow> bool" where
  "heap cmp j n e \<longleftrightarrow> (\<forall>k. 2 \<le> k \<longrightarrow> k \<le> n \<longrightarrow> j \<le> k div 2 \<longrightarrow> cmp (e k) (e (k div 2)) \<le> 0)"

text \<open>A heap except that the element \<open>i\<close> may be smaller than its children.\<close>

definition floating :: "('e \<Rightarrow> 'e \<Rightarrow> int) \<Rightarrow> nat \<Rightarrow> nat \<Rightarrow> nat \<Rightarrow> (nat \<Rightarrow> 'e) \<Rightarrow> bool" where
  "floating cmp j i n e \<longleftrightarrow>
     (\<forall>k. 2 \<le> k \<longrightarrow> k \<le> n \<longrightarrow> j \<le> k div 2 \<longrightarrow> k div 2 \<noteq> i \<longrightarrow> cmp (e k) (e (k div 2)) \<le> 0)
     \<and> (\<forall>k. 2 \<le> k \<longrightarrow> k \<le> n \<longrightarrow> k div 2 = i \<longrightarrow> 2 \<le> i \<longrightarrow> j \<le> i div 2 \<longrightarrow> cmp (e k) (e (i div 2)) \<le> 0)"

locale comparison_order =
  fixes cmp :: "'e \<Rightarrow> 'e \<Rightarrow> int"
  assumes swap_sign: "cmp a b > 0 \<longleftrightarrow> cmp b a < 0"
    and cmp_trans: "cmp a b \<le> 0 \<Longrightarrow> cmp b c \<le> 0 \<Longrightarrow> cmp a c \<le> 0"
begin

lemma le_refl [simp]: "cmp a a \<le> 0"
  using swap_sign [of a a] by linarith

lemma le_total: "cmp a b > 0 \<Longrightarrow> cmp b a \<le> 0"
  using swap_sign [of a b] by linarith

lemma floating_done: "floating cmp j i n e \<Longrightarrow> (\<And>k. k \<le> n \<Longrightarrow> k div 2 = i \<Longrightarrow> cmp (e k) (e i) \<le> 0) \<Longrightarrow> heap cmp j n e"
  unfolding floating_def heap_def by metis

lemma floating_next:
  assumes f: "floating cmp j i n e" and i: "j \<le> i" "1 \<le> i"
    and m: "m div 2 = i" "m \<le> n" "\<And>k. 2 \<le> k \<Longrightarrow> k \<le> n \<Longrightarrow> k div 2 = i \<Longrightarrow> cmp (e k) (e m) \<le> 0" "cmp (e i) (e m) \<le> 0"
  shows "floating cmp j m n (swap_fun e i m)"
proof -
  have mi: "i < m" "2 \<le> m" using m(1) i(2) by auto
  have "cmp (swap_fun e i m k) (swap_fun e i m (k div 2)) \<le> 0" if k: "2 \<le> k" "k \<le> n" "j \<le> k div 2" "k div 2 \<noteq> m" for k
  proof -
    consider (m) "k = m" | (child) "k div 2 = i" "k \<noteq> m" | (i) "k = i" | (other) "k \<noteq> m" "k div 2 \<noteq> i" "k \<noteq> i" by blast
    then show ?thesis
    proof cases
      case i
      then have "k div 2 < i" using k by simp
      then have "swap_fun e i m (k div 2) = e (k div 2)" using mi by (simp add: swap_fun_def)
      moreover have "cmp (e m) (e (i div 2)) \<le> 0" using f m k i mi unfolding floating_def by metis
      ultimately show ?thesis using mi i by (simp add: swap_fun_def)
    qed (use m k mi f in \<open>auto simp: swap_fun_def floating_def\<close>)
  qed
  moreover have "cmp (swap_fun e i m k) (swap_fun e i m (m div 2)) \<le> 0" if k: "2 \<le> k" "k \<le> n" "k div 2 = m" for k
  proof -
    have "k \<noteq> m \<and> k \<noteq> i" "m \<noteq> i" "j \<le> m" using k mi i by auto
    then have "cmp (e k) (e m) \<le> 0" using f k unfolding floating_def by metis
    then show ?thesis using \<open>k \<noteq> m \<and> k \<noteq> i\<close> \<open>m \<noteq> i\<close> m(1) by (simp add: swap_fun_def)
  qed
  ultimately show ?thesis unfolding floating_def by blast
qed

text \<open>The root of a heap is its largest element.\<close>

lemma heap_root: "heap cmp 1 n e \<Longrightarrow> 1 \<le> k \<Longrightarrow> k \<le> n \<Longrightarrow> cmp (e k) (e 1) \<le> 0"
proof (induction k rule: less_induct)
  case (less k)
  show ?case
  proof (cases "k = 1")
    case False
    then have "2 \<le> k" "1 \<le> k div 2" "k div 2 < k" using less.prems(2) by auto
    then have "cmp (e k) (e (k div 2)) \<le> 0" "cmp (e (k div 2)) (e 1) \<le> 0" using less by (auto simp: heap_def)
    then show ?thesis by (rule cmp_trans)
  qed simp
qed

text \<open>The choice among \<open>i\<close> and its children.\<close>

lemma largest_child:
  fixes e :: "nat \<Rightarrow> 'e"
  defines "m1 \<equiv> \<lambda>i n. if 2 * i \<le> n \<and> cmp (e (2 * i)) (e i) > 0 then 2 * i else i"
  defines "m2 \<equiv> \<lambda>i n. if 2 * i + 1 \<le> n \<and> cmp (e (2 * i + 1)) (e (m1 i n)) > 0 then 2 * i + 1 else m1 i n"
  shows "m2 i n = i \<or> m2 i n div 2 = i \<and> m2 i n \<le> n" "cmp (e i) (e (m2 i n)) \<le> 0"
    "k \<le> n \<Longrightarrow> k div 2 = i \<Longrightarrow> cmp (e k) (e (m2 i n)) \<le> 0"
proof -
  show "m2 i n = i \<or> m2 i n div 2 = i \<and> m2 i n \<le> n" by (auto simp: m1_def m2_def)
  have a: "cmp (e i) (e (m1 i n)) \<le> 0" using le_total [of "e (2 * i)" "e i"] by (auto simp: m1_def)
  have b: "cmp (e (m1 i n)) (e (m2 i n)) \<le> 0" using le_total [of "e (2 * i + 1)" "e (m1 i n)"] by (auto simp: m2_def)
  show "cmp (e i) (e (m2 i n)) \<le> 0" using a b by (rule cmp_trans)
  assume k: "k \<le> n" "k div 2 = i"
  then consider (left) "k = 2 * i" | (right) "k = 2 * i + 1" by linarith
  then show "cmp (e k) (e (m2 i n)) \<le> 0"
  proof cases
    case left
    then have "cmp (e k) (e (m1 i n)) \<le> 0" using k by (auto simp: m1_def not_less)
    then show ?thesis using b by (rule cmp_trans)
  next
    case right
    then show ?thesis using k by (auto simp: m2_def not_less)
  qed
qed

end

text \<open>The predicates depend on the elements of the array only.\<close>

lemma floating_cong:
  assumes "\<And>k. 1 \<le> k \<Longrightarrow> k \<le> n \<Longrightarrow> e k = e' k" "i \<le> n" "floating cmp j i n e"
  shows "floating cmp j i n e'"
proof -
  have *: "e' k = e k" "e' (k div 2) = e (k div 2)" if "2 \<le> k" "k \<le> n" for k
    using assms(1) [of k] assms(1) [of "k div 2"] that by auto
  show ?thesis using assms(2,3) * unfolding floating_def by auto
qed

lemma mset_swap_fun:
  assumes "1 \<le> a" "a \<le> n" "1 \<le> b" "b \<le> n"
  shows "mset (map (swap_fun e a b) [1..<Suc n]) = mset (map e [1..<Suc n])"
proof -
  let ?l = "map e [1..<Suc n]"
  have "map (swap_fun e a b) [1..<Suc n] = ?l[a - 1 := ?l ! (b - 1), b - 1 := ?l ! (a - 1)]"
    using assms by (intro nth_equalityI) (auto simp: swap_fun_def nth_list_update nth_upt simp del: upt_Suc)
  then show ?thesis using mset_swap [of "b - 1" ?l "a - 1"] assms by (simp del: upt_Suc)
qed

section \<open>Heap sort\<close>

text \<open>One call rearranges the first \<open>n\<close> elements of the array only.\<close>

definition rearranged :: "mem \<Rightarrow> nat \<Rightarrow> nat \<Rightarrow> nat \<Rightarrow> nat \<Rightarrow> mem \<Rightarrow> bool" where
  "rearranged m array sz n cnt m' \<longleftrightarrow> only_array m array (cnt * sz) m'
     \<and> (\<forall>k. n < k \<longrightarrow> k \<le> cnt \<longrightarrow> elem m' array sz k = elem m array sz k)
     \<and> mset (map (elem m' array sz) [1..<Suc n]) = mset (map (elem m array sz) [1..<Suc n])"

lemma rearranged_refl [simp]: "rearranged m array sz n cnt m"
  by (simp add: rearranged_def)

lemma rearranged_trans:
  "rearranged m array sz n cnt m' \<Longrightarrow> rearranged m' array sz n cnt m'' \<Longrightarrow> rearranged m array sz n cnt m''"
  unfolding rearranged_def by (metis only_array_trans)

lemma do_swap_rearranged:
  assumes "array + cnt * sz \<le> length m" "n \<le> cnt" "1 \<le> a" "a \<le> n" "1 \<le> b" "b \<le> n"
  shows "\<exists>m'. do_swap m array a b sz = Some m' \<and> rearranged m array sz n cnt m'
    \<and> (\<forall>k. 1 \<le> k \<longrightarrow> k \<le> cnt \<longrightarrow> elem m' array sz k = swap_fun (elem m array sz) a b k)"
proof -
  obtain m' where m': "do_swap m array a b sz = Some m'" "only_array m array (cnt * sz) m'"
    "\<And>k. 1 \<le> k \<Longrightarrow> k \<le> cnt \<Longrightarrow> elem m' array sz k = swap_fun (elem m array sz) a b k"
    using do_swap_spec [of array cnt sz m a b] assms by auto
  have "map (elem m' array sz) [1..<Suc n] = map (swap_fun (elem m array sz) a b) [1..<Suc n]"
    using m'(3) assms(2) by (intro map_cong) auto
  then have "mset (map (elem m' array sz) [1..<Suc n]) = mset (map (elem m array sz) [1..<Suc n])"
    by (simp only: mset_swap_fun [OF assms(3-6)])
  moreover have "elem m' array sz k = elem m array sz k" if "n < k" "k \<le> cnt" for k
    using m'(3) [of k] that assms(4,6) by (simp add: swap_fun_def)
  ultimately show ?thesis using m' unfolding rearranged_def by blast
qed

lemma pick:
  assumes "k \<le> n \<Longrightarrow> array + k * sz \<le> length m" "array + l * sz \<le> length m"
  shows "(if k \<le> n then do_compare m array k l sz compare aux \<bind> (\<lambda>c. Some (if c > 0 then k else l)) else Some l)
    = Some (if k \<le> n \<and> compare (elem m array sz k) (elem m array sz l) aux > 0 then k else l)"
  using assms by (simp add: do_compare_def)

lemma heapify_spec:
  assumes cmp: "comparison_order (\<lambda>a b. compare a b aux)" and n: "n \<le> cnt" "n < 2 ^ 31"
  shows "array + cnt * sz \<le> length m \<Longrightarrow> j \<le> i \<Longrightarrow> 1 \<le> i \<Longrightarrow> i \<le> n \<Longrightarrow>
    floating (\<lambda>a b. compare a b aux) j i n (elem m array sz) \<Longrightarrow>
    \<exists>m'. heapify m array i n sz compare aux = Some m' \<and> rearranged m array sz n cnt m'
      \<and> heap (\<lambda>a b. compare a b aux) j n (elem m' array sz)"
proof (induction "n - i" arbitrary: i m rule: less_induct)
  case less
  let ?cmp = "\<lambda>a b. compare a b aux" and ?e = "elem m array sz"
  define m1 where "m1 = (if 2 * i \<le> n \<and> ?cmp (?e (2 * i)) (?e i) > 0 then 2 * i else i)"
  define m2 where "m2 = (if 2 * i + 1 \<le> n \<and> ?cmp (?e (2 * i + 1)) (?e m1) > 0 then 2 * i + 1 else m1)"
  note lc = comparison_order.largest_child [OF cmp, where e = ?e and i = i and n = n, folded m1_def, folded m2_def]
  have fits: "array + k * sz \<le> length m" if "k \<le> n" for k
    using less.prems(1) mult_le_mono1 [OF le_trans [OF that n(1)], of sz] by linarith
  have u: "u32 (2 * i) = 2 * i" "u32 (2 * i + 1) = 2 * i + 1" using n(2) less.prems(4) by (simp_all add: u32_def)
  have "m1 \<le> n" using less.prems(4) by (simp add: m1_def)
  have run: "heapify m array i n sz compare aux =
    (if m2 = i then Some m else do_swap m array i m2 sz \<bind> (\<lambda>m. heapify m array m2 n sz compare aux))"
    by (subst heapify.simps) (simp only: u Let_def pick [OF fits fits [OF less.prems(4)]] pick [OF fits fits [OF \<open>m1 \<le> n\<close>]]
      bind.bind_lunit flip: m1_def m2_def)
  show ?case
  proof (cases "m2 = i")
    case True
    then show ?thesis using run comparison_order.floating_done [OF cmp less.prems(5)] lc(3) by auto
  next
    case False
    then have m2: "m2 div 2 = i" "m2 \<le> n" "i < m2" using lc(1) less.prems(3) by auto
    obtain m' where m': "do_swap m array i m2 sz = Some m'" "rearranged m array sz n cnt m'"
      "\<And>k. 1 \<le> k \<Longrightarrow> k \<le> cnt \<Longrightarrow> elem m' array sz k = swap_fun ?e i m2 k"
      using do_swap_rearranged [OF less.prems(1) n(1), of i m2] less.prems(3,4) m2 by auto
    have "floating ?cmp j m2 n (swap_fun ?e i m2)"
      using comparison_order.floating_next [OF cmp less.prems(5,2,3) m2(1,2)] lc(2,3) by blast
    then have fl: "floating ?cmp j m2 n (elem m' array sz)"
      by (rule floating_cong [rotated 2]) (use m'(3) n(1) m2(2) in simp_all)
    have len: "array + cnt * sz \<le> length m'" using less.prems(1) m'(2) by (simp add: rearranged_def only_array_def)
    have "n - m2 < n - i" "j \<le> m2" "1 \<le> m2" using m2 less.prems(2,3) by simp_all
    then obtain m'' where "heapify m' array m2 n sz compare aux = Some m''" "rearranged m' array sz n cnt m''"
      "heap ?cmp j n (elem m'' array sz)"
      using less.hyps [OF _ len _ _ m2(2) fl] by blast
    then show ?thesis using run False m'(1) rearranged_trans [OF m'(2)] by simp
  qed
qed

lemma rearranged_mono:
  assumes "rearranged m array sz n cnt m'" "n \<le> cnt"
  shows "rearranged m array sz cnt cnt m'"
proof -
  have "[1..<Suc cnt] = [1..<Suc n] @ [Suc n..<Suc cnt]" using upt_add_eq_append [of 1 "Suc n" "cnt - n"] assms(2) by simp
  moreover have "map (elem m' array sz) [Suc n..<Suc cnt] = map (elem m array sz) [Suc n..<Suc cnt]"
    using assms(1) by (intro map_cong) (auto simp: rearranged_def)
  ultimately show ?thesis using assms(1) by (simp only: rearranged_def map_append mset_append) simp
qed

lemma rearranged_length: "rearranged m array sz n cnt m' \<Longrightarrow> length m' = length m"
  by (simp add: rearranged_def only_array_def)

lemma rearranged_source:
  assumes "rearranged m array sz n cnt m'" "1 \<le> k" "k \<le> n"
  shows "\<exists>q. 1 \<le> q \<and> q \<le> n \<and> elem m' array sz k = elem m array sz q"
proof -
  have "set (map (elem m' array sz) [1..<Suc n]) = set (map (elem m array sz) [1..<Suc n])"
    using assms(1) unfolding rearranged_def by (metis set_mset_mset)
  moreover have "elem m' array sz k \<in> set (map (elem m' array sz) [1..<Suc n])" using assms(2,3) by (simp del: upt_Suc)
  ultimately show ?thesis by (auto simp: less_Suc_eq_le simp del: upt_Suc)
qed

lemma build_heap_spec:
  assumes cmp: "comparison_order (\<lambda>a b. compare a b aux)" and n: "cnt < 2 ^ 31"
  shows "array + cnt * sz \<le> length m \<Longrightarrow> i \<le> cnt \<Longrightarrow> heap (\<lambda>a b. compare a b aux) (Suc i) cnt (elem m array sz) \<Longrightarrow>
    \<exists>m'. build_heap i m array cnt sz compare aux = Some m' \<and> rearranged m array sz cnt cnt m'
      \<and> heap (\<lambda>a b. compare a b aux) 1 cnt (elem m' array sz)"
proof (induction i arbitrary: m)
  case 0
  then show ?case by simp
next
  case (Suc i)
  have "floating (\<lambda>a b. compare a b aux) (Suc i) (Suc i) cnt (elem m array sz)"
    using Suc.prems(3) by (auto simp: floating_def heap_def)
  then obtain m1 where m1: "heapify m array (Suc i) cnt sz compare aux = Some m1" "rearranged m array sz cnt cnt m1"
    "heap (\<lambda>a b. compare a b aux) (Suc i) cnt (elem m1 array sz)"
    using heapify_spec [where compare = compare and aux = aux, OF cmp order_refl n Suc.prems(1) order_refl _ Suc.prems(2)] by auto
  then obtain m2 where "build_heap i m1 array cnt sz compare aux = Some m2" "rearranged m1 array sz cnt cnt m2"
      "heap (\<lambda>a b. compare a b aux) 1 cnt (elem m2 array sz)"
    using Suc.IH [of m1] Suc.prems(1,2) rearranged_length [OF m1(2)] by auto
  then show ?case using m1(1) rearranged_trans [OF m1(2)] by simp
qed

text \<open>The part above \<open>i\<close> is sorted, and no element below is larger.\<close>

definition sorted_above :: "('e \<Rightarrow> 'e \<Rightarrow> int) \<Rightarrow> nat \<Rightarrow> nat \<Rightarrow> (nat \<Rightarrow> 'e) \<Rightarrow> bool" where
  "sorted_above cmp i cnt e \<longleftrightarrow> (\<forall>k l. 1 \<le> k \<longrightarrow> k < l \<longrightarrow> i < l \<longrightarrow> l \<le> cnt \<longrightarrow> cmp (e k) (e l) \<le> 0)"

lemma sort_round:
  assumes cmp: "comparison_order (\<lambda>a b. compare a b aux)" and i: "1 < i" "i \<le> cnt" "cnt < 2 ^ 31"
    and m: "array + cnt * sz \<le> length m" "heap (\<lambda>a b. compare a b aux) 1 i (elem m array sz)"
      "sorted_above (\<lambda>a b. compare a b aux) i cnt (elem m array sz)"
  shows "\<exists>m1 m2. do_swap m array 1 i sz = Some m1 \<and> heapify m1 array 1 (i - 1) sz compare aux = Some m2
    \<and> rearranged m array sz cnt cnt m2 \<and> heap (\<lambda>a b. compare a b aux) 1 (i - 1) (elem m2 array sz)
    \<and> sorted_above (\<lambda>a b. compare a b aux) (i - 1) cnt (elem m2 array sz)"
proof -
  let ?cmp = "\<lambda>a b. compare a b aux" and ?e = "elem m array sz"
  obtain m1 where m1: "do_swap m array 1 i sz = Some m1" "rearranged m array sz cnt cnt m1"
    "\<And>k. 1 \<le> k \<Longrightarrow> k \<le> cnt \<Longrightarrow> elem m1 array sz k = swap_fun ?e 1 i k"
    using do_swap_rearranged [OF m(1) order_refl, of 1 i] i by auto
  have "floating ?cmp 1 1 (i - 1) (elem m1 array sz)"
  proof -
    have "elem m1 array sz k = ?e k" "elem m1 array sz (k div 2) = ?e (k div 2)"
      if "2 \<le> k" "k \<le> i - 1" "1 \<le> k div 2" "k div 2 \<noteq> 1" for k
      using m1(3) [of k] m1(3) [of "k div 2"] that i by (auto simp: swap_fun_def)
    then show ?thesis using m(2) unfolding floating_def heap_def by auto
  qed
  moreover have "i - 1 \<le> cnt" "1 \<le> i - 1" using i by simp_all
  ultimately obtain m2 where m2: "heapify m1 array 1 (i - 1) sz compare aux = Some m2" "rearranged m1 array sz (i - 1) cnt m2"
    "heap ?cmp 1 (i - 1) (elem m2 array sz)"
    using heapify_spec [where compare = compare and aux = aux, OF cmp, of "i - 1" cnt array sz m1 1 1] i m(1) rearranged_length [OF m1(2)] by auto
  have above: "elem m2 array sz l = swap_fun ?e 1 i l" if "i \<le> l" "l \<le> cnt" for l
    using m2(2) m1(3) [of l] that i by (auto simp: rearranged_def)
  have below: "\<exists>q. 1 \<le> q \<and> q \<le> i \<and> elem m2 array sz k = ?e q" if k: "1 \<le> k" "k < i" for k
  proof -
    obtain q where q: "1 \<le> q" "q \<le> i - 1" "elem m2 array sz k = elem m1 array sz q"
      using rearranged_source [OF m2(2) k(1)] k(2) by (metis Suc_diff_1 \<open>1 \<le> i - 1\<close> i(1) less_Suc_eq_le less_trans zero_less_one)
    then have "elem m2 array sz k = ?e (if q = 1 then i else q)" using m1(3) [of q] i by (auto simp: swap_fun_def)
    then show ?thesis using q i by (intro exI [of _ "if q = 1 then i else q"]) auto
  qed
  have "?cmp (elem m2 array sz k) (elem m2 array sz l) \<le> 0" if kl: "1 \<le> k" "k < l" "i - 1 < l" "l \<le> cnt" for k l
  proof -
    have s: "?cmp (?e q) (?e l) \<le> 0" if "1 \<le> q" "q < l" "i < l" for q
      using m(3) that kl(4) by (simp add: sorted_above_def)
    have l: "elem m2 array sz l = (if l = i then ?e 1 else ?e l)" using above [of l] kl i by (auto simp: swap_fun_def)
    show ?thesis
    proof (cases "k < i")
      case True
      then obtain q where q: "1 \<le> q" "q \<le> i" "elem m2 array sz k = ?e q" using below kl(1) by blast
      then show ?thesis using s [of q] comparison_order.heap_root [OF cmp m(2) q(1,2)] l kl(3) by (cases "l = i") auto
    next
      case False
      then show ?thesis using above [of k] l s [of k] s [of 1] kl i by (auto simp: swap_fun_def)
    qed
  qed
  then have "sorted_above ?cmp (i - 1) cnt (elem m2 array sz)" by (simp add: sorted_above_def)
  then show ?thesis using m1 m2 rearranged_trans [OF m1(2) rearranged_mono [OF m2(2)]] i by auto
qed

lemma sort_heap_spec:
  assumes cmp: "comparison_order (\<lambda>a b. compare a b aux)" and n: "cnt < 2 ^ 31"
  shows "array + cnt * sz \<le> length m \<Longrightarrow> i \<le> cnt \<Longrightarrow> heap (\<lambda>a b. compare a b aux) 1 i (elem m array sz) \<Longrightarrow>
    sorted_above (\<lambda>a b. compare a b aux) i cnt (elem m array sz) \<Longrightarrow>
    \<exists>m'. sort_heap i m array sz compare aux = Some m' \<and> rearranged m array sz cnt cnt m'
      \<and> sorted_above (\<lambda>a b. compare a b aux) 1 cnt (elem m' array sz)"
proof (induction i arbitrary: m)
  case 0
  then show ?case by (auto simp: sorted_above_def sort_heap.simps)
next
  case (Suc i)
  show ?case
  proof (cases "i = 0")
    case True
    then show ?thesis using Suc.prems(4) by (auto simp: sort_heap.simps)
  next
    case False
    then obtain m1 m2 where m2: "do_swap m array 1 (Suc i) sz = Some m1" "heapify m1 array 1 i sz compare aux = Some m2"
      "rearranged m array sz cnt cnt m2" "heap (\<lambda>a b. compare a b aux) 1 i (elem m2 array sz)"
      "sorted_above (\<lambda>a b. compare a b aux) i cnt (elem m2 array sz)"
      using sort_round [where compare = compare and aux = aux, OF cmp _ Suc.prems(2) n Suc.prems(1,3,4)] by auto
    then obtain m' where "sort_heap i m2 array sz compare aux = Some m'" "rearranged m2 array sz cnt cnt m'"
      "sorted_above (\<lambda>a b. compare a b aux) 1 cnt (elem m' array sz)"
      using Suc.IH [of m2] Suc.prems(1,2) rearranged_length [OF m2(3)] by auto
    then show ?thesis using False m2(1,2) rearranged_trans [OF m2(3)] by (subst sort_heap.simps) simp
  qed
qed

section \<open>Binary search\<close>

context comparison_order
begin

lemma above_key: "cmp key b > 0 \<Longrightarrow> cmp a b \<le> 0 \<Longrightarrow> cmp key a > 0"
  using cmp_trans [of key a b] by linarith

lemma below_key: "cmp key a < 0 \<Longrightarrow> cmp a b \<le> 0 \<Longrightarrow> cmp key b < 0"
  using cmp_trans [of a b key] swap_sign [of a key] swap_sign [of b key] by linarith

end

lemma search_loop_spec:
  assumes cmp: "comparison_order (\<lambda>a b. compare a b aux)"
    and a: "array \<noteq> NULL" "0 < sz" "array + cnt * sz \<le> length m"
    and s: "sorted_above (\<lambda>a b. compare a b aux) 1 cnt (elem m array sz)"
  shows "lo \<le> hi \<Longrightarrow> hi \<le> cnt \<Longrightarrow>
    (\<And>k. 1 \<le> k \<Longrightarrow> k \<le> lo \<Longrightarrow> compare key (elem m array sz k) aux > 0) \<Longrightarrow>
    (\<And>k. hi < k \<Longrightarrow> k \<le> cnt \<Longrightarrow> compare key (elem m array sz k) aux < 0) \<Longrightarrow>
    \<exists>p. search_loop m key (array + lo * sz) (array + hi * sz) sz compare aux = Some p
      \<and> (if p = NULL then \<forall>k. 1 \<le> k \<longrightarrow> k \<le> cnt \<longrightarrow> compare key (elem m array sz k) aux \<noteq> 0
          else \<exists>k. 1 \<le> k \<and> k \<le> cnt \<and> p = array + (k - 1) * sz \<and> compare key (elem m array sz k) aux = 0)"
proof (induction "hi - lo" arbitrary: lo hi rule: less_induct)
  case less
  let ?cmp = "\<lambda>a b. compare a b aux" and ?e = "elem m array sz"
  show ?case
  proof (cases "lo < hi")
    case False
    then have "compare key (?e k) aux \<noteq> 0" if "1 \<le> k" "k \<le> cnt" for k
      using less.prems(3) [of k] less.prems(4) [of k] that by (cases "k \<le> lo") auto
    then show ?thesis using False less.prems(1) by (subst search_loop.simps) auto
  next
    case True
    define k where "k = Suc (lo + (hi - lo) div 2)"
    have k: "lo < k" "k \<le> hi" "1 \<le> k" "k - 1 < hi" using True by (auto simp: k_def)
    have run: "search_loop m key (array + lo * sz) (array + hi * sz) sz compare aux =
      (if compare key (?e k) aux < 0 then search_loop m key (array + lo * sz) (array + (k - 1) * sz) sz compare aux
       else if compare key (?e k) aux > 0 then search_loop m key (array + k * sz) (array + hi * sz) sz compare aux
       else Some (array + (k - 1) * sz))"
    proof -
      have r: "(array + hi * sz - (array + lo * sz)) div sz = hi - lo" using a(2) by (simp flip: diff_mult_distrib)
      have mid: "array + lo * sz + (hi - lo) div 2 * sz = array + (k - 1) * sz" by (simp add: k_def add_mult_distrib)
      have nxt: "array + (k - 1) * sz + sz = array + k * sz" using k(3) by (simp add: mult_eq_if)
      have "k * sz \<le> cnt * sz" using k(2) less.prems(2) by (intro mult_le_mono1) simp
      then have "array + k * sz \<le> length m" using a(3) by linarith
      moreover have "array + lo * sz < array + hi * sz" using True a(2) by simp
      ultimately show ?thesis by (subst search_loop.simps) (simp only: Let_def r mid nxt elem_def if_True ASSERT_True bind.bind_lunit)
    qed
    have mono: "?cmp (?e i) (?e j) \<le> 0" if "1 \<le> i" "i \<le> j" "j \<le> cnt" for i j
      using s that comparison_order.le_refl [OF cmp] by (cases "i = j") (auto simp: sorted_above_def)
    consider (less) "compare key (?e k) aux < 0" | (greater) "compare key (?e k) aux > 0" | (eq) "compare key (?e k) aux = 0"
      by linarith
    then show ?thesis
    proof cases
      case less
      have "compare key (?e i) aux < 0" if "k - 1 < i" "i \<le> cnt" for i
        using comparison_order.below_key [OF cmp less mono] that k by auto
      then show ?thesis using less.hyps [of "k - 1" lo] k less.prems run less by auto
    next
      case greater
      have "compare key (?e i) aux > 0" if "1 \<le> i" "i \<le> k" for i
        using comparison_order.above_key [OF cmp greater mono] that k less.prems(2) by auto
      then show ?thesis using less.hyps [of hi k] k less.prems run greater by auto
    next
      case eq
      then have "search_loop m key (array + lo * sz) (array + hi * sz) sz compare aux = Some (array + (k - 1) * sz)" using run by simp
      moreover have "k \<le> cnt" "array + (k - 1) * sz \<noteq> NULL" using k less.prems(2) a(1) by (simp_all add: NULL_def)
      ultimately show ?thesis using eq k(3) by auto
    qed
  qed
qed

section \<open>Correctness\<close>

definition elems :: "mem \<Rightarrow> nat \<Rightarrow> nat \<Rightarrow> nat \<Rightarrow> byte list list" where
  "elems m array cnt sz = map (elem m array sz) [1..<Suc cnt]"

lemma sorted_elems: "sorted_wrt (\<lambda>a b. cmp a b \<le> 0) (elems m array cnt sz) \<longleftrightarrow> sorted_above cmp 1 cnt (elem m array sz)"
proof
  assume s: "sorted_wrt (\<lambda>a b. cmp a b \<le> 0) (elems m array cnt sz)"
  show "sorted_above cmp 1 cnt (elem m array sz)" unfolding sorted_above_def
  proof (intro allI impI)
    fix k l assume "1 \<le> k" "k < l" "l \<le> cnt"
    then show "cmp (elem m array sz k) (elem m array sz l) \<le> 0"
      using sorted_wrt_nth_less [OF s, of "k - 1" "l - 1"] by (simp add: elems_def del: upt_Suc)
  qed
next
  assume "sorted_above cmp 1 cnt (elem m array sz)"
  then show "sorted_wrt (\<lambda>a b. cmp a b \<le> 0) (elems m array cnt sz)"
    by (auto simp: sorted_wrt_iff_nth_less elems_def sorted_above_def simp del: upt_Suc)
qed

lemma set_elems: "e \<in> set (elems m array cnt sz) \<longleftrightarrow> (\<exists>k. 1 \<le> k \<and> k \<le> cnt \<and> e = elem m array sz k)"
  by (auto simp: elems_def simp del: upt_Suc)

lemma sort_array_spec:
  assumes cmp: "comparison_order (\<lambda>a b. compare a b aux)"
    and "array \<noteq> NULL" "0 < sz" "array + cnt * sz \<le> length m" "cnt < 2 ^ 31"
  shows "\<exists>m'. sort_array m array cnt sz compare aux = Some m' \<and> only_array m array (cnt * sz) m'
    \<and> mset (elems m' array cnt sz) = mset (elems m array cnt sz)
    \<and> sorted_above (\<lambda>a b. compare a b aux) 1 cnt (elem m' array sz)"
proof -
  let ?cmp = "\<lambda>a b. compare a b aux"
  have "heap ?cmp (Suc (cnt div 2)) cnt (elem m array sz)" by (auto simp: heap_def)
  then obtain m1 where m1: "build_heap (cnt div 2) m array cnt sz compare aux = Some m1" "rearranged m array sz cnt cnt m1"
    "heap ?cmp 1 cnt (elem m1 array sz)"
    using build_heap_spec [where compare = compare and aux = aux, OF cmp assms(5,4), of "cnt div 2"] by auto
  have "sorted_above ?cmp cnt cnt (elem m1 array sz)" by (simp add: sorted_above_def)
  then obtain m2 where m2: "sort_heap cnt m1 array sz compare aux = Some m2" "rearranged m1 array sz cnt cnt m2"
    "sorted_above ?cmp 1 cnt (elem m2 array sz)"
    using sort_heap_spec [where compare = compare and aux = aux, OF cmp assms(5) _ order_refl m1(3)] assms(4)
      rearranged_length [OF m1(2)] by auto
  have "rearranged m array sz cnt cnt m2" using m1(2) m2(2) by (rule rearranged_trans)
  then show ?thesis using m1(1) m2(1,3) assms(2,3) by (auto simp: sort_array_def rearranged_def elems_def simp del: upt_Suc)
qed

lemma binary_search_spec:
  assumes "comparison_order (\<lambda>a b. compare a b aux)" "array \<noteq> NULL" "0 < sz" "array + cnt * sz \<le> length m"
    and "sorted_above (\<lambda>a b. compare a b aux) 1 cnt (elem m array sz)"
  shows "\<exists>p. binary_search m key array cnt sz compare aux = Some p
    \<and> (if p = NULL then \<forall>e \<in> set (elems m array cnt sz). compare key e aux \<noteq> 0
        else \<exists>k. 1 \<le> k \<and> k \<le> cnt \<and> p = array + (k - 1) * sz \<and> compare key (elem m array sz k) aux = 0)"
proof -
  obtain p where "search_loop m key array (array + cnt * sz) sz compare aux = Some p"
    "if p = NULL then \<forall>k. 1 \<le> k \<longrightarrow> k \<le> cnt \<longrightarrow> compare key (elem m array sz k) aux \<noteq> 0
     else \<exists>k. 1 \<le> k \<and> k \<le> cnt \<and> p = array + (k - 1) * sz \<and> compare key (elem m array sz k) aux = 0"
    using search_loop_spec [where compare = compare and aux = aux, OF assms, of 0 cnt key] by auto
  then show ?thesis
    by (intro exI [of _ p]) (auto simp: binary_search_def mult.commute [of sz] set_elems split: if_splits)
qed

interpretation int_order: comparison_order compare_ints
  by unfold_locales (auto simp: compare_ints_def split: if_splits)

lemma compare_thunk_order: "comparison_order cmp \<Longrightarrow> comparison_order (\<lambda>a b. compare_thunk a b cmp)"
  by (simp add: compare_thunk_def)

text \<open>
  C11: \<open>sort\<close> returns for every comparison that is an order, reads and writes nothing outside the array, and leaves
  the elements it found in ascending order.
\<close>

theorem sort_correct:
  assumes "comparison_order (\<lambda>a b. compare a b aux)"
    and "array \<noteq> NULL" "0 < sz" "array + cnt * sz \<le> length m" "cnt < 2 ^ 31"
  shows "\<exists>m'. sort_array m array cnt sz compare aux = Some m'
    \<and> only_array m array (cnt * sz) m'
    \<and> mset (elems m' array cnt sz) = mset (elems m array cnt sz)
    \<and> sorted_wrt (\<lambda>a b. compare a b aux \<le> 0) (elems m' array cnt sz)"
  using sort_array_spec [where compare = compare and aux = aux, OF assms] by (simp add: sorted_elems)

definition three_ints :: mem where
  "three_ints = [0, 0, 0, 0, 3, 0, 0, 0, 0xFF, 0xFF, 0xFF, 0xFF, 2, 0, 0, 0, 0]"

lemma three_ints_size: "length three_ints = 17"
  by (simp add: three_ints_def)

lemma three_ints_elems: "elems three_ints 4 3 4 = [[3, 0, 0, 0], [0xFF, 0xFF, 0xFF, 0xFF], [2, 0, 0, 0]]"
  by (simp add: elems_def elem_def bytes_def three_ints_def upt_rec)

theorem sort_correct_witness:
  "\<exists>m'. sort_array three_ints 4 3 4 compare_thunk compare_ints = Some m' \<and> only_array three_ints 4 (3 * 4) m'
    \<and> mset (elems m' 4 3 4) = mset (elems three_ints 4 3 4)
    \<and> sorted_wrt (\<lambda>a b. compare_thunk a b compare_ints \<le> 0) (elems m' 4 3 4)"
  by (rule sort_correct [where compare = compare_thunk and aux = compare_ints, OF compare_thunk_order [OF int_order.comparison_order_axioms]])
    (simp_all add: three_ints_size NULL_def)

text \<open>
  after \<open>qsort\<close>, \<open>bsearch\<close> with the same comparison returns for every key.  It gives the address of an element that
  compares equal to the key, and the null pointer exactly when the array had no such element.
\<close>

theorem qsort_then_bsearch:
  assumes "comparison_order compare" "array \<noteq> NULL" "0 < sz" "array + cnt * sz \<le> length m" "cnt < 2 ^ 31"
  shows "\<exists>m' p. qsort m array cnt sz compare = Some m' \<and> bsearch m' key array cnt sz compare = Some p
    \<and> (p = NULL \<longleftrightarrow> (\<forall>e \<in> set (elems m array cnt sz). compare key e \<noteq> 0))
    \<and> (p \<noteq> NULL \<longrightarrow> (\<exists>k. k < cnt \<and> p = array + k * sz \<and> compare key (bytes m' p sz) = 0))"
proof -
  note thunk = compare_thunk_order [OF assms(1)]
  obtain m' where m': "qsort m array cnt sz compare = Some m'" "length m' = length m"
    "mset (elems m' array cnt sz) = mset (elems m array cnt sz)"
    "sorted_above (\<lambda>a b. compare_thunk a b compare) 1 cnt (elem m' array sz)"
    using sort_array_spec [where compare = compare_thunk and aux = compare, OF thunk assms(2-5)] by (auto simp: qsort_def only_array_def)
  obtain p where p: "bsearch m' key array cnt sz compare = Some p"
    "if p = NULL then \<forall>e \<in> set (elems m' array cnt sz). compare key e \<noteq> 0
     else \<exists>k. 1 \<le> k \<and> k \<le> cnt \<and> p = array + (k - 1) * sz \<and> compare key (elem m' array sz k) = 0"
    using binary_search_spec [where compare = compare_thunk and aux = compare, OF thunk assms(2,3) _ m'(4), of key] assms(4) m'(2)
    by (auto simp: bsearch_def compare_thunk_def cong: if_cong)
  have same: "set (elems m' array cnt sz) = set (elems m array cnt sz)" using m'(3) by (metis set_mset_mset)
  have found: "\<exists>k. k < cnt \<and> p = array + k * sz \<and> compare key (bytes m' p sz) = 0"
    "\<exists>e \<in> set (elems m array cnt sz). compare key e = 0" if nn: "p \<noteq> NULL"
  proof -
    obtain k where k: "1 \<le> k" "k \<le> cnt" "p = array + (k - 1) * sz" "compare key (elem m' array sz k) = 0" using p(2) nn by auto
    then show "\<exists>k. k < cnt \<and> p = array + k * sz \<and> compare key (bytes m' p sz) = 0"
      by (intro exI [of _ "k - 1"]) (auto simp: elem_def)
    show "\<exists>e \<in> set (elems m array cnt sz). compare key e = 0" unfolding same [symmetric] using k by (metis set_elems)
  qed
  show ?thesis using m'(1) p found same by (intro exI [of _ m'] exI [of _ p]) (auto split: if_splits)
qed

theorem qsort_then_bsearch_witness:
  "\<exists>m' p. qsort three_ints 4 3 4 compare_ints = Some m' \<and> bsearch m' [2, 0, 0, 0] 4 3 4 compare_ints = Some p
    \<and> p \<noteq> NULL \<and> compare_ints [2, 0, 0, 0] (bytes m' p 4) = 0"
proof -
  have "\<exists>m' p. qsort three_ints 4 3 4 compare_ints = Some m' \<and> bsearch m' [2, 0, 0, 0] 4 3 4 compare_ints = Some p
    \<and> (p = NULL \<longleftrightarrow> (\<forall>e \<in> set (elems three_ints 4 3 4). compare_ints [2, 0, 0, 0] e \<noteq> 0))
    \<and> (p \<noteq> NULL \<longrightarrow> (\<exists>k. k < 3 \<and> p = 4 + k * 4 \<and> compare_ints [2, 0, 0, 0] (bytes m' p 4) = 0))"
    by (rule qsort_then_bsearch [OF int_order.comparison_order_axioms]) (simp_all add: three_ints_size NULL_def)
  moreover have "\<not> (\<forall>e \<in> set (elems three_ints 4 3 4). compare_ints [2, 0, 0, 0] e \<noteq> 0)"
    by (simp add: three_ints_elems compare_ints_def)
  ultimately show ?thesis by blast
qed

end
