(* ===== verification/Cstring.thy ===== *)
theory Cstring
  imports Stdlib
begin

text \<open>
  \<open>lib/string.c\<close>: operations on blocks of memory and on null-terminated strings, over the byte-addressed memory of
  \<open>Cmem\<close>.  A pointer that a function returns is an address; \<^term>\<open>NULL\<close> when it returns a null pointer.
\<close>

section \<open>Blocks of memory\<close>

primrec copy_up :: "nat \<Rightarrow> mem \<Rightarrow> nat \<Rightarrow> nat \<Rightarrow> mem option" where
  "copy_up 0 m dst src = Some m" |
  "copy_up (Suc n) m dst src = do {
     b \<leftarrow> rd m src;
     m \<leftarrow> wr m dst b;
     copy_up n m (dst + 1) (src + 1) }"

text \<open>The backward loop: \<open>dst\<close> and \<open>src\<close> are decremented before each byte.\<close>

primrec copy_down :: "nat \<Rightarrow> mem \<Rightarrow> nat \<Rightarrow> nat \<Rightarrow> mem option" where
  "copy_down 0 m dst src = Some m" |
  "copy_down (Suc n) m dst src = do {
     b \<leftarrow> rd m (src - 1);
     m \<leftarrow> wr m (dst - 1) b;
     copy_down n m (dst - 1) (src - 1) }"

definition memcpy :: "mem \<Rightarrow> nat \<Rightarrow> nat \<Rightarrow> nat \<Rightarrow> (mem \<times> nat) option" where
  "memcpy m dst src n = do {
     ASSERT (dst \<noteq> NULL \<or> n = 0);
     ASSERT (src \<noteq> NULL \<or> n = 0);
     m \<leftarrow> copy_up n m dst src;
     Some (m, dst) }"

text \<open>\<open>memmove\<close> returns the pointer its loop leaves: \<open>dst + size\<close> after the forward loop.\<close>

definition memmove :: "mem \<Rightarrow> nat \<Rightarrow> nat \<Rightarrow> nat \<Rightarrow> (mem \<times> nat) option" where
  "memmove m dst src n = do {
     ASSERT (dst \<noteq> NULL \<or> n = 0);
     ASSERT (src \<noteq> NULL \<or> n = 0);
     if dst < src then do {
       m \<leftarrow> copy_up n m dst src;
       Some (m, dst + n) }
     else do {
       m \<leftarrow> copy_down n m (dst + n) (src + n);
       Some (m, dst) } }"

primrec memcmp_loop :: "nat \<Rightarrow> mem \<Rightarrow> nat \<Rightarrow> nat \<Rightarrow> int option" where
  "memcmp_loop 0 m a b = Some 0" |
  "memcmp_loop (Suc n) m a b = do {
     x \<leftarrow> rd m a;
     y \<leftarrow> rd m b;
     if x \<noteq> y then Some (if x > y then 1 else - 1) else memcmp_loop n m (a + 1) (b + 1) }"

definition memcmp :: "mem \<Rightarrow> nat \<Rightarrow> nat \<Rightarrow> nat \<Rightarrow> int option" where
  "memcmp m a b n = do {
     ASSERT (a \<noteq> NULL \<or> n = 0);
     ASSERT (b \<noteq> NULL \<or> n = 0);
     memcmp_loop n m a b }"

primrec memchr_loop :: "nat \<Rightarrow> mem \<Rightarrow> nat \<Rightarrow> byte \<Rightarrow> nat option" where
  "memchr_loop 0 m block ch = Some NULL" |
  "memchr_loop (Suc n) m block ch = do {
     b \<leftarrow> rd m block;
     if b = ch then Some block else memchr_loop n m (block + 1) ch }"

definition memchr :: "mem \<Rightarrow> nat \<Rightarrow> int \<Rightarrow> nat \<Rightarrow> nat option" where
  "memchr m block ch n = do {
     ASSERT (block \<noteq> NULL \<or> n = 0);
     memchr_loop n m block (word_of_int ch) }"

primrec memset_loop :: "nat \<Rightarrow> mem \<Rightarrow> nat \<Rightarrow> byte \<Rightarrow> mem option" where
  "memset_loop 0 m dst b = Some m" |
  "memset_loop (Suc n) m dst b = do { m \<leftarrow> wr m dst b; memset_loop n m (dst + 1) b }"

definition memset :: "mem \<Rightarrow> nat \<Rightarrow> int \<Rightarrow> nat \<Rightarrow> (mem \<times> nat) option" where
  "memset m dst value n = do {
     ASSERT (dst \<noteq> NULL \<or> n = 0);
     m \<leftarrow> memset_loop n m dst (word_of_int value);
     Some (m, dst) }"

section \<open>Strings\<close>

text \<open>The loops run until they meet a null byte, or leave the memory.\<close>

partial_function (option) strcmp_loop :: "mem \<Rightarrow> nat \<Rightarrow> nat \<Rightarrow> int option" where
  "strcmp_loop m a b = do {
     x \<leftarrow> rd m a;
     y \<leftarrow> rd m b;
     if x \<noteq> 0 \<and> x = y then strcmp_loop m (a + 1) (b + 1)
     else Some (if x < y then - 1 else if x > y then 1 else 0) }"

definition strcmp :: "mem \<Rightarrow> nat \<Rightarrow> nat \<Rightarrow> int option" where
  "strcmp m a b = do {
     ASSERT (a \<noteq> NULL);
     ASSERT (b \<noteq> NULL);
     strcmp_loop m a b }"

partial_function (option) strchr_loop :: "mem \<Rightarrow> nat \<Rightarrow> byte \<Rightarrow> nat option" where
  "strchr_loop m s c = do {
     b \<leftarrow> rd m s;
     if b = c then Some s else if b = 0 then Some NULL else strchr_loop m (s + 1) c }"

definition strchr :: "mem \<Rightarrow> nat \<Rightarrow> int \<Rightarrow> nat option" where
  "strchr m s c = do {
     ASSERT (s \<noteq> NULL);
     strchr_loop m s (word_of_int c) }"

text \<open>
  The length of the initial part of a string whose characters are not in \<open>stop\<close> (\<open>strcspn\<close>) or are in \<open>skip\<close>
  (\<open>strspn\<close>).
\<close>

partial_function (option) strcspn_loop :: "mem \<Rightarrow> nat \<Rightarrow> nat \<Rightarrow> nat \<Rightarrow> nat option" where
  "strcspn_loop m s stop n = do {
     b \<leftarrow> rd m (s + n);
     if b \<noteq> 0 then do {
       p \<leftarrow> strchr m stop (char_of_byte b);
       if p \<noteq> NULL then Some n else strcspn_loop m s stop (n + 1) }
     else Some n }"

definition strcspn :: "mem \<Rightarrow> nat \<Rightarrow> nat \<Rightarrow> nat option" where
  "strcspn m s stop = strcspn_loop m s stop 0"

partial_function (option) strpbrk :: "mem \<Rightarrow> nat \<Rightarrow> nat \<Rightarrow> nat option" where
  "strpbrk m s stop = do {
     b \<leftarrow> rd m s;
     if b \<noteq> 0 then do {
       p \<leftarrow> strchr m stop (char_of_byte b);
       if p \<noteq> NULL then Some s else strpbrk m (s + 1) stop }
     else Some NULL }"

partial_function (option) strrchr_loop :: "mem \<Rightarrow> nat \<Rightarrow> byte \<Rightarrow> nat \<Rightarrow> nat option" where
  "strrchr_loop m s c p = do {
     b \<leftarrow> rd m s;
     if b \<noteq> 0 then strrchr_loop m (s + 1) c (if b = c then s else p) else Some p }"

definition strrchr :: "mem \<Rightarrow> nat \<Rightarrow> int \<Rightarrow> nat option" where
  "strrchr m s c = strrchr_loop m s (word_of_int c) NULL"

partial_function (option) strspn_loop :: "mem \<Rightarrow> nat \<Rightarrow> nat \<Rightarrow> nat \<Rightarrow> nat option" where
  "strspn_loop m s skip n = do {
     b \<leftarrow> rd m (s + n);
     if b \<noteq> 0 then do {
       p \<leftarrow> strchr m skip (char_of_byte b);
       if p = NULL then Some n else strspn_loop m s skip (n + 1) }
     else Some n }"

definition strspn :: "mem \<Rightarrow> nat \<Rightarrow> nat \<Rightarrow> nat option" where
  "strspn m s skip = strspn_loop m s skip 0"

partial_function (option) strlen_loop :: "mem \<Rightarrow> nat \<Rightarrow> nat option" where
  "strlen_loop m p = do { b \<leftarrow> rd m p; if b \<noteq> 0 then strlen_loop m (p + 1) else Some p }"

definition strlen :: "mem \<Rightarrow> nat \<Rightarrow> nat option" where
  "strlen m s = do {
     ASSERT (s \<noteq> NULL);
     p \<leftarrow> strlen_loop m s;
     Some (p - s) }"

partial_function (option) strnlen_loop :: "mem \<Rightarrow> nat \<Rightarrow> nat \<Rightarrow> nat \<Rightarrow> nat option" where
  "strnlen_loop m s maxlen n = do {
     b \<leftarrow> rd m (s + n);
     if b \<noteq> 0 \<and> n < maxlen then strnlen_loop m s maxlen (n + 1) else Some n }"

definition strnlen :: "mem \<Rightarrow> nat \<Rightarrow> nat \<Rightarrow> nat option" where
  "strnlen m s maxlen = strnlen_loop m s maxlen 0"

text \<open>The loop of \<open>strstr\<close>, for the start positions from \<open>i\<close> on; \<open>k\<close> of them remain.\<close>

primrec strstr_loop :: "nat \<Rightarrow> mem \<Rightarrow> nat \<Rightarrow> nat \<Rightarrow> nat \<Rightarrow> nat option" where
  "strstr_loop 0 m p needle needle_len = Some NULL" |
  "strstr_loop (Suc k) m p needle needle_len = do {
     c \<leftarrow> memcmp m p needle needle_len;
     if c = 0 then Some p else strstr_loop k m (p + 1) needle needle_len }"

definition strstr :: "mem \<Rightarrow> nat \<Rightarrow> nat \<Rightarrow> nat option" where
  "strstr m haystack needle = do {
     haystack_len \<leftarrow> strlen m haystack;
     needle_len \<leftarrow> strlen m needle;
     if haystack_len \<ge> needle_len then strstr_loop (haystack_len - needle_len + 1) m haystack needle needle_len
     else Some NULL }"

section \<open>Tokens\<close>

text \<open>The two loops of \<open>strtok_r\<close>; the first stops at the end of the string too.\<close>

partial_function (option) skip_delimiters :: "mem \<Rightarrow> nat \<Rightarrow> nat \<Rightarrow> (bool \<times> nat) option" where
  "skip_delimiters m s delimiters = do {
     b \<leftarrow> rd m s;
     p \<leftarrow> strchr m delimiters (char_of_byte b);
     if p \<noteq> NULL then (if b = 0 then Some (True, s) else skip_delimiters m (s + 1) delimiters)
     else Some (False, s) }"

partial_function (option) skip_token :: "mem \<Rightarrow> nat \<Rightarrow> nat \<Rightarrow> nat option" where
  "skip_token m s delimiters = do {
     b \<leftarrow> rd m s;
     p \<leftarrow> strchr m delimiters (char_of_byte b);
     if p = NULL then skip_token m (s + 1) delimiters else Some s }"

text \<open>The result is the memory, the token and the new \<open>*save_ptr\<close>.\<close>

definition strtok_r :: "mem \<Rightarrow> nat \<Rightarrow> nat \<Rightarrow> nat \<Rightarrow> (mem \<times> nat \<times> nat) option" where
  "strtok_r m s delimiters save_ptr = do {
     ASSERT (delimiters \<noteq> NULL);
     let s = (if s = NULL then save_ptr else s);
     ASSERT (s \<noteq> NULL);
     (at_end, s) \<leftarrow> skip_delimiters m s delimiters;
     if at_end then Some (m, NULL, s)
     else do {
       let token = s;
       s \<leftarrow> skip_token m s delimiters;
       b \<leftarrow> rd m s;
       if b \<noteq> 0 then do {
         m \<leftarrow> wr m s 0;
         Some (m, token, s + 1) }
       else Some (m, token, s) } }"

section \<open>Bounded copies\<close>

definition strlcpy :: "mem \<Rightarrow> nat \<Rightarrow> nat \<Rightarrow> nat \<Rightarrow> (mem \<times> nat) option" where
  "strlcpy m dst src n = do {
     ASSERT (dst \<noteq> NULL);
     ASSERT (src \<noteq> NULL);
     src_len \<leftarrow> strlen m src;
     if n > 0 then do {
       let dst_len = (if src_len < n - 1 then src_len else n - 1);
       (m, _) \<leftarrow> memcpy m dst src dst_len;
       m \<leftarrow> wr m (dst + dst_len) 0;
       Some (m, src_len) }
     else Some (m, src_len) }"

definition strlcat :: "mem \<Rightarrow> nat \<Rightarrow> nat \<Rightarrow> nat \<Rightarrow> (mem \<times> nat) option" where
  "strlcat m dst src n = do {
     ASSERT (dst \<noteq> NULL);
     ASSERT (src \<noteq> NULL);
     src_len \<leftarrow> strlen m src;
     dst_len \<leftarrow> strlen m dst;
     if n > 0 \<and> dst_len < n then do {
       let copy_cnt = (if src_len < n - dst_len - 1 then src_len else n - dst_len - 1);
       (m, _) \<leftarrow> memcpy m (dst + dst_len) src copy_cnt;
       m \<leftarrow> wr m (dst + dst_len + copy_cnt) 0;
       Some (m, u32 (src_len + dst_len)) }
     else Some (m, u32 (src_len + dst_len)) }"

section \<open>Copies\<close>

text \<open>\<open>m'\<close> is \<open>m\<close> with the \<open>n\<close> bytes at \<open>src\<close> of \<open>m\<close> written at \<open>dst\<close>.\<close>

definition copied :: "mem \<Rightarrow> nat \<Rightarrow> nat \<Rightarrow> nat \<Rightarrow> mem \<Rightarrow> bool" where
  "copied m dst src n m' \<longleftrightarrow> length m' = length m
     \<and> (\<forall>i < n. m' ! (dst + i) = m ! (src + i)) \<and> (\<forall>j. j < dst \<or> dst + n \<le> j \<longrightarrow> m' ! j = m ! j)"

lemma copied_eq:
  assumes "copied m dst src n m'" "dst + n \<le> length m" "src + n \<le> length m"
  shows "m' = take dst m @ bytes m src n @ drop (dst + n) m"
proof (rule nth_equalityI)
  show "length m' = length (take dst m @ bytes m src n @ drop (dst + n) m)" using assms by (simp add: copied_def)
  fix j assume "j < length m'"
  then consider "j < dst" | "dst \<le> j" "j < dst + n" | "dst + n \<le> j" by linarith
  then show "m' ! j = (take dst m @ bytes m src n @ drop (dst + n) m) ! j"
  proof cases
    case 2
    then have "j - dst < n" by simp
    then have "m' ! (dst + (j - dst)) = m ! (src + (j - dst))" using assms(1) unfolding copied_def by blast
    then show ?thesis using 2 assms(2,3) \<open>j - dst < n\<close> by (simp add: nth_append)
  qed (use assms in \<open>auto simp: copied_def nth_append\<close>)
qed

lemma copy_up_spec:
  "src + n \<le> length m \<Longrightarrow> dst + n \<le> length m \<Longrightarrow> dst \<le> src \<or> src + n \<le> dst \<Longrightarrow>
    \<exists>m'. copy_up n m dst src = Some m' \<and> copied m dst src n m'"
proof (induction n arbitrary: m dst src)
  case 0
  then show ?case by (simp add: copied_def)
next
  case (Suc n)
  define m1 where "m1 = m[dst := m ! src]"
  have "\<exists>m'. copy_up n m1 (Suc dst) (Suc src) = Some m' \<and> copied m1 (Suc dst) (Suc src) n m'"
    using Suc.prems by (intro Suc.IH) (auto simp: m1_def)
  then obtain m' where m': "copy_up n m1 (Suc dst) (Suc src) = Some m'" "length m' = length m1"
    "\<And>i. i < n \<Longrightarrow> m' ! (Suc dst + i) = m1 ! (Suc src + i)" "\<And>j. j < Suc dst \<or> Suc dst + n \<le> j \<Longrightarrow> m' ! j = m1 ! j"
    unfolding copied_def by blast
  have "m' ! (dst + i) = m ! (src + i)" if "i < Suc n" for i
  proof (cases i)
    case 0
    then show ?thesis using m'(4) [of dst] Suc.prems(2) by (simp add: m1_def)
  next
    case (Suc k)
    then show ?thesis using m'(3) [of k] that Suc.prems(3) by (auto simp: m1_def nth_list_update)
  qed
  moreover have "m' ! j = m ! j" if "j < dst \<or> dst + Suc n \<le> j" for j using m'(4) [of j] that by (auto simp: m1_def)
  ultimately have "copied m dst src (Suc n) m'" using m'(2) unfolding copied_def by (simp add: m1_def)
  moreover have "copy_up (Suc n) m dst src = Some m'" using m'(1) Suc.prems(1,2) by (simp add: m1_def)
  ultimately show ?case by blast
qed

lemma copy_down_spec:
  "src + n \<le> length m \<Longrightarrow> dst + n \<le> length m \<Longrightarrow> src \<le> dst \<or> dst + n \<le> src \<Longrightarrow>
    \<exists>m'. copy_down n m (dst + n) (src + n) = Some m' \<and> copied m dst src n m'"
proof (induction n arbitrary: m)
  case 0
  then show ?case by (simp add: copied_def)
next
  case (Suc n)
  define m1 where "m1 = m[dst + n := m ! (src + n)]"
  have "\<exists>m'. copy_down n m1 (dst + n) (src + n) = Some m' \<and> copied m1 dst src n m'"
    using Suc.prems by (intro Suc.IH) (auto simp: m1_def)
  then obtain m' where m': "copy_down n m1 (dst + n) (src + n) = Some m'" "length m' = length m1"
    "\<And>i. i < n \<Longrightarrow> m' ! (dst + i) = m1 ! (src + i)" "\<And>j. j < dst \<or> dst + n \<le> j \<Longrightarrow> m' ! j = m1 ! j"
    unfolding copied_def by blast
  have "m' ! (dst + i) = m ! (src + i)" if "i < Suc n" for i
  proof (cases "i = n")
    case True
    then show ?thesis using m'(4) [of "dst + n"] Suc.prems(2) by (simp add: m1_def)
  next
    case False
    then show ?thesis using m'(3) [of i] that Suc.prems(3) by (auto simp: m1_def nth_list_update)
  qed
  moreover have "m' ! j = m ! j" if "j < dst \<or> dst + Suc n \<le> j" for j using m'(4) [of j] that by (auto simp: m1_def)
  ultimately have "copied m dst src (Suc n) m'" using m'(2) unfolding copied_def by (simp add: m1_def)
  moreover have "copy_down (Suc n) m (dst + Suc n) (src + Suc n) = Some m'" using m'(1) Suc.prems(1,2) by (simp add: m1_def)
  ultimately show ?case by blast
qed

text \<open>
  C36: \<open>memmove\<close> copies between blocks that may overlap in any way: the destination receives the old bytes of the source
  and nothing else changes.  The pointer it returns is the destination only when that does not lie below the source;
  otherwise it is the end of the destination, although the comment promises \<open>DST\<close>.
\<close>

theorem memmove_correct:
  assumes "dst \<noteq> NULL" "src \<noteq> NULL" "src + n \<le> length m" "dst + n \<le> length m"
  shows "memmove m dst src n =
    Some (take dst m @ bytes m src n @ drop (dst + n) m, if dst < src then dst + n else dst)"
proof (cases "dst < src")
  case True
  then show ?thesis using copy_up_spec [OF assms(3,4)] copied_eq [OF _ assms(4,3)] assms(1,2) by (auto simp: memmove_def)
next
  case False
  then show ?thesis using copy_down_spec [OF assms(3,4)] copied_eq [OF _ assms(4,3)] assms(1,2) by (auto simp: memmove_def)
qed

theorem memmove_correct_witness:
  "memmove [0, 1, 2, 3, 4, 5] 2 1 3 = Some ([0, 1, 1, 2, 3, 5], 2) \<and> memmove [0, 1, 2, 3, 4, 5] 1 2 3 = Some ([0, 2, 3, 4, 4, 5], 4)"
  using memmove_correct [of 2 1 3 "[0, 1, 2, 3, 4, 5]"] memmove_correct [of 1 2 3 "[0, 1, 2, 3, 4, 5]"]
  by (simp add: NULL_def bytes_def)

lemma memcpy_eq:
  assumes "dst \<noteq> NULL" "src \<noteq> NULL" "src + n \<le> length m" "dst + n \<le> length m" "dst \<le> src \<or> src + n \<le> dst"
  shows "memcpy m dst src n = Some (take dst m @ bytes m src n @ drop (dst + n) m, dst)"
  using copy_up_spec [OF assms(3,4,5)] copied_eq [OF _ assms(4,3)] assms(1,2) by (auto simp: memcpy_def)

section \<open>Strings and their lengths\<close>

lemma strlen_loop_eq: "cstring m s cs \<Longrightarrow> strlen_loop m s = Some (s + length cs)"
  by (induction cs arbitrary: s) (auto simp: strlen_loop.simps)

lemma strlen_eq: "cstring m s cs \<Longrightarrow> s \<noteq> NULL \<Longrightarrow> strlen m s = Some (length cs)"
  by (simp add: strlen_def strlen_loop_eq)

lemma strnlen_loop_eq:
  "cstring m (s + n) cs \<Longrightarrow> n \<le> maxlen \<Longrightarrow> strnlen_loop m s maxlen n = Some (min maxlen (n + length cs))"
proof (induction cs arbitrary: n)
  case Nil
  then show ?case by (auto simp: strnlen_loop.simps)
next
  case (Cons c cs)
  then show ?case using Cons.IH [of "Suc n"] by (subst strnlen_loop.simps) auto
qed

lemma strnlen_eq: "cstring m s cs \<Longrightarrow> strnlen m s maxlen = Some (min maxlen (length cs))"
  using strnlen_loop_eq [of m s 0 cs maxlen] by (simp add: strnlen_def)

lemma strchr_loop_eq:
  "cstring m s cs \<Longrightarrow> c \<noteq> 0 \<Longrightarrow>
    strchr_loop m s c = Some (if c \<in> set cs then s + length (takeWhile (\<lambda>x. x \<noteq> c) cs) else NULL)"
  by (induction cs arbitrary: s) (auto simp: strchr_loop.simps)

lemma strchr_loop_end: "cstring m s cs \<Longrightarrow> strchr_loop m s 0 = Some (s + length cs)"
  by (induction cs arbitrary: s) (auto simp: strchr_loop.simps)

text \<open>\<open>strchr\<close> finds a byte of the string or its terminator.\<close>

lemma strchr_found:
  assumes "cstring m s cs" "s \<noteq> NULL"
  shows "\<exists>p. strchr m s (char_of_byte b) = Some p \<and> (p \<noteq> NULL \<longleftrightarrow> b = 0 \<or> b \<in> set cs)"
  using assms strchr_loop_eq [OF assms(1), of b] strchr_loop_end [OF assms(1)]
  by (cases "b = 0") (auto simp: strchr_def char_of_byte_def NULL_def)

lemma memset_loop_eq:
  "dst + n \<le> length m \<Longrightarrow> memset_loop n m dst b = Some (take dst m @ replicate n b @ drop (dst + n) m)"
proof (induction n arbitrary: m dst)
  case (Suc n)
  then show ?case using Suc.IH [of "Suc dst" "m[dst := b]"] by (simp add: take_Suc_conv_app_nth)
qed simp

lemma memset_eq:
  "dst \<noteq> NULL \<Longrightarrow> dst + n \<le> length m \<Longrightarrow>
    memset m dst value n = Some (take dst m @ replicate n (word_of_int value) @ drop (dst + n) m, dst)"
  by (simp add: memset_def memset_loop_eq)

text \<open>A string survives a change of memory outside it.\<close>

lemma cstring_cong:
  "cstring m s cs \<Longrightarrow> length m' = length m \<Longrightarrow> (\<And>j. s \<le> j \<Longrightarrow> j \<le> s + length cs \<Longrightarrow> m' ! j = m ! j) \<Longrightarrow> cstring m' s cs"
  by (induction cs arbitrary: s) (auto simp: rd_Some_iff)

section \<open>Comparisons\<close>

fun lex_cmp :: "byte list \<Rightarrow> byte list \<Rightarrow> int" where
  "lex_cmp (x # xs) (y # ys) = (if x = y then lex_cmp xs ys else if x < y then - 1 else 1)" |
  "lex_cmp [] [] = 0" |
  "lex_cmp [] (y # ys) = - 1" |
  "lex_cmp (x # xs) [] = 1"

lemma lex_cmp_swap: "lex_cmp a b = - lex_cmp b a"
  by (induction a b rule: lex_cmp.induct) auto

lemma lex_cmp_eq: "lex_cmp a b = 0 \<longleftrightarrow> a = b"
  by (induction a b rule: lex_cmp.induct) auto

lemma lex_cmp_trans: "lex_cmp a b \<le> 0 \<Longrightarrow> lex_cmp b c \<le> 0 \<Longrightarrow> lex_cmp a c \<le> 0"
proof (induction a b arbitrary: c rule: lex_cmp.induct)
  case (1 x xs y ys)
  then show ?case by (cases c) (auto split: if_splits)
next
  case 2
  then show ?case by simp
next
  case (3 y ys)
  then show ?case by (cases c) simp_all
next
  case (4 x xs)
  then show ?case by simp
qed

interpretation byte_order: comparison_order lex_cmp
proof unfold_locales
  show "0 < lex_cmp a b \<longleftrightarrow> lex_cmp b a < 0" for a b using lex_cmp_swap [of a b] by simp
  show "lex_cmp a b \<le> 0 \<Longrightarrow> lex_cmp b c \<le> 0 \<Longrightarrow> lex_cmp a c \<le> 0" for a b c by (rule lex_cmp_trans)
qed

lemma strcmp_loop_eq: "cstring m a xs \<Longrightarrow> cstring m b ys \<Longrightarrow> strcmp_loop m a b = Some (lex_cmp xs ys)"
proof (induction xs ys arbitrary: a b rule: lex_cmp.induct)
  case (1 x xs y ys)
  then show ?case using 1(1) [of "Suc a" "Suc b"] by (subst strcmp_loop.simps) auto
qed (auto simp: strcmp_loop.simps word_neq_0_conv)

lemma strcmp_eq: "cstring m a xs \<Longrightarrow> cstring m b ys \<Longrightarrow> a \<noteq> NULL \<Longrightarrow> b \<noteq> NULL \<Longrightarrow> strcmp m a b = Some (lex_cmp xs ys)"
  by (simp add: strcmp_def strcmp_loop_eq)

lemma bytes_Suc: "s < length m \<Longrightarrow> bytes m s (Suc n) = m ! s # bytes m (Suc s) n"
  by (simp add: bytes_def Cons_nth_drop_Suc [symmetric])

lemma memcmp_loop_eq:
  "a + n \<le> length m \<Longrightarrow> b + n \<le> length m \<Longrightarrow> memcmp_loop n m a b = Some (lex_cmp (bytes m a n) (bytes m b n))"
proof (induction n arbitrary: a b)
  case 0
  then show ?case by (simp add: bytes_def)
next
  case (Suc n)
  then show ?case using Suc.IH [of "Suc a" "Suc b"] by (auto simp: bytes_Suc)
qed

lemma memcmp_eq:
  "a \<noteq> NULL \<Longrightarrow> b \<noteq> NULL \<Longrightarrow> a + n \<le> length m \<Longrightarrow> b + n \<le> length m \<Longrightarrow>
    memcmp m a b n = Some (lex_cmp (bytes m a n) (bytes m b n))"
  by (simp add: memcmp_def memcmp_loop_eq)

section \<open>Bounded copies stay within their buffer\<close>

text \<open>
  \<open>strlcpy\<close> into a buffer of \<open>size\<close> bytes that the source does not overlap: the buffer holds as much of the source as
  fits before a terminator, nothing outside the buffer changes, and the result is the length of the source.
\<close>

theorem strlcpy_correct:
  assumes "cstring m src cs" "dst \<noteq> NULL" "src \<noteq> NULL" "0 < n" "dst + n \<le> length m"
    and "dst + n \<le> src \<or> src + length cs < dst"
  shows "\<exists>m'. strlcpy m dst src n = Some (m', length cs) \<and> cstring m' dst (take (n - 1) cs) \<and> cstring m' src cs
    \<and> only_array m dst n m'"
proof -
  define k where "k = (if length cs < n - 1 then length cs else n - 1)"
  have k: "k \<le> length cs" "k < n" "take k cs = take (n - 1) cs" using assms(4) by (auto simp: k_def)
  have src: "src + length cs < length m" "bytes m src (length cs) = cs" "0 \<notin> set cs" using assms(1) by (simp_all add: cstring_iff)
  have "\<exists>m1. copy_up k m dst src = Some m1 \<and> copied m dst src k m1"
    by (rule copy_up_spec) (use assms(5,6) k src in auto)
  then obtain m1 where m1: "memcpy m dst src k = Some (m1, dst)" "copied m dst src k m1" using assms(2,3) by (auto simp: memcpy_def)
  define m' where "m' = m1[dst + k := 0]"
  have len: "length m1 = length m" "length m' = length m" using m1(2) by (simp_all add: copied_def m'_def)
  have out: "m' ! j = m ! j" if "\<not> (dst \<le> j \<and> j < dst + n)" for j using m1(2) that k(2) by (auto simp: copied_def m'_def)
  have cp: "m' ! (dst + i) = cs ! i" if "i < k" for i
  proof -
    have "m' ! (dst + i) = m ! (src + i)" using m1(2) that by (simp add: copied_def m'_def)
    also have "\<dots> = bytes m src (length cs) ! i" using src(1) k(1) that by simp
    finally show ?thesis using src(2) by simp
  qed
  have "bytes m' dst k = take k cs" using cp k(1,2) len assms(5) by (intro nth_equalityI) simp_all
  then have "cstring m' dst (take k cs)"
    using k(1,2) len assms(5) src(3) by (auto simp: cstring_iff m'_def min_def dest: in_set_takeD)
  moreover have "cstring m' src cs" using assms(6) by (intro cstring_cong [OF assms(1) len(2)] out) auto
  moreover have "strlcpy m dst src n = Some (m', length cs)"
    using assms(2,3,4,5) k(2) m1(1) len(1) strlen_eq [OF assms(1,3)]
    by (cases "length cs < n - 1") (simp_all add: strlcpy_def Let_def k_def m'_def)
  ultimately show ?thesis using only_arrayI [OF len(2) out] k(3) by auto
qed

lemma Suc_four: "Suc (Suc (Suc (Suc 0))) = 4"
  by simp

theorem strlcpy_correct_witness:
  "\<exists>m'. strlcpy [0, 9, 9, 9, 9, 65, 66, 67, 68, 0] 1 5 3 = Some (m', 4) \<and> cstring m' 1 [65, 66] \<and> cstring m' 5 [65, 66, 67, 68]
    \<and> only_array [0, 9, 9, 9, 9, 65, 66, 67, 68, 0] 1 3 m'"
  using strlcpy_correct [of "[0, 9, 9, 9, 9, 65, 66, 67, 68, 0]" 5 "[65, 66, 67, 68]" 1 3] Suc_four by (simp add: NULL_def)

section \<open>Tokenizing\<close>

text \<open>\<open>delimiters\<close> holds the bytes \<open>ds\<close>.\<close>

lemma skip_delimiters_eq:
  assumes "cstring m d ds" "d \<noteq> NULL"
  shows "cstring m s (pre @ rest) \<Longrightarrow> set pre \<subseteq> set ds \<Longrightarrow> rest = [] \<or> hd rest \<notin> set ds \<Longrightarrow>
    skip_delimiters m s d = Some (rest = [], s + length pre)"
proof (induction pre arbitrary: s)
  case Nil
  then obtain b where b: "rd m s = Some b" "b = 0 \<longleftrightarrow> rest = []" "rest \<noteq> [] \<Longrightarrow> b = hd rest" by (cases rest) auto
  obtain p where "strchr m d (char_of_byte b) = Some p" "p \<noteq> NULL \<longleftrightarrow> b = 0 \<or> b \<in> set ds"
    using strchr_found [OF assms, of b] by blast
  then show ?case using b Nil.prems(3) by (subst skip_delimiters.simps) auto
next
  case (Cons c pre)
  then obtain p where "strchr m d (char_of_byte c) = Some p" "p \<noteq> NULL" using strchr_found [OF assms, of c] by auto
  then show ?case using Cons.prems Cons.IH [of "Suc s"] by (subst skip_delimiters.simps) auto
qed

lemma skip_token_eq:
  assumes "cstring m d ds" "d \<noteq> NULL"
  shows "cstring m s (tok @ rest) \<Longrightarrow> set tok \<inter> set ds = {} \<Longrightarrow> rest = [] \<or> hd rest \<in> set ds \<Longrightarrow>
    skip_token m s d = Some (s + length tok)"
proof (induction tok arbitrary: s)
  case Nil
  then obtain b where b: "rd m s = Some b" "b = 0 \<longleftrightarrow> rest = []" "rest \<noteq> [] \<Longrightarrow> b = hd rest" by (cases rest) auto
  obtain p where "strchr m d (char_of_byte b) = Some p" "p \<noteq> NULL \<longleftrightarrow> b = 0 \<or> b \<in> set ds"
    using strchr_found [OF assms, of b] by blast
  then show ?case using b Nil.prems(3) by (subst skip_token.simps) auto
next
  case (Cons c tok)
  then obtain p where "strchr m d (char_of_byte c) = Some p" "p = NULL" using strchr_found [OF assms, of c] by auto
  then show ?case using Cons.prems Cons.IH [of "Suc s"] by (subst skip_token.simps) auto
qed

lemma cstring_prefix:
  "cstring m s (xs @ y # ys) \<Longrightarrow> cstring (m[s + length xs := 0]) s xs"
proof (induction xs arbitrary: s)
  case Nil
  then show ?case by (simp add: rd_Some_iff)
next
  case (Cons x xs)
  then show ?case using Cons.IH [of "Suc s"] by (auto simp: rd_Some_iff nth_list_update)
qed

text \<open>
  One call splits off the first token: a nonempty run of bytes that are not delimiters, terminated in place, with
  \<open>*save_ptr\<close> after it.  When only delimiters are left the result is the null pointer.
\<close>

lemma strtok_r_token:
  assumes "cstring m d ds" "d \<noteq> NULL" "s \<noteq> NULL" "cstring m s (pre @ tok @ rest)" "tok \<noteq> []"
    and "set pre \<subseteq> set ds" "set tok \<inter> set ds = {}" "rest = [] \<or> hd rest \<in> set ds"
  shows "\<exists>m' save. strtok_r m s d save0 = Some (m', s + length pre, save)
    \<and> cstring m' (s + length pre) tok \<and> cstring m' save (tl rest)"
proof -
  let ?t = "s + length pre" and ?e = "s + length pre + length tok"
  have c1: "cstring m ?t (tok @ rest)" using cstring_append [OF assms(4)] .
  have c2: "cstring m ?e rest" using cstring_append [OF c1] .
  have sd: "skip_delimiters m s d = Some (False, ?t)"
    using skip_delimiters_eq [OF assms(1,2,4,6)] assms(5,7) by (cases tok) auto
  have st: "skip_token m ?t d = Some ?e" using skip_token_eq [OF assms(1,2) c1 assms(7,8)] .
  show ?thesis
  proof (cases rest)
    case Nil
    then show ?thesis using sd st c1 c2 assms(2,3) by (auto simp: strtok_r_def)
  next
    case (Cons r rs)
    have "cstring (m[?e := 0]) ?t tok" using cstring_prefix c1 Cons by simp
    moreover have "cstring (m[?e := 0]) (Suc ?e) rs" using c2 Cons by (auto intro: cstring_cong)
    ultimately show ?thesis using sd st c2 Cons assms(2,3) by (auto simp: strtok_r_def rd_Some_iff)
  qed
qed

end
