(* ===== verification/Stdio.thy ===== *)
theory Stdio
  imports Cstring
begin

text \<open>
  \<open>lib/stdio.c\<close> and \<open>lib/kernel/console.c\<close>: formatted output to the console and into buffers.

  A format is a \<^typ>\<open>string\<close>; its end is the null terminator, and stepping past the terminator is a fault.  Variable
  arguments are the 32-bit words on the stack.  An output function receives a character and its auxiliary data, with the
  memory and the console as the state.
\<close>

section \<open>State\<close>

text \<open>
  The console: the lock with its depth, and the characters that reached the devices.  \<open>current\<close> is the running thread
  and \<open>in_intr\<close> is \<open>intr_context ()\<close>.
\<close>

record io =
  memory :: mem
  use_console_lock :: bool
  console_holder :: "nat option"
  console_lock_depth :: int
  write_cnt :: int
  written :: "byte list"
  current :: nat
  in_intr :: bool

type_synonym 'a sink = "byte \<Rightarrow> 'a \<times> io \<Rightarrow> ('a \<times> io) option"

datatype flag = MINUS | PLUS | SPACE | POUND | ZERO | GROUP

datatype int_type = T_CHAR | T_SHORT | T_INT | T_INTMAX | T_LONG | T_LONGLONG | T_PTRDIFFT | T_SIZET

record printf_conversion =
  flags :: "flag set"
  width :: int
  precision :: int
  arg_type :: int_type

record integer_base =
  base :: nat
  digits :: string
  x_char :: byte
  group_len :: nat

definition base_d :: integer_base where
  "base_d = \<lparr> base = 10, digits = ''0123456789'', x_char = 0, group_len = 3 \<rparr>"

definition base_o :: integer_base where
  "base_o = \<lparr> base = 8, digits = ''01234567'', x_char = 0, group_len = 3 \<rparr>"

definition base_x :: integer_base where
  "base_x = \<lparr> base = 16, digits = ''0123456789abcdef'', x_char = of_char (CHR ''x''), group_len = 4 \<rparr>"

definition base_X :: integer_base where
  "base_X = \<lparr> base = 16, digits = ''0123456789ABCDEF'', x_char = of_char (CHR ''X''), group_len = 4 \<rparr>"

section \<open>Arguments\<close>

type_synonym va_list = "32 word list"

definition va_arg32 :: "va_list \<Rightarrow> (32 word \<times> va_list) option" where
  "va_arg32 args = (if args = [] then None else Some (hd args, tl args))"

text \<open>A 64-bit argument is two words, the low one first.\<close>

definition va_arg64 :: "va_list \<Rightarrow> (64 word \<times> va_list) option" where
  "va_arg64 args = do {
     (lo, args) \<leftarrow> va_arg32 args;
     (hi, args) \<leftarrow> va_arg32 args;
     Some (word_cat hi lo, args) }"

text \<open>The argument of a signed and of an unsigned conversion, by its type.\<close>

definition signed_arg :: "int_type \<Rightarrow> va_list \<Rightarrow> (int \<times> va_list) option" where
  "signed_arg t args = (case t of
     T_CHAR \<Rightarrow> do { (w, args) \<leftarrow> va_arg32 args; Some (sint (ucast w :: 8 word), args) }
   | T_SHORT \<Rightarrow> do { (w, args) \<leftarrow> va_arg32 args; Some (sint (ucast w :: 16 word), args) }
   | T_INT \<Rightarrow> do { (w, args) \<leftarrow> va_arg32 args; Some (sint w, args) }
   | T_INTMAX \<Rightarrow> do { (w, args) \<leftarrow> va_arg64 args; Some (sint w, args) }
   | T_LONG \<Rightarrow> do { (w, args) \<leftarrow> va_arg32 args; Some (sint w, args) }
   | T_LONGLONG \<Rightarrow> do { (w, args) \<leftarrow> va_arg64 args; Some (sint w, args) }
   | T_PTRDIFFT \<Rightarrow> do { (w, args) \<leftarrow> va_arg32 args; Some (sint w, args) }
   | T_SIZET \<Rightarrow> do {
       (w, args) \<leftarrow> va_arg32 args;
       let value = uint w;
       Some (if value > 0xFFFFFFFF div 2 then value - 0xFFFFFFFF - 1 else value, args) })"

definition unsigned_arg :: "int_type \<Rightarrow> va_list \<Rightarrow> (nat \<times> va_list) option" where
  "unsigned_arg t args = (case t of
     T_CHAR \<Rightarrow> do { (w, args) \<leftarrow> va_arg32 args; Some (unat (ucast w :: 8 word), args) }
   | T_SHORT \<Rightarrow> do { (w, args) \<leftarrow> va_arg32 args; Some (unat (ucast w :: 16 word), args) }
   | T_INT \<Rightarrow> do { (w, args) \<leftarrow> va_arg32 args; Some (unat w, args) }
   | T_INTMAX \<Rightarrow> do { (w, args) \<leftarrow> va_arg64 args; Some (unat w, args) }
   | T_LONG \<Rightarrow> do { (w, args) \<leftarrow> va_arg32 args; Some (unat w, args) }
   | T_LONGLONG \<Rightarrow> do { (w, args) \<leftarrow> va_arg64 args; Some (unat w, args) }
   | T_PTRDIFFT \<Rightarrow> do {
       (w, args) \<leftarrow> va_arg32 args;
       Some (unat (and (scast w :: 64 word) (or (push_bit 1 0x7FFFFFFF) 1)), args) }
   | T_SIZET \<Rightarrow> do { (w, args) \<leftarrow> va_arg32 args; Some (unat w, args) })"

section \<open>Parsing a conversion\<close>

fun parse_flags :: "string \<Rightarrow> flag set \<Rightarrow> flag set \<times> string" where
  "parse_flags [] fl = (fl, [])" |
  "parse_flags (ch # f) fl =
     (if ch = CHR ''-'' then parse_flags f (insert MINUS fl)
      else if ch = CHR ''+'' then parse_flags f (insert PLUS fl)
      else if ch = CHR '' '' then parse_flags f (insert SPACE fl)
      else if ch = CHR ''#'' then parse_flags f (insert POUND fl)
      else if ch = CHR ''0'' then parse_flags f (insert ZERO fl)
      else if ch = CHR 0x27 then parse_flags f (insert GROUP fl)
      else (fl, ch # f))"

fun parse_nat :: "string \<Rightarrow> int \<Rightarrow> int \<times> string" where
  "parse_nat [] n = (n, [])" |
  "parse_nat (ch # f) n =
     (if isdigit (of_char ch) then parse_nat f (i32 (n * 10 + of_char ch - 48)) else (n, ch # f))"

definition at :: "string \<Rightarrow> char" where
  "at f = (if f = [] then CHR 0x00 else hd f)"

definition parse_width :: "string \<Rightarrow> va_list \<Rightarrow> (int \<times> string \<times> va_list) option" where
  "parse_width f args =
     (if at f = CHR ''*'' then do { (w, args) \<leftarrow> va_arg32 args; Some (sint w, tl f, args) }
      else let (n, f) = parse_nat f 0 in Some (n, f, args))"

definition parse_type :: "string \<Rightarrow> int_type \<times> string" where
  "parse_type f =
     (if at f = CHR ''h'' then (if at (tl f) = CHR ''h'' then (T_CHAR, tl (tl f)) else (T_SHORT, tl f))
      else if at f = CHR ''j'' then (T_INTMAX, tl f)
      else if at f = CHR ''l'' then (if at (tl f) = CHR ''l'' then (T_LONGLONG, tl (tl f)) else (T_LONG, tl f))
      else if at f = CHR ''t'' then (T_PTRDIFFT, tl f)
      else if at f = CHR ''z'' then (T_SIZET, tl f)
      else (T_INT, f))"

definition parse_conversion :: "string \<Rightarrow> va_list \<Rightarrow> (printf_conversion \<times> string \<times> va_list) option" where
  "parse_conversion f args = do {
     let (fl, f) = parse_flags f {};
     let fl = (if MINUS \<in> fl then fl - {ZERO} else fl);
     let fl = (if PLUS \<in> fl then fl - {SPACE} else fl);
     (w, f, args) \<leftarrow> parse_width f args;
     let (w, fl) = (if w < 0 then (i32 (- w), insert MINUS fl) else (w, fl));
     (p, f, args) \<leftarrow> (if at f = CHR ''.'' then do {
         (p, f, args) \<leftarrow> parse_width (tl f) args;
         Some (if p < 0 then - 1 else p, f, args) }
       else Some (- 1, f, args));
     let fl = (if p \<ge> 0 then fl - {ZERO} else fl);
     let (t, f) = parse_type f;
     Some (\<lparr> flags = fl, width = w, precision = p, arg_type = t \<rparr>, f, args) }"

section \<open>Conversions\<close>

primrec output_dup :: "byte \<Rightarrow> nat \<Rightarrow> 'a sink \<Rightarrow> 'a \<times> io \<Rightarrow> ('a \<times> io) option" where
  "output_dup ch 0 output st = Some st" |
  "output_dup ch (Suc cnt) output st = do { st \<leftarrow> output ch st; output_dup ch cnt output st }"

primrec output_all :: "byte list \<Rightarrow> 'a sink \<Rightarrow> 'a \<times> io \<Rightarrow> ('a \<times> io) option" where
  "output_all [] output st = Some st" |
  "output_all (ch # cs) output st = do { st \<leftarrow> output ch st; output_all cs output st }"

text \<open>\<open>char buf[64]\<close>: writing past its end is a fault.\<close>

definition push :: "byte list \<Rightarrow> byte \<Rightarrow> byte list option" where
  "push buf ch = (if length buf < 64 then Some (buf @ [ch]) else None)"

partial_function (option) digits_loop :: "nat \<Rightarrow> integer_base \<Rightarrow> bool \<Rightarrow> byte list \<Rightarrow> nat \<Rightarrow> byte list option" where
  "digits_loop value b grp buf digit_cnt =
     (if value > 0 then do {
        buf \<leftarrow> (if grp \<and> digit_cnt > 0 \<and> digit_cnt mod group_len b = 0 then push buf (of_char (CHR '','')) else Some buf);
        buf \<leftarrow> push buf (of_char (digits b ! (value mod base b)));
        digits_loop (value div base b) b grp buf (digit_cnt + 1) }
      else Some buf)"

partial_function (option) zeros_loop :: "int \<Rightarrow> byte list \<Rightarrow> byte list option" where
  "zeros_loop prec buf =
     (if int (length buf) < prec \<and> length buf < 63 then do { buf \<leftarrow> push buf (of_char (CHR ''0'')); zeros_loop prec buf }
      else Some buf)"

definition sign_char :: "bool \<Rightarrow> bool \<Rightarrow> printf_conversion \<Rightarrow> byte" where
  "sign_char is_signed negative c =
     (if is_signed then
        (if PLUS \<in> flags c then (if negative then of_char (CHR ''-'') else of_char (CHR ''+''))
         else if SPACE \<in> flags c then (if negative then of_char (CHR ''-'') else of_char (CHR '' ''))
         else if negative then of_char (CHR ''-'') else 0)
      else 0)"

definition integer_digits :: "nat \<Rightarrow> integer_base \<Rightarrow> printf_conversion \<Rightarrow> byte list option" where
  "integer_digits value b c = do {
     buf \<leftarrow> digits_loop value b (GROUP \<in> flags c) [] 0;
     buf \<leftarrow> zeros_loop (if precision c < 0 then 1 else precision c) buf;
     if POUND \<in> flags c \<and> base b = 8 \<and> (buf = [] \<or> last buf \<noteq> of_char (CHR ''0'')) then push buf (of_char (CHR ''0''))
     else Some buf }"

definition format_integer ::
  "nat \<Rightarrow> bool \<Rightarrow> bool \<Rightarrow> integer_base \<Rightarrow> printf_conversion \<Rightarrow> 'a sink \<Rightarrow> 'a \<times> io \<Rightarrow> ('a \<times> io) option" where
  "format_integer value is_signed negative b c output st = do {
     let sign = sign_char is_signed negative c;
     let x = (if POUND \<in> flags c \<and> value \<noteq> 0 then x_char b else 0);
     buf \<leftarrow> integer_digits value b c;
     let pad_cnt = i32 (width c - int (length buf) - (if x \<noteq> 0 then 2 else 0) - (if sign \<noteq> 0 then 1 else 0));
     let pad_cnt = (if pad_cnt < 0 then 0 else pad_cnt);
     st \<leftarrow> (if MINUS \<notin> flags c \<and> ZERO \<notin> flags c then output_dup (of_char (CHR '' '')) (nat pad_cnt) output st else Some st);
     st \<leftarrow> (if sign \<noteq> 0 then output sign st else Some st);
     st \<leftarrow> (if x \<noteq> 0 then do { st \<leftarrow> output (of_char (CHR ''0'')) st; output x st } else Some st);
     st \<leftarrow> (if ZERO \<in> flags c then output_dup (of_char (CHR ''0'')) (nat pad_cnt) output st else Some st);
     st \<leftarrow> output_all (rev buf) output st;
     if MINUS \<in> flags c then output_dup (of_char (CHR '' '')) (nat pad_cnt) output st else Some st }"

text \<open>The characters of a string are read from \<open>src\<close> as they are written.\<close>

primrec output_string :: "nat \<Rightarrow> nat \<Rightarrow> (nat \<Rightarrow> io \<Rightarrow> byte option) \<Rightarrow> 'a sink \<Rightarrow> 'a \<times> io \<Rightarrow> ('a \<times> io) option" where
  "output_string 0 i src output st = Some st" |
  "output_string (Suc n) i src output st = do {
     ch \<leftarrow> src i (snd st);
     st \<leftarrow> output ch st;
     output_string n (i + 1) src output st }"

definition format_string ::
  "(nat \<Rightarrow> io \<Rightarrow> byte option) \<Rightarrow> int \<Rightarrow> printf_conversion \<Rightarrow> 'a sink \<Rightarrow> 'a \<times> io \<Rightarrow> ('a \<times> io) option" where
  "format_string src len c output st = do {
     st \<leftarrow> (if width c > len \<and> MINUS \<notin> flags c then output_dup (of_char (CHR '' '')) (nat (i32 (width c - len))) output st
       else Some st);
     st \<leftarrow> output_string (nat len) 0 src output st;
     if width c > len \<and> MINUS \<in> flags c then output_dup (of_char (CHR '' '')) (nat (i32 (width c - len))) output st
     else Some st }"

definition null_string :: "byte list" where
  "null_string = map of_char ''(null)''"

text \<open>The conversions that end in output of their argument; \<^term>\<open>ch\<close> is the conversion character.\<close>

definition convert_integer ::
  "char \<Rightarrow> printf_conversion \<Rightarrow> va_list \<Rightarrow> 'a sink \<Rightarrow> 'a \<times> io \<Rightarrow> (va_list \<times> 'a \<times> io) option" where
  "convert_integer ch c args output st =
     (if ch = CHR ''d'' \<or> ch = CHR ''i'' then do {
        (value, args) \<leftarrow> signed_arg (arg_type c) args;
        st \<leftarrow> format_integer (nat \<bar>value\<bar>) True (value < 0) base_d c output st;
        Some (args, st) }
      else do {
        (value, args) \<leftarrow> unsigned_arg (arg_type c) args;
        let b = (if ch = CHR ''o'' then base_o else if ch = CHR ''u'' then base_d else if ch = CHR ''x'' then base_x else base_X);
        st \<leftarrow> format_integer value False False b c output st;
        Some (args, st) })"

definition convert_string :: "printf_conversion \<Rightarrow> va_list \<Rightarrow> 'a sink \<Rightarrow> 'a \<times> io \<Rightarrow> (va_list \<times> 'a \<times> io) option" where
  "convert_string c args output st = do {
     (w, args) \<leftarrow> va_arg32 args;
     let s = unat w;
     let maxlen = nat (precision c mod 2 ^ 32);
     st \<leftarrow> (if s = NULL then format_string (\<lambda>i _. Some (null_string ! i)) (int (min maxlen (length null_string))) c output st
       else do {
         n \<leftarrow> strnlen (memory (snd st)) s maxlen;
         format_string (\<lambda>i io. rd (memory io) (s + i)) (i32 (int n)) c output st });
     Some (args, st) }"

definition convert_char :: "printf_conversion \<Rightarrow> va_list \<Rightarrow> 'a sink \<Rightarrow> 'a \<times> io \<Rightarrow> (va_list \<times> 'a \<times> io) option" where
  "convert_char c args output st = do {
     (w, args) \<leftarrow> va_arg32 args;
     st \<leftarrow> format_string (\<lambda>_ _. Some (ucast w)) 1 c output st;
     Some (args, st) }"

definition convert_pointer :: "printf_conversion \<Rightarrow> va_list \<Rightarrow> 'a sink \<Rightarrow> 'a \<times> io \<Rightarrow> (va_list \<times> 'a \<times> io) option" where
  "convert_pointer c args output st = do {
     (w, args) \<leftarrow> va_arg32 args;
     st \<leftarrow> format_integer (unat w) False False base_x (c\<lparr>flags := {POUND}\<rparr>) output st;
     Some (args, st) }"

partial_function (option) xvprintf :: "string \<Rightarrow> va_list \<Rightarrow> 'a sink \<Rightarrow> 'a \<times> io \<Rightarrow> ('a \<times> io) option" where
  "xvprintf format args output st =
     (if format = [] then Some st
      else if hd format \<noteq> CHR ''%'' then do {
        st \<leftarrow> output (of_char (hd format)) st;
        xvprintf (tl format) args output st }
      else if at (tl format) = CHR ''%'' then do {
        st \<leftarrow> output (of_char (CHR ''%'')) st;
        xvprintf (tl (tl format)) args output st }
      else do {
        (c, format, args) \<leftarrow> parse_conversion (tl format) args;
        let ch = at format;
        (args, st) \<leftarrow>
          (if ch \<in> {CHR ''d'', CHR ''i'', CHR ''o'', CHR ''u'', CHR ''x'', CHR ''X''} then convert_integer ch c args output st
           else if ch = CHR ''c'' then convert_char c args output st
           else if ch = CHR ''s'' then convert_string c args output st
           else if ch = CHR ''p'' then convert_pointer c args output st
           else if ch \<in> {CHR ''f'', CHR ''e'', CHR ''E'', CHR ''g'', CHR ''G'', CHR ''n''} then do {
             st \<leftarrow> xvprintf ''<<no %%%c in kernel>>'' [of_char ch] output st;
             Some (args, st) }
           else do {
             st \<leftarrow> xvprintf ''<<no %%%c conversion>>'' [of_char ch] output st;
             Some (args, st) });
        if format = [] then None else xvprintf (tl format) args output st })"

definition xprintf :: "string \<Rightarrow> 'a sink \<Rightarrow> va_list \<Rightarrow> 'a \<times> io \<Rightarrow> ('a \<times> io) option" where
  "xprintf format output args st = xvprintf format args output st"

section \<open>Output into a buffer\<close>

record vsnprintf_aux =
  p :: nat
  len :: int
  max_length :: int

definition vsnprintf_helper :: "vsnprintf_aux sink" where
  "vsnprintf_helper ch = (\<lambda>(aux, io).
     let aux' = aux\<lparr>len := i32 (len aux + 1)\<rparr> in
     if len aux < max_length aux then do {
       m \<leftarrow> wr (memory io) (p aux) ch;
       Some (aux'\<lparr>p := p aux + 1\<rparr>, io\<lparr>memory := m\<rparr>) }
     else Some (aux', io))"

definition vsnprintf :: "nat \<Rightarrow> nat \<Rightarrow> string \<Rightarrow> va_list \<Rightarrow> io \<Rightarrow> (int \<times> io) option" where
  "vsnprintf buffer buf_size format args io = do {
     let aux = \<lparr> p = buffer, len = 0, max_length = i32 (if buf_size > 0 then int buf_size - 1 else 0) \<rparr>;
     (aux, io) \<leftarrow> xvprintf format args vsnprintf_helper (aux, io);
     if buf_size > 0 then do {
       m \<leftarrow> wr (memory io) (p aux) 0;
       Some (len aux, io\<lparr>memory := m\<rparr>) }
     else Some (len aux, io) }"

definition snprintf :: "nat \<Rightarrow> nat \<Rightarrow> string \<Rightarrow> va_list \<Rightarrow> io \<Rightarrow> (int \<times> io) option" where
  "snprintf buffer buf_size format args io = vsnprintf buffer buf_size format args io"

section \<open>Simulation between output functions\<close>

text \<open>
  \<open>output2\<close> follows \<open>output1\<close> along \<open>R\<close>, which relates states with the same memory and console.  Then every formatting
  function with \<open>output2\<close> follows the one with \<open>output1\<close>.
\<close>

definition follows :: "('a \<times> io \<Rightarrow> 'b \<times> io \<Rightarrow> bool) \<Rightarrow> 'a sink \<Rightarrow> 'b sink \<Rightarrow> bool" where
  "follows R output1 output2 \<longleftrightarrow>
     (\<forall>s1 s2. R s1 s2 \<longrightarrow> snd s1 = snd s2)
     \<and> (\<forall>ch s1 s2 s1'. R s1 s2 \<longrightarrow> output1 ch s1 = Some s1' \<longrightarrow> (\<exists>s2'. output2 ch s2 = Some s2' \<and> R s1' s2'))"

definition rel_result :: "('a \<Rightarrow> 'b \<Rightarrow> bool) \<Rightarrow> 'a option \<Rightarrow> 'b option \<Rightarrow> bool" where
  "rel_result R r1 r2 \<longleftrightarrow> (\<forall>s1. r1 = Some s1 \<longrightarrow> (\<exists>s2. r2 = Some s2 \<and> R s1 s2))"

lemma rel_result_bind [intro]:
  "rel_result R r1 r2 \<Longrightarrow> (\<And>s1 s2. R s1 s2 \<Longrightarrow> rel_result Q (f1 s1) (f2 s2)) \<Longrightarrow> rel_result Q (r1 \<bind> f1) (r2 \<bind> f2)"
  by (auto simp: rel_result_def bind_eq_Some_conv)

lemma rel_result_same [intro]:
  "(\<And>x. r = Some x \<Longrightarrow> rel_result Q (f1 x) (f2 x)) \<Longrightarrow> rel_result Q (r \<bind> f1) (r \<bind> f2)"
  by (auto simp: rel_result_def bind_eq_Some_conv)

lemma rel_result_same2:
  "(\<And>a b. r = Some (a, b) \<Longrightarrow> rel_result Q (f1 a b) (f2 a b)) \<Longrightarrow> rel_result Q (r \<bind> (\<lambda>(a, b). f1 a b)) (r \<bind> (\<lambda>(a, b). f2 a b))"
  by (auto simp: rel_result_def bind_eq_Some_conv)

lemma rel_result_same3:
  "(\<And>a b c. r = Some (a, b, c) \<Longrightarrow> rel_result Q (f1 a b c) (f2 a b c)) \<Longrightarrow>
    rel_result Q (r \<bind> (\<lambda>(a, b, c). f1 a b c)) (r \<bind> (\<lambda>(a, b, c). f2 a b c))"
  by (auto simp: rel_result_def bind_eq_Some_conv)

lemma rel_result_args:
  "rel_result (\<lambda>(a1, t1) (a2, t2). a1 = a2 \<and> R t1 t2) r1 r2 \<Longrightarrow> (\<And>a t1 t2. R t1 t2 \<Longrightarrow> rel_result Q (f1 a t1) (f2 a t2)) \<Longrightarrow>
    rel_result Q (r1 \<bind> (\<lambda>(a, t). f1 a t)) (r2 \<bind> (\<lambda>(a, t). f2 a t))"
  by (fastforce simp: rel_result_def bind_eq_Some_conv)

lemma rel_result_return:
  "rel_result R r1 r2 \<Longrightarrow>
    rel_result (\<lambda>(a1, t1) (a2, t2). a1 = a2 \<and> R t1 t2) (r1 \<bind> (\<lambda>t. Some (a, t))) (r2 \<bind> (\<lambda>t. Some (a, t)))"
  by (fastforce simp: rel_result_def bind_eq_Some_conv)

lemma rel_resultD: "rel_result R r1 r2 \<Longrightarrow> r1 = Some s1 \<Longrightarrow> \<exists>s2. r2 = Some s2 \<and> R s1 s2"
  by (simp add: rel_result_def)

lemma rel_result_Some [simp]: "rel_result R (Some s1) (Some s2) \<longleftrightarrow> R s1 s2"
  by (simp add: rel_result_def)

lemma rel_result_None [simp]: "rel_result R None r"
  by (simp add: rel_result_def)

lemma rel_result_if:
  "(c \<Longrightarrow> rel_result R a1 a2) \<Longrightarrow> (\<not> c \<Longrightarrow> rel_result R b1 b2) \<Longrightarrow> rel_result R (if c then a1 else b1) (if c then a2 else b2)"
  by simp

lemma follows_output: "follows R output1 output2 \<Longrightarrow> R s1 s2 \<Longrightarrow> rel_result R (output1 ch s1) (output2 ch s2)"
  unfolding follows_def rel_result_def by blast

lemma follows_io: "follows R output1 output2 \<Longrightarrow> R s1 s2 \<Longrightarrow> snd s1 = snd s2"
  unfolding follows_def by blast

lemma follows_output_dup: "follows R output1 output2 \<Longrightarrow> R s1 s2 \<Longrightarrow> rel_result R (output_dup ch n output1 s1) (output_dup ch n output2 s2)"
proof (induction n arbitrary: s1 s2)
  case (Suc n)
  then show ?case unfolding output_dup.simps
    by (intro rel_result_bind [OF follows_output [OF Suc.prems]] Suc.IH)
qed simp

lemma follows_output_all: "follows R output1 output2 \<Longrightarrow> R s1 s2 \<Longrightarrow> rel_result R (output_all bs output1 s1) (output_all bs output2 s2)"
proof (induction bs arbitrary: s1 s2)
  case (Cons b bs)
  then show ?case unfolding output_all.simps
    by (intro rel_result_bind [OF follows_output [OF Cons.prems]] Cons.IH)
qed simp

lemma follows_output_string:
  "follows R output1 output2 \<Longrightarrow> R s1 s2 \<Longrightarrow> rel_result R (output_string n i src output1 s1) (output_string n i src output2 s2)"
proof (induction n arbitrary: i s1 s2)
  case (Suc n)
  then show ?case unfolding output_string.simps follows_io [OF Suc.prems]
    by (intro rel_result_same rel_result_bind [OF follows_output [OF Suc.prems]] Suc.IH)
qed simp

lemmas follows_base = follows_output follows_output_dup follows_output_all follows_output_string

lemma follows_format_integer:
  "follows R output1 output2 \<Longrightarrow> R s1 s2 \<Longrightarrow>
    rel_result R (format_integer value sg neg b c output1 s1) (format_integer value sg neg b c output2 s2)"
  unfolding format_integer_def Let_def
  by (intro rel_result_same rel_result_bind [where R = R] rel_result_if) (simp_all add: follows_base)

lemma follows_format_string:
  "follows R output1 output2 \<Longrightarrow> R s1 s2 \<Longrightarrow>
    rel_result R (format_string src n c output1 s1) (format_string src n c output2 s2)"
  unfolding format_string_def
  by (intro rel_result_bind [where R = R] rel_result_if) (simp_all add: follows_base)

lemma follows_convert_integer:
  "follows R output1 output2 \<Longrightarrow> R s1 s2 \<Longrightarrow>
    rel_result (\<lambda>(a1, t1) (a2, t2). a1 = a2 \<and> R t1 t2) (convert_integer ch c args output1 s1) (convert_integer ch c args output2 s2)"
  unfolding convert_integer_def Let_def
  by (intro rel_result_if rel_result_same2 rel_result_bind [OF follows_format_integer]) simp_all

lemma follows_convert_char:
  "follows R output1 output2 \<Longrightarrow> R s1 s2 \<Longrightarrow>
    rel_result (\<lambda>(a1, t1) (a2, t2). a1 = a2 \<and> R t1 t2) (convert_char c args output1 s1) (convert_char c args output2 s2)"
  unfolding convert_char_def by (auto intro!: rel_result_same rel_result_bind [OF follows_format_string])

lemma follows_convert_pointer:
  "follows R output1 output2 \<Longrightarrow> R s1 s2 \<Longrightarrow>
    rel_result (\<lambda>(a1, t1) (a2, t2). a1 = a2 \<and> R t1 t2) (convert_pointer c args output1 s1) (convert_pointer c args output2 s2)"
  unfolding convert_pointer_def by (auto intro!: rel_result_same rel_result_bind [OF follows_format_integer])

lemma follows_convert_string:
  assumes "follows R output1 output2" "R s1 s2"
  shows "rel_result (\<lambda>(a1, t1) (a2, t2). a1 = a2 \<and> R t1 t2) (convert_string c args output1 s1) (convert_string c args output2 s2)"
  unfolding convert_string_def Let_def follows_io [OF assms]
  using assms by (auto intro!: rel_result_if rel_result_same rel_result_bind [where R = R] follows_format_string)

lemmas follows_convert = follows_convert_integer follows_convert_char follows_convert_string follows_convert_pointer

lemma follows_xvprintf_step:
  assumes "xvprintf format args output1 s1 = Some s1'"
  shows "follows R output1 output2 \<longrightarrow> (\<forall>s2. R s1 s2 \<longrightarrow> (\<exists>s2'. xvprintf format args output2 s2 = Some s2' \<and> R s1' s2'))"
  apply (rule xvprintf.raw_induct [OF _ assms])
  subgoal premises prems for X format args sink st r
  proof (intro impI allI)
    fix s2 assume fl: "follows R sink output2" and st: "R st s2"
    have rec: "rel_result R (X f a sink s) (xvprintf f a output2 s')" if "R s s'" for f a s s'
      using prems(1) [of f a sink s] fl that unfolding rel_result_def by blast
    show "\<exists>s2'. xvprintf format args output2 s2 = Some s2' \<and> R r s2'"
      apply (rule rel_resultD [OF _ prems(2)])
      apply (subst xvprintf.simps)
      unfolding Let_def
      by (intro rel_result_if rel_result_same3 rel_result_bind [OF follows_output [OF fl st]] rel_result_args [where R = R]
        rel_result_return rec follows_convert [OF fl st]) (simp_all add: st)
  qed
  done

lemma follows_xvprintf:
  "follows R output1 output2 \<Longrightarrow> R s1 s2 \<Longrightarrow> rel_result R (xvprintf format args output1 s1) (xvprintf format args output2 s2)"
  unfolding rel_result_def using follows_xvprintf_step by blast

section \<open>Bounded output\<close>

text \<open>A run that also records the characters it outputs.\<close>

definition traced :: "'a sink \<Rightarrow> ('a \<times> byte list) sink" where
  "traced h ch = (\<lambda>((aux, chars), io). do { (aux, io) \<leftarrow> h ch (aux, io); Some ((aux, chars @ [ch]), io) })"

lemma xvprintf_keeps:
  assumes "\<And>ch s s'. P s \<Longrightarrow> h ch s = Some s' \<Longrightarrow> P s'" "P s" "xvprintf format args h s = Some s'"
  shows "P s'"
proof -
  have "follows (\<lambda>s1 s2. s1 = s2 \<and> P s1) h h" using assms(1) unfolding follows_def by blast
  then have "rel_result (\<lambda>s1 s2. s1 = s2 \<and> P s1) (xvprintf format args h s) (xvprintf format args h s)"
    by (rule follows_xvprintf) (simp add: assms(2))
  then show ?thesis using assms(3) by (simp add: rel_result_def)
qed

lemma traced_run:
  assumes "xvprintf format args (traced h) ((aux, chars), io) = Some ((aux', chars'), io')"
  shows "xvprintf format args h (aux, io) = Some (aux', io')"
proof -
  let ?R = "\<lambda>((a1, t), io1) (a2, io2). a1 = a2 \<and> io1 = io2"
  have "follows ?R (traced h) h" unfolding follows_def traced_def by (force simp: bind_eq_Some_conv)
  then have "rel_result ?R (xvprintf format args (traced h) ((aux, chars), io)) (xvprintf format args h (aux, io))"
    by (rule follows_xvprintf) simp
  then show ?thesis using assms by (auto simp: rel_result_def)
qed

text \<open>The buffer holds the part of the output that fits.\<close>

definition filled :: "mem \<Rightarrow> nat \<Rightarrow> nat \<Rightarrow> byte list \<Rightarrow> mem" where
  "filled m buffer room chars = take buffer m @ take room chars @ drop (buffer + min (length chars) room) m"

lemma length_filled: "buffer + room \<le> length m \<Longrightarrow> length (filled m buffer room chars) = length m"
  by (simp add: filled_def)

lemma wr_filled:
  assumes "buffer + room < length m"
  shows "wr (filled m buffer room chars) (buffer + min (length chars) room) b
    = Some (take buffer m @ take room chars @ b # drop (Suc (buffer + min (length chars) room)) m)"
proof -
  let ?q = "buffer + min (length chars) room"
  have "?q < length m" using assms by simp
  then have "drop ?q m = m ! ?q # drop (Suc ?q) m" by (simp add: Cons_nth_drop_Suc)
  moreover have "length (take buffer m) = buffer" "length (take room chars) = min (length chars) room" using assms by auto
  ultimately show ?thesis using \<open>?q < length m\<close> length_filled [of buffer room m chars] assms
    by (simp add: wr_def filled_def list_update_append)
qed

lemma filled_snoc:
  assumes "buffer + room < length m" "length chars < room"
  shows "wr (filled m buffer room chars) (buffer + length chars) b = Some (filled m buffer room (chars @ [b]))"
  using wr_filled [OF assms(1), of chars b] assms(2) by (simp add: filled_def min_def)

definition buffered :: "mem \<Rightarrow> nat \<Rightarrow> nat \<Rightarrow> (vsnprintf_aux \<times> byte list) \<times> io \<Rightarrow> bool" where
  "buffered m buffer room = (\<lambda>((aux, chars), io). length chars < 2 ^ 31 \<longrightarrow>
     aux = \<lparr> p = buffer + min (length chars) room, len = int (length chars), max_length = int room \<rparr>
     \<and> memory io = filled m buffer room chars)"

lemma buffered_step:
  assumes "buffer + room < length m" "buffered m buffer room s" "traced vsnprintf_helper ch s = Some s'"
  shows "buffered m buffer room s'"
proof -
  obtain aux chars io where s: "s = ((aux, chars), io)" by (metis surj_pair)
  obtain aux' chars' io' where s': "s' = ((aux', chars'), io')" by (metis surj_pair)
  have h: "vsnprintf_helper ch (aux, io) = Some (aux', io')" "chars' = chars @ [ch]"
    using assms(3) unfolding s s' by (auto simp: traced_def bind_eq_Some_conv)
  show ?thesis
  proof (cases "length chars < 2 ^ 31 - 1")
    case False
    then show ?thesis by (simp add: s' h(2) buffered_def)
  next
    case True
    then have a: "aux = \<lparr> p = buffer + min (length chars) room, len = int (length chars), max_length = int room \<rparr>"
      "memory io = filled m buffer room chars" using assms(2) by (auto simp: s buffered_def)
    have "i32 (int (length chars) + 1) = int (length chars) + 1" using True by (simp add: i32_def)
    then show ?thesis using h a(2) filled_snoc [OF assms(1), of chars ch]
      by (cases "length chars < room") (auto simp: a s' buffered_def vsnprintf_helper_def filled_def)
  qed
qed

lemma vsnprintf_spec:
  assumes "xvprintf format args (traced vsnprintf_helper) ((\<lparr> p = buffer, len = 0, max_length = int n - 1 \<rparr>, []), io)
      = Some ((aux, chars), io1)"
    and "length chars < 2 ^ 31" "0 < n" "n \<le> 2 ^ 31" "buffer + n \<le> length (memory io)"
  shows "\<exists>io'. vsnprintf buffer n format args io = Some (int (length chars), io')
    \<and> memory io' = take buffer (memory io) @ take (n - 1) chars @ [0] @ drop (buffer + min (length chars) (n - 1) + 1) (memory io)"
proof -
  have room: "buffer + (n - 1) < length (memory io)" "int n - 1 = int (n - 1)" using assms(3,5) by (simp_all add: of_nat_diff)
  have "buffered (memory io) buffer (n - 1) ((\<lparr> p = buffer, len = 0, max_length = int n - 1 \<rparr>, []), io)"
    by (simp add: buffered_def filled_def room(2))
  then have "buffered (memory io) buffer (n - 1) ((aux, chars), io1)"
    using xvprintf_keeps [where P = "buffered (memory io) buffer (n - 1)", OF _ _ assms(1)] buffered_step [OF room(1)] by blast
  then have a: "aux = \<lparr> p = buffer + min (length chars) (n - 1), len = int (length chars), max_length = int (n - 1) \<rparr>"
    "memory io1 = filled (memory io) buffer (n - 1) chars" using assms(2) by (simp_all add: buffered_def)
  have "i32 (int n - 1) = int n - 1" using assms(3,4) by (simp add: i32_def)
  then show ?thesis using traced_run [OF assms(1)] wr_filled [OF room(1), of chars 0] assms(3)
    by (auto simp: vsnprintf_def a)
qed

text \<open>
  C17: \<open>vsnprintf\<close> with a buffer of \<open>n\<close> bytes, for a call whose output is \<open>chars\<close>: it returns the length of \<open>chars\<close>, the buffer
  starts with the first \<open>n - 1\<close> characters of \<open>chars\<close> and a terminator, and no other byte of memory changes.  The count
  of characters is an \<open>int\<close>, so the output must have less than \<open>2 ^ 31\<close> of them.
\<close>

theorem vsnprintf_bounded:
  assumes "xvprintf format args (traced vsnprintf_helper) ((\<lparr> p = buffer, len = 0, max_length = int n - 1 \<rparr>, []), io)
      = Some ((aux, chars), io1)"
    and "length chars < 2 ^ 31" "0 < n" "n \<le> 2 ^ 31" "buffer + n \<le> length (memory io)"
  shows "\<exists>io'. vsnprintf buffer n format args io = Some (int (length chars), io')
    \<and> memory io' = take buffer (memory io) @ take (n - 1) chars @ [0] @ drop (buffer + min (length chars) (n - 1) + 1) (memory io)"
  using assms by (rule vsnprintf_spec)

lemma xvprintf_Nil: "xvprintf [] args h st = Some st"
  by (simp add: xvprintf.simps)

lemma xvprintf_char: "ch \<noteq> CHR ''%'' \<Longrightarrow> xvprintf (ch # format) args h st = h (of_char ch) st \<bind> xvprintf format args h"
  by (subst xvprintf.simps) simp

lemma xvprintf_percent: "xvprintf (CHR ''%'' # CHR ''%'' # format) args h st = h (of_char (CHR ''%'')) st \<bind> xvprintf format args h"
  by (subst xvprintf.simps) (simp add: at_def)

lemma xvprintf_conversion:
  assumes "at f \<noteq> CHR ''%''" "parse_conversion f args = Some (c, ch # format, args')"
  shows "ch \<in> set ''dioxXu'' \<Longrightarrow> xvprintf (CHR ''%'' # f) args h st
      = convert_integer ch c args' h st \<bind> (\<lambda>(args, st). xvprintf format args h st)"
    and "ch = CHR ''c'' \<Longrightarrow> xvprintf (CHR ''%'' # f) args h st = convert_char c args' h st \<bind> (\<lambda>(args, st). xvprintf format args h st)"
  using assms by (subst xvprintf.simps; auto simp: at_def Let_def)+

lemmas parse_simps = parse_conversion_def parse_width_def parse_type_def at_def isdigit_def

text \<open>A format that ends in \<open>%\<close> faults: the loop steps past the terminator after the conversion it did not find.\<close>

lemma dangling_percent: "xvprintf ''%'' args h st = None"
proof -
  have p: "parse_conversion [] args = Some (\<lparr> flags = {}, width = 0, precision = - 1, arg_type = T_INT \<rparr>, [], args)"
    by (simp add: parse_simps)
  show ?thesis by (subst xvprintf.simps) (simp add: p at_def Let_def bind_eq_None_conv)
qed

definition io0 :: io where
  "io0 = \<lparr> memory = [9, 9, 9, 9, 9, 9, 9], use_console_lock = False, console_holder = None, console_lock_depth = 0,
     write_cnt = 0, written = [], current = 0, in_intr = False \<rparr>"

theorem vsnprintf_bounded_witness:
  "\<exists>io'. vsnprintf 1 4 ''<%c%%>'' [0x41] io0 = Some (4, io') \<and> memory io' = [9, 60, 65, 37, 0, 9, 9]"
proof -
  have p: "parse_conversion ''c%%>'' [0x41] = Some (\<lparr> flags = {}, width = 0, precision = - 1, arg_type = T_INT \<rparr>, ''c%%>'', [0x41])"
    by (simp add: parse_simps)
  have "xvprintf ''<%c%%>'' [0x41] (traced vsnprintf_helper) ((\<lparr> p = 1, len = 0, max_length = int 4 - 1 \<rparr>, []), io0)
    = Some ((\<lparr> p = 4, len = 4, max_length = 3 \<rparr>, [60, 65, 37, 62]), io0\<lparr>memory := [9, 60, 65, 37, 9, 9, 9]\<rparr>)"
    by (simp add: xvprintf_Nil xvprintf_char xvprintf_percent xvprintf_conversion(2) [OF _ p] at_def convert_char_def va_arg32_def
      format_string_def traced_def vsnprintf_helper_def io0_def i32_def)
  from vsnprintf_bounded [OF this] show ?thesis by (simp add: io0_def)
qed

section \<open>The digit buffer\<close>

definition the_bases :: "integer_base set" where
  "the_bases = {base_d, base_o, base_x, base_X}"

lemma push_Some: "length buf < 64 \<Longrightarrow> push buf ch = Some (buf @ [ch])"
  by (simp add: push_def)

text \<open>After \<open>k\<close> digits the buffer has at most \<open>k\<close> separators; 22 octal digits hold 64 bits.\<close>

lemma digits_loop_total:
  assumes b: "8 \<le> base b"
  shows "value < base b ^ n \<Longrightarrow> k + n \<le> 22 \<Longrightarrow> length buf \<le> 2 * k \<Longrightarrow>
    \<exists>buf'. digits_loop value b grp buf k = Some buf' \<and> length buf' \<le> 44"
proof (induction n arbitrary: "value" k buf)
  case 0
  then show ?case by (auto simp: digits_loop.simps)
next
  case (Suc n)
  show ?case
  proof (cases "value = 0")
    case True
    then show ?thesis using Suc.prems by (auto simp: digits_loop.simps)
  next
    case False
    define b1 where "b1 = (if grp \<and> k > 0 \<and> k mod group_len b = 0 then buf @ [of_char (CHR '','')] else buf)"
    define b2 where "b2 = b1 @ [of_char (digits b ! (value mod base b))]"
    have len: "length b1 < 64" "length b2 \<le> 2 * (k + 1)" "length buf < 64" using Suc.prems(2,3) by (auto simp: b1_def b2_def)
    have "value div base b < base b ^ n" using Suc.prems(1) by (simp add: less_mult_imp_div_less mult.commute)
    then obtain buf' where "digits_loop (value div base b) b grp b2 (k + 1) = Some buf'" "length buf' \<le> 44"
      using Suc.IH [of "value div base b" "k + 1" b2] Suc.prems(2) len(2) by auto
    moreover have "digits_loop value b grp buf k = digits_loop (value div base b) b grp b2 (k + 1)"
      using False len by (subst digits_loop.simps) (auto simp: push_Some b1_def b2_def)
    ultimately show ?thesis by simp
  qed
qed

lemma zeros_loop_total: "length buf \<le> 63 \<Longrightarrow> \<exists>buf'. zeros_loop prec buf = Some buf' \<and> length buf' \<le> 63"
proof (induction "63 - length buf" arbitrary: buf rule: less_induct)
  case less
  show ?case
  proof (cases "int (length buf) < prec \<and> length buf < 63")
    case True
    then have "zeros_loop prec buf = zeros_loop prec (buf @ [of_char (CHR ''0'')])" by (subst zeros_loop.simps) (simp add: push_Some)
    then show ?thesis using less.hyps [of "buf @ [of_char (CHR ''0'')]"] True by auto
  next
    case False
    then show ?thesis using less.prems by (subst zeros_loop.simps) auto
  qed
qed

lemma integer_digits_total:
  assumes "b \<in> the_bases" "value < 2 ^ 64"
  shows "\<exists>buf. integer_digits value b c = Some buf \<and> length buf \<le> 64"
proof -
  have b: "8 \<le> base b" using assms(1) by (auto simp: the_bases_def base_d_def base_o_def base_x_def base_X_def)
  have "(2 :: nat) ^ 64 \<le> 8 ^ 22" by simp
  also have "\<dots> \<le> base b ^ 22" using b by (rule power_mono) simp
  finally have v: "value < base b ^ 22" using assms(2) by (rule less_le_trans [rotated])
  obtain b1 where b1: "digits_loop value b (GROUP \<in> flags c) [] 0 = Some b1" "length b1 \<le> 44"
    using digits_loop_total [OF b v, of 0 "[]"] by auto
  obtain b2 where "zeros_loop (if precision c < 0 then 1 else precision c) b1 = Some b2" "length b2 \<le> 63"
    using zeros_loop_total [of b1] b1(2) by fastforce
  then show ?thesis using b1(1) by (auto simp: integer_digits_def push_Some)
qed

lemma if_not_None: "(c \<Longrightarrow> a \<noteq> None) \<Longrightarrow> (\<not> c \<Longrightarrow> b \<noteq> None) \<Longrightarrow> (if c then a else b) \<noteq> None"
  by simp

lemma output_dup_total: "(\<And>ch s. h ch s \<noteq> None) \<Longrightarrow> output_dup ch n h s \<noteq> None"
  by (induction n arbitrary: s) (auto simp: bind_eq_None_conv)

lemma output_all_total: "(\<And>ch s. h ch s \<noteq> None) \<Longrightarrow> output_all bs h s \<noteq> None"
  by (induction bs arbitrary: s) (auto simp: bind_eq_None_conv)

lemma signed_arg_total:
  assumes "2 \<le> length args"
  shows "\<exists>value args'. signed_arg t args = Some (value, args') \<and> nat \<bar>value\<bar> < 2 ^ 64"
proof -
  obtain w1 w2 rest where args: "args = w1 # w2 # rest" using assms by (cases args; cases "tl args") auto
  have r64: "nat \<bar>sint w\<bar> < 2 ^ 64" for w :: "64 word" using sint_ge [of w] sint_lt [of w] by (simp add: nat_less_iff)
  have r32: "nat \<bar>sint w\<bar> < 2 ^ 64" for w :: "32 word" using sint_ge [of w] sint_lt [of w] by (simp add: nat_less_iff)
  have r16: "nat \<bar>sint w\<bar> < 2 ^ 64" for w :: "16 word" using sint_ge [of w] sint_lt [of w] by (simp add: nat_less_iff)
  have r8: "nat \<bar>sint w\<bar> < 2 ^ 64" for w :: "8 word" using sint_ge [of w] sint_lt [of w] by (simp add: nat_less_iff)
  have u: "uint w < 2 ^ 32" for w :: "32 word" using uint_lt2p [of w] by simp
  show ?thesis using r64 r32 r16 r8 u [of w1] unfolding args signed_arg_def va_arg64_def va_arg32_def
    by (cases t) (auto simp: nat_less_iff Let_def)
qed

lemma unsigned_arg_total:
  assumes "2 \<le> length args"
  shows "\<exists>value args'. unsigned_arg t args = Some (value, args') \<and> value < 2 ^ 64"
proof -
  obtain w1 w2 rest where args: "args = w1 # w2 # rest" using assms by (cases args; cases "tl args") auto
  have r64: "unat w < 2 ^ 64" for w :: "64 word" using unat64_less [of w] by simp
  have r32: "unat w < 2 ^ 64" for w :: "32 word" using unat32_less [of w] by simp
  have r16: "unat w < 2 ^ 64" for w :: "16 word" using unsigned_less [where 'a = nat, of w] by simp
  have r8: "unat w < 2 ^ 64" for w :: "8 word" using unsigned_less [where 'a = nat, of w] by simp
  show ?thesis using r64 r32 r16 r8 unfolding args unsigned_arg_def va_arg64_def va_arg32_def
    by (cases t) auto
qed

lemma format_integer_total:
  assumes "\<And>ch s. h ch s \<noteq> None" "b \<in> the_bases" "value < 2 ^ 64"
  shows "format_integer value sg neg b c h st \<noteq> None"
proof -
  have bind: "(r \<bind> f) \<noteq> None" if "r \<noteq> None" "\<And>x. f x \<noteq> None" for r :: "'y option" and f :: "'y \<Rightarrow> 'z option" using that by (cases r) auto
  obtain buf where buf: "integer_digits value b c = Some buf" using integer_digits_total [OF assms(2,3)] by blast
  show ?thesis unfolding format_integer_def Let_def buf bind.bind_lunit
    by (intro bind if_not_None output_dup_total output_all_total assms(1)) simp_all
qed

text \<open>
  C38: an integer conversion, whatever its flags, width, precision and argument, writes at most the 64 bytes of its
  digit buffer, takes at most two words of arguments and returns when the output function does.
\<close>

theorem integer_conversion_total:
  assumes "\<And>ch s. h ch s \<noteq> None" "2 \<le> length args"
  shows "convert_integer ch c args h st \<noteq> None
    \<and> (\<forall>b \<in> the_bases. \<forall>value < 2 ^ 64. \<exists>buf. integer_digits value b c = Some buf \<and> length buf \<le> 64)"
proof -
  obtain v1 a1 where v1: "signed_arg (arg_type c) args = Some (v1, a1)" "nat \<bar>v1\<bar> < 2 ^ 64" using signed_arg_total [OF assms(2)] by blast
  obtain v2 a2 where v2: "unsigned_arg (arg_type c) args = Some (v2, a2)" "v2 < 2 ^ 64" using unsigned_arg_total [OF assms(2)] by blast
  have f: "\<exists>st'. format_integer x sg neg b c h st = Some st'" if "b \<in> the_bases" "x < 2 ^ 64" for x sg neg b
    using format_integer_total [OF assms(1) that] by auto
  have "convert_integer ch c args h st \<noteq> None"
    using f [of base_d "nat \<bar>v1\<bar>" True "v1 < 0"] f [of base_o v2 False False] f [of base_d v2 False False] f [of base_x v2 False False]
      f [of base_X v2 False False] v1 v2
    by (auto simp: convert_integer_def Let_def the_bases_def)
  then show ?thesis using integer_digits_total by auto
qed

definition collect :: "byte list sink" where
  "collect ch = (\<lambda>(chars, io). Some (chars @ [ch], io))"

theorem integer_conversion_total_witness:
  "convert_integer (CHR ''o'') \<lparr> flags = {POUND, GROUP}, width = 70, precision = 63, arg_type = T_LONGLONG \<rparr>
      [0xFFFFFFFF, 0xFFFFFFFF] collect ([], io0) \<noteq> None"
  using integer_conversion_total [of collect "[0xFFFFFFFF, 0xFFFFFFFF]" "CHR ''o''"
      "\<lparr> flags = {POUND, GROUP}, width = 70, precision = 63, arg_type = T_LONGLONG \<rparr>" "([], io0)"]
  by (simp add: collect_def split_beta)

section \<open>Decimal numbers\<close>

fun dec_digits :: "nat \<Rightarrow> nat list" where
  "dec_digits n = (if n = 0 then [] else dec_digits (n div 10) @ [n mod 10])"

declare dec_digits.simps [simp del]

lemma decimal_snoc: "decimal (ds @ [d]) = decimal ds * 10 + int d"
  by (simp add: decimal_def)

lemma decimal_dec_digits: "decimal (dec_digits n) = int n"
proof (induction n rule: dec_digits.induct)
  case (1 n)
  show ?case
  proof (cases "n = 0")
    case True
    then show ?thesis by (simp add: dec_digits.simps decimal_def)
  next
    case False
    then show ?thesis using 1 by (subst dec_digits.simps) (simp add: decimal_snoc zdiv_int zmod_int)
  qed
qed

lemma dec_digits_less: "\<forall>d \<in> set (dec_digits n). d < 10"
proof (induction n rule: dec_digits.induct)
  case (1 n)
  then show ?case by (cases "n = 0") (subst dec_digits.simps, simp)+
qed

lemma length_dec_digits: "n < 10 ^ k \<Longrightarrow> length (dec_digits n) \<le> k"
proof (induction k arbitrary: n)
  case 0
  then show ?case by (simp add: dec_digits.simps)
next
  case (Suc k)
  then have "n div 10 < 10 ^ k" by (simp add: less_mult_imp_div_less mult.commute)
  then show ?case using Suc.IH [of "n div 10"] by (subst dec_digits.simps) simp
qed

lemma decimal_char: "d < 10 \<Longrightarrow> of_char (digits base_d ! d) = digit d"
proof -
  assume "d < 10"
  then have "d \<in> {0, 1, 2, 3, 4, 5, 6, 7, 8, 9}" by auto
  then show ?thesis by (auto simp: base_d_def digit_def)
qed

lemma digits_loop_decimal:
  "length buf + length (dec_digits n) \<le> 64 \<Longrightarrow> digits_loop n base_d False buf k = Some (buf @ map digit (rev (dec_digits n)))"
proof (induction n arbitrary: buf k rule: dec_digits.induct)
  case (1 n)
  show ?case
  proof (cases "n = 0")
    case True
    then show ?thesis by (simp add: digits_loop.simps dec_digits.simps)
  next
    case False
    have d: "dec_digits n = dec_digits (n div 10) @ [n mod 10]" using False by (subst dec_digits.simps) simp
    have "digits_loop n base_d False buf k = digits_loop (n div 10) base_d False (buf @ [digit (n mod 10)]) (k + 1)"
      using False 1(2) d decimal_char [of "n mod 10"] by (subst digits_loop.simps) (simp add: push_Some base_d_def)
    then show ?thesis using 1(1) [OF False, of "buf @ [digit (n mod 10)]" "k + 1"] 1(2) by (simp add: d)
  qed
qed

definition plain :: printf_conversion where
  "plain = \<lparr> flags = {}, width = 0, precision = - 1, arg_type = T_INT \<rparr>"

definition decimal_chars :: "int \<Rightarrow> byte list" where
  "decimal_chars v = (if v < 0 then [45] else []) @ map digit (if v = 0 then [0] else dec_digits (nat \<bar>v\<bar>))"

lemma integer_digits_decimal:
  assumes "length (dec_digits n) \<le> 63"
  shows "integer_digits n base_d plain = Some (map digit (rev (if n = 0 then [0] else dec_digits n)))"
proof (cases "n = 0")
  case True
  have "zeros_loop 1 [] = Some [48]" by (subst zeros_loop.simps, simp add: push_def, subst zeros_loop.simps) simp
  then show ?thesis using True by (simp add: integer_digits_def digits_loop.simps plain_def digit_def)
next
  case False
  then have "dec_digits n \<noteq> []" by (subst dec_digits.simps) simp
  then have "zeros_loop 1 (map digit (rev (dec_digits n))) = Some (map digit (rev (dec_digits n)))"
    by (subst zeros_loop.simps) (auto simp: not_less Suc_le_eq)
  then show ?thesis using False digits_loop_decimal [of "[]" n 0] assms by (simp add: integer_digits_def plain_def)
qed

lemma length_int_digits:
  assumes "is_i32 v"
  shows "length (dec_digits (nat \<bar>v\<bar>)) \<le> 10"
proof (rule length_dec_digits)
  have "\<bar>v\<bar> \<le> 2147483648" using assms by auto
  then have "nat \<bar>v\<bar> \<le> 2147483648" by simp
  then show "nat \<bar>v\<bar> < 10 ^ 10" by simp
qed

lemma length_decimal_chars: "is_i32 v \<Longrightarrow> length (decimal_chars v) \<le> 11"
  using length_int_digits [of v] by (auto simp: decimal_chars_def)

lemma format_integer_decimal:
  assumes "is_i32 v"
  shows "format_integer (nat \<bar>v\<bar>) True (v < 0) base_d plain h st = output_all (decimal_chars v) h st"
proof -
  define ds where "ds = (if v = 0 then [0] else dec_digits (nat \<bar>v\<bar>))"
  have len: "length (dec_digits (nat \<bar>v\<bar>)) \<le> 10" using length_int_digits [OF assms] .
  have n: "(nat \<bar>v\<bar> = 0) = (v = 0)" by auto
  have "integer_digits (nat \<bar>v\<bar>) base_d plain = Some (map digit (rev ds))"
    using integer_digits_decimal [of "nat \<bar>v\<bar>"] len unfolding n ds_def by simp
  moreover have "length ds \<le> 10" using len by (simp add: ds_def)
  moreover have "i32 (- int (length ds) - (if v < 0 then 1 else 0)) \<le> 0" using \<open>length ds \<le> 10\<close> by (auto simp: i32_id)
  ultimately show ?thesis
    by (auto simp: format_integer_def Let_def plain_def sign_char_def decimal_chars_def rev_map ds_def [symmetric])
qed

lemma output_all_traced:
  assumes "buffer + room < length m"
  shows "buffered m buffer room ((aux, chars), io) \<Longrightarrow> length chars + length cs < 2 ^ 31 \<Longrightarrow>
    \<exists>aux' io'. output_all cs (traced vsnprintf_helper) ((aux, chars), io) = Some ((aux', chars @ cs), io')"
proof (induction cs arbitrary: aux chars io)
  case (Cons ch cs)
  have a: "aux = \<lparr> p = buffer + min (length chars) room, len = int (length chars), max_length = int room \<rparr>"
      "memory io = filled m buffer room chars" using Cons.prems by (simp_all add: buffered_def)
  have "\<exists>aux' io'. traced vsnprintf_helper ch ((aux, chars), io) = Some ((aux', chars @ [ch]), io')"
    using filled_snoc [OF assms, of chars ch]
    by (cases "length chars < room") (auto simp: a traced_def vsnprintf_helper_def Let_def)
  then obtain aux' io' where s: "traced vsnprintf_helper ch ((aux, chars), io) = Some ((aux', chars @ [ch]), io')" by blast
  have "buffered m buffer room ((aux', chars @ [ch]), io')" using buffered_step [OF assms Cons.prems(1) s] .
  then show ?case using Cons.IH [of aux' "chars @ [ch]" io'] Cons.prems(2) s by auto
qed simp

lemma xvprintf_decimal:
  assumes "is_i32 v"
  shows "xvprintf ''%d'' [word_of_int v] h st = output_all (decimal_chars v) h st"
proof -
  have p: "parse_conversion ''d'' [word_of_int v] = Some (plain, ''d'', [word_of_int v])" by (simp add: parse_simps plain_def)
  have "sint (word_of_int v :: 32 word) = v" using assms by (simp add: int_word_sint)
  then have "signed_arg T_INT [word_of_int v] = Some (v, [])" by (simp add: signed_arg_def va_arg32_def)
  then have "convert_integer (CHR ''d'') plain [word_of_int v] h st = output_all (decimal_chars v) h st \<bind> (\<lambda>st. Some ([], st))"
    by (simp add: convert_integer_def format_integer_decimal [OF assms] plain_def [THEN arg_cong [of _ _ arg_type]])
  then show ?thesis by (simp add: xvprintf_conversion(1) [OF _ p] at_def xvprintf_Nil)
qed

text \<open>
  C16: printing an \<open>int\<close> with \<open>%d\<close> into a buffer of 12 bytes or more and reading it back with \<open>atoi\<close> gives the number, for
  every \<open>int\<close> including the smallest.
\<close>

theorem print_parse_int:
  assumes "is_i32 v" "12 \<le> n" "n \<le> 2 ^ 31" "buffer \<noteq> NULL" "buffer + n \<le> length (memory io)"
  shows "\<exists>k io'. snprintf buffer n ''%d'' [word_of_int v] io = Some (k, io') \<and> atoi (memory io') buffer = Some v"
proof -
  have room: "buffer + (n - 1) < length (memory io)" using assms(2,5) by simp
  have len: "length (decimal_chars v) \<le> 11" using length_decimal_chars [OF assms(1)] .
  have "buffered (memory io) buffer (n - 1) ((\<lparr> p = buffer, len = 0, max_length = int n - 1 \<rparr>, []), io)"
    using assms(2) by (simp add: buffered_def filled_def of_nat_diff)
  from output_all_traced [OF room this, of "decimal_chars v"] obtain aux io1 where x: "xvprintf ''%d'' [word_of_int v] (traced vsnprintf_helper)
      ((\<lparr> p = buffer, len = 0, max_length = int n - 1 \<rparr>, []), io) = Some ((aux, decimal_chars v), io1)"
    using len by (auto simp: xvprintf_decimal [OF assms(1)])
  have "decimal_chars v = take (n - 1) (decimal_chars v)" "min (length (decimal_chars v)) (n - 1) = length (decimal_chars v)"
    using len assms(2) by simp_all
  then obtain io' where io': "vsnprintf buffer n ''%d'' [word_of_int v] io = Some (int (length (decimal_chars v)), io')"
    "memory io' = take buffer (memory io) @ decimal_chars v @ [0] @ drop (buffer + length (decimal_chars v) + 1) (memory io)"
    using vsnprintf_spec [OF x] len assms(2,3,5) by auto
  let ?ds = "if v = 0 then [0] else dec_digits (nat \<bar>v\<bar>)"
  have ds: "\<forall>d \<in> set ?ds. d < 10" "decimal ?ds = \<bar>v\<bar>" using dec_digits_less decimal_dec_digits by (auto simp: decimal_def)
  have "0 \<notin> set (decimal_chars v)" using ds(1) char_digit(3) by (auto simp: decimal_chars_def)
  then have "cstring (memory io') buffer (decimal_chars v)"
    using io'(2) assms(2,5) len by (simp add: cstring_iff bytes_def nth_append)
  then have "atoi (memory io') buffer = Some (i32 (if v < 0 then - decimal ?ds else decimal ?ds))"
    using atoi_decimal [of buffer "memory io'" "[]" "v < 0" ?ds] assms(4) ds(1) by (simp add: decimal_chars_def)
  moreover have "i32 (if v < 0 then - decimal ?ds else decimal ?ds) = v" using assms(1) ds(2) by (auto simp: i32_id)
  ultimately show ?thesis using io'(1) by (auto simp: snprintf_def)
qed

theorem print_parse_int_witness:
  "\<exists>k io'. snprintf 1 12 ''%d'' [word_of_int (- 2147483648)] (io0\<lparr>memory := replicate 13 7\<rparr>) = Some (k, io')
    \<and> atoi (memory io') 1 = Some (- 2147483648)"
  using print_parse_int [of "- 2147483648" 12 1 "io0\<lparr>memory := replicate 13 7\<rparr>"] by (simp add: NULL_def)

end
