(* ===== verification/Console.thy ===== *)
theory Console
  imports Stdio
begin

text \<open>
  \<open>lib/kernel/console.c\<close>, and the functions of \<open>lib/stdio.c\<close> that print to the console.  \<open>serial_putc\<close> and \<open>vga_putc\<close>
  append to \<^const>\<open>written\<close>.  A thread that must wait for the console lock is suspended in \<open>lock_acquire\<close>; the operations
  here are those of a thread that finds the lock free or holds it, \<^term>\<open>None\<close> otherwise.
\<close>

section \<open>The console lock\<close>

definition console_init :: "io \<Rightarrow> io" where
  "console_init io = io\<lparr>console_holder := None, use_console_lock := True\<rparr>"

definition console_panic :: "io \<Rightarrow> io" where
  "console_panic io = io\<lparr>use_console_lock := False\<rparr>"

definition acquire_console :: "io \<Rightarrow> io option" where
  "acquire_console io =
     (if \<not> in_intr io \<and> use_console_lock io then
        (if console_holder io = Some (current io) then Some (io\<lparr>console_lock_depth := i32 (console_lock_depth io + 1)\<rparr>)
         else if console_holder io = None then Some (io\<lparr>console_holder := Some (current io)\<rparr>)
         else None)
      else Some io)"

definition release_console :: "io \<Rightarrow> io option" where
  "release_console io =
     (if \<not> in_intr io \<and> use_console_lock io then
        (if console_lock_depth io > 0 then Some (io\<lparr>console_lock_depth := console_lock_depth io - 1\<rparr>)
         else do {
           ASSERT (console_holder io = Some (current io));
           Some (io\<lparr>console_holder := None\<rparr>) })
      else Some io)"

definition console_locked_by_current_thread :: "io \<Rightarrow> bool" where
  "console_locked_by_current_thread io \<longleftrightarrow> in_intr io \<or> \<not> use_console_lock io \<or> console_holder io = Some (current io)"

section \<open>Output\<close>

definition putchar_have_lock :: "byte \<Rightarrow> io \<Rightarrow> io option" where
  "putchar_have_lock c io = do {
     ASSERT (console_locked_by_current_thread io);
     Some (io\<lparr>write_cnt := i64 (write_cnt io + 1), written := written io @ [c]\<rparr>) }"

definition vprintf_helper :: "int sink" where
  "vprintf_helper c = (\<lambda>(char_cnt, io). do {
     io \<leftarrow> putchar_have_lock c io;
     Some (i32 (char_cnt + 1), io) })"

definition vprintf :: "string \<Rightarrow> va_list \<Rightarrow> io \<Rightarrow> (int \<times> io) option" where
  "vprintf format args io = do {
     io \<leftarrow> acquire_console io;
     (char_cnt, io) \<leftarrow> xvprintf format args vprintf_helper (0, io);
     io \<leftarrow> release_console io;
     Some (char_cnt, io) }"

definition printf :: "string \<Rightarrow> va_list \<Rightarrow> io \<Rightarrow> (int \<times> io) option" where
  "printf format args io = vprintf format args io"

partial_function (option) puts_loop :: "nat \<Rightarrow> io \<Rightarrow> io option" where
  "puts_loop s io = do {
     b \<leftarrow> rd (memory io) s;
     if b \<noteq> 0 then do { io \<leftarrow> putchar_have_lock b io; puts_loop (s + 1) io } else Some io }"

definition puts :: "nat \<Rightarrow> io \<Rightarrow> (int \<times> io) option" where
  "puts s io = do {
     io \<leftarrow> acquire_console io;
     io \<leftarrow> puts_loop s io;
     io \<leftarrow> putchar_have_lock 10 io;
     io \<leftarrow> release_console io;
     Some (0, io) }"

primrec putbuf_loop :: "nat \<Rightarrow> nat \<Rightarrow> io \<Rightarrow> io option" where
  "putbuf_loop 0 buffer io = Some io" |
  "putbuf_loop (Suc n) buffer io = do {
     b \<leftarrow> rd (memory io) buffer;
     io \<leftarrow> putchar_have_lock b io;
     putbuf_loop n (buffer + 1) io }"

definition putbuf :: "nat \<Rightarrow> nat \<Rightarrow> io \<Rightarrow> io option" where
  "putbuf buffer n io = do {
     io \<leftarrow> acquire_console io;
     io \<leftarrow> putbuf_loop n buffer io;
     release_console io }"

definition putchar :: "int \<Rightarrow> io \<Rightarrow> (int \<times> io) option" where
  "putchar c io = do {
     io \<leftarrow> acquire_console io;
     io \<leftarrow> putchar_have_lock (word_of_int c) io;
     io \<leftarrow> release_console io;
     Some (c, io) }"

definition words64 :: "int \<Rightarrow> va_list" where
  "words64 x = [word_of_int x, word_of_int (x div 2 ^ 32)]"

definition newline :: string where
  "newline = [CHR 0x0A]"

definition console_print_stats :: "io \<Rightarrow> (int \<times> io) option" where
  "console_print_stats io = printf (''Console: %lld characters output'' @ newline) (words64 (write_cnt io)) io"

section \<open>Dumps and sizes\<close>

primrec printf_times :: "nat \<Rightarrow> string \<Rightarrow> io \<Rightarrow> io option" where
  "printf_times 0 format io = Some io" |
  "printf_times (Suc n) format io = do { (_, io) \<leftarrow> printf format [] io; printf_times n format io }"

text \<open>The loops over \<open>i\<close> from \<open>start\<close> to \<open>end\<close>; \<open>n\<close> bytes remain and \<open>buf\<close> is the address of the next.\<close>

primrec dump_hex :: "nat \<Rightarrow> nat \<Rightarrow> nat \<Rightarrow> io \<Rightarrow> io option" where
  "dump_hex 0 i buf io = Some io" |
  "dump_hex (Suc n) i buf io = do {
     b \<leftarrow> rd (memory io) buf;
     (_, io) \<leftarrow> printf ''%02hhx%c'' [ucast b, if i = 7 then of_char (CHR ''-'') else of_char (CHR '' '')] io;
     dump_hex n (i + 1) (buf + 1) io }"

primrec dump_ascii :: "nat \<Rightarrow> nat \<Rightarrow> io \<Rightarrow> io option" where
  "dump_ascii 0 buf io = Some io" |
  "dump_ascii (Suc n) buf io = do {
     b \<leftarrow> rd (memory io) buf;
     (_, io) \<leftarrow> printf ''%c'' [if isprint (uint b) then ucast b else of_char (CHR ''.'')] io;
     dump_ascii n (buf + 1) io }"

definition hex_dump_line :: "nat \<Rightarrow> nat \<Rightarrow> nat \<Rightarrow> nat \<Rightarrow> bool \<Rightarrow> io \<Rightarrow> io option" where
  "hex_dump_line ofs buf start n ascii io = do {
     (_, io) \<leftarrow> printf ''%08jx  '' (words64 (int (ofs div 16 * 16))) io;
     io \<leftarrow> printf_times start ''   '' io;
     io \<leftarrow> dump_hex n start buf io;
     io \<leftarrow> (if ascii then do {
         io \<leftarrow> printf_times (16 - (start + n)) ''   '' io;
         (_, io) \<leftarrow> printf ''|'' [] io;
         io \<leftarrow> printf_times start '' '' io;
         io \<leftarrow> dump_ascii n buf io;
         io \<leftarrow> printf_times (16 - (start + n)) '' '' io;
         (_, io) \<leftarrow> printf ''|'' [] io;
         Some io }
       else Some io);
     (_, io) \<leftarrow> printf newline [] io;
     Some io }"

text \<open>\<open>start\<close> is below 16, so every round takes at least one byte.\<close>

partial_function (option) hex_dump :: "nat \<Rightarrow> nat \<Rightarrow> nat \<Rightarrow> bool \<Rightarrow> io \<Rightarrow> io option" where
  "hex_dump ofs buf sz ascii io =
     (if sz > 0 then do {
        let start = ofs mod 16;
        let n = (if 16 - start > sz then sz else 16 - start);
        io \<leftarrow> hex_dump_line ofs buf start n ascii io;
        hex_dump (u32 (ofs + n)) (buf + n) (sz - n) ascii io }
      else Some io)"

text \<open>\<open>factors\<close> holds the addresses of the strings \<open>"bytes"\<close>, \<open>"kB"\<close>, \<open>"MB"\<close>, \<open>"GB"\<close> and \<open>"TB"\<close>.\<close>

fun scale_size :: "nat list \<Rightarrow> nat \<Rightarrow> nat \<times> nat" where
  "scale_size (f # g # fs) sz = (if sz \<ge> 1024 then scale_size (g # fs) (sz div 1024) else (sz, f))" |
  "scale_size [f] sz = (sz, f)" |
  "scale_size [] sz = (sz, NULL)"

definition print_human_readable_size :: "nat list \<Rightarrow> nat \<Rightarrow> io \<Rightarrow> io option" where
  "print_human_readable_size factors sz io =
     (if sz = 1 then do { (_, io) \<leftarrow> printf ''1 byte'' [] io; Some io }
      else do {
        let (sz, fp) = scale_size factors sz;
        (_, io) \<leftarrow> printf ''%llu %s'' (words64 (int sz) @ [of_nat fp]) io;
        Some io })"

section \<open>Lines are not mixed\<close>

text \<open>What output leaves alone.\<close>

definition lock_state :: "io \<Rightarrow> bool \<times> nat option \<times> int \<times> nat \<times> bool" where
  "lock_state io = (use_console_lock io, console_holder io, console_lock_depth io, current io, in_intr io)"

definition console_ok :: "io \<Rightarrow> bool" where
  "console_ok io \<longleftrightarrow> 0 \<le> console_lock_depth io \<and> console_lock_depth io < 2 ^ 31 - 1
     \<and> (console_lock_depth io > 0 \<longrightarrow> console_holder io \<noteq> None)"

lemma putchar_lock_state: "putchar_have_lock c io = Some io' \<Longrightarrow> lock_state io' = lock_state io \<and> (\<exists>cs. written io' = written io @ cs)"
  by (auto simp: putchar_have_lock_def lock_state_def)

text \<open>Acquiring and releasing the lock around output leaves the lock as it was.\<close>

lemma console_bracket:
  assumes "console_ok io" "acquire_console io = Some io1" "lock_state io2 = lock_state io1"
  shows "\<exists>io3. release_console io2 = Some io3 \<and> lock_state io3 = lock_state io \<and> written io3 = written io2
    \<and> memory io3 = memory io2"
  using assms by (auto simp: acquire_console_def release_console_def lock_state_def console_ok_def i32_id split: if_splits)

lemma vprintf_keeps:
  assumes "xvprintf format args vprintf_helper (n, io) = Some (n', io')"
  shows "lock_state io' = lock_state io \<and> (\<exists>cs. written io' = written io @ cs) \<and> memory io' = memory io"
proof -
  let ?P = "\<lambda>(_, io1). lock_state io1 = lock_state io \<and> (\<exists>cs. written io1 = written io @ cs) \<and> memory io1 = memory io"
  have "?P (n', io')"
    using assms
    by (rule xvprintf_keeps [where P = ?P, rotated 2])
      (auto simp: vprintf_helper_def putchar_have_lock_def lock_state_def bind_eq_Some_conv)
  then show ?thesis by simp
qed

text \<open>\<open>vprintf\<close> writes its text as one block under the lock, and gives the lock back in the state it found it.\<close>

lemma vprintf_balanced:
  assumes "console_ok io" "acquire_console io = Some io1" "xvprintf format args vprintf_helper (0, io1) = Some (n, io2)"
  shows "\<exists>io'. vprintf format args io = Some (n, io') \<and> lock_state io' = lock_state io \<and> (\<exists>cs. written io' = written io @ cs)
    \<and> memory io' = memory io"
proof -
  have a: "written io1 = written io" "memory io1 = memory io" using assms(2) by (auto simp: acquire_console_def split: if_splits)
  obtain cs where k: "lock_state io2 = lock_state io1" "written io2 = written io1 @ cs" "memory io2 = memory io1"
    using vprintf_keeps [OF assms(3)] by blast
  then show ?thesis using console_bracket [OF assms(1,2) k(1)] assms(2,3) a by (auto simp: vprintf_def)
qed

end
