(* ===== verification/Prng.thy ===== *)
theory Prng
  imports Cmem
begin

text \<open>\<open>lib/random.c\<close>: the pseudo-random number generator, which is the stream cipher RC4 with the seed as its key.\<close>

record rc4 =
  s :: "byte list"
  s_i :: byte
  s_j :: byte
  inited :: bool

definition swap_byte :: "byte list \<Rightarrow> byte \<Rightarrow> byte \<Rightarrow> byte list" where
  "swap_byte xs a b = xs[unat a := xs ! unat b, unat b := xs ! unat a]"

text \<open>The bytes of the seed in memory order.\<close>

definition seed_byte :: "32 word \<Rightarrow> nat \<Rightarrow> byte" where
  "seed_byte seed k = ucast (drop_bit (8 * k) seed)"

text \<open>The second loop of \<open>random_init\<close>, from \<open>i\<close> on; \<open>n\<close> rounds remain.\<close>

primrec init_loop :: "nat \<Rightarrow> nat \<Rightarrow> byte \<Rightarrow> 32 word \<Rightarrow> byte list \<Rightarrow> byte list" where
  "init_loop 0 i j seed xs = xs" |
  "init_loop (Suc n) i j seed xs =
     (let j = j + (xs ! i + seed_byte seed (i mod 4)) in init_loop n (i + 1) j seed (swap_byte xs (of_nat i) j))"

definition random_init :: "32 word \<Rightarrow> rc4 \<Rightarrow> rc4" where
  "random_init seed st =
     st\<lparr>s := init_loop 256 0 0 seed (map of_nat [0..<256]), s_i := 0, s_j := 0, inited := True\<rparr>"

definition next_byte :: "rc4 \<Rightarrow> byte \<times> rc4" where
  "next_byte st =
     (let i = s_i st + 1;
          j = s_j st + s st ! unat i;
          xs = swap_byte (s st) i j;
          k = xs ! unat i + xs ! unat j
      in (xs ! unat k, st\<lparr>s := xs, s_i := i, s_j := j\<rparr>))"

primrec bytes_loop :: "nat \<Rightarrow> mem \<Rightarrow> nat \<Rightarrow> rc4 \<Rightarrow> (mem \<times> rc4) option" where
  "bytes_loop 0 m buf st = Some (m, st)" |
  "bytes_loop (Suc n) m buf st = do {
     let (b, st) = next_byte st;
     m \<leftarrow> wr m buf b;
     bytes_loop n m (buf + 1) st }"

definition random_bytes :: "mem \<Rightarrow> nat \<Rightarrow> nat \<Rightarrow> rc4 \<Rightarrow> (mem \<times> rc4) option" where
  "random_bytes m buf n st = (let st = (if \<not> inited st then random_init 0 st else st) in bytes_loop n m buf st)"

text \<open>The four bytes go to the local variable \<open>ul\<close>, here a memory of its own.\<close>

definition random_ulong :: "rc4 \<Rightarrow> (nat \<times> rc4) option" where
  "random_ulong st = do {
     (m, st) \<leftarrow> random_bytes [0, 0, 0, 0] 0 4 st;
     Some (le_nat m, st) }"

section \<open>The state stays a permutation\<close>

definition rc4_ok :: "rc4 \<Rightarrow> bool" where
  "rc4_ok st \<longleftrightarrow> inited st \<longrightarrow> length (s st) = 256 \<and> mset (s st) = mset (map of_nat [0..<256])"

lemma length_swap_byte [simp]: "length (swap_byte xs a b) = length xs"
  by (simp add: swap_byte_def)

lemma mset_swap_byte: "length xs = 256 \<Longrightarrow> mset (swap_byte xs a b) = mset xs"
  unfolding swap_byte_def using mset_swap [of "unat b" xs "unat a"] unat8_less [of a] unat8_less [of b] by simp

lemma init_loop_perm: "length xs = 256 \<Longrightarrow> length (init_loop n i j seed xs) = 256 \<and> mset (init_loop n i j seed xs) = mset xs"
  by (induction n arbitrary: i j xs) (simp_all add: Let_def mset_swap_byte)

lemma random_init_ok: "rc4_ok (random_init seed st)"
  unfolding rc4_ok_def random_init_def using init_loop_perm [of "map of_nat [0..<256]" 256 0 0 seed] by simp

lemma next_byte_ok: "rc4_ok st \<Longrightarrow> inited st \<Longrightarrow> rc4_ok (snd (next_byte st)) \<and> inited (snd (next_byte st))"
  by (simp add: rc4_ok_def next_byte_def Let_def mset_swap_byte)

lemma bytes_loop_ok:
  "rc4_ok st \<Longrightarrow> inited st \<Longrightarrow> buf + n \<le> length m \<Longrightarrow>
    \<exists>m' st'. bytes_loop n m buf st = Some (m', st') \<and> length m' = length m \<and> rc4_ok st' \<and> inited st'
      \<and> take buf m' = take buf m \<and> drop (buf + n) m' = drop (buf + n) m"
proof (induction n arbitrary: m buf st)
  case (Suc n)
  obtain b st1 where b: "next_byte st = (b, st1)" by (metis surj_pair)
  then have "rc4_ok st1" "inited st1" using next_byte_ok [OF Suc.prems(1,2)] by simp_all
  then obtain m' st' where m': "bytes_loop n (m[buf := b]) (Suc buf) st1 = Some (m', st')" "length m' = length m" "rc4_ok st'" "inited st'"
    "take (Suc buf) m' = take (Suc buf) (m[buf := b])" "drop (Suc buf + n) m' = drop (Suc buf + n) (m[buf := b])"
    using Suc.IH [of st1 "Suc buf" "m[buf := b]"] Suc.prems(3) by auto
  have "take buf (take (Suc buf) m') = take buf (take (Suc buf) (m[buf := b]))" by (simp only: m'(5))
  then have "take buf m' = take buf m" by simp
  then show ?case using m' b Suc.prems(3) by simp
qed auto

text \<open>\<open>random_bytes\<close> fills its buffer and nothing else, and the state is a permutation of the 256 bytes again.\<close>

lemma random_bytes_ok:
  assumes "rc4_ok st" "buf + n \<le> length m"
  shows "\<exists>m' st'. random_bytes m buf n st = Some (m', st') \<and> length m' = length m \<and> rc4_ok st' \<and> inited st'
    \<and> take buf m' = take buf m \<and> drop (buf + n) m' = drop (buf + n) m"
proof -
  let ?st = "if \<not> inited st then random_init 0 st else st"
  have "rc4_ok ?st" "inited ?st" using assms(1) random_init_ok [of 0 st] by (auto simp: random_init_def)
  from bytes_loop_ok [OF this assms(2)] show ?thesis by (simp only: random_bytes_def Let_def)
qed

lemma random_ulong_less:
  assumes "rc4_ok st"
  shows "\<exists>n st'. random_ulong st = Some (n, st') \<and> n < 2 ^ 32 \<and> rc4_ok st'"
proof -
  obtain m' st' where "random_bytes [0, 0, 0, 0] 0 4 st = Some (m', st')" "length m' = length [0, 0, 0, 0 :: byte]" "rc4_ok st'"
    using random_bytes_ok [OF assms, of 0 4 "[0, 0, 0, 0]"] by auto
  then show ?thesis using le_nat_less [of m'] by (simp add: random_ulong_def)
qed

end
