(* ===== verification/Intq.thy ===== *)
theory Intq
  imports Cmem
begin

text \<open>
  \<open>devices/intq.c\<close>: the circular queue of bytes that kernel threads share with interrupt handlers.  A caller that must
  wait is suspended in \<open>thread_block\<close>; its call is then \<open>Sleeping\<close>, with the thread recorded in the queue, and starts again at
  the loop test when \<open>signal\<close> wakes it and it has released the lock.
\<close>

section \<open>Operations\<close>

definition INTQ_BUFSIZE :: int where
  "INTQ_BUFSIZE = 64"

text \<open>\<open>lock\<close> is the thread that holds the lock; \<open>not_full\<close> and \<open>not_empty\<close> are the waiting threads.\<close>

record intq =
  lock :: "nat option"
  not_full :: "nat option"
  not_empty :: "nat option"
  buf :: "byte list"
  head :: int
  tail :: int

text \<open>The surroundings of a call: whether interrupts are off, whether it runs in a handler, and the running thread.\<close>

record cpu =
  intr_off :: bool
  handler :: bool
  running :: nat

datatype 'a call = Returned 'a | Sleeping intq | Lock_Busy

definition next_pos :: "int \<Rightarrow> int" where
  "next_pos pos = (pos + 1) smod INTQ_BUFSIZE"

definition intq_init :: "intq \<Rightarrow> intq" where
  "intq_init q = q\<lparr>lock := None, not_full := None, not_empty := None, head := 0, tail := 0\<rparr>"

definition intq_empty :: "cpu \<Rightarrow> intq \<Rightarrow> bool option" where
  "intq_empty c q = do { ASSERT (intr_off c); Some (head q = tail q) }"

definition intq_full :: "cpu \<Rightarrow> intq \<Rightarrow> bool option" where
  "intq_full c q = do { ASSERT (intr_off c); Some (next_pos (head q) = tail q) }"

text \<open>\<open>wait\<close> for \<open>not_empty\<close> and for \<open>not_full\<close>, up to \<open>thread_block\<close>.\<close>

definition wait_not_empty :: "cpu \<Rightarrow> intq \<Rightarrow> intq option" where
  "wait_not_empty c q = do {
     ASSERT (\<not> handler c);
     ASSERT (intr_off c);
     empty \<leftarrow> intq_empty c q;
     ASSERT empty;
     Some (q\<lparr>not_empty := Some (running c)\<rparr>) }"

definition wait_not_full :: "cpu \<Rightarrow> intq \<Rightarrow> intq option" where
  "wait_not_full c q = do {
     ASSERT (\<not> handler c);
     ASSERT (intr_off c);
     full \<leftarrow> intq_full c q;
     ASSERT full;
     Some (q\<lparr>not_full := Some (running c)\<rparr>) }"

text \<open>\<open>signal\<close>: the result is the queue and the thread that was unblocked, if any.\<close>

definition signal_not_full :: "cpu \<Rightarrow> intq \<Rightarrow> (intq \<times> nat option) option" where
  "signal_not_full c q = do {
     ASSERT (intr_off c);
     full \<leftarrow> intq_full c q;
     ASSERT (\<not> full);
     Some (if not_full q \<noteq> None then q\<lparr>not_full := None\<rparr> else q, not_full q) }"

definition signal_not_empty :: "cpu \<Rightarrow> intq \<Rightarrow> (intq \<times> nat option) option" where
  "signal_not_empty c q = do {
     ASSERT (intr_off c);
     empty \<leftarrow> intq_empty c q;
     ASSERT (\<not> empty);
     Some (if not_empty q \<noteq> None then q\<lparr>not_empty := None\<rparr> else q, not_empty q) }"

definition lock_intq :: "cpu \<Rightarrow> intq \<Rightarrow> intq option" where
  "lock_intq c q = (if lock q = None then Some (q\<lparr>lock := Some (running c)\<rparr>) else None)"

definition intq_getc :: "cpu \<Rightarrow> intq \<Rightarrow> (byte \<times> intq \<times> nat option) call option" where
  "intq_getc c q = do {
     ASSERT (intr_off c);
     empty \<leftarrow> intq_empty c q;
     if empty then do {
       ASSERT (\<not> handler c);
       case lock_intq c q of None \<Rightarrow> Some Lock_Busy
       | Some q \<Rightarrow> do { q \<leftarrow> wait_not_empty c q; Some (Sleeping q) } }
     else do {
       let byte = buf q ! nat (tail q);
       (q, woken) \<leftarrow> signal_not_full c (q\<lparr>tail := next_pos (tail q)\<rparr>);
       Some (Returned (byte, q, woken)) } }"

definition intq_putc :: "cpu \<Rightarrow> intq \<Rightarrow> byte \<Rightarrow> (intq \<times> nat option) call option" where
  "intq_putc c q byte = do {
     ASSERT (intr_off c);
     full \<leftarrow> intq_full c q;
     if full then do {
       ASSERT (\<not> handler c);
       case lock_intq c q of None \<Rightarrow> Some Lock_Busy
       | Some q \<Rightarrow> do { q \<leftarrow> wait_not_full c q; Some (Sleeping q) } }
     else do {
       (q, woken) \<leftarrow> signal_not_empty c (q\<lparr>buf := (buf q)[nat (head q) := byte], head := next_pos (head q)\<rparr>);
       Some (Returned (q, woken)) } }"

section \<open>A bounded queue\<close>

definition intq_ok :: "intq \<Rightarrow> bool" where
  "intq_ok q \<longleftrightarrow> length (buf q) = 64 \<and> 0 \<le> head q \<and> head q < 64 \<and> 0 \<le> tail q \<and> tail q < 64"

definition queued :: "intq \<Rightarrow> nat" where
  "queued q = nat ((head q - tail q) mod 64)"

text \<open>The bytes in the queue, the oldest first.\<close>

definition contents :: "intq \<Rightarrow> byte list" where
  "contents q = map (\<lambda>i. buf q ! (nat (tail q + int i) mod 64)) [0..<queued q]"

lemma next_pos_eq: "0 \<le> pos \<Longrightarrow> next_pos pos = (pos + 1) mod 64"
  by (simp add: next_pos_def INTQ_BUFSIZE_def signed_modulo_int_def)

lemma next_pos_cases: "0 \<le> pos \<Longrightarrow> pos < 64 \<Longrightarrow> next_pos pos = (if pos = 63 then 0 else pos + 1)"
  by (simp add: next_pos_eq)

lemma queued_cases: "intq_ok q \<Longrightarrow> queued q = nat (if tail q \<le> head q then head q - tail q else head q - tail q + 64)"
proof -
  assume ok: "intq_ok q"
  show ?thesis
  proof (cases "tail q \<le> head q")
    case True
    then show ?thesis using ok by (simp add: queued_def intq_ok_def)
  next
    case False
    have "(head q - tail q) mod 64 = (head q - tail q + 64) mod 64" by simp
    also have "\<dots> = head q - tail q + 64" using False ok by (intro mod_pos_pos_trivial) (auto simp: intq_ok_def)
    finally show ?thesis using False by (simp add: queued_def)
  qed
qed

lemma full_iff: "intq_ok q \<Longrightarrow> next_pos (head q) = tail q \<longleftrightarrow> queued q = 63"
  by (auto simp: queued_cases next_pos_cases intq_ok_def)

lemma empty_iff: "intq_ok q \<Longrightarrow> head q = tail q \<longleftrightarrow> queued q = 0"
  by (auto simp: queued_cases intq_ok_def)

lemma init_ok: "length (buf q) = 64 \<Longrightarrow> intq_ok (intq_init q) \<and> contents (intq_init q) = []"
  by (simp add: intq_ok_def intq_init_def contents_def queued_def)

lemma slot:
  assumes "0 \<le> t" "t < 64" "i < 64"
  shows "nat (t + int i) mod 64 = nat (if t + int i < 64 then t + int i else t + int i - 64)"
proof (cases "t + int i < 64")
  case False
  then have "nat (t + int i) = nat (t + int i - 64) + 64" by simp
  moreover have "nat (t + int i - 64) < 64" using assms by simp
  ultimately show ?thesis using False by simp
qed (use assms in simp)

lemma slot_next:
  assumes "0 \<le> t" "t < 64" "i < 63"
  shows "nat ((if t = 63 then 0 else t + 1) + int i) mod 64 = nat (t + int (Suc i)) mod 64"
proof (cases "t = 63")
  case True
  then have "nat (t + int (Suc i)) = i + 64" by simp
  then show ?thesis using True by simp
next
  case False
  then have "(if t = 63 then 0 else t + 1) + int i = t + int (Suc i)" by simp
  then show ?thesis by (simp only:)
qed

lemma slot_free:
  assumes "0 \<le> t" "t < 64" "0 \<le> h" "h < 64" "i < nat (if t \<le> h then h - t else h - t + 64)"
  shows "nat (t + int i) mod 64 \<noteq> nat h"
proof -
  have "i < 64" using assms by (auto split: if_splits)
  have "(if t + int i < 64 then t + int i else t + int i - 64) \<noteq> h \<and> 0 \<le> (if t + int i < 64 then t + int i else t + int i - 64)"
    using assms by (cases "t \<le> h") auto
  then show ?thesis unfolding slot [OF assms(1,2) \<open>i < 64\<close>] using assms(3) by linarith
qed

lemma length_contents: "length (contents q) = queued q"
  by (simp add: contents_def)

text \<open>Putting a byte into a queue that is not full appends it; 63 bytes fit.\<close>

lemma putc_contents:
  assumes "intq_ok q" "intr_off c" "queued q < 63"
  shows "\<exists>q' w. intq_putc c q byte = Some (Returned (q', w)) \<and> intq_ok q' \<and> contents q' = contents q @ [byte]
    \<and> not_empty q' = None \<and> w = not_empty q"
proof -
  define q1 where "q1 = q\<lparr>buf := (buf q)[nat (head q) := byte], head := next_pos (head q)\<rparr>"
  have ok: "intq_ok q1" using assms(1) by (auto simp: q1_def intq_ok_def next_pos_cases)
  have cnt: "queued q1 = Suc (queued q)"
    using assms(1,3) ok by (auto simp: queued_cases q1_def next_pos_cases intq_ok_def split: if_splits)
  have pos: "nat (tail q + int i) mod 64 \<noteq> nat (head q)" if "i < queued q" for i
    using that slot_free [of "tail q" "head q" i] assms(1) queued_cases [OF assms(1)] by (simp add: intq_ok_def)
  have end_pos: "nat (tail q + int (queued q)) mod 64 = nat (head q)"
  proof -
    have "queued q < 64" using assms(3) by simp
    then show ?thesis using slot [of "tail q" "queued q"] assms(1) queued_cases [OF assms(1)] by (auto simp: intq_ok_def)
  qed
  have "contents q1 = contents q @ [byte]"
    unfolding contents_def cnt using pos end_pos assms(1) by (auto simp: q1_def intq_ok_def nth_list_update_neq [OF pos [symmetric]])
  moreover have "\<not> (next_pos (head q) = tail q)" "\<not> (head q1 = tail q1)"
    using full_iff [OF assms(1)] empty_iff [OF ok] assms(3) cnt by auto
  moreover have "not_empty q1 = not_empty q" by (simp add: q1_def)
  ultimately show ?thesis using ok assms(2)
    by (auto simp: intq_putc_def intq_full_def signal_not_empty_def intq_empty_def q1_def [symmetric] contents_def queued_def intq_ok_def)
qed

text \<open>Taking a byte from a queue that is not empty gives the oldest one.\<close>

lemma getc_contents:
  assumes "intq_ok q" "intr_off c" "contents q = b # bs"
  shows "\<exists>q' w. intq_getc c q = Some (Returned (b, q', w)) \<and> intq_ok q' \<and> contents q' = bs
    \<and> not_full q' = None \<and> w = not_full q"
proof -
  define q1 where "q1 = q\<lparr>tail := next_pos (tail q)\<rparr>"
  have n: "queued q = Suc (length bs)" using length_contents [of q] assms(3) by simp
  have small: "queued q \<le> 63" using assms(1) by (auto simp: queued_cases intq_ok_def)
  have ok: "intq_ok q1" using assms(1) by (auto simp: q1_def intq_ok_def next_pos_cases)
  have cnt: "queued q1 = length bs"
    using assms(1) n ok by (auto simp: queued_cases q1_def next_pos_cases intq_ok_def split: if_splits)
  have move: "nat (next_pos (tail q) + int i) mod 64 = nat (tail q + int (Suc i)) mod 64" if "i < 63" for i
    using that assms(1) slot_next [of "tail q" i] by (simp add: intq_ok_def next_pos_cases)
  have "contents q = buf q ! (nat (tail q) mod 64) # map (\<lambda>i. buf q ! (nat (tail q + int (Suc i)) mod 64)) [0..<length bs]"
    by (simp add: contents_def n upt_conv_Cons map_Suc_upt [symmetric] o_def del: upt_Suc)
  moreover have "contents q1 = map (\<lambda>i. buf q ! (nat (tail q + int (Suc i)) mod 64)) [0..<length bs]"
    unfolding contents_def cnt using move small n by (intro map_cong) (auto simp: q1_def)
  ultimately have c: "contents q1 = bs" "buf q ! nat (tail q) = b" using assms(1,3) by (auto simp: intq_ok_def)
  have "head q \<noteq> tail q" "next_pos (head q1) \<noteq> tail q1" using empty_iff [OF assms(1)] full_iff [OF ok] n cnt small by auto
  moreover have "not_full q1 = not_full q" by (simp add: q1_def)
  ultimately show ?thesis using ok c assms(2)
    by (auto simp: intq_getc_def intq_empty_def signal_not_full_def intq_full_def q1_def [symmetric] contents_def queued_def intq_ok_def)
qed

text \<open>A thread that finds the queue empty sleeps as the one waiter; a handler that finds it empty panics.\<close>

lemma getc_empty:
  assumes "intr_off c" "head q = tail q"
  shows "intq_getc c q = (if handler c then None else if lock q \<noteq> None then Some Lock_Busy
    else Some (Sleeping (q\<lparr>lock := Some (running c), not_empty := Some (running c)\<rparr>)))"
  using assms by (auto simp: intq_getc_def intq_empty_def lock_intq_def wait_not_empty_def)

lemma putc_full:
  assumes "intr_off c" "next_pos (head q) = tail q"
  shows "intq_putc c q byte = (if handler c then None else if lock q \<noteq> None then Some Lock_Busy
    else Some (Sleeping (q\<lparr>lock := Some (running c), not_full := Some (running c)\<rparr>)))"
  using assms by (auto simp: intq_putc_def intq_full_def lock_intq_def wait_not_full_def)

end
