(* ===== verification/Block.thy ===== *)
theory Block
  imports Console
begin

text \<open>
  \<open>devices/block.c\<close> and \<open>devices/partition.c\<close>: the registry of block devices, sector transfers and partitions.

  A \<open>struct block *\<close> is the position of the device in \<open>all_blocks\<close>, to which devices are only ever added at the end.  The
  driver of a device is an IDE disk or a partition of another device.  The sectors of the disks are the memory \<open>disk\<close>: a
  disk gives back what was last written to a sector.  The answers of \<open>malloc\<close> are a sequence \<open>alloc_ok\<close>, one for each
  request.  Calls of \<open>printf\<close> are recorded in \<open>console\<close> with their arguments.
\<close>

section \<open>Messages and memory\<close>

datatype parm = Str string | Num int

type_synonym message = "string \<times> parm list"

datatype block_type = BLOCK_KERNEL | BLOCK_FILESYS | BLOCK_SCRATCH | BLOCK_SWAP | BLOCK_RAW | BLOCK_FOREIGN

text \<open>\<open>ops\<close> and \<open>aux\<close>: an IDE disk, or the device and the first sector of a partition.\<close>

datatype driver = Ide nat | Partition nat nat

record block =
  bname :: string
  btype :: block_type
  bsize :: nat
  bops :: driver
  reads :: nat
  writes :: nat

record devs =
  all_blocks :: "block list"
  block_by_role :: "block_type \<Rightarrow> nat option"
  disk :: "nat \<Rightarrow> nat \<Rightarrow> byte list"
  console :: "message list"
  alloc_ok :: "nat \<Rightarrow> bool"
  alloc_no :: nat

text \<open>The next answer of \<open>malloc\<close> or \<open>calloc\<close>: the address of a new object, or the null pointer.\<close>

definition new_obj :: "'a devs_scheme \<Rightarrow> nat option \<times> 'a devs_scheme" where
  "new_obj d = (if alloc_ok d (alloc_no d) then Some (alloc_no d) else None, d\<lparr>alloc_no := Suc (alloc_no d)\<rparr>)"

definition print_msg :: "string \<Rightarrow> parm list \<Rightarrow> 'a devs_scheme \<Rightarrow> 'a devs_scheme" where
  "print_msg format args d = d\<lparr>console := console d @ [(format, args)]\<rparr>"

section \<open>Block devices\<close>

definition BLOCK_SECTOR_SIZE :: nat where
  "BLOCK_SECTOR_SIZE = 512"

primrec block_type_name :: "block_type \<Rightarrow> string" where
  "block_type_name BLOCK_KERNEL = ''kernel''" |
  "block_type_name BLOCK_FILESYS = ''filesys''" |
  "block_type_name BLOCK_SCRATCH = ''scratch''" |
  "block_type_name BLOCK_SWAP = ''swap''" |
  "block_type_name BLOCK_RAW = ''raw''" |
  "block_type_name BLOCK_FOREIGN = ''foreign''"

definition is_role :: "block_type \<Rightarrow> bool" where
  "is_role t \<longleftrightarrow> t \<noteq> BLOCK_RAW \<and> t \<noteq> BLOCK_FOREIGN"

definition block_get_role :: "block_type \<Rightarrow> 'a devs_scheme \<Rightarrow> nat option option" where
  "block_get_role role d = do { ASSERT (is_role role); Some (block_by_role d role) }"

definition block_set_role :: "block_type \<Rightarrow> nat option \<Rightarrow> 'a devs_scheme \<Rightarrow> 'a devs_scheme option" where
  "block_set_role role b d = do {
     ASSERT (is_role role);
     Some (d\<lparr>block_by_role := (block_by_role d)(role := b)\<rparr>) }"

definition list_elem_to_block :: "nat \<Rightarrow> 'a devs_scheme \<Rightarrow> nat option" where
  "list_elem_to_block e d = (if e \<noteq> length (all_blocks d) then Some e else None)"

definition block_first :: "'a devs_scheme \<Rightarrow> nat option" where
  "block_first d = list_elem_to_block 0 d"

definition block_next :: "nat \<Rightarrow> 'a devs_scheme \<Rightarrow> nat option" where
  "block_next b d = list_elem_to_block (Suc b) d"

definition block_get_by_name :: "string \<Rightarrow> 'a devs_scheme \<Rightarrow> nat option" where
  "block_get_by_name n d = find (\<lambda>b. n = bname (all_blocks d ! b)) [0..<length (all_blocks d)]"

definition the_block :: "nat \<Rightarrow> 'a devs_scheme \<Rightarrow> block option" where
  "the_block b d = (if b < length (all_blocks d) then Some (all_blocks d ! b) else None)"

definition check_sector :: "block \<Rightarrow> nat \<Rightarrow> unit option" where
  "check_sector b sector = (if sector \<ge> bsize b then None else Some ())"

definition count_read :: "nat \<Rightarrow> 'a devs_scheme \<Rightarrow> 'a devs_scheme" where
  "count_read b d = d\<lparr>all_blocks := (all_blocks d)[b := (all_blocks d ! b)\<lparr>reads := (reads (all_blocks d ! b) + 1) mod 2 ^ 64\<rparr>]\<rparr>"

definition count_write :: "nat \<Rightarrow> 'a devs_scheme \<Rightarrow> 'a devs_scheme" where
  "count_write b d = d\<lparr>all_blocks := (all_blocks d)[b := (all_blocks d ! b)\<lparr>writes := (writes (all_blocks d ! b) + 1) mod 2 ^ 64\<rparr>]\<rparr>"

text \<open>\<open>partition_read\<close> and \<open>partition_write\<close> call \<open>block_read\<close> and \<open>block_write\<close> on the device of the partition.\<close>

partial_function (option) block_read :: "nat \<Rightarrow> nat \<Rightarrow> 'a devs_scheme \<Rightarrow> (byte list \<times> 'a devs_scheme) option" where
  "block_read b sector d = do {
     bl \<leftarrow> the_block b d;
     check_sector bl sector;
     (data, d) \<leftarrow> (case bops bl of
         Ide n \<Rightarrow> Some (disk d n sector, d)
       | Partition pb start \<Rightarrow> block_read pb (u32 (start + sector)) d);
     Some (data, count_read b d) }"

partial_function (option) block_write :: "nat \<Rightarrow> nat \<Rightarrow> byte list \<Rightarrow> 'a devs_scheme \<Rightarrow> 'a devs_scheme option" where
  "block_write b sector buffer d = do {
     bl \<leftarrow> the_block b d;
     check_sector bl sector;
     ASSERT (btype bl \<noteq> BLOCK_FOREIGN);
     d \<leftarrow> (case bops bl of
         Ide n \<Rightarrow> if length buffer < BLOCK_SECTOR_SIZE then None
           else Some (d\<lparr>disk := (disk d)(n := (disk d n)(sector := take BLOCK_SECTOR_SIZE buffer))\<rparr>)
       | Partition pb start \<Rightarrow> block_write pb (u32 (start + sector)) buffer d);
     Some (count_write b d) }"

definition partition_read :: "nat \<times> nat \<Rightarrow> nat \<Rightarrow> 'a devs_scheme \<Rightarrow> (byte list \<times> 'a devs_scheme) option" where
  "partition_read pt sector d = block_read (fst pt) (u32 (snd pt + sector)) d"

definition partition_write :: "nat \<times> nat \<Rightarrow> nat \<Rightarrow> byte list \<Rightarrow> 'a devs_scheme \<Rightarrow> 'a devs_scheme option" where
  "partition_write pt sector buffer d = block_write (fst pt) (u32 (snd pt + sector)) buffer d"

definition block_size :: "nat \<Rightarrow> 'a devs_scheme \<Rightarrow> nat option" where
  "block_size b d = do { bl \<leftarrow> the_block b d; Some (bsize bl) }"

definition block_name :: "nat \<Rightarrow> 'a devs_scheme \<Rightarrow> string option" where
  "block_name b d = do { bl \<leftarrow> the_block b d; Some (bname bl) }"

definition block_type_of :: "nat \<Rightarrow> 'a devs_scheme \<Rightarrow> block_type option" where
  "block_type_of b d = do { bl \<leftarrow> the_block b d; Some (btype bl) }"

definition stats_of_role :: "block_type \<Rightarrow> 'a devs_scheme \<Rightarrow> 'a devs_scheme option" where
  "stats_of_role role d = (case block_by_role d role of
     None \<Rightarrow> Some d
   | Some b \<Rightarrow> do {
       bl \<leftarrow> the_block b d;
       Some (print_msg (''%s (%s): %llu reads, %llu writes'' @ newline)
         [Str (bname bl), Str (block_type_name (btype bl)), Num (int (reads bl)), Num (int (writes bl))] d) })"

definition block_print_stats :: "'a devs_scheme \<Rightarrow> 'a devs_scheme option" where
  "block_print_stats d = fold_opt stats_of_role [BLOCK_KERNEL, BLOCK_FILESYS, BLOCK_SCRATCH, BLOCK_SWAP] d"

text \<open>\<open>print_human_readable_size\<close> is in \<open>Console\<close>; its message has the scaled number and the unit.\<close>

definition human_size :: "nat \<Rightarrow> message" where
  "human_size sz = (if sz = 1 then (''1 byte'', [])
     else (let (n, f) = scale_size [0, 1, 2, 3, 4] sz
       in (''%llu %s'', [Num (int n), Str ([''bytes'', ''kB'', ''MB'', ''GB'', ''TB''] ! f)])))"

definition block_register ::
    "string \<Rightarrow> block_type \<Rightarrow> string option \<Rightarrow> nat \<Rightarrow> driver \<Rightarrow> 'a devs_scheme \<Rightarrow> (nat \<times> 'a devs_scheme) option" where
  "block_register name type extra_info sz ops d = do {
     let (m, d) = new_obj d;
     ASSERT (m \<noteq> None);
     let b = length (all_blocks d);
     let name = take 15 name;
     let d = d\<lparr>all_blocks := all_blocks d @ [\<lparr>bname = name, btype = type, bsize = sz, bops = ops, reads = 0, writes = 0\<rparr>]\<rparr>;
     let d = print_msg (''%s: %'' @ [CHR 0x27] @ ''u sectors ('') [Str name, Num (int sz)] d;
     let d = print_msg (fst (human_size (sz * BLOCK_SECTOR_SIZE))) (snd (human_size (sz * BLOCK_SECTOR_SIZE))) d;
     let d = print_msg '')'' [] d;
     let d = (case extra_info of None \<Rightarrow> d | Some i \<Rightarrow> print_msg '', %s'' [Str i] d);
     Some (b, print_msg newline [] d) }"

section \<open>Partitions\<close>

definition type_names :: "(nat \<times> string) list" where
  "type_names = [
     (0x00, ''Empty''), (0x01, ''FAT12''), (0x02, ''XENIX root''), (0x03, ''XENIX usr''), (0x04, ''FAT16 <32M''),
     (0x05, ''Extended''), (0x06, ''FAT16''), (0x07, ''HPFS/NTFS''), (0x08, ''AIX''), (0x09, ''AIX bootable''),
     (0x0a, ''OS/2 Boot Manager''), (0x0b, ''W95 FAT32''), (0x0c, ''W95 FAT32 (LBA)''), (0x0e, ''W95 FAT16 (LBA)''),
     (0x0f, ''W95 Ext'' @ [CHR 0x27] @ ''d (LBA)''), (0x10, ''OPUS''), (0x11, ''Hidden FAT12''),
     (0x12, ''Compaq diagnostics''), (0x14, ''Hidden FAT16 <32M''), (0x16, ''Hidden FAT16''),
     (0x17, ''Hidden HPFS/NTFS''), (0x18, ''AST SmartSleep''), (0x1b, ''Hidden W95 FAT32''),
     (0x1c, ''Hidden W95 FAT32 (LBA)''), (0x1e, ''Hidden W95 FAT16 (LBA)''), (0x20, ''Pintos OS kernel''),
     (0x21, ''Pintos file system''), (0x22, ''Pintos scratch''), (0x23, ''Pintos swap''), (0x24, ''NEC DOS''),
     (0x39, ''Plan 9''), (0x3c, ''PartitionMagic recovery''), (0x40, ''Venix 80286''), (0x41, ''PPC PReP Boot''),
     (0x42, ''SFS''), (0x4d, ''QNX4.x''), (0x4e, ''QNX4.x 2nd part''), (0x4f, ''QNX4.x 3rd part''),
     (0x50, ''OnTrack DM''), (0x51, ''OnTrack DM6 Aux1''), (0x52, ''CP/M''), (0x53, ''OnTrack DM6 Aux3''),
     (0x54, ''OnTrackDM6''), (0x55, ''EZ-Drive''), (0x56, ''Golden Bow''), (0x5c, ''Priam Edisk''),
     (0x61, ''SpeedStor''), (0x63, ''GNU HURD or SysV''), (0x64, ''Novell Netware 286''),
     (0x65, ''Novell Netware 386''), (0x70, ''DiskSecure Multi-Boot''), (0x75, ''PC/IX''), (0x80, ''Old Minix''),
     (0x81, ''Minix / old Linux''), (0x82, ''Linux swap / Solaris''), (0x83, ''Linux''),
     (0x84, ''OS/2 hidden C: drive''), (0x85, ''Linux extended''), (0x86, ''NTFS volume set''),
     (0x87, ''NTFS volume set''), (0x88, ''Linux plaintext''), (0x8e, ''Linux LVM''), (0x93, ''Amoeba''),
     (0x94, ''Amoeba BBT''), (0x9f, ''BSD/OS''), (0xa0, ''IBM Thinkpad hibernation''), (0xa5, ''FreeBSD''),
     (0xa6, ''OpenBSD''), (0xa7, ''NeXTSTEP''), (0xa8, ''Darwin UFS''), (0xa9, ''NetBSD''), (0xab, ''Darwin boot''),
     (0xb7, ''BSDI fs''), (0xb8, ''BSDI swap''), (0xbb, ''Boot Wizard hidden''), (0xbe, ''Solaris boot''),
     (0xbf, ''Solaris''), (0xc1, ''DRDOS/sec (FAT-12)''), (0xc4, ''DRDOS/sec (FAT-16 < 32M)''),
     (0xc6, ''DRDOS/sec (FAT-16)''), (0xc7, ''Syrinx''), (0xda, ''Non-FS data''), (0xdb, ''CP/M / CTOS / ...''),
     (0xde, ''Dell Utility''), (0xdf, ''BootIt''), (0xe1, ''DOS access''), (0xe3, ''DOS R/O''),
     (0xe4, ''SpeedStor''), (0xeb, ''BeOS fs''), (0xee, ''EFI GPT''), (0xef, ''EFI (FAT-12/16/32)''),
     (0xf0, ''Linux/PA-RISC boot''), (0xf1, ''SpeedStor''), (0xf4, ''SpeedStor''), (0xf2, ''DOS secondary''),
     (0xfd, ''Linux raid autodetect''), (0xfe, ''LANstep''), (0xff, ''BBT'')]"

definition partition_type_name :: "nat \<Rightarrow> string" where
  "partition_type_name type = (case map_of type_names type of Some s \<Rightarrow> s | None \<Rightarrow> ''Unknown'')"

definition type_of_partition :: "nat \<Rightarrow> block_type" where
  "type_of_partition part_type = (if part_type = 0x20 then BLOCK_KERNEL
     else if part_type = 0x21 then BLOCK_FILESYS
     else if part_type = 0x22 then BLOCK_SCRATCH
     else if part_type = 0x23 then BLOCK_SWAP
     else BLOCK_FOREIGN)"

text \<open>\<open>%d\<close> and \<open>%02x\<close> of the numbers that occur.\<close>

definition show_int :: "int \<Rightarrow> string" where
  "show_int n = map (\<lambda>c. char_of (unat c)) (decimal_chars n)"

definition show_hex2 :: "nat \<Rightarrow> string" where
  "show_hex2 n = [''0123456789abcdef'' ! (n div 16), ''0123456789abcdef'' ! (n mod 16)]"

definition found_partition :: "nat \<Rightarrow> nat \<Rightarrow> nat \<Rightarrow> nat \<Rightarrow> int \<Rightarrow> 'a devs_scheme \<Rightarrow> 'a devs_scheme option" where
  "found_partition b part_type start sz part_nr d = do {
     bl \<leftarrow> the_block b d;
     if start \<ge> bsize bl then
       Some (print_msg (''%s%d: Partition starts past end of device (sector %u)'' @ newline)
         [Str (bname bl), Num part_nr, Num (int start)] d)
     else if u32 (start + sz) < start \<or> u32 (start + sz) > bsize bl then
       Some (print_msg (''%s%d: Partition end (%u) past end of device (%u)'' @ newline)
         [Str (bname bl), Num part_nr, Num (int (u32 (start + sz))), Num (int (bsize bl))] d)
     else do {
       let type = type_of_partition part_type;
       let (m, d) = new_obj d;
       ASSERT (m \<noteq> None);
       let name = take 15 (bname bl @ show_int part_nr);
       let extra_info = take 127 (partition_type_name part_type @ '' ('' @ show_hex2 part_type @ '')'');
       (_, d) \<leftarrow> block_register name type (Some extra_info) sz (Partition b start) d;
       Some d } }"

text \<open>The fields of a partition table sector that are used.\<close>

record partition_table_entry =
  ptype :: nat
  poffset :: nat
  psize :: nat

definition table_entry :: "byte list \<Rightarrow> nat \<Rightarrow> partition_table_entry" where
  "table_entry pt i = (let e = drop (446 + 16 * i) pt
     in \<lparr>ptype = unat (e ! 4), poffset = le_nat (take 4 (drop 8 e)), psize = le_nat (take 4 (drop 12 e))\<rparr>)"

definition table_signature :: "byte list \<Rightarrow> nat" where
  "table_signature pt = le_nat (take 2 (drop 510 pt))"

text \<open>
  The first part of \<open>read_partition_table\<close>, up to the loop over the entries: \<open>None\<close> for a table when it returns early.
\<close>

definition load_table :: "nat \<Rightarrow> nat \<Rightarrow> nat \<Rightarrow> 'a devs_scheme \<Rightarrow> (byte list option \<times> 'a devs_scheme) option" where
  "load_table b sector primary_extended_sector d = do {
     bl \<leftarrow> the_block b d;
     if sector \<ge> bsize bl then
       Some (None, print_msg (''%s: Partition table at sector %u past end of device.'' @ newline)
         [Str (bname bl), Num (int sector)] d)
     else do {
       let (m, d) = new_obj d;
       ASSERT (m \<noteq> None);
       (pt, d) \<leftarrow> block_read b 0 d;
       if table_signature pt \<noteq> 0xaa55 then
         Some (None, if primary_extended_sector = 0
           then print_msg (''%s: Invalid partition table signature'' @ newline) [Str (bname bl)] d
           else print_msg (''%s: Invalid extended partition table in sector %u'' @ newline) [Str (bname bl), Num (int sector)] d)
       else Some (Some pt, d) } }"

text \<open>
  The loop over the entries from \<open>i\<close> on, with the recursive call for an extended partition.  The result is \<open>None\<close> when
  the recursion does not end, and \<open>Some None\<close> for a panic.
\<close>

partial_function (option) scan_entries ::
    "nat \<Rightarrow> nat \<Rightarrow> nat \<Rightarrow> byte list \<Rightarrow> nat \<Rightarrow> int \<Rightarrow> 'a devs_scheme \<Rightarrow> (int \<times> 'a devs_scheme) option option" where
  "scan_entries b sector pes pt i part_nr d =
     (if i \<ge> 4 then Some (Some (part_nr, d))
      else let e = table_entry pt i in
        if psize e = 0 \<or> ptype e = 0 then scan_entries b sector pes pt (i + 1) part_nr d
        else if ptype e \<in> {0x05, 0x0f, 0x85, 0xc5} then
          (case the_block b d of
             None \<Rightarrow> Some None
           | Some bl \<Rightarrow>
               let d = print_msg (''%s: Extended partition in sector %u'' @ newline) [Str (bname bl), Num (int sector)] d;
                   (sector', pes') = (if sector = 0 then (poffset e, poffset e) else (u32 (poffset e + pes), pes))
               in (case load_table b sector' pes' d of
                     None \<Rightarrow> Some None
                   | Some (None, d) \<Rightarrow> scan_entries b sector pes pt (i + 1) part_nr d
                   | Some (Some pt', d) \<Rightarrow>
                       Option.bind (scan_entries b sector' pes' pt' 0 part_nr d) (\<lambda>r. case r of
                         None \<Rightarrow> Some None
                       | Some (part_nr, d) \<Rightarrow> scan_entries b sector pes pt (i + 1) part_nr d)))
        else
          let part_nr = i32 (part_nr + 1) in
          (case found_partition b (ptype e) (u32 (poffset e + sector)) (psize e) part_nr d of
             None \<Rightarrow> Some None
           | Some d \<Rightarrow> scan_entries b sector pes pt (i + 1) part_nr d))"

definition read_partition_table :: "nat \<Rightarrow> nat \<Rightarrow> nat \<Rightarrow> int \<Rightarrow> 'a devs_scheme \<Rightarrow> (int \<times> 'a devs_scheme) option option" where
  "read_partition_table b sector pes part_nr d = (case load_table b sector pes d of
     None \<Rightarrow> Some None
   | Some (None, d) \<Rightarrow> Some (Some (part_nr, d))
   | Some (Some pt, d) \<Rightarrow> scan_entries b sector pes pt 0 part_nr d)"

definition partition_scan :: "nat \<Rightarrow> 'a devs_scheme \<Rightarrow> 'a devs_scheme option option" where
  "partition_scan b d = Option.bind (read_partition_table b 0 0 0 d) (\<lambda>r. case r of
     None \<Rightarrow> Some None
   | Some (part_nr, d) \<Rightarrow> Some (if part_nr = 0
       then (case the_block b d of None \<Rightarrow> None
         | Some bl \<Rightarrow> Some (print_msg (''%s: Device contains no partitions'' @ newline) [Str (bname bl)] d))
       else Some d))"

section \<open>Where a sector is\<close>

text \<open>The disk and the sector on it that a sector of a device stands for.\<close>

function locate :: "driver list \<Rightarrow> nat \<Rightarrow> nat \<Rightarrow> nat \<times> nat" where
  "locate ds b s = (case ds ! b of Ide n \<Rightarrow> (n, s)
     | Partition pb start \<Rightarrow> if pb < b then locate ds pb (start + s) else (0, 0))"
  by auto

termination by (relation "measure (\<lambda>(ds, b, s). b)") auto

declare locate.simps [simp del]

definition geometry :: "block \<Rightarrow> string \<times> block_type \<times> nat \<times> driver" where
  "geometry bl = (bname bl, btype bl, bsize bl, bops bl)"

definition contents :: "'a devs_scheme \<Rightarrow> nat \<Rightarrow> nat \<Rightarrow> byte list" where
  "contents d b s = case_prod (disk d) (locate (map bops (all_blocks d)) b s)"

text \<open>A partition lies inside a device registered before it.\<close>

definition block_ok :: "block list \<Rightarrow> nat \<Rightarrow> bool" where
  "block_ok bs b \<longleftrightarrow> bsize (bs ! b) < 2 ^ 32 \<and> (case bops (bs ! b) of Ide n \<Rightarrow> True
     | Partition pb start \<Rightarrow> pb < b \<and> start + bsize (bs ! b) \<le> bsize (bs ! pb))"

definition devs_ok :: "'a devs_scheme \<Rightarrow> bool" where
  "devs_ok d \<longleftrightarrow> (\<forall>b < length (all_blocks d). block_ok (all_blocks d) b) \<and> (\<forall>n s. length (disk d n s) = BLOCK_SECTOR_SIZE)"

function writable :: "block list \<Rightarrow> nat \<Rightarrow> bool" where
  "writable bs b \<longleftrightarrow> btype (bs ! b) \<noteq> BLOCK_FOREIGN \<and> (case bops (bs ! b) of Ide n \<Rightarrow> True
     | Partition pb start \<Rightarrow> if pb < b then writable bs pb else False)"
  by auto

termination by (relation "measure snd") auto

declare writable.simps [simp del]

text \<open>What transfers leave alone: everything but the sectors, the counters and the use of memory.\<close>

definition frame :: "'a devs_scheme \<Rightarrow> 'a devs_scheme \<Rightarrow> bool" where
  "frame d d' \<longleftrightarrow> map geometry (all_blocks d') = map geometry (all_blocks d) \<and> block_by_role d' = block_by_role d
     \<and> console d' = console d \<and> alloc_ok d' = alloc_ok d \<and> devs.more d' = devs.more d"

lemma frame_refl [simp]: "frame d d"
  by (simp add: frame_def)

lemma frame_trans [trans]: "frame d d' \<Longrightarrow> frame d' d'' \<Longrightarrow> frame d d''"
  by (simp add: frame_def)

lemma geometry_eq:
  assumes "map geometry bs' = map geometry bs"
  shows "length bs' = length bs" "map bops bs' = map bops bs" "map bsize bs' = map bsize bs" "map btype bs' = map btype bs"
    "map bname bs' = map bname bs"
proof -
  show "length bs' = length bs" using assms by (rule map_eq_imp_length_eq)
  have "map (f \<circ> geometry) bs' = map (f \<circ> geometry) bs" for f :: "_ \<Rightarrow> 'b"
    using arg_cong [OF assms, of "map f"] by simp
  from this [of "\<lambda>(n, t, s, p). n"] this [of "\<lambda>(n, t, s, p). t"] this [of "\<lambda>(n, t, s, p). s"] this [of "\<lambda>(n, t, s, p). p"]
  show "map bops bs' = map bops bs" "map bsize bs' = map bsize bs" "map btype bs' = map btype bs" "map bname bs' = map bname bs"
    by (simp_all add: geometry_def comp_def)
qed

lemma geometry_nth:
  assumes "map geometry bs' = map geometry bs" "b < length bs"
  shows "bops (bs' ! b) = bops (bs ! b)" "bsize (bs' ! b) = bsize (bs ! b)" "btype (bs' ! b) = btype (bs ! b)"
  using geometry_eq [OF assms(1)] assms(2) by (metis nth_map)+

lemma block_ok_cong:
  assumes g: "map geometry bs' = map geometry bs" and b: "b < length bs"
  shows "block_ok bs' b = block_ok bs b"
proof (cases "bops (bs ! b)")
  case (Partition pb start)
  show ?thesis using geometry_nth [OF g b] geometry_nth [OF g, of pb] b by (auto simp: block_ok_def Partition)
qed (use geometry_nth [OF g b] in \<open>simp add: block_ok_def\<close>)

lemma writable_cong:
  assumes g: "map geometry bs' = map geometry bs"
  shows "b < length bs \<Longrightarrow> writable bs' b = writable bs b"
proof (induction b rule: less_induct)
  case (less b)
  then show ?case using geometry_nth [OF g less.prems]
    by (subst (1 2) writable.simps) (auto split: driver.splits)
qed

lemma devs_ok_geometry:
  assumes "map geometry (all_blocks d') = map geometry (all_blocks d)" "devs_ok d" "\<And>n s. length (disk d' n s) = BLOCK_SECTOR_SIZE"
  shows "devs_ok d'"
  using assms block_ok_cong [OF assms(1)] geometry_eq(1) [OF assms(1)] by (auto simp: devs_ok_def)

lemma devs_ok_frame:
  assumes "frame d d'" "devs_ok d" "\<And>n s. length (disk d' n s) = BLOCK_SECTOR_SIZE"
  shows "devs_ok d'"
  using assms devs_ok_geometry [of d' d] by (simp add: frame_def)

lemma frame_blocks:
  assumes "frame d d'"
  shows "length (all_blocks d') = length (all_blocks d)" "map bops (all_blocks d') = map bops (all_blocks d)"
    "b < length (all_blocks d) \<Longrightarrow> bsize (all_blocks d' ! b) = bsize (all_blocks d ! b)"
    "b < length (all_blocks d) \<Longrightarrow> writable (all_blocks d') b = writable (all_blocks d) b"
  using assms geometry_eq [of "all_blocks d'" "all_blocks d"] geometry_nth [of "all_blocks d'" "all_blocks d"]
    writable_cong [of "all_blocks d'" "all_blocks d"]
  by (auto simp: frame_def)

lemma geometry_update: "geometry bl = geometry (bs ! b) \<Longrightarrow> map geometry (bs[b := bl]) = map geometry bs"
  by (simp add: map_update) (metis list_update_beyond list_update_id length_map not_less nth_map)

lemma frame_count: "frame d (count_read b d)" "frame d (count_write b d)"
  by (simp_all add: frame_def count_read_def count_write_def geometry_update geometry_def)

lemma count_fields [simp]: "disk (count_read b d) = disk d" "disk (count_write b d) = disk d" "alloc_no (count_read b d) = alloc_no d"
  "alloc_no (count_write b d) = alloc_no d"
  by (simp_all add: count_read_def count_write_def)

lemma devs_ok_block: "devs_ok d \<Longrightarrow> b < length (all_blocks d) \<Longrightarrow> block_ok (all_blocks d) b"
  by (simp add: devs_ok_def)

lemma locate_partition:
  "b < length ds \<Longrightarrow> ds ! b = Partition pb start \<Longrightarrow> pb < b \<Longrightarrow> locate ds b s = locate ds pb (start + s)"
  by (subst locate.simps) simp

text \<open>A sector inside a device can be read, and reading changes no sector.\<close>

lemma block_read_eq:
  assumes "devs_ok d" "b < length (all_blocks d)" "s < bsize (all_blocks d ! b)"
  shows "\<exists>d'. block_read b s d = Some (contents d b s, d') \<and> frame d d' \<and> disk d' = disk d \<and> alloc_no d' = alloc_no d"
  using assms(2,3)
proof (induction b arbitrary: s rule: less_induct)
  case (less b)
  have ok: "block_ok (all_blocks d) b" using devs_ok_block [OF assms(1) less.prems(1)] .
  show ?case
  proof (cases "bops (all_blocks d ! b)")
    case (Ide n)
    then have "block_read b s d = Some (contents d b s, count_read b d)"
      using less.prems by (subst block_read.simps) (simp add: the_block_def check_sector_def contents_def locate.simps)
    then show ?thesis using frame_count(1) [of d b] by simp
  next
    case (Partition pb start)
    then have pb: "pb < b" "start + s < bsize (all_blocks d ! pb)" "bsize (all_blocks d ! pb) < 2 ^ 32"
      using ok less.prems devs_ok_block [OF assms(1), of pb] by (auto simp: block_ok_def)
    obtain d1 where d1: "block_read pb (start + s) d = Some (contents d pb (start + s), d1)" "frame d d1" "disk d1 = disk d"
      "alloc_no d1 = alloc_no d"
      using less.IH [OF pb(1), of "start + s"] pb less.prems(1) by auto
    have "block_read b s d = Some (contents d b s, count_read b d1)"
      using less.prems pb d1(1) Partition locate_partition [of b "map bops (all_blocks d)" pb start s]
      by (subst block_read.simps) (simp add: the_block_def check_sector_def contents_def u32_id)
    moreover have "frame d (count_read b d1)" using d1(2) frame_count(1) [of d1 b] by (rule frame_trans)
    ultimately show ?thesis using d1(3,4) by simp
  qed
qed

text \<open>A write changes the one sector that it names.\<close>

definition store :: "nat \<times> nat \<Rightarrow> byte list \<Rightarrow> (nat \<Rightarrow> nat \<Rightarrow> byte list) \<Rightarrow> nat \<Rightarrow> nat \<Rightarrow> byte list" where
  "store l data dk = (\<lambda>n t. if (n, t) = l then data else dk n t)"

lemma block_write_eq:
  assumes "devs_ok d" "b < length (all_blocks d)" "s < bsize (all_blocks d ! b)" "writable (all_blocks d) b"
    "length data = BLOCK_SECTOR_SIZE"
  shows "\<exists>d'. block_write b s data d = Some d' \<and> frame d d' \<and> alloc_no d' = alloc_no d
    \<and> disk d' = store (locate (map bops (all_blocks d)) b s) data (disk d)"
  using assms(2-4)
proof (induction b arbitrary: s rule: less_induct)
  case (less b)
  have ok: "block_ok (all_blocks d) b" using devs_ok_block [OF assms(1) less.prems(1)] .
  show ?case
  proof (cases "bops (all_blocks d ! b)")
    case (Ide n)
    let ?d = "d\<lparr>disk := (disk d)(n := (disk d n)(s := data))\<rparr>"
    have "btype (all_blocks d ! b) \<noteq> BLOCK_FOREIGN" using less.prems(3) by (subst (asm) writable.simps) simp
    then have "block_write b s data d = Some (count_write b ?d)"
      using less.prems Ide assms(5) by (subst block_write.simps) (simp add: the_block_def check_sector_def)
    moreover have "frame d (count_write b ?d)"
      using frame_count(2) [of ?d b] by (rule frame_trans [rotated]) (simp add: frame_def)
    moreover have "disk ?d = store (locate (map bops (all_blocks d)) b s) data (disk d)"
      using Ide less.prems(1) by (auto simp: store_def locate.simps fun_eq_iff)
    ultimately show ?thesis by simp
  next
    case (Partition pb start)
    then have pb: "pb < b" "start + s < bsize (all_blocks d ! pb)" "bsize (all_blocks d ! pb) < 2 ^ 32"
      using ok less.prems devs_ok_block [OF assms(1), of pb] by (auto simp: block_ok_def)
    have w: "btype (all_blocks d ! b) \<noteq> BLOCK_FOREIGN" "writable (all_blocks d) pb"
      using less.prems(3) Partition pb(1) by (subst (asm) writable.simps, simp)+
    obtain d1 where d1: "block_write pb (start + s) data d = Some d1" "frame d d1" "alloc_no d1 = alloc_no d"
      "disk d1 = store (locate (map bops (all_blocks d)) pb (start + s)) data (disk d)"
      using less.IH [OF pb(1), of "start + s"] pb w(2) less.prems(1) by auto
    have "block_write b s data d = Some (count_write b d1)"
      using less.prems pb d1(1) Partition w(1)
      by (subst block_write.simps) (simp add: the_block_def check_sector_def u32_id)
    moreover have "frame d (count_write b d1)" using d1(2) frame_count(2) [of d1 b] by (rule frame_trans)
    moreover have "locate (map bops (all_blocks d)) b s = locate (map bops (all_blocks d)) pb (start + s)"
      using Partition pb(1) less.prems(1) by (intro locate_partition) simp_all
    ultimately show ?thesis using d1(3,4) by simp
  qed
qed

lemma locate_inj:
  assumes "devs_ok d" "locate (map bops (all_blocks d)) b s = locate (map bops (all_blocks d)) b t" "b < length (all_blocks d)"
  shows "s = t"
  using assms(2,3)
proof (induction b arbitrary: s t rule: less_induct)
  case (less b)
  show ?case
  proof (cases "bops (all_blocks d ! b)")
    case (Ide n)
    then show ?thesis using less.prems by (simp add: locate.simps)
  next
    case (Partition pb start)
    then have "pb < b" using devs_ok_block [OF assms(1) less.prems(2)] by (simp add: block_ok_def)
    then show ?thesis using less.IH [of pb "start + s" "start + t"] less.prems Partition
      locate_partition [of b "map bops (all_blocks d)" pb start] by simp
  qed
qed

text \<open>
  What a client of a device relies on: \<open>read\<close> and \<open>write\<close> inside the device succeed, a read gives the contents and
  changes no sector, a write changes the one sector it names, and \<open>ok\<close> is kept.
\<close>

locale sector_store =
  fixes ok :: "'d \<Rightarrow> bool" and sz :: "'d \<Rightarrow> nat" and sec :: "'d \<Rightarrow> nat \<Rightarrow> byte list" and same :: "'d \<Rightarrow> 'd \<Rightarrow> bool"
    and rd_sec :: "nat \<Rightarrow> 'd \<Rightarrow> (byte list \<times> 'd) option" and wr_sec :: "nat \<Rightarrow> byte list \<Rightarrow> 'd \<Rightarrow> 'd option"
  assumes read_law: "ok d \<Longrightarrow> s < sz d \<Longrightarrow> \<exists>d'. rd_sec s d = Some (sec d s, d') \<and> ok d' \<and> same d d' \<and> sec d' = sec d"
    and write_law: "ok d \<Longrightarrow> s < sz d \<Longrightarrow> length data = 512 \<Longrightarrow>
      \<exists>d'. wr_sec s data d = Some d' \<and> ok d' \<and> same d d' \<and> sec d' = (sec d)(s := data)"
    and same_size: "same d d' \<Longrightarrow> sz d' = sz d"
begin

text \<open>What was written is read back, also after writes to other sectors.\<close>

lemma read_back:
  assumes "ok d" "s < sz d" "t < sz d" "s \<noteq> t" "length x = 512" "length y = 512"
  shows "\<exists>d1 d2 d3. wr_sec s x d = Some d1 \<and> wr_sec t y d1 = Some d2 \<and> rd_sec s d2 = Some (x, d3)
    \<and> (\<forall>u. u \<noteq> s \<and> u \<noteq> t \<longrightarrow> sec d3 u = sec d u)"
proof -
  obtain d1 where d1: "wr_sec s x d = Some d1" "ok d1" "same d d1" "sec d1 = (sec d)(s := x)"
    using write_law [OF assms(1,2,5)] by blast
  obtain d2 where d2: "wr_sec t y d1 = Some d2" "ok d2" "same d1 d2" "sec d2 = (sec d1)(t := y)"
    using write_law [OF d1(2) _ assms(6)] same_size [OF d1(3)] assms(3) by auto
  obtain d3 where "rd_sec s d2 = Some (sec d2 s, d3)" "sec d3 = sec d2"
    using read_law [OF d2(2), of s] same_size [OF d1(3)] same_size [OF d2(3)] assms(2) by auto
  then show ?thesis using d1 d2 assms(4) by auto
qed

end

definition dev_ok :: "nat \<Rightarrow> 'a devs_scheme \<Rightarrow> bool" where
  "dev_ok b d \<longleftrightarrow> devs_ok d \<and> b < length (all_blocks d) \<and> writable (all_blocks d) b"

lemma dev_ok_frame:
  assumes "dev_ok b d" "frame d d'" "\<And>n s. length (disk d' n s) = BLOCK_SECTOR_SIZE"
  shows "dev_ok b d'"
  using assms devs_ok_frame [of d d'] frame_blocks(1,4) [of d d'] by (auto simp: dev_ok_def)

lemma contents_frame: "frame d d' \<Longrightarrow> disk d' = disk d \<Longrightarrow> contents d' b = contents d b"
  by (rule ext) (simp add: contents_def frame_blocks(2))

lemma contents_store:
  assumes "frame d d'" "disk d' = store (locate (map bops (all_blocks d)) b s) data (disk d)"
  shows "contents d' c t = (if locate (map bops (all_blocks d)) c t = locate (map bops (all_blocks d)) b s then data else contents d c t)"
  by (cases "locate (map bops (all_blocks d)) c t") (simp add: contents_def frame_blocks(2) [OF assms(1)] assms(2) store_def)

interpretation dev: sector_store "dev_ok b" "\<lambda>d. bsize (all_blocks d ! b)" "\<lambda>d. contents d b"
    "\<lambda>d d'. dev_ok b d \<and> frame d d' \<and> alloc_no d' = alloc_no d" "block_read b" "block_write b" for b
proof
  fix d :: "'a devs_scheme" and s assume d: "dev_ok b d" "s < bsize (all_blocks d ! b)"
  have sz: "\<And>n s. length (disk d n s) = BLOCK_SECTOR_SIZE" using d(1) by (simp add: dev_ok_def devs_ok_def)
  obtain d' where "block_read b s d = Some (contents d b s, d')" "frame d d'" "disk d' = disk d" "alloc_no d' = alloc_no d"
    using block_read_eq [of d b s] d by (auto simp: dev_ok_def)
  then show "\<exists>d'. block_read b s d = Some (contents d b s, d') \<and> dev_ok b d'
      \<and> (dev_ok b d \<and> frame d d' \<and> alloc_no d' = alloc_no d) \<and> contents d' b = contents d b"
    using dev_ok_frame [OF d(1), of d'] contents_frame [of d d' b] sz d(1) by auto
  fix data :: "byte list" assume len: "length data = 512"
  then obtain d' where d': "block_write b s data d = Some d'" "frame d d'" "alloc_no d' = alloc_no d"
      "disk d' = store (locate (map bops (all_blocks d)) b s) data (disk d)"
    using block_write_eq [of d b s data] d by (auto simp: dev_ok_def BLOCK_SECTOR_SIZE_def)
  have "contents d' b t = ((contents d b)(s := data)) t" for t
    using contents_store [OF d'(2,4), of b t] locate_inj [of d b t s] d(1) by (auto simp: dev_ok_def)
  moreover have "dev_ok b d'"
    using dev_ok_frame [OF d(1) d'(2)] sz d'(4) len by (simp add: store_def BLOCK_SECTOR_SIZE_def)
  ultimately show "\<exists>d'. block_write b s data d = Some d' \<and> dev_ok b d'
      \<and> (dev_ok b d \<and> frame d d' \<and> alloc_no d' = alloc_no d) \<and> contents d' b = (contents d b)(s := data)"
    using d' d(1) by auto
next
  fix d d' :: "'a devs_scheme" assume "dev_ok b d \<and> frame d d' \<and> alloc_no d' = alloc_no d"
  then show "bsize (all_blocks d' ! b) = bsize (all_blocks d ! b)" by (simp add: dev_ok_def frame_blocks(3))
qed

section \<open>Partitions keep apart\<close>

text \<open>The data that a read of a sector gives.\<close>

definition peek :: "nat \<Rightarrow> nat \<Rightarrow> 'a devs_scheme \<Rightarrow> byte list option" where
  "peek b s d = map_option fst (block_read b s d)"

lemma read_fst:
  assumes "devs_ok d" "b < length (all_blocks d)" "s < bsize (all_blocks d ! b)"
  shows "peek b s d = Some (contents d b s)"
  using block_read_eq [OF assms] by (auto simp: peek_def)

definition disk_of :: "'a devs_scheme \<Rightarrow> nat \<Rightarrow> nat" where
  "disk_of d b = fst (locate (map bops (all_blocks d)) b 0)"

lemma locate_disk: "fst (locate ds b s) = fst (locate ds b t)"
proof (induction b arbitrary: s t rule: less_induct)
  case (less b)
  show ?case
  proof (cases "ds ! b")
    case (Partition pb start)
    then show ?thesis using less.IH [of pb "start + s" "start + t"] by (simp add: locate.simps [of ds b])
  qed (simp add: locate.simps)
qed

text \<open>A device on another disk, or a partition of \<open>pb\<close> that ends before the partition at \<open>start\<close> or begins after it.\<close>

definition apart_from :: "'a devs_scheme \<Rightarrow> nat \<Rightarrow> nat \<Rightarrow> nat \<Rightarrow> nat \<Rightarrow> bool" where
  "apart_from d b pb start c \<longleftrightarrow> disk_of d c \<noteq> disk_of d b \<or>
     (case bops (all_blocks d ! c) of Ide n \<Rightarrow> False
      | Partition pc start' \<Rightarrow> pc = pb \<and> (start' + bsize (all_blocks d ! c) \<le> start \<or> start + bsize (all_blocks d ! b) \<le> start'))"

lemma apart_from_locate:
  assumes d: "devs_ok d" "b < length (all_blocks d)" "c < length (all_blocks d)" and ops: "bops (all_blocks d ! b) = Partition pb start"
    and "apart_from d b pb start c" "s < bsize (all_blocks d ! b)" "t < bsize (all_blocks d ! c)"
  shows "locate (map bops (all_blocks d)) c t \<noteq> locate (map bops (all_blocks d)) b s"
proof
  let ?ds = "map bops (all_blocks d)"
  assume eq: "locate ?ds c t = locate ?ds b s"
  then have "disk_of d c = disk_of d b" unfolding disk_of_def by (metis locate_disk)
  then obtain start' where c: "bops (all_blocks d ! c) = Partition pb start'"
    "start' + bsize (all_blocks d ! c) \<le> start \<or> start + bsize (all_blocks d ! b) \<le> start'"
    using assms(5) by (auto simp: apart_from_def split: driver.splits)
  have pb: "pb < b" "pb < c" using devs_ok_block [OF d(1,2)] devs_ok_block [OF d(1,3)] ops c(1) by (simp_all add: block_ok_def)
  then have "locate ?ds pb (start' + t) = locate ?ds pb (start + s)"
    using eq locate_partition [of b ?ds pb start] locate_partition [of c ?ds pb start'] d ops c(1) by simp
  then have "start' + t = start + s" using locate_inj [OF d(1)] pb(1) d(2) by simp
  then show False using c(2) assms(6,7) by auto
qed

text \<open>
  C30: Partitions are isolated.  A write beyond the end of a partition panics, even when the device goes on there.  A write inside
  it is read back through the partition and at its place on the device; the rest of the device, the other disks, and the partitions of
  the same device before and after it keep their contents.
\<close>

theorem partition_isolated:
  assumes d: "devs_ok d" "b < length (all_blocks d)" "writable (all_blocks d) b"
    and ops: "bops (all_blocks d ! b) = Partition pb start" and len: "length data = BLOCK_SECTOR_SIZE"
  shows "if s < bsize (all_blocks d ! b)
    then \<exists>d'. block_write b s data d = Some d' \<and> devs_ok d' \<and> peek b s d' = Some data \<and> peek pb (start + s) d' = Some data
      \<and> (\<forall>u < bsize (all_blocks d ! pb). u \<noteq> start + s \<longrightarrow> peek pb u d' = peek pb u d)
      \<and> (\<forall>c < length (all_blocks d). \<forall>t < bsize (all_blocks d ! c). apart_from d b pb start c \<longrightarrow> peek c t d' = peek c t d)
    else block_write b s data d = None"
proof (cases "s < bsize (all_blocks d ! b)")
  case False
  then show ?thesis using d(2) by (subst block_write.simps) (simp add: the_block_def check_sector_def)
next
  case s: True
  let ?ds = "map bops (all_blocks d)"
  obtain d' where d': "block_write b s data d = Some d'" "frame d d'" "disk d' = store (locate ?ds b s) data (disk d)"
    using block_write_eq [OF d(1,2) s d(3) len] by blast
  have pb: "pb < b" "start + bsize (all_blocks d ! b) \<le> bsize (all_blocks d ! pb)"
    using devs_ok_block [OF d(1,2)] ops by (simp_all add: block_ok_def)
  then have loc: "locate ?ds b s = locate ?ds pb (start + s)" using locate_partition [of b ?ds pb start] d ops by simp
  have "\<And>n s. length (disk d' n s) = BLOCK_SECTOR_SIZE" using d(1) d'(3) len by (simp add: store_def devs_ok_def)
  then have ok': "devs_ok d'" using devs_ok_frame [OF d'(2) d(1)] by simp
  have rd': "peek e t d' = Some (if locate ?ds e t = locate ?ds b s then data else contents d e t)"
    if "e < length (all_blocks d)" "t < bsize (all_blocks d ! e)" for e t
    using read_fst [OF ok', of e t] that frame_blocks(1,3) [OF d'(2)] contents_store [OF d'(2,3), of e t] by simp
  have "locate ?ds pb u = locate ?ds pb v \<longleftrightarrow> u = v" for u v
    using locate_inj [OF d(1), of pb u v] pb(1) d(2) by auto
  then show ?thesis
    using pb s d(2) apart_from_locate [OF d(1,2) _ ops _ s] by (simp add: d'(1) ok' rd' read_fst [OF d(1)] loc)
qed

definition two_parts :: devs where
  "two_parts = \<lparr>all_blocks = [\<lparr>bname = ''hda'', btype = BLOCK_RAW, bsize = 10, bops = Ide 0, reads = 0, writes = 0\<rparr>,
      \<lparr>bname = ''hda1'', btype = BLOCK_FILESYS, bsize = 4, bops = Partition 0 1, reads = 0, writes = 0\<rparr>,
      \<lparr>bname = ''hda2'', btype = BLOCK_SWAP, bsize = 3, bops = Partition 0 6, reads = 0, writes = 0\<rparr>],
    block_by_role = (\<lambda>_. None), disk = (\<lambda>_ _. replicate 512 0), console = [], alloc_ok = (\<lambda>_. True), alloc_no = 0\<rparr>"

theorem partition_isolated_witness:
  "(\<exists>d'. block_write 1 2 (replicate 512 7) two_parts = Some d' \<and> peek 1 2 d' = Some (replicate 512 7) \<and> peek 2 0 d' = peek 2 0 two_parts)
    \<and> block_write 1 5 (replicate 512 7) two_parts = None"
proof -
  have ok: "devs_ok two_parts" by (auto simp: devs_ok_def two_parts_def block_ok_def less_Suc_eq BLOCK_SECTOR_SIZE_def)
  have w: "writable (all_blocks two_parts) 1" by (simp add: two_parts_def writable.simps)
  have "apart_from two_parts 1 0 1 2" by (simp add: two_parts_def apart_from_def)
  then show ?thesis
    using partition_isolated [OF ok _ w, of 0 1 "replicate 512 7" 2] partition_isolated [OF ok _ w, of 0 1 "replicate 512 7" 5]
    by (auto simp: two_parts_def BLOCK_SECTOR_SIZE_def)
qed

section \<open>Scanning for partitions\<close>

lemma block_register_eq:
  assumes "alloc_ok d (alloc_no d)"
  shows "\<exists>d'. block_register name ty info sz ops d = Some (length (all_blocks d), d')
    \<and> all_blocks d' = all_blocks d @ [\<lparr>bname = take 15 name, btype = ty, bsize = sz, bops = ops, reads = 0, writes = 0\<rparr>]
    \<and> disk d' = disk d \<and> alloc_ok d' = alloc_ok d \<and> alloc_no d' = Suc (alloc_no d)"
  using assms by (simp add: block_register_def new_obj_def print_msg_def Let_def split: option.split)

lemma block_ok_append: "b < length bs \<Longrightarrow> block_ok bs b \<Longrightarrow> block_ok (bs @ cs) b"
  by (auto simp: block_ok_def nth_append split: driver.splits)

lemma devs_ok_append:
  assumes "devs_ok d" "all_blocks d' = all_blocks d @ [bl]" "disk d' = disk d" "block_ok (all_blocks d @ [bl]) (length (all_blocks d))"
  shows "devs_ok d'"
  using assms by (auto simp: devs_ok_def less_Suc_eq intro: block_ok_append)

text \<open>The devices that a scan of \<open>b\<close> adds are partitions of \<open>b\<close>.\<close>

definition scanned :: "nat \<Rightarrow> 'a devs_scheme \<Rightarrow> 'a devs_scheme \<Rightarrow> bool" where
  "scanned b d d' \<longleftrightarrow> devs_ok d' \<and> disk d' = disk d \<and> alloc_ok d' = alloc_ok d \<and>
     (\<exists>new. map geometry (all_blocks d') = map geometry (all_blocks d) @ map geometry new
       \<and> (\<forall>bl \<in> set new. \<exists>start. bops bl = Partition b start \<and> start + bsize bl \<le> bsize (all_blocks d ! b)))"

lemma scanned_same:
  "devs_ok d \<Longrightarrow> map geometry (all_blocks d') = map geometry (all_blocks d) \<Longrightarrow> disk d' = disk d \<Longrightarrow> alloc_ok d' = alloc_ok d \<Longrightarrow>
   scanned b d d'"
  using devs_ok_geometry [of d' d] by (auto simp: scanned_def devs_ok_def intro: exI [of _ "[]"])

lemma scanned_trans:
  assumes "scanned b d d1" "scanned b d1 d2" "b < length (all_blocks d)"
  shows "scanned b d d2"
proof -
  obtain new1 where 1: "map geometry (all_blocks d1) = map geometry (all_blocks d) @ map geometry new1"
    "\<forall>bl \<in> set new1. \<exists>start. bops bl = Partition b start \<and> start + bsize bl \<le> bsize (all_blocks d ! b)"
    using assms(1) by (auto simp: scanned_def)
  obtain new2 where 2: "map geometry (all_blocks d2) = map geometry (all_blocks d1) @ map geometry new2"
    "\<forall>bl \<in> set new2. \<exists>start. bops bl = Partition b start \<and> start + bsize bl \<le> bsize (all_blocks d1 ! b)"
    using assms(2) by (auto simp: scanned_def)
  have "map geometry (all_blocks d1) = map geometry (all_blocks d @ new1)" using 1(1) by simp
  from geometry_nth(2) [OF this, of b] have "bsize (all_blocks d1 ! b) = bsize (all_blocks d ! b)"
    using assms(3) by (simp add: nth_append)
  then have "\<forall>bl \<in> set (new1 @ new2). \<exists>start. bops bl = Partition b start \<and> start + bsize bl \<le> bsize (all_blocks d ! b)"
    using 1(2) 2(2) by auto
  moreover have "map geometry (all_blocks d2) = map geometry (all_blocks d) @ map geometry (new1 @ new2)" using 1(1) 2(1) by simp
  ultimately show ?thesis using assms(1,2) unfolding scanned_def by metis
qed

lemma scanned_length: "scanned b d d' \<Longrightarrow> length (all_blocks d) \<le> length (all_blocks d')"
  unfolding scanned_def by (metis le_add1 length_append length_map)

lemma scanned_block:
  assumes "scanned b d d'" "c < length (all_blocks d)"
  shows "geometry (all_blocks d' ! c) = geometry (all_blocks d ! c)" "c < length (all_blocks d')"
proof -
  show c: "c < length (all_blocks d')" using scanned_length [OF assms(1)] assms(2) by simp
  obtain new where "map geometry (all_blocks d') = map geometry (all_blocks d) @ map geometry new"
    using assms(1) by (auto simp: scanned_def)
  then show "geometry (all_blocks d' ! c) = geometry (all_blocks d ! c)"
    using assms(2) c by (metis length_map nth_append nth_map)
qed

text \<open>Every request for memory between two states was granted.\<close>

definition granted :: "'a devs_scheme \<Rightarrow> 'a devs_scheme \<Rightarrow> bool" where
  "granted d d' \<longleftrightarrow> alloc_ok d' = alloc_ok d \<and> alloc_no d \<le> alloc_no d' \<and> (\<forall>n. alloc_no d \<le> n \<and> n < alloc_no d' \<longrightarrow> alloc_ok d n)"

lemma found_partition_granted:
  assumes "devs_ok d" "b < length (all_blocks d)" "start < 2 ^ 32" "sz < 2 ^ 32"
  shows "found_partition b ty start sz nr d = None \<and> \<not> (alloc_ok d (alloc_no d) \<and> alloc_ok d (Suc (alloc_no d)))
    \<or> (\<exists>d'. found_partition b ty start sz nr d = Some d' \<and> scanned b d d' \<and> granted d d')"
proof -
  let ?bl = "all_blocks d ! b" and ?d = "snd (new_obj d)"
  have msg: "scanned b d (print_msg f as d)" "granted d (print_msg f as d)" for f as
    using assms(1) by (auto intro!: scanned_same simp: print_msg_def granted_def)
  consider (past) "start \<ge> bsize ?bl \<or> u32 (start + sz) < start \<or> u32 (start + sz) > bsize ?bl"
    | (full) "\<not> (start \<ge> bsize ?bl \<or> u32 (start + sz) < start \<or> u32 (start + sz) > bsize ?bl)"
      "\<not> (alloc_ok d (alloc_no d) \<and> alloc_ok d (Suc (alloc_no d)))"
    | (found) "\<not> (start \<ge> bsize ?bl \<or> u32 (start + sz) < start \<or> u32 (start + sz) > bsize ?bl)"
      "alloc_ok d (alloc_no d)" "alloc_ok d (Suc (alloc_no d))" by blast
  then show ?thesis
  proof cases
    case past
    then show ?thesis using assms(2) msg by (auto simp: found_partition_def the_block_def)
  next
    case full
    then show ?thesis using assms(2) by (auto simp: found_partition_def the_block_def new_obj_def block_register_def Let_def)
  next
    case found
    have "start + sz < 2 ^ 32"
    proof (rule ccontr)
      assume big: "\<not> start + sz < 2 ^ 32"
      then have "u32 (start + sz) = start + sz - 2 ^ 32" using assms(3,4) by (simp add: u32_def mod_if)
      then show False using found(1) assms(3,4) big by (simp; linarith)
    qed
    then have fits: "start + sz \<le> bsize ?bl" using found(1) by (simp add: u32_id)
    define nm info where "nm = take 15 (bname ?bl @ show_int nr)"
      and "info = take 127 (partition_type_name ty @ '' ('' @ show_hex2 ty @ '')'')"
    have fields: "all_blocks ?d = all_blocks d" "disk ?d = disk d" "alloc_ok ?d = alloc_ok d" "alloc_no ?d = Suc (alloc_no d)"
      by (simp_all add: new_obj_def)
    obtain d' where d': "block_register nm (type_of_partition ty) (Some info) sz (Partition b start) ?d = Some (length (all_blocks d), d')"
      "all_blocks d' = all_blocks d @ [\<lparr>bname = take 15 nm, btype = type_of_partition ty, bsize = sz, bops = Partition b start,
        reads = 0, writes = 0\<rparr>]" "disk d' = disk d" "alloc_ok d' = alloc_ok d" "alloc_no d' = Suc (Suc (alloc_no d))"
      using block_register_eq [of ?d nm "type_of_partition ty" "Some info" sz "Partition b start"] found(3) fields by auto
    have "found_partition b ty start sz nr d = Some d'"
      using found assms(2) d'(1) by (simp add: found_partition_def the_block_def new_obj_def nm_def info_def)
    moreover have "devs_ok d'"
      using devs_ok_append [OF assms(1) d'(2,3)] fits assms(2,4) by (simp add: block_ok_def nth_append)
    then have "scanned b d d'" using d' fits by (fastforce simp: scanned_def intro: exI [of _ "[_]"])
    moreover have "granted d d'" using d'(4,5) found(2,3) by (auto simp: granted_def less_Suc_eq)
    ultimately show ?thesis by blast
  qed
qed

lemma found_partition_eq:
  assumes "devs_ok d" "b < length (all_blocks d)" "\<And>n. alloc_ok d n" "start < 2 ^ 32" "sz < 2 ^ 32"
  shows "\<exists>d'. found_partition b ty start sz nr d = Some d' \<and> scanned b d d'"
  using found_partition_granted [OF assms(1,2,4,5)] assms(3) by blast

lemma le_nat_replicate_0: "le_nat (replicate n 0) = 0"
  by (induction n) simp_all

lemma table_entry_less: "poffset (table_entry pt i) < 2 ^ 32" "psize (table_entry pt i) < 2 ^ 32"
proof -
  have "le_nat (take 4 xs) < 2 ^ 32" for xs
  proof -
    have "(256 :: nat) ^ length (take 4 xs) \<le> 256 ^ 4" by (intro power_increasing) simp_all
    then show ?thesis using le_nat_less [of "take 4 xs"] by simp
  qed
  then show "poffset (table_entry pt i) < 2 ^ 32" "psize (table_entry pt i) < 2 ^ 32" by (simp_all add: table_entry_def Let_def)
qed

definition extended :: "partition_table_entry \<Rightarrow> bool" where
  "extended e \<longleftrightarrow> psize e \<noteq> 0 \<and> ptype e \<in> {0x05, 0x0f, 0x85, 0xc5}"

lemma scan_plain:
  assumes "devs_ok d" "b < length (all_blocks d)" "\<And>n. alloc_ok d n" "\<And>j. j < 4 \<Longrightarrow> \<not> extended (table_entry pt j)"
  shows "\<exists>nr' d'. scan_entries b sec pes pt i nr d = Some (Some (nr', d')) \<and> scanned b d d'"
  using assms(1-3)
proof (induction "4 - i" arbitrary: i nr d)
  case 0
  then show ?case by (subst scan_entries.simps) (simp add: scanned_same)
next
  case (Suc k)
  let ?e = "table_entry pt i"
  have i: "i < 4" "k = 4 - (i + 1)" using Suc.hyps(2) by simp_all
  have ext: "psize ?e = 0 \<or> ptype ?e \<notin> {0x05, 0x0f, 0x85, 0xc5}" using assms(4) [OF i(1)] by (simp add: extended_def)
  show ?case
  proof (cases "psize ?e = 0 \<or> ptype ?e = 0")
    case True
    then show ?thesis using Suc.hyps(1) [OF i(2) Suc.prems] i(1) by (subst scan_entries.simps) (auto simp: Let_def)
  next
    case False
    obtain d1 where d1: "found_partition b (ptype ?e) (u32 (poffset ?e + sec)) (psize ?e) (i32 (nr + 1)) d = Some d1" "scanned b d d1"
      using found_partition_eq [OF Suc.prems u32_less table_entry_less(2), of "ptype ?e" "poffset ?e + sec"] by blast
    have *: "devs_ok d1" "b < length (all_blocks d1)" "\<And>n. alloc_ok d1 n"
      using d1(2) scanned_block(2) [OF d1(2) Suc.prems(2)] Suc.prems(3) by (auto simp: scanned_def)
    obtain nr' d' where d': "scan_entries b sec pes pt (i + 1) (i32 (nr + 1)) d1 = Some (Some (nr', d'))" "scanned b d1 d'"
      using Suc.hyps(1) [OF i(2) *] by blast
    have "scan_entries b sec pes pt i nr d = Some (Some (nr', d'))"
      using False i(1) ext d1(1) d'(1) by (subst scan_entries.simps) (simp add: Let_def del: One_nat_def)
    then show ?thesis using scanned_trans [OF d1(2) d'(2) Suc.prems(2)] by blast
  qed
qed

text \<open>
  C31: A disk whose partition table has no extended partition is scanned to the end: the new devices are partitions that
  lie inside the disk, every device registered before is unchanged, and the registry stays well formed.
\<close>

theorem partition_scan_correct:
  assumes "devs_ok d" "b < length (all_blocks d)" "\<And>n. alloc_ok d n"
    and "\<And>j. j < 4 \<Longrightarrow> \<not> extended (table_entry (contents d b 0) j)"
  shows "\<exists>d' new. partition_scan b d = Some (Some d') \<and> devs_ok d' \<and> disk d' = disk d
    \<and> map geometry (all_blocks d') = map geometry (all_blocks d) @ map geometry new
    \<and> (\<forall>bl \<in> set new. \<exists>start. bops bl = Partition b start \<and> start + bsize bl \<le> bsize (all_blocks d ! b))"
proof -
  have load: "\<exists>pt d1. load_table b 0 0 d = Some (pt, d1) \<and> scanned b d d1 \<and> (pt = None \<or> pt = Some (contents d b 0))"
  proof (cases "bsize (all_blocks d ! b) = 0")
    case True
    then show ?thesis using assms(1,2) by (simp add: load_table_def the_block_def print_msg_def scanned_same)
  next
    case False
    let ?d = "snd (new_obj d)"
    have ok: "devs_ok ?d" "contents ?d b = contents d b" using assms(1) by (simp_all add: new_obj_def devs_ok_def contents_def fun_eq_iff)
    obtain d1 where d1: "block_read b 0 ?d = Some (contents d b 0, d1)" "frame ?d d1" "disk d1 = disk d"
      using block_read_eq [OF ok(1), of b 0] ok(2) assms(2) False by (auto simp: new_obj_def)
    have "scanned b d d1" "\<And>f as. scanned b d (print_msg f as d1)"
      using d1(2,3) assms(1) by (auto intro!: scanned_same simp: frame_def new_obj_def print_msg_def)
    then show ?thesis using d1(1) assms(2,3) False by (simp add: load_table_def the_block_def new_obj_def)
  qed
  then obtain pt d1 where d1: "load_table b 0 0 d = Some (pt, d1)" "scanned b d d1" "pt = None \<or> pt = Some (contents d b 0)" by blast
  have b1: "b < length (all_blocks d1)" "devs_ok d1" "\<And>n. alloc_ok d1 n"
    using d1(2) scanned_block(2) [OF d1(2) assms(2)] assms(3) by (auto simp: scanned_def)
  obtain nr d2 where d2: "read_partition_table b 0 0 0 d = Some (Some (nr, d2))" "scanned b d d2"
    using d1 scan_plain [OF b1(2,1,3) assms(4), of 0 0 0 0] scanned_trans [OF d1(2) _ assms(2)]
    by (auto simp: read_partition_table_def)
  have "scanned b d (print_msg f as d2)" for f as
    by (rule scanned_trans [OF d2(2) scanned_same assms(2)]) (use d2(2) in \<open>simp_all add: scanned_def print_msg_def\<close>)
  then have "\<exists>d'. partition_scan b d = Some (Some d') \<and> scanned b d d'"
    using d2 scanned_block(2) [OF d2(2) assms(2)] by (auto simp: partition_scan_def the_block_def)
  then show ?thesis by (auto simp: scanned_def)
qed

definition demo_table :: "byte \<Rightarrow> byte list" where
  "demo_table ty = replicate 446 0 @ [0, 0, 0, 0, ty, 0, 0, 0, 1, 0, 0, 0, 4, 0, 0, 0] @ replicate 48 0 @ [0x55, 0xaa]"

definition demo_disk :: "byte \<Rightarrow> devs" where
  "demo_disk ty = \<lparr>all_blocks = [\<lparr>bname = ''hda'', btype = BLOCK_RAW, bsize = 10, bops = Ide 0, reads = 0, writes = 0\<rparr>],
    block_by_role = (\<lambda>_. None), disk = (\<lambda>_ _. demo_table ty), console = [], alloc_ok = (\<lambda>_. True), alloc_no = 0\<rparr>"

lemma demo_disk_ok: "devs_ok (demo_disk ty)" "contents (demo_disk ty) 0 0 = demo_table ty" "\<And>n. alloc_ok (demo_disk ty) n"
  by (simp_all add: demo_disk_def demo_table_def devs_ok_def block_ok_def BLOCK_SECTOR_SIZE_def contents_def locate.simps)

lemma demo_entries:
  "table_entry (demo_table ty) 0 = \<lparr>ptype = unat ty, poffset = 1, psize = 4\<rparr>"
  "j < 4 \<Longrightarrow> j \<noteq> 0 \<Longrightarrow> table_entry (demo_table ty) j = \<lparr>ptype = 0, poffset = 0, psize = 0\<rparr>"
  "table_signature (demo_table ty) = 0xaa55"
proof -
  show "table_entry (demo_table ty) 0 = \<lparr>ptype = unat ty, poffset = 1, psize = 4\<rparr>"
    by (simp add: table_entry_def demo_table_def Let_def drop_append)
  assume "j < 4" "j \<noteq> 0"
  then consider "j = 1" | "j = 2" | "j = 3" by linarith
  then show "table_entry (demo_table ty) j = \<lparr>ptype = 0, poffset = 0, psize = 0\<rparr>"
    by cases (simp_all add: table_entry_def demo_table_def Let_def drop_append take_append nth_append le_nat_replicate_0)
next
  show "table_signature (demo_table ty) = 0xaa55" by (simp add: table_signature_def demo_table_def drop_append)
qed

theorem partition_scan_correct_witness:
  "\<exists>d'. partition_scan 0 (demo_disk 0x21) = Some (Some d') \<and> devs_ok d'"
proof -
  have "\<not> extended (table_entry (contents (demo_disk 0x21) 0 0) j)" if "j < 4" for j
    using that by (cases "j = 0") (simp_all add: demo_disk_ok(2) demo_entries extended_def)
  moreover have "0 < length (all_blocks (demo_disk 0x21))" by (simp add: demo_disk_def)
  ultimately show ?thesis using partition_scan_correct [of "demo_disk 0x21" 0] demo_disk_ok by blast
qed

text \<open>
  Extended partitions: the table is read from sector 0 at every level (\<open>partition.c:91\<close>), so the recursive call finds the
  extended partition again.
\<close>

definition table_at :: "nat \<Rightarrow> nat \<Rightarrow> byte list \<Rightarrow> 'a devs_scheme \<Rightarrow> bool" where
  "table_at b n pt d \<longleftrightarrow> devs_ok d \<and> b < length (all_blocks d) \<and> bsize (all_blocks d ! b) = n \<and> contents d b 0 = pt"

lemma table_at_print: "table_at b n pt d \<Longrightarrow> table_at b n pt (print_msg f as d)"
  by (simp add: table_at_def print_msg_def devs_ok_def contents_def)

lemma table_at_scanned:
  assumes "table_at b n pt d" "scanned b d d'"
  shows "table_at b n pt d'"
proof -
  have b: "b < length (all_blocks d)" "devs_ok d" "devs_ok d'" using assms by (simp_all add: table_at_def scanned_def)
  have "locate (map bops (all_blocks d')) c s = locate (map bops (all_blocks d)) c s" if "c < length (all_blocks d)" for c s
    using that
  proof (induction c arbitrary: s rule: less_induct)
    case (less c)
    have "bops (all_blocks d' ! c) = bops (all_blocks d ! c)" "c < length (all_blocks d')"
      using scanned_block [OF assms(2) less.prems] by (simp_all add: geometry_def)
    then show ?case using less
      by (subst (1 2) locate.simps) (auto split: driver.splits)
  qed
  then show ?thesis
    using assms scanned_block [OF assms(2) b(1)] b by (simp add: table_at_def contents_def scanned_def geometry_def)
qed

lemma block_read_alloc_no:
  assumes "block_read b s d = Some r"
  shows "alloc_no (snd r) = alloc_no d"
  apply (rule block_read.raw_induct [OF _ assms])
  subgoal premises prems for read b s d r
    using prems(2) prems(1)
    by (cases "bops (all_blocks d ! b)") (fastforce simp: bind_eq_Some_conv count_read_def the_block_def split: if_splits)+
  done

lemma load_table_at:
  assumes "table_at b n pt d" "sector < n" "table_signature pt = 0xaa55"
  shows "\<exists>d'. load_table b sector pes d = (if alloc_ok d (alloc_no d) then Some (Some pt, d') else None) \<and> table_at b n pt d'
    \<and> alloc_ok d' = alloc_ok d \<and> alloc_no d' = Suc (alloc_no d)"
proof -
  let ?d = "snd (new_obj d)"
  have ok: "devs_ok ?d" "b < length (all_blocks ?d)" "contents ?d b 0 = pt" "bsize (all_blocks ?d ! b) = n"
    using assms(1) by (simp_all add: new_obj_def devs_ok_def contents_def table_at_def)
  obtain d1 where d1: "block_read b 0 ?d = Some (pt, d1)" "frame ?d d1" "disk d1 = disk ?d"
    using block_read_eq [OF ok(1,2), of 0] ok assms(2) by auto
  have "table_at b n pt d1" "alloc_ok d1 = alloc_ok d" "alloc_no d1 = Suc (alloc_no d)"
    using ok assms(1) d1(2,3) devs_ok_frame [OF d1(2) ok(1)] contents_frame [OF d1(2,3), of b] frame_blocks(1,3) [OF d1(2)]
      block_read_alloc_no [OF d1(1)] ok
    by (auto simp: table_at_def devs_ok_def frame_def new_obj_def)
  then show ?thesis using assms d1(1) by (auto simp: load_table_def the_block_def new_obj_def table_at_def)
qed

text \<open>The calls that are repeated: the sector is 0 at first, then the offset of the entry, then twice the offset for ever.\<close>

definition repeated :: "nat \<Rightarrow> nat \<Rightarrow> nat \<Rightarrow> bool" where
  "repeated off sector pes \<longleftrightarrow> sector = 0 \<and> pes = 0 \<or> (sector = off \<or> sector = 2 * off) \<and> pes = off"


text \<open>Some later request for memory is refused.\<close>

definition refused :: "'a devs_scheme \<Rightarrow> bool" where
  "refused d \<longleftrightarrow> (\<exists>n \<ge> alloc_no d. \<not> alloc_ok d n)"

lemma refused_granted: "granted d d' \<Longrightarrow> refused d' \<longleftrightarrow> refused d"
  unfolding granted_def refused_def by (metis le_trans not_le)

lemma granted_Suc: "alloc_ok d' = alloc_ok d \<Longrightarrow> alloc_no d' = Suc (alloc_no d) \<Longrightarrow> alloc_ok d (alloc_no d) \<Longrightarrow> granted d d'"
  by (auto simp: granted_def less_Suc_eq)

text \<open>What an entry before the extended one does: a message, a new partition, or a panic when there is no memory.\<close>

lemma scan_before:
  assumes "table_at b n pt d"
  shows "found_partition b ty (u32 start) (psize (table_entry pt i)) nr d = None \<and> refused d
    \<or> (\<exists>d'. found_partition b ty (u32 start) (psize (table_entry pt i)) nr d = Some d' \<and> table_at b n pt d' \<and> granted d d')"
proof -
  have "\<not> (alloc_ok d (alloc_no d) \<and> alloc_ok d (Suc (alloc_no d))) \<Longrightarrow> refused d"
    unfolding refused_def by (metis le_Suc_eq le_refl)
  then show ?thesis
    using found_partition_granted [OF _ _ u32_less table_entry_less(2), of d b ty start pt i nr]
      assms table_at_scanned [OF assms] unfolding table_at_def by blast
qed

text \<open>The nested call: the sector of the next table, the primary extended sector and the table that is read.\<close>

lemma nested_call:
  assumes "table_at b n pt d" "table_signature pt = 0xaa55" "repeated off sector pes" "2 * off < n" "n < 2 ^ 32"
  defines "s' \<equiv> (if sector = 0 then off else u32 (off + pes))" and "p' \<equiv> (if sector = 0 then off else pes)"
  shows "repeated off s' p'" "\<exists>d'. load_table b s' p' (print_msg f as d) = (if alloc_ok d (alloc_no d) then Some (Some pt, d') else None)
    \<and> table_at b n pt d' \<and> alloc_ok d' = alloc_ok d \<and> alloc_no d' = Suc (alloc_no d)"
proof -
  have s': "repeated off s' p'" "s' < n" using assms(3-5) by (auto simp: s'_def p'_def repeated_def u32_id)
  then show "repeated off s' p'" by simp
  show "\<exists>d'. load_table b s' p' (print_msg f as d) = (if alloc_ok d (alloc_no d) then Some (Some pt, d') else None)
    \<and> table_at b n pt d' \<and> alloc_ok d' = alloc_ok d \<and> alloc_no d' = Suc (alloc_no d)"
    using load_table_at [OF table_at_print [OF assms(1), of f as] s'(2) assms(2), of p'] by (simp add: print_msg_def)
qed

lemma scan_extended_diverges:
  assumes e: "k < 4" "extended (table_entry pt k)" "\<And>j. j < k \<Longrightarrow> \<not> extended (table_entry pt j)" "table_signature pt = 0xaa55"
    and off: "off = poffset (table_entry pt k)" "2 * off < n" "n < 2 ^ 32"
    and y: "scan_entries b' sector pes pt' i nr d = Some y"
  shows "\<not> (b' = b \<and> pt' = pt \<and> table_at b n pt d \<and> \<not> refused d \<and> i \<le> k \<and> repeated off sector pes)"
  apply (rule scan_entries.raw_induct [OF _ y])
  subgoal premises prems for scan b' sector pes pt' i nr d y
  proof
    assume "b' = b \<and> pt' = pt \<and> table_at b n pt d \<and> \<not> refused d \<and> i \<le> k \<and> repeated off sector pes"
    then have a: "b' = b" "pt' = pt" "table_at b n pt d" "\<not> refused d" "i \<le> k" "repeated off sector pes" by simp_all
    note IH = prems(1) and body = prems(2) [unfolded a(1,2)]
    show False
    proof (cases "i = k")
      case False
      let ?e = "table_entry pt i"
      have i: "i < k" "\<not> extended ?e" using False a(5) e(3) by simp_all
      obtain d1 where d1: "found_partition b (ptype ?e) (u32 (poffset ?e + sector)) (psize ?e) (i32 (nr + 1)) d = Some d1"
        "table_at b n pt d1" "granted d d1"
        using scan_before [OF a(3)] a(4) by blast
      have "\<exists>nr d1. scan b sector pes pt (i + 1) nr d1 = Some y \<and> table_at b n pt d1 \<and> \<not> refused d1"
        using body i e(1) d1 a(3,4) refused_granted [OF d1(3)] by (auto simp: Let_def extended_def split: if_splits)
      then show False using IH i(1) a(6) by fastforce
    next
      case True
      let ?d = "print_msg (''%s: Extended partition in sector %u'' @ newline) [Str (bname (all_blocks d ! b)), Num (int sector)] d"
      define s' p' where "s' = (if sector = 0 then off else u32 (off + pes))" and "p' = (if sector = 0 then off else pes)"
      have ok: "alloc_ok d (alloc_no d)" using a(4) by (auto simp: refused_def)
      obtain d1 where d1: "load_table b s' p' ?d = Some (Some pt, d1)" "table_at b n pt d1" "granted d d1"
        using nested_call(2) [OF a(3) e(4) a(6) off(2,3)] granted_Suc [OF _ _ ok] ok unfolding s'_def p'_def by (metis (no_types, lifting))
      have "ptype (table_entry pt k) \<in> {0x05, 0x0f, 0x85, 0xc5}" "psize (table_entry pt k) \<noteq> 0" "b < length (all_blocks d)"
        using e(2) a(3) by (simp_all add: extended_def table_at_def)
      then obtain r where "scan b s' p' pt 0 nr d1 = Some r"
        using body e(1) d1(1) unfolding True s'_def p'_def off(1)
        by (cases "sector = 0") (auto simp: Let_def the_block_def bind_eq_Some_conv)
      then show False
        using IH [of b s' p' pt 0 nr d1 r] d1(2) refused_granted [OF d1(3)] a(4) nested_call(1) [OF a(3) e(4) a(6) off(2,3)]
        unfolding s'_def p'_def by blast
    qed
  qed
  done

text \<open>Each nested call asks for memory for its table, so a refused request is reached.\<close>

lemma scan_extended_panics:
  assumes e: "k < 4" "extended (table_entry pt k)" "\<And>j. j < k \<Longrightarrow> \<not> extended (table_entry pt j)" "table_signature pt = 0xaa55"
    and off: "off = poffset (table_entry pt k)" "2 * off < n" "n < 2 ^ 32"
  shows "table_at b n pt d \<Longrightarrow> alloc_no d \<le> m \<Longrightarrow> \<not> alloc_ok d m \<Longrightarrow> i \<le> k \<Longrightarrow> repeated off sector pes \<Longrightarrow>
    scan_entries b sector pes pt i nr d = Some None"
proof (induction "5 * (m - alloc_no d) + (k - i)" arbitrary: d i sector pes nr rule: less_induct)
  case less
  note d = less.prems
  show ?case
  proof (cases "i = k")
    case False
    let ?e = "table_entry pt i"
    have i: "i < k" "\<not> extended ?e" using False d(4) e(3) by simp_all
    have next_ok: "scan_entries b sector pes pt (i + 1) nr' d1 = Some None" if "table_at b n pt d1" "granted d d1" for nr' d1
    proof (rule less.hyps)
      show "alloc_no d1 \<le> m" "\<not> alloc_ok d1 m" using that(2) d(2,3) by (auto simp: granted_def not_le)
      show "5 * (m - alloc_no d1) + (k - (i + 1)) < 5 * (m - alloc_no d) + (k - i)"
        using that(2) i(1) diff_le_mono2 [of "alloc_no d" "alloc_no d1" m] unfolding granted_def by linarith
    qed (use that i(1) d(5) in simp_all)
    have "granted d d" by (auto simp: granted_def)
    then show ?thesis
      using i e(1) next_ok d(1) scan_before [OF d(1), of "ptype ?e" "poffset ?e + sector" i "i32 (nr + 1)"]
      by (subst scan_entries.simps) (auto simp: Let_def extended_def simp del: One_nat_def)
  next
    case True
    let ?d = "print_msg (''%s: Extended partition in sector %u'' @ newline) [Str (bname (all_blocks d ! b)), Num (int sector)] d"
    define s' p' where "s' = (if sector = 0 then off else u32 (off + pes))" and "p' = (if sector = 0 then off else pes)"
    have s': "repeated off s' p'" using nested_call(1) [OF d(1) e(4) d(5) off(2,3)] by (simp add: s'_def p'_def)
    obtain d1 where d1: "load_table b s' p' ?d = (if alloc_ok d (alloc_no d) then Some (Some pt, d1) else None)" "table_at b n pt d1"
      "alloc_ok d1 = alloc_ok d" "alloc_no d1 = Suc (alloc_no d)"
      using nested_call(2) [OF d(1) e(4) d(5) off(2,3)] unfolding s'_def p'_def by blast
    have inner: "scan_entries b s' p' pt 0 nr d1 = Some None" if "alloc_ok d (alloc_no d)"
    proof (rule less.hyps [OF _ d1(2)])
      have "alloc_no d < m" using that d(2,3) by (cases "alloc_no d = m") auto
      then show "5 * (m - alloc_no d1) + (k - 0) < 5 * (m - alloc_no d) + (k - i)" "alloc_no d1 \<le> m" using d1(4) e(1) by simp_all
    qed (use d(3) d1(3) s' in simp_all)
    have "ptype (table_entry pt k) \<in> {0x05, 0x0f, 0x85, 0xc5}" "psize (table_entry pt k) \<noteq> 0" "b < length (all_blocks d)"
      using e(2) d(1) by (simp_all add: extended_def table_at_def)
    then show ?thesis
      using e(1) d1(1) inner unfolding True s'_def p'_def off(1)
      by (cases "sector = 0"; cases "alloc_ok d (alloc_no d)") (subst scan_entries.simps; auto simp: Let_def the_block_def)+
  qed
qed

text \<open>
  C32: A disk with an extended partition, whose offset is less than half of the disk, cannot be scanned, whatever the other entries
  are: the nested calls of \<open>read_partition_table\<close> go on until a request for memory is refused, which panics, and for ever if
  none is.  The stack that the nested calls use up is not part of the model.
\<close>

theorem extended_scan_panics:
  assumes "devs_ok d" "b < length (all_blocks d)"
    and "table_signature (contents d b 0) = 0xaa55" "k < 4" "extended (table_entry (contents d b 0) k)"
    and "\<And>j. j < k \<Longrightarrow> \<not> extended (table_entry (contents d b 0) j)"
    and "2 * poffset (table_entry (contents d b 0) k) < bsize (all_blocks d ! b)"
  shows "partition_scan b d = (if \<exists>n \<ge> alloc_no d. \<not> alloc_ok d n then Some None else None)"
proof -
  let ?pt = "contents d b 0" and ?n = "bsize (all_blocks d ! b)"
  have t: "table_at b ?n ?pt d" using assms(1,2) by (simp add: table_at_def)
  have n: "?n < 2 ^ 32" using devs_ok_block [OF assms(1,2)] by (simp add: block_ok_def)
  obtain d1 where d1: "load_table b 0 0 d = (if alloc_ok d (alloc_no d) then Some (Some ?pt, d1) else None)"
    "table_at b ?n ?pt d1" "alloc_ok d1 = alloc_ok d" "alloc_no d1 = Suc (alloc_no d)"
    using load_table_at [OF t _ assms(3), of 0 0] assms(7) by auto
  have rep: "repeated (poffset (table_entry ?pt k)) 0 0" by (simp add: repeated_def)
  have "scan_entries b 0 0 ?pt 0 0 d1 = (if refused d1 then Some None else None)"
  proof (cases "refused d1")
    case True
    then show ?thesis
      using scan_extended_panics [OF assms(4,5,6,3) refl assms(7) n d1(2) _ _ _ rep, where i = 0] by (auto simp: refused_def)
  next
    case False
    then show ?thesis
      using scan_extended_diverges [OF assms(4,5,6,3) refl assms(7) n, of b 0 0 ?pt 0 0 d1] d1(2) rep
      by (cases "scan_entries b 0 0 ?pt 0 0 d1") auto
  qed
  moreover have "alloc_ok d (alloc_no d) \<Longrightarrow> refused d1 \<longleftrightarrow> refused d" using refused_granted [OF granted_Suc] d1(3,4) by blast
  ultimately show ?thesis
    using d1(1) by (auto simp: partition_scan_def read_partition_table_def refused_def)
qed

theorem extended_scan_panics_witness:
  "partition_scan 0 (demo_disk 0x05) = None \<and> partition_scan 0 (demo_disk 0x05\<lparr>alloc_ok := \<lambda>n. n < 7\<rparr>) = Some None"
proof -
  let ?d = "demo_disk 0x05\<lparr>alloc_ok := \<lambda>n. n < 7\<rparr>"
  have d: "devs_ok ?d" "contents ?d 0 0 = demo_table 0x05" using demo_disk_ok(1,2) by (simp_all add: devs_ok_def contents_def)
  have "extended (table_entry (demo_table 0x05) 0)" by (simp add: demo_entries extended_def)
  then have "partition_scan 0 (demo_disk 0x05) = None" "partition_scan 0 ?d = Some None"
    using extended_scan_panics [of "demo_disk 0x05" 0 0] extended_scan_panics [of ?d 0 0] demo_disk_ok demo_entries d
    by (simp_all add: demo_disk_def) (metis less_irrefl)
  then show ?thesis by simp
qed

end
