(* ===== verification/Inode.thy ===== *)
theory Inode
  imports Block Bitmap
begin

text \<open>
  The state of the file system, and reading and writing of inodes (\<open>filesys/inode.c\<close>, first part).

  The file system extends the devices of \<open>Block\<close>.  A \<open>struct inode *\<close> is an address in \<open>inodes\<close>, \<^term>\<open>None\<close> for the null
  pointer; several files can refer to the same inode.  A \<open>struct file\<close> is a value of type \<open>open_file\<close>, since every file has one owner.
  Buffers are lists of bytes; an access outside a buffer is a fault, \<^term>\<open>None\<close>.
\<close>

section \<open>State\<close>

record inode_disk =
  start :: nat
  len :: int
  magic :: nat
  unused :: "byte list"

record inode =
  sector :: nat
  open_cnt :: int
  removed :: bool
  deny_write_cnt :: int
  data :: inode_disk

record open_file =
  file_inode :: "nat option"
  file_pos :: int
  deny_write :: bool

record fs = devs +
  fs_device :: nat
  inodes :: "nat \<Rightarrow> inode option"
  open_inodes :: "nat list"
  free_map :: bitmap
  free_map_file :: "open_file option"

definition INODE_MAGIC :: nat where
  "INODE_MAGIC = 0x494e4f44"

text \<open>The bytes of a number, the least significant first, and of an inode on disk.\<close>

primrec le_bytes :: "nat \<Rightarrow> nat \<Rightarrow> byte list" where
  "le_bytes 0 n = []" |
  "le_bytes (Suc k) n = of_nat (n mod 256) # le_bytes k (n div 256)"

definition inode_disk_bytes :: "inode_disk \<Rightarrow> byte list" where
  "inode_disk_bytes di = le_bytes 4 (start di) @ le_bytes 4 (nat (len di mod 2 ^ 32)) @ le_bytes 4 (magic di) @ unused di"

definition bytes_inode_disk :: "byte list \<Rightarrow> inode_disk" where
  "bytes_inode_disk bs = \<lparr>start = le_nat (take 4 bs), len = i32 (int (le_nat (take 4 (drop 4 bs)))),
     magic = le_nat (take 4 (drop 8 bs)), unused = drop 12 bs\<rparr>"

section \<open>Reading and writing\<close>

text \<open>\<open>DIV_ROUND_UP\<close> on an \<open>off_t\<close>, converted to \<open>size_t\<close>.\<close>

definition bytes_to_sectors :: "int \<Rightarrow> nat" where
  "bytes_to_sectors sz = nat ((i32 (sz + 512 - 1) sdiv 512) mod 2 ^ 32)"

definition byte_to_sector :: "inode \<Rightarrow> int \<Rightarrow> nat" where
  "byte_to_sector ino pos =
     (if pos < len (data ino) then nat ((int (start (data ino)) + pos sdiv 512) mod 2 ^ 32) else 2 ^ 32 - 1)"

definition inode_length :: "nat \<Rightarrow> fs \<Rightarrow> int option" where
  "inode_length ip fs = do { ino \<leftarrow> inodes fs ip; Some (len (data ino)) }"

text \<open>\<open>memcpy\<close> out of and into a buffer.\<close>

definition piece :: "byte list \<Rightarrow> int \<Rightarrow> int \<Rightarrow> byte list option" where
  "piece buf ofs n = (if 0 \<le> ofs \<and> 0 \<le> n \<and> ofs + n \<le> int (length buf) then Some (take (nat n) (drop (nat ofs) buf)) else None)"

definition patch :: "byte list \<Rightarrow> int \<Rightarrow> byte list \<Rightarrow> byte list option" where
  "patch buf ofs bs = (if 0 \<le> ofs \<and> ofs + int (length bs) \<le> int (length buf)
     then Some (take (nat ofs) buf @ bs @ drop (nat ofs + length bs) buf) else None)"

text \<open>The number of bytes to transfer in a round: what is left of the request, of the inode and of the sector.\<close>

definition chunk_of :: "inode \<Rightarrow> int \<Rightarrow> int \<Rightarrow> int" where
  "chunk_of ino sz offset =
     (let sector_ofs = offset smod 512;
        inode_left = i32 (len (data ino) - offset);
        sector_left = 512 - sector_ofs;
        min_left = (if inode_left < sector_left then inode_left else sector_left)
      in if sz < min_left then sz else min_left)"

text \<open>\<open>bounce\<close> says whether the bounce buffer has been allocated.  Its contents are overwritten before each use.\<close>

definition get_bounce :: "bool \<Rightarrow> fs \<Rightarrow> bool \<times> fs" where
  "get_bounce bounce fs = (if bounce then (True, fs) else let (m, fs) = new_obj fs in (m \<noteq> None, fs))"

function read_loop :: "nat \<Rightarrow> bool \<Rightarrow> byte list \<Rightarrow> int \<Rightarrow> int \<Rightarrow> int \<Rightarrow> fs \<Rightarrow> (int \<times> byte list \<times> fs) option" where
  "read_loop ip bounce buffer sz offset bytes_read fs =
     (if sz > 0 then do {
        ino \<leftarrow> inodes fs ip;
        let sector_idx = byte_to_sector ino offset;
        let sector_ofs = offset smod 512;
        let chunk_size = chunk_of ino sz offset;
        if chunk_size \<le> 0 then Some (bytes_read, buffer, fs)
        else if sector_ofs = 0 \<and> chunk_size = 512 then do {
          (sec, fs) \<leftarrow> block_read (fs_device fs) sector_idx fs;
          buffer \<leftarrow> patch buffer bytes_read sec;
          read_loop ip bounce buffer (sz - chunk_size) (offset + chunk_size) (bytes_read + chunk_size) fs }
        else (case get_bounce bounce fs of
            (False, fs) \<Rightarrow> Some (bytes_read, buffer, fs)
          | (True, fs) \<Rightarrow> do {
              (sec, fs) \<leftarrow> block_read (fs_device fs) sector_idx fs;
              bs \<leftarrow> piece sec sector_ofs chunk_size;
              buffer \<leftarrow> patch buffer bytes_read bs;
              read_loop ip True buffer (sz - chunk_size) (offset + chunk_size) (bytes_read + chunk_size) fs }) }
      else Some (bytes_read, buffer, fs))"
  by pat_completeness auto

termination by (relation "measure (\<lambda>(ip, bounce, buffer, sz, offset, bytes_read, fs). nat sz)") auto

definition inode_read_at :: "nat \<Rightarrow> byte list \<Rightarrow> int \<Rightarrow> int \<Rightarrow> fs \<Rightarrow> (int \<times> byte list \<times> fs) option" where
  "inode_read_at ip buffer sz offset fs = read_loop ip False buffer sz offset 0 fs"

function write_loop :: "nat \<Rightarrow> bool \<Rightarrow> byte list \<Rightarrow> int \<Rightarrow> int \<Rightarrow> int \<Rightarrow> fs \<Rightarrow> (int \<times> fs) option" where
  "write_loop ip bounce buffer sz offset bytes_written fs =
     (if sz > 0 then do {
        ino \<leftarrow> inodes fs ip;
        let sector_idx = byte_to_sector ino offset;
        let sector_ofs = offset smod 512;
        let sector_left = 512 - sector_ofs;
        let chunk_size = chunk_of ino sz offset;
        if chunk_size \<le> 0 then Some (bytes_written, fs)
        else if sector_ofs = 0 \<and> chunk_size = 512 then do {
          bs \<leftarrow> piece buffer bytes_written 512;
          fs \<leftarrow> block_write (fs_device fs) sector_idx bs fs;
          write_loop ip bounce buffer (sz - chunk_size) (offset + chunk_size) (bytes_written + chunk_size) fs }
        else (case get_bounce bounce fs of
            (False, fs) \<Rightarrow> Some (bytes_written, fs)
          | (True, fs) \<Rightarrow> do {
              (sec, fs) \<leftarrow> (if sector_ofs > 0 \<or> chunk_size < sector_left then block_read (fs_device fs) sector_idx fs
                else Some (replicate 512 0, fs));
              bs \<leftarrow> piece buffer bytes_written chunk_size;
              sec \<leftarrow> patch sec sector_ofs bs;
              fs \<leftarrow> block_write (fs_device fs) sector_idx sec fs;
              write_loop ip True buffer (sz - chunk_size) (offset + chunk_size) (bytes_written + chunk_size) fs }) }
      else Some (bytes_written, fs))"
  by pat_completeness auto

termination by (relation "measure (\<lambda>(ip, bounce, buffer, sz, offset, bytes_written, fs). nat sz)") auto

declare read_loop.simps [simp del] write_loop.simps [simp del]

definition inode_write_at :: "nat \<Rightarrow> byte list \<Rightarrow> int \<Rightarrow> int \<Rightarrow> fs \<Rightarrow> (int \<times> fs) option" where
  "inode_write_at ip buffer sz offset fs = do {
     ino \<leftarrow> inodes fs ip;
     if deny_write_cnt ino \<noteq> 0 then Some (0, fs)
     else write_loop ip False buffer sz offset 0 fs }"

definition inode_deny_write :: "nat \<Rightarrow> fs \<Rightarrow> fs option" where
  "inode_deny_write ip fs = do {
     ino \<leftarrow> inodes fs ip;
     let ino = ino\<lparr>deny_write_cnt := i32 (deny_write_cnt ino + 1)\<rparr>;
     ASSERT (deny_write_cnt ino \<le> open_cnt ino);
     Some (fs\<lparr>inodes := (inodes fs)(ip \<mapsto> ino)\<rparr>) }"

definition inode_allow_write :: "nat \<Rightarrow> fs \<Rightarrow> fs option" where
  "inode_allow_write ip fs = do {
     ino \<leftarrow> inodes fs ip;
     ASSERT (deny_write_cnt ino > 0);
     ASSERT (deny_write_cnt ino \<le> open_cnt ino);
     Some (fs\<lparr>inodes := (inodes fs)(ip \<mapsto> ino\<lparr>deny_write_cnt := deny_write_cnt ino - 1\<rparr>)\<rparr>) }"

section \<open>The contents of a file\<close>

definition fs_sec :: "fs \<Rightarrow> nat \<Rightarrow> byte list" where
  "fs_sec fs s = contents fs (fs_device fs) s"

definition fs_size :: "fs \<Rightarrow> nat" where
  "fs_size fs = bsize (all_blocks fs ! fs_device fs)"

definition fs_dev_ok :: "fs \<Rightarrow> bool" where
  "fs_dev_ok fs \<longleftrightarrow> dev_ok (fs_device fs) fs"

text \<open>The file system after transfers that change no sector.\<close>

definition only_read :: "fs \<Rightarrow> fs \<Rightarrow> bool" where
  "only_read fs fs' \<longleftrightarrow> frame fs fs' \<and> fs_sec fs' = fs_sec fs \<and> (fs_dev_ok fs \<longrightarrow> fs_dev_ok fs')"

definition byte_at :: "fs \<Rightarrow> nat \<Rightarrow> nat \<Rightarrow> byte" where
  "byte_at fs st pos = fs_sec fs (st + pos div 512) ! (pos mod 512)"

definition file_bytes :: "fs \<Rightarrow> inode \<Rightarrow> byte list" where
  "file_bytes fs ino = map (byte_at fs (start (data ino))) [0..<nat (len (data ino))]"

definition sectors_of :: "inode \<Rightarrow> nat set" where
  "sectors_of ino = {start (data ino) ..< start (data ino) + bytes_to_sectors (len (data ino))}"

text \<open>The data of an inode lies inside the device.\<close>

definition inode_ok :: "fs \<Rightarrow> inode \<Rightarrow> bool" where
  "inode_ok fs ino \<longleftrightarrow> 0 \<le> len (data ino) \<and> len (data ino) < 2 ^ 31 - 512
     \<and> start (data ino) + bytes_to_sectors (len (data ino)) \<le> fs_size fs"

lemma frame_fs:
  assumes "frame fs (fs' :: fs)"
  shows "fs_device fs' = fs_device fs" "inodes fs' = inodes fs" "open_inodes fs' = open_inodes fs" "free_map fs' = free_map fs"
    "free_map_file fs' = free_map_file fs" "alloc_ok fs' = alloc_ok fs"
    "fs_device fs < length (all_blocks fs) \<Longrightarrow> fs_size fs' = fs_size fs"
proof -
  have m: "devs.more fs' = devs.more fs" using assms by (simp add: frame_def)
  show d: "fs_device fs' = fs_device fs" "inodes fs' = inodes fs" "open_inodes fs' = open_inodes fs" "free_map fs' = free_map fs"
    "free_map_file fs' = free_map_file fs"
    using m by (cases fs; cases fs'; simp)+
  show "alloc_ok fs' = alloc_ok fs" using assms by (simp add: frame_def)
  assume "fs_device fs < length (all_blocks fs)"
  then show "fs_size fs' = fs_size fs" using frame_blocks(3) [OF assms] d(1) by (simp add: fs_size_def)
qed

lemma only_read_refl [simp]: "only_read fs fs"
  by (simp add: only_read_def)

lemma only_read_trans [trans]: "only_read a b \<Longrightarrow> only_read b c \<Longrightarrow> only_read a c"
  using frame_trans by (auto simp: only_read_def)

lemma fs_read:
  assumes "fs_dev_ok fs" "s < fs_size fs"
  shows "\<exists>fs'. block_read (fs_device fs) s fs = Some (fs_sec fs s, fs') \<and> only_read fs fs' \<and> alloc_no fs' = alloc_no fs"
proof -
  obtain fs' where "block_read (fs_device fs) s fs = Some (fs_sec fs s, fs')" "dev_ok (fs_device fs) fs'" "frame fs fs'"
    "alloc_no fs' = alloc_no fs" "contents fs' (fs_device fs) = contents fs (fs_device fs)"
    using dev.read_law [of "fs_device fs" fs s] assms by (auto simp: fs_dev_ok_def fs_size_def fs_sec_def)
  moreover from this have "only_read fs fs'"
    using frame_fs(1) [of fs fs'] by (simp add: only_read_def fs_sec_def fs_dev_ok_def fun_eq_iff)
  ultimately show ?thesis by blast
qed

lemma fs_write:
  assumes "fs_dev_ok fs" "s < fs_size fs" "length bs = 512"
  shows "\<exists>fs'. block_write (fs_device fs) s bs fs = Some fs' \<and> frame fs fs' \<and> fs_dev_ok fs' \<and> fs_sec fs' = (fs_sec fs)(s := bs)
    \<and> alloc_no fs' = alloc_no fs"
proof -
  obtain fs' where "block_write (fs_device fs) s bs fs = Some fs'" "dev_ok (fs_device fs) fs'" "frame fs fs'"
    "alloc_no fs' = alloc_no fs" "contents fs' (fs_device fs) = (contents fs (fs_device fs))(s := bs)"
    using dev.write_law [of "fs_device fs" fs s bs] assms by (auto simp: fs_dev_ok_def fs_size_def)
  moreover from this have "fs_sec fs' = (fs_sec fs)(s := bs)" "fs_dev_ok fs'"
    using frame_fs(1) [of fs fs'] by (simp_all add: fs_sec_def fs_dev_ok_def fun_eq_iff)
  ultimately show ?thesis by blast
qed

lemma fs_sec_length: "fs_dev_ok fs \<Longrightarrow> length (fs_sec fs s) = 512"
  by (auto simp: fs_dev_ok_def dev_ok_def devs_ok_def fs_sec_def contents_def BLOCK_SECTOR_SIZE_def split: prod.split)

lemma new_obj_only_read: "only_read fs (snd (new_obj fs))"
  by (auto simp: only_read_def new_obj_def frame_def fs_sec_def contents_def fs_dev_ok_def dev_ok_def devs_ok_def)

lemma fs_dev_ok_device: "fs_dev_ok fs \<Longrightarrow> fs_device fs < length (all_blocks fs)"
  by (simp add: fs_dev_ok_def dev_ok_def)

lemma only_read_fs:
  assumes "only_read fs fs'" "fs_dev_ok fs"
  shows "fs_dev_ok fs'" "fs_size fs' = fs_size fs" "fs_sec fs' = fs_sec fs" "inodes fs' = inodes fs" "byte_at fs' = byte_at fs"
  using assms frame_fs [of fs fs'] fs_dev_ok_device by (auto simp: only_read_def byte_at_def fun_eq_iff)

lemma get_bounce_eq:
  "\<exists>fs'. get_bounce bounce fs = (bounce \<or> alloc_ok fs (alloc_no fs), fs') \<and> only_read fs fs'"
  using new_obj_only_read [of fs] by (auto simp: get_bounce_def new_obj_def split: prod.split)

section \<open>One round of the loops\<close>

definition put :: "byte list \<Rightarrow> nat \<Rightarrow> byte list \<Rightarrow> byte list" where
  "put buf r bs = take r buf @ bs @ drop (r + length bs) buf"

lemma length_put [simp]: "r + length bs \<le> length buf \<Longrightarrow> length (put buf r bs) = length buf"
  by (simp add: put_def)

lemma nth_put:
  "r + length bs \<le> length buf \<Longrightarrow> k < length buf \<Longrightarrow> put buf r bs ! k = (if r \<le> k \<and> k < r + length bs then bs ! (k - r) else buf ! k)"
  by (auto simp: put_def nth_append)

lemma patch_eq: "r + length bs \<le> length buf \<Longrightarrow> patch buf (int r) bs = Some (put buf r bs)"
  by (simp add: patch_def put_def)

lemma piece_eq: "r + n \<le> length buf \<Longrightarrow> piece buf (int r) (int n) = Some (take n (drop r buf))"
  by (simp add: piece_def)

lemma smod_nonneg: "int a smod 512 = int (a mod 512)"
  by (cases "a = 0") (simp_all add: signed_modulo_int_def zmod_int)

lemma sdiv_512: "int a sdiv 512 = int (a div 512)"
  by (simp add: sdiv_nonneg zdiv_int)

text \<open>The chunk of a round, for an offset inside the file.\<close>

definition chunk :: "nat \<Rightarrow> nat \<Rightarrow> nat \<Rightarrow> nat" where
  "chunk n ofs L = min n (min (L - ofs) (512 - ofs mod 512))"

lemma chunk_pos: "0 < n \<Longrightarrow> ofs < L \<Longrightarrow> 0 < chunk n ofs L"
  by (simp add: chunk_def)

lemma chunk_le: "chunk n ofs L \<le> n" "chunk n ofs L \<le> L - ofs" "ofs mod 512 + chunk n ofs L \<le> 512"
proof -
  have "ofs mod 512 < 512" by simp
  then show "chunk n ofs L \<le> n" "chunk n ofs L \<le> L - ofs" "ofs mod 512 + chunk n ofs L \<le> 512" by (auto simp: chunk_def min_def)
qed

lemma chunk_of_eq:
  assumes "0 < n" "ofs < L" "L < 2 ^ 31" "len (data ino) = int L"
  shows "chunk_of ino (int n) (int ofs) = int (chunk n ofs L)"
proof -
  have "i32 (int L - int ofs) = int (L - ofs)" using assms by (simp add: i32_id of_nat_diff)
  moreover have "512 - int ofs smod 512 = int (512 - ofs mod 512)" by (simp add: smod_nonneg of_nat_diff)
  moreover have "(let m = (if int a < int b then int a else int b) in if int n < m then int n else m) = int (min n (min a b))" for a b
    by (simp add: min_def Let_def)
  ultimately show ?thesis by (simp add: chunk_def chunk_of_def assms(4) Let_def)
qed

lemma chunk_of_end:
  assumes "0 < n" "L \<le> ofs" "ofs < 2 ^ 31" "len (data ino) = int L"
  shows "chunk_of ino (int n) (int ofs) \<le> 0"
  using assms by (auto simp: chunk_of_def Let_def i32_id smod_nonneg)

text \<open>The sector of an offset inside the file.\<close>

lemma bytes_to_sectors_eq: "L < 2 ^ 31 - 512 \<Longrightarrow> bytes_to_sectors (int L) = (L + 511) div 512"
proof -
  assume L: "L < 2 ^ 31 - 512"
  have "i32 (int L + 512 - 1) = int (L + 511)" using L by (simp add: i32_id)
  moreover have "(L + 511) div 512 < 2 ^ 32" using L by (simp add: div_less_iff_less_mult)
  ultimately show ?thesis by (simp add: bytes_to_sectors_def sdiv_512 nat_mod_as_int del: of_nat_add flip: of_nat_mod)
qed

lemma offset_sector: "ofs < L \<Longrightarrow> ofs div 512 < (L + 511) div (512 :: nat)"
  by (simp add: less_eq_div_iff_mult_less_eq flip: Suc_le_eq)

lemma sector_in:
  assumes "inode_ok fs ino" "fs_size fs < 2 ^ 32" "len (data ino) = int L" "ofs < L"
  shows "byte_to_sector ino (int ofs) = start (data ino) + ofs div 512" "start (data ino) + ofs div 512 < fs_size fs"
    "start (data ino) + ofs div 512 \<in> sectors_of ino"
proof -
  have L: "bytes_to_sectors (int L) = (L + 511) div 512" using assms(1,3) by (intro bytes_to_sectors_eq) (simp add: inode_ok_def)
  show lt: "start (data ino) + ofs div 512 < fs_size fs" "start (data ino) + ofs div 512 \<in> sectors_of ino"
    using assms(1,3) offset_sector [OF assms(4)] L by (auto simp: inode_ok_def sectors_of_def)
  then show "byte_to_sector ino (int ofs) = start (data ino) + ofs div 512"
    using assms(2-4) by (simp add: byte_to_sector_def sdiv_512 flip: of_nat_add)
qed

lemma fs_size_less: "fs_dev_ok fs \<Longrightarrow> fs_size fs < 2 ^ 32"
  by (auto simp: fs_dev_ok_def dev_ok_def fs_size_def devs_ok_def block_ok_def)

lemma read_loop_end:
  assumes "inodes fs ip = Some ino" "len (data ino) = int L" "L < 2 ^ 31" "ofs < 2 ^ 31" "n = 0 \<or> L \<le> ofs"
  shows "read_loop ip bounce buf (int n) (int ofs) (int r) fs = Some (int r, buf, fs)"
  using assms chunk_of_end [of n L ofs ino] by (cases "n = 0") (subst read_loop.simps, simp add: Let_def)+

lemma read_step:
  assumes fs: "fs_dev_ok fs" "inodes fs ip = Some ino" "inode_ok fs ino" "len (data ino) = int L"
    and o: "0 < n" "ofs < L" "r + n \<le> length buf"
    and c: "c = chunk n ofs L" and bs: "bs = take c (drop (ofs mod 512) (fs_sec fs (start (data ino) + ofs div 512)))"
  obtains (go) bounce' fs' where "only_read fs fs'" "bounce \<longrightarrow> bounce'" "read_loop ip bounce buf (int n) (int ofs) (int r) fs =
      read_loop ip bounce' (put buf r bs) (int (n - c)) (int (ofs + c)) (int (r + c)) fs'"
  | (stop) fs' where "only_read fs fs'" "\<not> bounce" "\<not> alloc_ok fs (alloc_no fs)"
      "read_loop ip bounce buf (int n) (int ofs) (int r) fs = Some (int r, buf, fs')"
proof -
  define sec where "sec = fs_sec fs (start (data ino) + ofs div 512)"
  have L: "L < 2 ^ 31" using fs(3,4) by (simp add: inode_ok_def)
  note idx = sector_in [OF fs(3) fs_size_less [OF fs(1)] fs(4) o(2)]
  have c': "0 < c" "c \<le> n" "ofs mod 512 + c \<le> 512" using chunk_pos [OF o(1,2)] chunk_le(1) [of n ofs L] chunk_le(3) [of ofs n L] by (simp_all add: c)
  have sec: "length sec = 512" "bs = take c (drop (ofs mod 512) sec)" using fs_sec_length [OF fs(1)] by (simp_all add: sec_def bs)
  have ints: "int (n - c) = int n - int c" "int (ofs + c) = int ofs + int c" "int (r + c) = int r + int c" using c'(2) by auto
  have chunk: "chunk_of ino (int n) (int ofs) = int c" unfolding c by (rule chunk_of_eq [OF o(1,2) L fs(4)])
  show thesis
  proof (cases "ofs mod 512 = 0 \<and> c = 512")
    case True
    obtain fs' where fs': "block_read (fs_device fs) (start (data ino) + ofs div 512) fs = Some (sec, fs')" "only_read fs fs'"
      using fs_read [OF fs(1) idx(2)] by (auto simp: sec_def)
    have "read_loop ip bounce buf (int n) (int ofs) (int r) fs = read_loop ip bounce (put buf r bs) (int (n - c)) (int (ofs + c)) (int (r + c)) fs'"
      using True o(1) fs(2,4) idx(1) fs'(1) chunk c' sec o(3) patch_eq [of r sec buf] unfolding ints
      by (subst read_loop.simps) (simp add: Let_def smod_nonneg)
    then show thesis using go [OF fs'(2), of bounce] by simp
  next
    case False
    then have nb: "(ofs mod 512 = 0 \<and> c = 512) \<longleftrightarrow> False" by simp
    obtain fs1 where fs1: "get_bounce bounce fs = (bounce \<or> alloc_ok fs (alloc_no fs), fs1)" "only_read fs fs1"
      using get_bounce_eq by blast
    show thesis
    proof (cases "bounce \<or> alloc_ok fs (alloc_no fs)")
      case False
      then have "read_loop ip bounce buf (int n) (int ofs) (int r) fs = Some (int r, buf, fs1)"
        using o(1) fs(2,4) fs1(1) chunk c' by (subst read_loop.simps) (simp add: Let_def smod_nonneg nb)
      then show thesis using stop [OF fs1(2)] False by simp
    next
      case True
      have dev: "fs_dev_ok fs1" "fs_device fs1 = fs_device fs" "start (data ino) + ofs div 512 < fs_size fs1"
          "fs_sec fs1 (start (data ino) + ofs div 512) = sec"
        using only_read_fs [OF fs1(2) fs(1)] fs1(2) frame_fs(1) [of fs fs1] idx(2) by (simp_all add: only_read_def sec_def)
      obtain fs' where fs': "block_read (fs_device fs) (start (data ino) + ofs div 512) fs1 = Some (sec, fs')" "only_read fs1 fs'"
        using fs_read [OF dev(1,3)] dev(2,4) by auto
      have "read_loop ip bounce buf (int n) (int ofs) (int r) fs = read_loop ip True (put buf r bs) (int (n - c)) (int (ofs + c)) (int (r + c)) fs'"
        using True o(1) fs(2,4) fs1(1) idx(1) fs'(1) dev(2) chunk c' sec o(3)
          piece_eq [of "ofs mod 512" c sec] patch_eq [of r "take c (drop (ofs mod 512) sec)" buf] unfolding ints
        by (subst read_loop.simps) (simp add: Let_def smod_nonneg nb)
      then show thesis using go [OF only_read_trans [OF fs1(2) fs'(2)], of True] by simp
    qed
  qed
qed

section \<open>Reading\<close>

text \<open>Within a sector, the bytes of the file are the bytes of the sector.\<close>

lemma byte_at_chunk: "i < c \<Longrightarrow> ofs mod 512 + c \<le> 512 \<Longrightarrow> byte_at fs st (ofs + i) = fs_sec fs (st + ofs div 512) ! (ofs mod 512 + i)"
proof -
  assume "i < c" "ofs mod 512 + c \<le> 512"
  then have i: "ofs mod 512 + i < 512" by simp
  define q t where "q = ofs div 512" and "t = ofs mod 512 + i"
  have "ofs + i = 512 * q + t" by (simp add: q_def t_def)
  moreover have "(512 * q + t) div 512 = q" "(512 * q + t) mod 512 = t" using i by (simp_all add: t_def [symmetric])
  ultimately have "(ofs + i) div 512 = ofs div 512" "(ofs + i) mod 512 = ofs mod 512 + i" by (simp_all only: q_def t_def)
  then show ?thesis by (simp add: byte_at_def)
qed

text \<open>\<open>buf'\<close> is \<open>buf\<close> with the \<open>m\<close> bytes of the file from \<open>ofs\<close> on at \<open>r\<close>.\<close>

definition read_result :: "fs \<Rightarrow> inode \<Rightarrow> byte list \<Rightarrow> nat \<Rightarrow> nat \<Rightarrow> nat \<Rightarrow> byte list \<Rightarrow> bool" where
  "read_result fs ino buf r ofs m buf' \<longleftrightarrow> length buf' = length buf \<and> (\<forall>k < length buf. buf' ! k =
     (if r \<le> k \<and> k < r + m then byte_at fs (start (data ino)) (ofs + (k - r)) else buf ! k))"

lemma read_result_step:
  assumes "read_result fs ino (put buf r bs) (r + c) (ofs + c) m buf'" "length bs = c" "r + c \<le> length buf"
    "\<And>i. i < c \<Longrightarrow> bs ! i = byte_at fs (start (data ino)) (ofs + i)"
  shows "read_result fs ino buf r ofs (c + m) buf'"
  unfolding read_result_def
proof (intro conjI allI impI)
  show "length buf' = length buf" using assms(1-3) by (simp add: read_result_def)
  fix k assume k: "k < length buf"
  then have b: "buf' ! k = (if r + c \<le> k \<and> k < r + c + m then byte_at fs (start (data ino)) (ofs + c + (k - (r + c))) else put buf r bs ! k)"
    using assms(1-3) by (simp add: read_result_def)
  consider "r + c \<le> k" "k < r + c + m" | "r \<le> k" "k < r + c" | "k < r \<or> r + c + m \<le> k" by linarith
  then show "buf' ! k = (if r \<le> k \<and> k < r + (c + m) then byte_at fs (start (data ino)) (ofs + (k - r)) else buf ! k)"
    using b k assms(2-4) by cases (auto simp: nth_put)
qed

lemma read_loop_correct:
  assumes "fs_dev_ok fs" "inodes fs ip = Some ino" "inode_ok fs ino" "len (data ino) = int L"
    and "ofs < 2 ^ 31" "r + n \<le> length buf"
  shows "\<exists>m buf' fs'. read_loop ip bounce buf (int n) (int ofs) (int r) fs = Some (int (r + m), buf', fs')
    \<and> only_read fs fs' \<and> m \<le> n \<and> m \<le> L - ofs \<and> read_result fs ino buf r ofs m buf'
    \<and> (bounce \<or> (\<forall>k. alloc_ok fs k) \<longrightarrow> m = min n (L - ofs))"
  using assms
proof (induction n arbitrary: bounce buf ofs r fs rule: less_induct)
  case (less n)
  have L: "L < 2 ^ 31" using less.prems(3,4) by (simp add: inode_ok_def)
  show ?case
  proof (cases "n = 0 \<or> L \<le> ofs")
    case True
    then show ?thesis using read_loop_end [OF less.prems(2,4) L less.prems(5) True]
      by (intro exI [of _ 0] exI [of _ buf] exI [of _ fs]) (auto simp: read_result_def)
  next
    case False
    define c where "c = chunk n ofs L"
    define bs where "bs = take c (drop (ofs mod 512) (fs_sec fs (start (data ino) + ofs div 512)))"
    have c: "0 < c" "c \<le> n" "c \<le> L - ofs" "ofs mod 512 + c \<le> 512"
      using False chunk_pos [of n ofs L] chunk_le(1,2) [of n ofs L] chunk_le(3) [of ofs n L] by (simp_all add: c_def)
    have bs: "length bs = c" "\<And>i. i < c \<Longrightarrow> bs ! i = byte_at fs (start (data ino)) (ofs + i)"
      using c(4) fs_sec_length [OF less.prems(1)] byte_at_chunk [OF _ c(4)] by (simp_all add: bs_def)
    show ?thesis
    proof (rule read_step [OF less.prems(1-4) _ _ less.prems(6) c_def bs_def, of bounce])
      show "0 < n" "ofs < L" using False by simp_all
    next
      fix fs1 assume "only_read fs fs1" "\<not> bounce" "\<not> alloc_ok fs (alloc_no fs)"
        "read_loop ip bounce buf (int n) (int ofs) (int r) fs = Some (int r, buf, fs1)"
      then show ?thesis by (intro exI [of _ 0] exI [of _ buf] exI [of _ fs1]) (auto simp: read_result_def)
    next
      fix bounce' fs1 assume fs1: "only_read fs fs1" and go: "bounce \<longrightarrow> bounce'" "read_loop ip bounce buf (int n) (int ofs) (int r) fs =
          read_loop ip bounce' (put buf r bs) (int (n - c)) (int (ofs + c)) (int (r + c)) fs1"
      note fs1' = only_read_fs [OF fs1 less.prems(1)]
      have ino1: "inodes fs1 ip = Some ino" "inode_ok fs1 ino" using less.prems(2,3) fs1'(2,4) by (simp_all add: inode_ok_def)
      have len: "r + c + (n - c) \<le> length (put buf r bs)" "n - c < n" "ofs + c < 2 ^ 31" using less.prems(6) c bs(1) L by simp_all
      obtain m buf' fs' where m: "read_loop ip bounce' (put buf r bs) (int (n - c)) (int (ofs + c)) (int (r + c)) fs1 = Some (int (r + c + m), buf', fs')"
        "only_read fs1 fs'" "m \<le> n - c" "m \<le> L - (ofs + c)" "read_result fs1 ino (put buf r bs) (r + c) (ofs + c) m buf'"
        "bounce' \<or> (\<forall>k. alloc_ok fs1 k) \<longrightarrow> m = min (n - c) (L - (ofs + c))"
        using less.IH [OF len(2) fs1'(1) ino1 less.prems(4) len(3,1), of bounce'] by blast
      have "read_result fs ino buf r ofs (c + m) buf'"
        using m(5) fs1'(5) less.prems(6) c(2) by (intro read_result_step [OF _ bs(1) _ bs(2)]) (simp_all add: read_result_def)
      moreover have "bounce \<or> (\<forall>k. alloc_ok fs k) \<longrightarrow> c + m = min n (L - ofs)"
        using m(6) go(1) fs1 c(2,3) frame_fs(6) [of fs fs1] by (auto simp: only_read_def)
      ultimately show ?thesis
        using go(2) m(1,3,4) c(2,3) only_read_trans [OF fs1 m(2)]
        by (intro exI [of _ "c + m"] exI [of _ buf'] exI [of _ fs'] conjI) (simp_all add: add.assoc)
    qed
  qed
qed

section \<open>Writing\<close>

lemma write_loop_end:
  assumes "inodes fs ip = Some ino" "len (data ino) = int L" "L < 2 ^ 31" "ofs < 2 ^ 31" "n = 0 \<or> L \<le> ofs"
  shows "write_loop ip bounce buf (int n) (int ofs) (int r) fs = Some (int r, fs)"
  using assms chunk_of_end [of n L ofs ino] by (cases "n = 0") (subst write_loop.simps, simp add: Let_def)+

lemma write_step:
  assumes fs: "fs_dev_ok fs" "inodes fs ip = Some ino" "inode_ok fs ino" "len (data ino) = int L"
    and o: "0 < n" "ofs < L" "r + n \<le> length buf"
    and c: "c = chunk n ofs L" and bs: "bs = take c (drop r buf)" and idx: "idx = start (data ino) + ofs div 512"
  obtains (go) bounce' fs' where "frame fs fs'" "fs_dev_ok fs'" "bounce \<longrightarrow> bounce'"
      "fs_sec fs' = (fs_sec fs)(idx := put (fs_sec fs idx) (ofs mod 512) bs)"
      "write_loop ip bounce buf (int n) (int ofs) (int r) fs = write_loop ip bounce' buf (int (n - c)) (int (ofs + c)) (int (r + c)) fs'"
  | (stop) fs' where "only_read fs fs'" "\<not> bounce" "\<not> alloc_ok fs (alloc_no fs)"
      "write_loop ip bounce buf (int n) (int ofs) (int r) fs = Some (int r, fs')"
proof -
  define sec where "sec = fs_sec fs idx"
  have L: "L < 2 ^ 31" using fs(3,4) by (simp add: inode_ok_def)
  note i = sector_in [OF fs(3) fs_size_less [OF fs(1)] fs(4) o(2), folded idx]
  have c': "0 < c" "c \<le> n" "ofs mod 512 + c \<le> 512" using chunk_pos [OF o(1,2)] chunk_le(1) [of n ofs L] chunk_le(3) [of ofs n L] by (simp_all add: c)
  have sec: "length sec = 512" "length bs = c" "piece buf (int r) (int c) = Some bs"
    using fs_sec_length [OF fs(1)] o(3) c'(2) piece_eq [of r c buf] by (simp_all add: sec_def bs)
  have ints: "int (n - c) = int n - int c" "int (ofs + c) = int ofs + int c" "int (r + c) = int r + int c" using c'(2) by auto
  have chunk: "chunk_of ino (int n) (int ofs) = int c" unfolding c by (rule chunk_of_eq [OF o(1,2) L fs(4)])
  show thesis
  proof (cases "ofs mod 512 = 0 \<and> c = 512")
    case True
    then have put: "put sec (ofs mod 512) bs = bs" using sec by (simp add: put_def)
    obtain fs' where fs': "block_write (fs_device fs) idx bs fs = Some fs'" "frame fs fs'" "fs_dev_ok fs'" "fs_sec fs' = (fs_sec fs)(idx := bs)"
      using fs_write [OF fs(1) i(2), of bs] sec(2) True by auto
    have "write_loop ip bounce buf (int n) (int ofs) (int r) fs = write_loop ip bounce buf (int (n - c)) (int (ofs + c)) (int (r + c)) fs'"
      using True o(1) fs(2,4) i(1) fs'(1) chunk c' sec o(3) unfolding ints
      by (subst write_loop.simps) (simp add: Let_def smod_nonneg)
    then show thesis using go [OF fs'(2,3), of bounce] fs'(4) put by (simp add: sec_def)
  next
    case False
    then have nb: "(ofs mod 512 = 0 \<and> c = 512) \<longleftrightarrow> False" by simp
    obtain fs1 where fs1: "get_bounce bounce fs = (bounce \<or> alloc_ok fs (alloc_no fs), fs1)" "only_read fs fs1"
      using get_bounce_eq by blast
    show thesis
    proof (cases "bounce \<or> alloc_ok fs (alloc_no fs)")
      case False
      then have "write_loop ip bounce buf (int n) (int ofs) (int r) fs = Some (int r, fs1)"
        using o(1) fs(2,4) fs1(1) chunk c' by (subst write_loop.simps) (simp add: Let_def smod_nonneg nb)
      then show thesis using stop [OF fs1(2)] False by simp
    next
      case True
      have dev: "fs_dev_ok fs1" "fs_device fs1 = fs_device fs" "idx < fs_size fs1" "fs_sec fs1 = fs_sec fs" "frame fs fs1"
        using only_read_fs [OF fs1(2) fs(1)] fs1(2) frame_fs(1) [of fs fs1] i(2) by (simp_all add: only_read_def)
      obtain fs2 where fs2: "block_read (fs_device fs) idx fs1 = Some (sec, fs2)" "only_read fs1 fs2"
        using fs_read [OF dev(1,3)] dev(2,4) by (auto simp: sec_def)
      have dev2: "fs_dev_ok fs2" "fs_device fs2 = fs_device fs" "idx < fs_size fs2" "fs_sec fs2 = fs_sec fs" "frame fs1 fs2"
        using only_read_fs [OF fs2(2) dev(1)] fs2(2) frame_fs(1) [of fs1 fs2] dev by (simp_all add: only_read_def)
      have put: "patch sec (int (ofs mod 512)) bs = Some (put sec (ofs mod 512) bs)" "length (put sec (ofs mod 512) bs) = 512"
        using patch_eq [of "ofs mod 512" bs sec] sec c'(3) by simp_all
      obtain fs' where fs': "block_write (fs_device fs) idx (put sec (ofs mod 512) bs) fs2 = Some fs'" "frame fs2 fs'" "fs_dev_ok fs'"
        "fs_sec fs' = (fs_sec fs)(idx := put sec (ofs mod 512) bs)"
        using fs_write [OF dev2(1,3) put(2)] dev2(2,4) by auto
      have short: "0 < ofs mod 512 \<or> int c < 512 - int (ofs mod 512)" using nb c'(3) by (cases "ofs mod 512 = 0") simp_all
      have "write_loop ip bounce buf (int n) (int ofs) (int r) fs = write_loop ip True buf (int (n - c)) (int (ofs + c)) (int (r + c)) fs'"
        using True o(1) fs(2,4) fs1(1) i(1) fs2(1) fs'(1) dev(2) dev2(2) chunk c' sec o(3) put short unfolding ints
        by (subst write_loop.simps) (simp add: Let_def smod_nonneg nb)
      then show thesis using go [of fs' True] frame_trans [OF frame_trans [OF dev(5) dev2(5)] fs'(2)] fs'(3,4) by (simp add: sec_def)
    qed
  qed
qed

text \<open>\<open>fs'\<close> has the \<open>m\<close> bytes of \<open>buf\<close> from \<open>r\<close> on at offset \<open>ofs\<close> of the file, and is like \<open>fs\<close> everywhere else.\<close>

definition written_to :: "fs \<Rightarrow> inode \<Rightarrow> byte list \<Rightarrow> nat \<Rightarrow> nat \<Rightarrow> nat \<Rightarrow> fs \<Rightarrow> bool" where
  "written_to fs ino buf r ofs m fs' \<longleftrightarrow> (\<forall>s. s \<notin> sectors_of ino \<longrightarrow> fs_sec fs' s = fs_sec fs s) \<and>
     (\<forall>pos. byte_at fs' (start (data ino)) pos =
       (if ofs \<le> pos \<and> pos < ofs + m then buf ! (r + (pos - ofs)) else byte_at fs (start (data ino)) pos))"

lemma same_sector:
  fixes ofs pos c :: nat
  assumes "ofs mod 512 + c \<le> 512"
  shows "ofs \<le> pos \<and> pos < ofs + c \<longleftrightarrow> pos div 512 = ofs div 512 \<and> ofs mod 512 \<le> pos mod 512 \<and> pos mod 512 < ofs mod 512 + c"
proof -
  define q t q' t' where "q = ofs div 512" and "t = ofs mod 512" and "q' = pos div 512" and "t' = pos mod 512"
  have eq: "ofs = 512 * q + t" "pos = 512 * q' + t'" "t' < 512" "t + c \<le> 512"
    using assms by (simp_all add: q_def t_def q'_def t'_def)
  have "512 * q + t \<le> 512 * q' + t' \<and> 512 * q' + t' < 512 * q + t + c \<longleftrightarrow> q' = q \<and> t \<le> t' \<and> t' < t + c"
  proof (cases q' q rule: linorder_cases)
    case less
    then have "512 * q' + 512 \<le> 512 * q" by simp
    then show ?thesis using eq(3) less by linarith
  next
    case greater
    then have "512 * q + 512 \<le> 512 * q'" by simp
    then show ?thesis using eq(4) greater by linarith
  qed auto
  then show ?thesis unfolding q_def [symmetric] t_def [symmetric] q'_def [symmetric] t'_def [symmetric] using eq(1,2) by simp
qed

lemma byte_at_put:
  assumes "fs_dev_ok fs" "fs_sec fs' = (fs_sec fs)(st + ofs div 512 := put (fs_sec fs (st + ofs div 512)) (ofs mod 512) bs)"
    "ofs mod 512 + length bs \<le> 512"
  shows "byte_at fs' st pos = (if ofs \<le> pos \<and> pos < ofs + length bs then bs ! (pos - ofs) else byte_at fs st pos)"
  unfolding same_sector [OF assms(3)]
proof (cases "pos div 512 = ofs div 512")
  case True
  have "pos = 512 * (pos div 512) + pos mod 512" "ofs = 512 * (ofs div 512) + ofs mod 512" by simp_all
  then have "ofs mod 512 \<le> pos mod 512 \<Longrightarrow> pos - ofs = pos mod 512 - ofs mod 512" unfolding True by linarith
  then show "byte_at fs' st pos = (if pos div 512 = ofs div 512 \<and> ofs mod 512 \<le> pos mod 512 \<and> pos mod 512 < ofs mod 512 + length bs
      then bs ! (pos - ofs) else byte_at fs st pos)"
    using True assms fs_sec_length [OF assms(1)] by (simp add: byte_at_def nth_put)
qed (simp add: byte_at_def assms(2))

lemma written_to_step:
  assumes fs: "fs_dev_ok fs" "fs_sec fs1 = (fs_sec fs)(st + ofs div 512 := put (fs_sec fs (st + ofs div 512)) (ofs mod 512) bs)"
    and st: "st = start (data ino)" "st + ofs div 512 \<in> sectors_of ino"
    and bs: "length bs = c" "\<And>i. i < c \<Longrightarrow> bs ! i = buf ! (r + i)" "ofs mod 512 + c \<le> 512"
    and w: "written_to fs1 ino buf (r + c) (ofs + c) m fs'"
  shows "written_to fs ino buf r ofs (c + m) fs'"
  unfolding written_to_def
proof (intro conjI allI impI)
  fix s assume "s \<notin> sectors_of ino"
  then show "fs_sec fs' s = fs_sec fs s" using w fs(2) st(2) by (auto simp: written_to_def)
next
  fix pos
  have "byte_at fs' st pos = (if ofs + c \<le> pos \<and> pos < ofs + c + m then buf ! (r + c + (pos - (ofs + c))) else byte_at fs1 st pos)"
    using w by (simp add: written_to_def st(1))
  moreover have "byte_at fs1 st pos = (if ofs \<le> pos \<and> pos < ofs + c then buf ! (r + (pos - ofs)) else byte_at fs st pos)"
    using byte_at_put [OF fs, of pos] bs(2) [of "pos - ofs"] bs(1,3) by (cases "ofs \<le> pos \<and> pos < ofs + c") (auto simp: less_diff_conv2)
  ultimately show "byte_at fs' (start (data ino)) pos =
      (if ofs \<le> pos \<and> pos < ofs + (c + m) then buf ! (r + (pos - ofs)) else byte_at fs (start (data ino)) pos)"
    unfolding st(1) [symmetric] by (cases "ofs + c \<le> pos") (simp_all add: add.assoc)
qed

lemma written_to_0: "only_read fs fs' \<Longrightarrow> fs_dev_ok fs \<Longrightarrow> written_to fs ino buf r ofs 0 fs'"
  using only_read_fs(3,5) [of fs fs'] by (auto simp: written_to_def)

lemma write_loop_correct:
  assumes "fs_dev_ok fs" "inodes fs ip = Some ino" "inode_ok fs ino" "len (data ino) = int L"
    and "ofs < 2 ^ 31" "r + n \<le> length buf"
  shows "\<exists>m fs'. write_loop ip bounce buf (int n) (int ofs) (int r) fs = Some (int (r + m), fs')
    \<and> frame fs fs' \<and> fs_dev_ok fs' \<and> m \<le> n \<and> m \<le> L - ofs \<and> written_to fs ino buf r ofs m fs'
    \<and> (bounce \<or> (\<forall>k. alloc_ok fs k) \<longrightarrow> m = min n (L - ofs))"
  using assms
proof (induction n arbitrary: bounce ofs r fs rule: less_induct)
  case (less n)
  have L: "L < 2 ^ 31" using less.prems(3,4) by (simp add: inode_ok_def)
  show ?case
  proof (cases "n = 0 \<or> L \<le> ofs")
    case True
    then show ?thesis using write_loop_end [OF less.prems(2,4) L less.prems(5) True] less.prems(1) True
      by (intro exI [of _ 0] exI [of _ fs] conjI) (auto simp: written_to_0)
  next
    case False
    define c idx where "c = chunk n ofs L" and "idx = start (data ino) + ofs div 512"
    define bs where "bs = take c (drop r buf)"
    have c: "0 < c" "c \<le> n" "c \<le> L - ofs" "ofs mod 512 + c \<le> 512"
      using False chunk_pos [of n ofs L] chunk_le(1,2) [of n ofs L] chunk_le(3) [of ofs n L] by (simp_all add: c_def)
    have bs: "length bs = c" "\<And>i. i < c \<Longrightarrow> bs ! i = buf ! (r + i)" using c(2) less.prems(6) by (simp_all add: bs_def)
    show ?thesis
    proof (rule write_step [OF less.prems(1-4) _ _ less.prems(6) c_def bs_def idx_def, of bounce])
      show "0 < n" "ofs < L" using False by simp_all
    next
      fix fs1 assume stop: "only_read fs fs1" "\<not> bounce" "\<not> alloc_ok fs (alloc_no fs)"
        "write_loop ip bounce buf (int n) (int ofs) (int r) fs = Some (int r, fs1)"
      then have na: "(\<forall>k. alloc_ok fs k) \<longleftrightarrow> False" by blast
      show ?thesis using stop only_read_fs(1) [OF stop(1) less.prems(1)] written_to_0 [OF stop(1) less.prems(1), of ino buf r ofs]
        by (intro exI [of _ 0] exI [of _ fs1] conjI) (simp_all add: only_read_def na)
    next
      fix bounce' fs1 assume fs1: "frame fs fs1" "fs_dev_ok fs1" "fs_sec fs1 = (fs_sec fs)(idx := put (fs_sec fs idx) (ofs mod 512) bs)"
        and go: "bounce \<longrightarrow> bounce'" "write_loop ip bounce buf (int n) (int ofs) (int r) fs =
          write_loop ip bounce' buf (int (n - c)) (int (ofs + c)) (int (r + c)) fs1"
      have ino1: "inodes fs1 ip = Some ino" "inode_ok fs1 ino"
        using less.prems(2,3) frame_fs(2,7) [OF fs1(1)] fs_dev_ok_device [OF less.prems(1)] by (simp_all add: inode_ok_def)
      have len: "n - c < n" "ofs + c < 2 ^ 31" "r + c + (n - c) \<le> length buf" using less.prems(6) c L by simp_all
      obtain m fs' where m: "write_loop ip bounce' buf (int (n - c)) (int (ofs + c)) (int (r + c)) fs1 = Some (int (r + c + m), fs')"
        "frame fs1 fs'" "fs_dev_ok fs'" "m \<le> n - c" "m \<le> L - (ofs + c)" "written_to fs1 ino buf (r + c) (ofs + c) m fs'"
        "bounce' \<or> (\<forall>k. alloc_ok fs1 k) \<longrightarrow> m = min (n - c) (L - (ofs + c))"
        using less.IH [OF len(1) fs1(2) ino1 less.prems(4) len(2,3), of bounce'] by blast
      have "idx \<in> sectors_of ino"
        using sector_in(3) [OF less.prems(3) fs_size_less [OF less.prems(1)] less.prems(4)] False by (simp add: idx_def)
      then have "written_to fs ino buf r ofs (c + m) fs'"
        by (intro written_to_step [OF less.prems(1) fs1(3) [unfolded idx_def] refl _ bs c(4) m(6)]) (simp_all add: idx_def)
      moreover have "bounce \<or> (\<forall>k. alloc_ok fs k) \<longrightarrow> c + m = min n (L - ofs)"
        using m(7) go(1) c(2,3) frame_fs(6) [OF fs1(1)] by auto
      ultimately show ?thesis
        using go(2) m(1,3,4,5) c(2,3) frame_trans [OF fs1(1) m(2)]
        by (intro exI [of _ "c + m"] exI [of _ fs'] conjI) (simp_all add: add.assoc)
    qed
  qed
qed

section \<open>Files as lists of bytes\<close>

lemma length_file_bytes [simp]: "length (file_bytes fs ino) = nat (len (data ino))"
  by (simp add: file_bytes_def)

lemma nth_file_bytes: "k < nat (len (data ino)) \<Longrightarrow> file_bytes fs ino ! k = byte_at fs (start (data ino)) k"
  by (simp add: file_bytes_def)

lemma file_bytes_cong:
  assumes "inode_ok fs ino" "\<And>s. s \<in> sectors_of ino \<Longrightarrow> fs_sec fs' s = fs_sec fs s"
  shows "file_bytes fs' ino = file_bytes fs ino"
proof (rule nth_equalityI)
  fix k assume k: "k < length (file_bytes fs' ino)"
  then obtain L where L: "len (data ino) = int L" "k < L" using assms(1) by (auto simp: inode_ok_def intro: that [of "nat (len (data ino))"])
  have "start (data ino) + k div 512 \<in> sectors_of ino"
    using offset_sector [OF L(2)] bytes_to_sectors_eq [of L] assms(1) L(1) by (simp add: sectors_of_def inode_ok_def)
  then show "file_bytes fs' ino ! k = file_bytes fs ino ! k" using k assms(2) by (simp add: nth_file_bytes byte_at_def)
qed simp

text \<open>
  \<open>inode_read_at\<close> gives the bytes of the file from the offset on, as many as were asked for or as there are, in the first
  part of the buffer; a failed allocation of the bounce buffer makes the read shorter, never wrong.
\<close>

lemma inode_read_at_eq:
  assumes "fs_dev_ok fs" "inodes fs ip = Some ino" "inode_ok fs ino" "ofs < 2 ^ 31" "n \<le> length buf"
  shows "\<exists>m fs'. inode_read_at ip buf (int n) (int ofs) fs = Some (int m, take m (drop ofs (file_bytes fs ino)) @ drop m buf, fs')
    \<and> only_read fs fs' \<and> m \<le> min n (nat (len (data ino)) - ofs)
    \<and> ((\<forall>k. alloc_ok fs k) \<longrightarrow> m = min n (nat (len (data ino)) - ofs))"
proof -
  obtain L where L: "len (data ino) = int L" using assms(3) by (auto simp: inode_ok_def intro: that [of "nat (len (data ino))"])
  obtain m buf' fs' where m: "read_loop ip False buf (int n) (int ofs) (int 0) fs = Some (int (0 + m), buf', fs')"
    "only_read fs fs'" "m \<le> n" "m \<le> L - ofs" "read_result fs ino buf 0 ofs m buf'"
    "False \<or> (\<forall>k. alloc_ok fs k) \<longrightarrow> m = min n (L - ofs)"
    using read_loop_correct [OF assms(1-3) L assms(4), of 0 n buf False] assms(5) by auto
  have "buf' = take m (drop ofs (file_bytes fs ino)) @ drop m buf"
    using m(3-5) assms(5) L by (intro nth_equalityI) (auto simp: read_result_def nth_append nth_file_bytes)
  then show ?thesis using m L by (intro exI [of _ m] exI [of _ fs']) (auto simp: inode_read_at_def)
qed

text \<open>A small file system on the first partition of \<^const>\<open>two_parts\<close>, with one inode of 600 bytes.\<close>

definition demo_ino :: inode where
  "demo_ino = \<lparr>sector = 0, open_cnt = 1, removed = False, deny_write_cnt = 0,
     data = \<lparr>start = 1, len = 600, magic = INODE_MAGIC, unused = []\<rparr>\<rparr>"

definition demo_fs :: fs where
  "demo_fs = devs.extend two_parts (fs.fields 1 [0 \<mapsto> demo_ino] [0] \<lparr>bit_cnt = 4, bits = [7]\<rparr> None)"

lemma demo_fs_ok: "fs_dev_ok demo_fs" "inodes demo_fs 0 = Some demo_ino" "inode_ok demo_fs demo_ino" "\<And>k. alloc_ok demo_fs k"
proof -
  have "bytes_to_sectors 600 = 2" using bytes_to_sectors_eq [of 600] by simp
  then show "fs_dev_ok demo_fs" "inodes demo_fs 0 = Some demo_ino" "inode_ok demo_fs demo_ino" "\<And>k. alloc_ok demo_fs k"
    by (simp_all add: demo_fs_def devs.defs fs.defs two_parts_def demo_ino_def fs_dev_ok_def dev_ok_def devs_ok_def block_ok_def
        less_Suc_eq writable.simps inode_ok_def fs_size_def BLOCK_SECTOR_SIZE_def)
qed

text \<open>
  \<open>inode_write_at\<close> replaces the bytes of the file from the offset on, up to the end of the file: it changes no other byte of
  the file, no other file and nothing else of the state; while writing is denied it writes nothing.
\<close>

lemma inode_write_at_eq:
  assumes "fs_dev_ok fs" "inodes fs ip = Some ino" "inode_ok fs ino" "ofs < 2 ^ 31" "n \<le> length buf"
  shows "\<exists>m fs'. inode_write_at ip buf (int n) (int ofs) fs = Some (int m, fs') \<and> frame fs fs' \<and> fs_dev_ok fs'
    \<and> file_bytes fs' ino = take ofs (file_bytes fs ino) @ take m buf @ drop (ofs + m) (file_bytes fs ino)
    \<and> (\<forall>s. s \<notin> sectors_of ino \<longrightarrow> fs_sec fs' s = fs_sec fs s)
    \<and> (\<forall>ino'. inode_ok fs ino' \<and> sectors_of ino \<inter> sectors_of ino' = {} \<longrightarrow> file_bytes fs' ino' = file_bytes fs ino')
    \<and> m \<le> min n (nat (len (data ino)) - ofs) \<and> (deny_write_cnt ino \<noteq> 0 \<longrightarrow> m = 0)
    \<and> ((\<forall>k. alloc_ok fs k) \<and> deny_write_cnt ino = 0 \<longrightarrow> m = min n (nat (len (data ino)) - ofs))"
proof (cases "deny_write_cnt ino = 0")
  case False
  then show ?thesis using assms(1,2) by (intro exI [of _ 0] exI [of _ fs]) (simp add: inode_write_at_def)
next
  case True
  obtain L where L: "len (data ino) = int L" using assms(3) by (auto simp: inode_ok_def intro: that [of "nat (len (data ino))"])
  obtain m fs' where m: "write_loop ip False buf (int n) (int ofs) (int 0) fs = Some (int (0 + m), fs')"
    "frame fs fs'" "fs_dev_ok fs'" "m \<le> n" "m \<le> L - ofs" "written_to fs ino buf 0 ofs m fs'"
    "False \<or> (\<forall>k. alloc_ok fs k) \<longrightarrow> m = min n (L - ofs)"
    using write_loop_correct [OF assms(1-3) L assms(4), of 0 n buf False] assms(5) by auto
  have "file_bytes fs' ino = take ofs (file_bytes fs ino) @ take m buf @ drop (ofs + m) (file_bytes fs ino)"
  proof (rule nth_equalityI)
    show "length (file_bytes fs' ino) = length (take ofs (file_bytes fs ino) @ take m buf @ drop (ofs + m) (file_bytes fs ino))"
      using m(4,5) assms(5) L by auto
    fix i assume "i < length (file_bytes fs' ino)"
    then have i: "i < L" by (simp add: L)
    have mb: "min (length buf) m = m" using m(4) assms(5) by simp
    have "file_bytes fs' ino ! i = (if ofs \<le> i \<and> i < ofs + m then buf ! (i - ofs) else file_bytes fs ino ! i)"
      using m(6) i L by (simp add: written_to_def nth_file_bytes)
    then show "file_bytes fs' ino ! i = (take ofs (file_bytes fs ino) @ take m buf @ drop (ofs + m) (file_bytes fs ino)) ! i"
      using i L mb by (cases "i < ofs") (auto simp: nth_append)
  qed
  moreover have out: "\<And>s. s \<notin> sectors_of ino \<Longrightarrow> fs_sec fs' s = fs_sec fs s" using m(6) by (simp add: written_to_def)
  moreover have "file_bytes fs' ino' = file_bytes fs ino'" if "inode_ok fs ino'" "sectors_of ino \<inter> sectors_of ino' = {}" for ino'
    using that out by (intro file_bytes_cong) auto
  ultimately show ?thesis using m L True assms(2) by (intro exI [of _ m] exI [of _ fs'] conjI) (simp_all add: inode_write_at_def)
qed

text \<open>
  C12: Files are lists of bytes: after \<open>inode_write_at\<close>, \<open>inode_read_at\<close> at any offset gives the bytes of the old contents
  with the bytes written at their place, cut off at the end of the file; an inode whose sectors are disjoint from it keeps
  its contents, and while writing is denied nothing is written.
\<close>

theorem inode_write_read:
  assumes fs: "fs_dev_ok fs" "inodes fs ip = Some ino" "inode_ok fs ino" "\<And>k. alloc_ok fs k"
    and w: "ofs < 2 ^ 31" "n \<le> length buf" and r: "ofs' < 2 ^ 31" "n' \<le> length buf'"
  defines "m \<equiv> if deny_write_cnt ino = 0 then min n (nat (len (data ino)) - ofs) else 0"
    and "m' \<equiv> min n' (nat (len (data ino)) - ofs')"
    and "old \<equiv> file_bytes fs ino"
  shows "\<exists>fs' fs''. inode_write_at ip buf (int n) (int ofs) fs = Some (int m, fs')
    \<and> inode_read_at ip buf' (int n') (int ofs') fs' =
        Some (int m', take m' (drop ofs' (take ofs old @ take m buf @ drop (ofs + m) old)) @ drop m' buf', fs'')
    \<and> (\<forall>ino'. inode_ok fs ino' \<and> sectors_of ino \<inter> sectors_of ino' = {} \<longrightarrow> file_bytes fs'' ino' = file_bytes fs ino')"
proof -
  obtain k fs' where k: "inode_write_at ip buf (int n) (int ofs) fs = Some (int k, fs')" "frame fs fs'" "fs_dev_ok fs'"
    "file_bytes fs' ino = take ofs old @ take k buf @ drop (ofs + k) old"
    "\<forall>ino'. inode_ok fs ino' \<and> sectors_of ino \<inter> sectors_of ino' = {} \<longrightarrow> file_bytes fs' ino' = file_bytes fs ino'"
    "deny_write_cnt ino \<noteq> 0 \<longrightarrow> k = 0" "(\<forall>k. alloc_ok fs k) \<and> deny_write_cnt ino = 0 \<longrightarrow> k = min n (nat (len (data ino)) - ofs)"
    using inode_write_at_eq [OF fs(1-3) w] unfolding old_def by blast
  have km: "k = m" using k(6,7) fs(4) by (simp add: m_def)
  note g = frame_fs [OF k(2)] and sz = frame_fs(7) [OF k(2) fs_dev_ok_device [OF fs(1)]]
  have "inodes fs' ip = Some ino" "inode_ok fs' ino" using fs(2,3) g(2) sz by (simp_all add: inode_ok_def)
  then obtain fs'' where "inode_read_at ip buf' (int n') (int ofs') fs' = Some (int m', take m' (drop ofs' (file_bytes fs' ino)) @ drop m' buf', fs'')"
      "only_read fs' fs''"
    using inode_read_at_eq [OF k(3) _ _ r, of ip ino] g(6) fs(4) by (auto simp: m'_def)
  moreover have "file_bytes fs'' ino' = file_bytes fs' ino'" for ino'
    using only_read_fs(5) [OF \<open>only_read fs' fs''\<close> k(3)] by (simp add: file_bytes_def)
  ultimately show ?thesis using k(1,4,5) unfolding km by (intro exI [of _ fs'] exI [of _ fs'']) simp
qed

theorem inode_write_read_witness:
  "\<exists>fs' fs''. inode_write_at 0 (replicate 200 9) 200 500 demo_fs = Some (100, fs')
     \<and> inode_read_at 0 (replicate 50 1) 50 500 fs' = Some (50, replicate 50 9, fs'')"
proof -
  have "nat (len (data demo_ino)) = 600" "deny_write_cnt demo_ino = 0" by (simp_all add: demo_ino_def)
  then show ?thesis
    using inode_write_read [OF demo_fs_ok, of 500 200 "replicate 200 9" 500 50 "replicate 50 1"] by (auto simp: take_replicate)
qed

end
