(* ===== verification/Free_Map.thy ===== *)
theory Free_Map
  imports Inode
begin

text \<open>
  \<open>filesys/free-map.c\<close>, the rest of \<open>filesys/inode.c\<close> and \<open>filesys/file.c\<close>.  The free map, the inodes and the files call each
  other: the free map is kept in a file, and creating or removing an inode changes the free map.
\<close>

section \<open>Positions in files\<close>

text \<open>A file operation on a null pointer is a fault.  \<open>file_open\<close> and the others are below.\<close>

definition file_read_at :: "open_file \<Rightarrow> byte list \<Rightarrow> int \<Rightarrow> int \<Rightarrow> fs \<Rightarrow> (int \<times> byte list \<times> fs) option" where
  "file_read_at f buffer sz file_ofs fs = do { ip \<leftarrow> file_inode f; inode_read_at ip buffer sz file_ofs fs }"

definition file_write_at :: "open_file \<Rightarrow> byte list \<Rightarrow> int \<Rightarrow> int \<Rightarrow> fs \<Rightarrow> (int \<times> fs) option" where
  "file_write_at f buffer sz file_ofs fs = do { ip \<leftarrow> file_inode f; inode_write_at ip buffer sz file_ofs fs }"

section \<open>The bitmap in its file\<close>

definition elems_bytes :: "32 word list \<Rightarrow> byte list" where
  "elems_bytes ws = concat (map (\<lambda>w. le_bytes 4 (unat w)) ws)"

fun bytes_elems :: "byte list \<Rightarrow> 32 word list" where
  "bytes_elems (a # b # c # d # bs) = of_nat (le_nat [a, b, c, d]) # bytes_elems bs" |
  "bytes_elems bs = []"

definition bitmap_write_file :: "bitmap \<Rightarrow> open_file \<Rightarrow> fs \<Rightarrow> (bool \<times> fs) option" where
  "bitmap_write_file b f fs = do {
     let sz = i32 (int (byte_cnt (bit_cnt b)));
     (n, fs) \<leftarrow> file_write_at f (elems_bytes (bits b)) sz 0 fs;
     Some (n = sz, fs) }"

definition bitmap_read_file :: "bitmap \<Rightarrow> open_file \<Rightarrow> fs \<Rightarrow> (bool \<times> bitmap \<times> fs) option" where
  "bitmap_read_file b f fs =
     (if bit_cnt b > 0 then do {
        let sz = i32 (int (byte_cnt (bit_cnt b)));
        (n, bs, fs) \<leftarrow> file_read_at f (elems_bytes (bits b)) sz 0 fs;
        let success = (n = sz);
        let b = b\<lparr>bits := bytes_elems bs\<rparr>;
        let i = elem_cnt (bit_cnt b) - 1;
        ASSERT (i < length (bits b));
        Some (success, b\<lparr>bits := (bits b)[i := and (bits b ! i) (last_mask b)]\<rparr>, fs) }
      else Some (True, b, fs))"

section \<open>Allocation of sectors\<close>

definition FREE_MAP_SECTOR :: nat where
  "FREE_MAP_SECTOR = 0"

definition ROOT_DIR_SECTOR :: nat where
  "ROOT_DIR_SECTOR = 1"

text \<open>
  \<open>bitmap_create\<close> makes two allocations: the structure, and the elements if there are any.  \<open>garbage\<close> is what the memory of
  the elements holds.
\<close>

definition free_map_init :: "32 word list \<Rightarrow> fs \<Rightarrow> fs option" where
  "free_map_init garbage fs = do {
     n \<leftarrow> block_size (fs_device fs) fs;
     let (m1, fs) = new_obj fs;
     let (m2, fs) = (if m1 \<noteq> None then new_obj fs else (None, fs));
     b \<leftarrow> bitmap_create n (m1 \<noteq> None) (if m2 \<noteq> None \<and> byte_cnt n > 0 then Some garbage else None);
     b \<leftarrow> b;
     b \<leftarrow> bitmap_mark b FREE_MAP_SECTOR;
     b \<leftarrow> bitmap_mark b ROOT_DIR_SECTOR;
     Some (fs\<lparr>free_map := b\<rparr>) }"

definition free_map_allocate :: "nat \<Rightarrow> fs \<Rightarrow> (nat option \<times> fs) option" where
  "free_map_allocate cnt fs = do {
     (sect, b) \<leftarrow> bitmap_scan_and_flip (free_map fs) 0 cnt False;
     let fs = fs\<lparr>free_map := b\<rparr>;
     (sect, fs) \<leftarrow> (if sect \<noteq> BITMAP_ERROR then
         (case free_map_file fs of
            None \<Rightarrow> Some (sect, fs)
          | Some f \<Rightarrow> do {
              (ok, fs) \<leftarrow> bitmap_write_file (free_map fs) f fs;
              if \<not> ok then do {
                b \<leftarrow> bitmap_set_multiple (free_map fs) sect cnt False;
                Some (BITMAP_ERROR, fs\<lparr>free_map := b\<rparr>) }
              else Some (sect, fs) })
       else Some (sect, fs));
     Some (if sect \<noteq> BITMAP_ERROR then Some sect else None, fs) }"

definition free_map_release :: "nat \<Rightarrow> nat \<Rightarrow> fs \<Rightarrow> fs option" where
  "free_map_release sect cnt fs = do {
     all \<leftarrow> bitmap_all (free_map fs) sect cnt;
     ASSERT all;
     b \<leftarrow> bitmap_set_multiple (free_map fs) sect cnt False;
     let fs = fs\<lparr>free_map := b\<rparr>;
     f \<leftarrow> free_map_file fs;
     (_, fs) \<leftarrow> bitmap_write_file b f fs;
     Some fs }"

section \<open>Life of an inode\<close>

definition inode_init :: "fs \<Rightarrow> fs" where
  "inode_init fs = fs\<lparr>open_inodes := []\<rparr>"

primrec zero_sectors :: "nat \<Rightarrow> nat \<Rightarrow> fs \<Rightarrow> fs option" where
  "zero_sectors 0 s fs = Some fs" |
  "zero_sectors (Suc n) s fs = do {
     fs \<leftarrow> block_write (fs_device fs) (u32 s) (replicate 512 0) fs;
     zero_sectors n (s + 1) fs }"

definition inode_create :: "nat \<Rightarrow> int \<Rightarrow> fs \<Rightarrow> (bool \<times> fs) option" where
  "inode_create sect l fs = do {
     ASSERT (l \<ge> 0);
     let (m, fs) = new_obj fs;
     if m \<noteq> None then do {
       let sectors = bytes_to_sectors l;
       (st, fs) \<leftarrow> free_map_allocate sectors fs;
       (case st of
          None \<Rightarrow> Some (False, fs)
        | Some st \<Rightarrow> do {
            let disk_inode = \<lparr>start = st, len = l, magic = INODE_MAGIC, unused = replicate 500 0\<rparr>;
            fs \<leftarrow> block_write (fs_device fs) sect (inode_disk_bytes disk_inode) fs;
            fs \<leftarrow> zero_sectors sectors st fs;
            Some (True, fs) }) }
     else Some (False, fs) }"

definition inode_reopen :: "nat option \<Rightarrow> fs \<Rightarrow> (nat option \<times> fs) option" where
  "inode_reopen ip fs = (case ip of
     None \<Rightarrow> Some (None, fs)
   | Some a \<Rightarrow> do {
       ino \<leftarrow> inodes fs a;
       Some (Some a, fs\<lparr>inodes := (inodes fs)(a \<mapsto> ino\<lparr>open_cnt := i32 (open_cnt ino + 1)\<rparr>)\<rparr>) })"

definition inode_open :: "nat \<Rightarrow> fs \<Rightarrow> (nat option \<times> fs) option" where
  "inode_open sect fs = (case find (\<lambda>a. map_option sector (inodes fs a) = Some sect) (open_inodes fs) of
     Some a \<Rightarrow> inode_reopen (Some a) fs
   | None \<Rightarrow> (case new_obj fs of
       (None, fs) \<Rightarrow> Some (None, fs)
     | (Some a, fs) \<Rightarrow> do {
         let fs = fs\<lparr>open_inodes := a # open_inodes fs\<rparr>;
         (bs, fs) \<leftarrow> block_read (fs_device fs) sect fs;
         let ino = \<lparr>sector = sect, open_cnt = 1, removed = False, deny_write_cnt = 0, data = bytes_inode_disk bs\<rparr>;
         Some (Some a, fs\<lparr>inodes := (inodes fs)(a \<mapsto> ino)\<rparr>) }))"

definition inode_get_inumber :: "nat \<Rightarrow> fs \<Rightarrow> nat option" where
  "inode_get_inumber ip fs = do { ino \<leftarrow> inodes fs ip; Some (sector ino) }"

definition inode_close :: "nat option \<Rightarrow> fs \<Rightarrow> fs option" where
  "inode_close ip fs = (case ip of
     None \<Rightarrow> Some fs
   | Some a \<Rightarrow> do {
       ino \<leftarrow> inodes fs a;
       let ino = ino\<lparr>open_cnt := i32 (open_cnt ino - 1)\<rparr>;
       let fs = fs\<lparr>inodes := (inodes fs)(a \<mapsto> ino)\<rparr>;
       if open_cnt ino = 0 then do {
         let fs = fs\<lparr>open_inodes := remove1 a (open_inodes fs)\<rparr>;
         fs \<leftarrow> (if removed ino then do {
             fs \<leftarrow> free_map_release (sector ino) 1 fs;
             free_map_release (start (data ino)) (bytes_to_sectors (len (data ino))) fs }
           else Some fs);
         Some (fs\<lparr>inodes := (inodes fs)(a := None)\<rparr>) }
       else Some fs })"

definition inode_remove :: "nat \<Rightarrow> fs \<Rightarrow> fs option" where
  "inode_remove ip fs = do {
     ino \<leftarrow> inodes fs ip;
     Some (fs\<lparr>inodes := (inodes fs)(ip \<mapsto> ino\<lparr>removed := True\<rparr>)\<rparr>) }"

section \<open>Files\<close>

definition file_open :: "nat option \<Rightarrow> fs \<Rightarrow> (open_file option \<times> fs) option" where
  "file_open ip fs = do {
     let (m, fs) = new_obj fs;
     if ip \<noteq> None \<and> m \<noteq> None then Some (Some \<lparr>file_inode = ip, file_pos = 0, deny_write = False\<rparr>, fs)
     else do { fs \<leftarrow> inode_close ip fs; Some (None, fs) } }"

definition file_reopen :: "open_file \<Rightarrow> fs \<Rightarrow> (open_file option \<times> fs) option" where
  "file_reopen f fs = do { (ip, fs) \<leftarrow> inode_reopen (file_inode f) fs; file_open ip fs }"

definition file_deny_write :: "open_file \<Rightarrow> fs \<Rightarrow> (open_file \<times> fs) option" where
  "file_deny_write f fs = (if \<not> deny_write f then do {
       ip \<leftarrow> file_inode f;
       fs \<leftarrow> inode_deny_write ip fs;
       Some (f\<lparr>deny_write := True\<rparr>, fs) }
     else Some (f, fs))"

definition file_allow_write :: "open_file \<Rightarrow> fs \<Rightarrow> (open_file \<times> fs) option" where
  "file_allow_write f fs = (if deny_write f then do {
       ip \<leftarrow> file_inode f;
       fs \<leftarrow> inode_allow_write ip fs;
       Some (f\<lparr>deny_write := False\<rparr>, fs) }
     else Some (f, fs))"

definition file_close :: "open_file option \<Rightarrow> fs \<Rightarrow> fs option" where
  "file_close fo fs = (case fo of
     None \<Rightarrow> Some fs
   | Some f \<Rightarrow> do {
       (f, fs) \<leftarrow> file_allow_write f fs;
       inode_close (file_inode f) fs })"

definition file_get_inode :: "open_file \<Rightarrow> nat option" where
  "file_get_inode f = file_inode f"

definition file_read :: "open_file \<Rightarrow> byte list \<Rightarrow> int \<Rightarrow> fs \<Rightarrow> (int \<times> byte list \<times> open_file \<times> fs) option" where
  "file_read f buffer sz fs = do {
     ip \<leftarrow> file_inode f;
     (bytes_read, buffer, fs) \<leftarrow> inode_read_at ip buffer sz (file_pos f) fs;
     Some (bytes_read, buffer, f\<lparr>file_pos := i32 (file_pos f + bytes_read)\<rparr>, fs) }"

definition file_write :: "open_file \<Rightarrow> byte list \<Rightarrow> int \<Rightarrow> fs \<Rightarrow> (int \<times> open_file \<times> fs) option" where
  "file_write f buffer sz fs = do {
     ip \<leftarrow> file_inode f;
     (bytes_written, fs) \<leftarrow> inode_write_at ip buffer sz (file_pos f) fs;
     Some (bytes_written, f\<lparr>file_pos := i32 (file_pos f + bytes_written)\<rparr>, fs) }"

definition file_length :: "open_file \<Rightarrow> fs \<Rightarrow> int option" where
  "file_length f fs = do { ip \<leftarrow> file_inode f; inode_length ip fs }"

definition file_seek :: "open_file \<Rightarrow> int \<Rightarrow> open_file option" where
  "file_seek f new_pos = do { ASSERT (new_pos \<ge> 0); Some (f\<lparr>file_pos := new_pos\<rparr>) }"

definition file_tell :: "open_file \<Rightarrow> int" where
  "file_tell f = file_pos f"

section \<open>The free map file\<close>

definition free_map_open :: "fs \<Rightarrow> fs option" where
  "free_map_open fs = do {
     (ip, fs) \<leftarrow> inode_open FREE_MAP_SECTOR fs;
     (f, fs) \<leftarrow> file_open ip fs;
     let fs = fs\<lparr>free_map_file := f\<rparr>;
     f \<leftarrow> f;
     (ok, b, fs) \<leftarrow> bitmap_read_file (free_map fs) f fs;
     ASSERT ok;
     Some (fs\<lparr>free_map := b\<rparr>) }"

definition free_map_close :: "fs \<Rightarrow> fs option" where
  "free_map_close fs = file_close (free_map_file fs) fs"

definition free_map_create :: "fs \<Rightarrow> fs option" where
  "free_map_create fs = do {
     (ok, fs) \<leftarrow> inode_create FREE_MAP_SECTOR (i32 (int (bitmap_file_size (free_map fs)))) fs;
     ASSERT ok;
     (ip, fs) \<leftarrow> inode_open FREE_MAP_SECTOR fs;
     (f, fs) \<leftarrow> file_open ip fs;
     let fs = fs\<lparr>free_map_file := f\<rparr>;
     f \<leftarrow> f;
     (ok, fs) \<leftarrow> bitmap_write_file (free_map fs) f fs;
     ASSERT ok;
     Some fs }"

end
