(* ===== verification/Directory.thy ===== *)
theory Directory
  imports Free_Map
begin

text \<open>
  \<open>filesys/directory.c\<close> and \<open>filesys/filesys.c\<close>.  A directory is a file of entries of 20 bytes: the sector of an inode, a name
  of at most 14 characters with its terminator, and a flag.  File names are lists of bytes other than zero.
\<close>

section \<open>Entries\<close>

definition NAME_MAX :: nat where
  "NAME_MAX = 14"

record dir =
  dir_inode :: "nat option"
  dir_pos :: int

definition entry_sector :: "byte list \<Rightarrow> nat" where
  "entry_sector e = le_nat (take 4 e)"

definition entry_in_use :: "byte list \<Rightarrow> bool" where
  "entry_in_use e \<longleftrightarrow> e ! 19 \<noteq> 0"

text \<open>\<open>!strcmp (name, s)\<close> for the bytes \<open>s\<close> in memory; running off their end is a fault.\<close>

fun streq :: "byte list \<Rightarrow> byte list \<Rightarrow> bool option" where
  "streq (c # cs) (b # bs) = (if c = b then streq cs bs else Some False)" |
  "streq [] (b # bs) = Some (b = 0)" |
  "streq _ [] = None"

text \<open>The string at the start of \<open>s\<close>.\<close>

definition cstr :: "byte list \<Rightarrow> byte list" where
  "cstr s = takeWhile (\<lambda>b. b \<noteq> 0) s"

section \<open>Directories\<close>

definition dir_create :: "nat \<Rightarrow> nat \<Rightarrow> fs \<Rightarrow> (bool \<times> fs) option" where
  "dir_create sect entry_cnt fs = inode_create sect (i32 (int (u32 (entry_cnt * 20)))) fs"

definition dir_open :: "nat option \<Rightarrow> fs \<Rightarrow> (dir option \<times> fs) option" where
  "dir_open ip fs = do {
     let (m, fs) = new_obj fs;
     if ip \<noteq> None \<and> m \<noteq> None then Some (Some \<lparr>dir_inode = ip, dir_pos = 0\<rparr>, fs)
     else do { fs \<leftarrow> inode_close ip fs; Some (None, fs) } }"

definition dir_open_root :: "fs \<Rightarrow> (dir option \<times> fs) option" where
  "dir_open_root fs = do { (ip, fs) \<leftarrow> inode_open ROOT_DIR_SECTOR fs; dir_open ip fs }"

definition dir_reopen :: "dir \<Rightarrow> fs \<Rightarrow> (dir option \<times> fs) option" where
  "dir_reopen d fs = do { (ip, fs) \<leftarrow> inode_reopen (dir_inode d) fs; dir_open ip fs }"

definition dir_close :: "dir option \<Rightarrow> fs \<Rightarrow> fs option" where
  "dir_close d fs = (case d of None \<Rightarrow> Some fs | Some d \<Rightarrow> inode_close (dir_inode d) fs)"

definition dir_get_inode :: "dir \<Rightarrow> nat option" where
  "dir_get_inode d = dir_inode d"

text \<open>The loop of \<open>lookup\<close>; the entry is overwritten by every read that is looked at.\<close>

partial_function (option) lookup_loop :: "nat \<Rightarrow> byte list \<Rightarrow> byte list \<Rightarrow> nat \<Rightarrow> fs \<Rightarrow> ((byte list \<times> nat) option \<times> fs) option" where
  "lookup_loop ip name e ofs fs = do {
     (n, e, fs) \<leftarrow> inode_read_at ip e 20 (i32 (int ofs)) fs;
     if n = 20 then
       (if entry_in_use e then do {
          eq \<leftarrow> streq name (drop 4 e);
          if eq then Some (Some (e, ofs), fs) else lookup_loop ip name e (u32 (ofs + 20)) fs }
        else lookup_loop ip name e (u32 (ofs + 20)) fs)
     else Some (None, fs) }"

definition lookup :: "dir \<Rightarrow> byte list \<Rightarrow> fs \<Rightarrow> ((byte list \<times> nat) option \<times> fs) option" where
  "lookup d name fs = do { ip \<leftarrow> dir_inode d; lookup_loop ip name (replicate 20 0) 0 fs }"

definition dir_lookup :: "dir \<Rightarrow> byte list \<Rightarrow> fs \<Rightarrow> (nat option \<times> fs) option" where
  "dir_lookup d name fs = do {
     (r, fs) \<leftarrow> lookup d name fs;
     (case r of Some (e, _) \<Rightarrow> inode_open (entry_sector e) fs | None \<Rightarrow> Some (None, fs)) }"

text \<open>The search for a free slot of \<open>dir_add\<close>: the entry that was read last stays in the buffer.\<close>

partial_function (option) slot_loop :: "nat \<Rightarrow> byte list \<Rightarrow> int \<Rightarrow> fs \<Rightarrow> (byte list \<times> int \<times> fs) option" where
  "slot_loop ip e ofs fs = do {
     (n, e, fs) \<leftarrow> inode_read_at ip e 20 ofs fs;
     if n = 20 then
       (if \<not> entry_in_use e then Some (e, ofs, fs) else slot_loop ip e (i32 (ofs + 20)) fs)
     else Some (e, ofs, fs) }"

text \<open>\<open>garbage\<close> is what the memory of the entry on the stack holds.\<close>

definition dir_add :: "byte list \<Rightarrow> dir \<Rightarrow> byte list \<Rightarrow> nat \<Rightarrow> fs \<Rightarrow> (bool \<times> fs) option" where
  "dir_add garbage d name inode_sector fs =
     (if name = [] \<or> length name > NAME_MAX then Some (False, fs)
      else do {
        (r, fs) \<leftarrow> lookup d name fs;
        if r \<noteq> None then Some (False, fs)
        else do {
          ip \<leftarrow> dir_inode d;
          (e, ofs, fs) \<leftarrow> slot_loop ip garbage 0 fs;
          e \<leftarrow> patch e 19 [1];
          e \<leftarrow> patch e 4 (take NAME_MAX name @ [0]);
          e \<leftarrow> patch e 0 (le_bytes 4 inode_sector);
          (n, fs) \<leftarrow> inode_write_at ip e 20 ofs fs;
          Some (n = 20, fs) } })"

definition dir_remove :: "dir \<Rightarrow> byte list \<Rightarrow> fs \<Rightarrow> (bool \<times> fs) option" where
  "dir_remove d name fs = do {
     (r, fs) \<leftarrow> lookup d name fs;
     (case r of
        None \<Rightarrow> do { fs \<leftarrow> inode_close None fs; Some (False, fs) }
      | Some (e, ofs) \<Rightarrow> do {
          (ino, fs) \<leftarrow> inode_open (entry_sector e) fs;
          (case ino of
             None \<Rightarrow> do { fs \<leftarrow> inode_close None fs; Some (False, fs) }
           | Some a \<Rightarrow> do {
               e \<leftarrow> patch e 19 [0];
               ip \<leftarrow> dir_inode d;
               (n, fs) \<leftarrow> inode_write_at ip e 20 (i32 (int ofs)) fs;
               if n \<noteq> 20 then do { fs \<leftarrow> inode_close (Some a) fs; Some (False, fs) }
               else do {
                 fs \<leftarrow> inode_remove a fs;
                 fs \<leftarrow> inode_close (Some a) fs;
                 Some (True, fs) } }) }) }"

text \<open>The result of \<open>dir_readdir\<close> is the name that was stored, if any.\<close>

partial_function (option) dir_readdir :: "dir \<Rightarrow> fs \<Rightarrow> (byte list option \<times> dir \<times> fs) option" where
  "dir_readdir d fs = do {
     ip \<leftarrow> dir_inode d;
     (n, e, fs) \<leftarrow> inode_read_at ip (replicate 20 0) 20 (dir_pos d) fs;
     if n = 20 then do {
       let d = d\<lparr>dir_pos := i32 (dir_pos d + 20)\<rparr>;
       if entry_in_use e then Some (Some (take NAME_MAX (cstr (drop 4 e))), d, fs) else dir_readdir d fs }
     else Some (None, d, fs) }"

section \<open>The file system\<close>

definition do_format :: "fs \<Rightarrow> fs option" where
  "do_format fs = do {
     let fs = print_msg ''Formatting file system...'' [] fs;
     fs \<leftarrow> free_map_create fs;
     (ok, fs) \<leftarrow> dir_create ROOT_DIR_SECTOR 16 fs;
     ASSERT ok;
     fs \<leftarrow> free_map_close fs;
     Some (print_msg (''done.'' @ newline) [] fs) }"

definition filesys_init :: "32 word list \<Rightarrow> bool \<Rightarrow> fs \<Rightarrow> fs option" where
  "filesys_init garbage format fs = do {
     r \<leftarrow> block_get_role BLOCK_FILESYS fs;
     dev \<leftarrow> r;
     let fs = fs\<lparr>fs_device := dev\<rparr>;
     let fs = inode_init fs;
     fs \<leftarrow> free_map_init garbage fs;
     fs \<leftarrow> (if format then do_format fs else Some fs);
     free_map_open fs }"

definition filesys_done :: "fs \<Rightarrow> fs option" where
  "filesys_done fs = free_map_close fs"

text \<open>
  The conjunction of \<open>filesys_create\<close>: each step is made only when those before it succeeded.  \<open>sect\<close> is the sector in
  \<open>inode_sector\<close>, 0 until one has been allocated.
\<close>

definition create_steps :: "byte list \<Rightarrow> dir option \<Rightarrow> byte list \<Rightarrow> int \<Rightarrow> fs \<Rightarrow> (bool \<times> nat \<times> fs) option" where
  "create_steps garbage d name initial_size fs = (case d of
     None \<Rightarrow> Some (False, 0, fs)
   | Some d \<Rightarrow> do {
       (r, fs) \<leftarrow> free_map_allocate 1 fs;
       (case r of
          None \<Rightarrow> Some (False, 0, fs)
        | Some sect \<Rightarrow> do {
            (ok, fs) \<leftarrow> inode_create sect initial_size fs;
            if \<not> ok then Some (False, sect, fs)
            else do {
              (ok, fs) \<leftarrow> dir_add garbage d name sect fs;
              Some (ok, sect, fs) } }) })"

definition filesys_create :: "byte list \<Rightarrow> byte list \<Rightarrow> int \<Rightarrow> fs \<Rightarrow> (bool \<times> fs) option" where
  "filesys_create garbage name initial_size fs = do {
     (d, fs) \<leftarrow> dir_open_root fs;
     (success, sect, fs) \<leftarrow> create_steps garbage d name initial_size fs;
     fs \<leftarrow> (if \<not> success \<and> sect \<noteq> 0 then free_map_release sect 1 fs else Some fs);
     fs \<leftarrow> dir_close d fs;
     Some (success, fs) }"

definition filesys_open :: "byte list \<Rightarrow> fs \<Rightarrow> (open_file option \<times> fs) option" where
  "filesys_open name fs = do {
     (d, fs) \<leftarrow> dir_open_root fs;
     (ip, fs) \<leftarrow> (case d of None \<Rightarrow> Some (None, fs) | Some d \<Rightarrow> dir_lookup d name fs);
     fs \<leftarrow> dir_close d fs;
     file_open ip fs }"

definition filesys_remove :: "byte list \<Rightarrow> fs \<Rightarrow> (bool \<times> fs) option" where
  "filesys_remove name fs = do {
     (d, fs) \<leftarrow> dir_open_root fs;
     (success, fs) \<leftarrow> (case d of None \<Rightarrow> Some (False, fs) | Some d \<Rightarrow> dir_remove d name fs);
     fs \<leftarrow> dir_close d fs;
     Some (success, fs) }"

end
