(* ===== verification/Dir_Map.thy ===== *)
theory Dir_Map
  imports Directory
begin

text \<open>
  Directories as maps: the entries of a directory, its lookup, and that \<open>dir_add\<close> and the erasure of an entry are updates of
  the map from names to inode sectors.
\<close>

declare length_file_bytes [simp del]

section \<open>Entries\<close>

definition entry :: "byte list \<Rightarrow> nat \<Rightarrow> byte list" where
  "entry bs i = take 20 (drop (20 * i) bs)"

definition entries :: "byte list \<Rightarrow> byte list list" where
  "entries bs = map (entry bs) [0..<length bs div 20]"

definition entry_name :: "byte list \<Rightarrow> byte list" where
  "entry_name e = cstr (drop 4 e)"

text \<open>Every name that is in use is terminated, and no name is used twice.\<close>

definition entries_ok :: "byte list list \<Rightarrow> bool" where
  "entries_ok es \<longleftrightarrow> (\<forall>e \<in> set es. entry_in_use e \<longrightarrow> 0 \<in> set (take 15 (drop 4 e))) \<and>
     (\<forall>i < length es. \<forall>j < length es. i \<noteq> j \<and> entry_in_use (es ! i) \<and> entry_in_use (es ! j) \<longrightarrow> entry_name (es ! i) \<noteq> entry_name (es ! j))"

definition matches :: "byte list \<Rightarrow> byte list \<Rightarrow> bool" where
  "matches name e \<longleftrightarrow> entry_in_use e \<and> entry_name e = name"

text \<open>The map that a directory stands for.\<close>

definition dir_view :: "byte list list \<Rightarrow> byte list \<Rightarrow> nat option" where
  "dir_view es name = map_option entry_sector (find (matches name) es)"

lemma dir_view_iff:
  assumes "entries_ok es"
  shows "dir_view es name = Some s \<longleftrightarrow> (\<exists>i < length es. matches name (es ! i) \<and> entry_sector (es ! i) = s)"
proof
  assume "dir_view es name = Some s"
  then show "\<exists>i < length es. matches name (es ! i) \<and> entry_sector (es ! i) = s"
    by (auto simp: dir_view_def find_Some_iff)
next
  assume "\<exists>i < length es. matches name (es ! i) \<and> entry_sector (es ! i) = s"
  then obtain i where i: "i < length es" "matches name (es ! i)" "entry_sector (es ! i) = s" by blast
  moreover have "\<not> matches name (es ! j)" if "j < i" for j
    using assms i(1,2) that by (auto simp: entries_ok_def matches_def)
  ultimately have "find (matches name) es = Some (es ! i)" by (auto simp: find_Some_iff)
  then show "dir_view es name = Some s" using i(3) by (simp add: dir_view_def)
qed

lemma dir_view_None: "dir_view es name = None \<longleftrightarrow> (\<forall>i < length es. \<not> matches name (es ! i))"
  by (auto simp: dir_view_def find_None_iff in_set_conv_nth)

lemma length_entries [simp]: "length (entries bs) = length bs div 20"
  by (simp add: entries_def)

lemma nth_entries: "i < length bs div 20 \<Longrightarrow> entries bs ! i = entry bs i"
  by (simp add: entries_def)

lemma length_entry: "20 * i + 20 \<le> length bs \<Longrightarrow> length (entry bs i) = 20"
  by (simp add: entry_def)

lemma entry_in: "i < length bs div 20 \<longleftrightarrow> 20 * i + 20 \<le> length (bs :: byte list)"
  by (simp add: less_eq_div_iff_mult_less_eq [of 20] flip: Suc_le_eq) linarith

lemma streq_eq: "0 \<notin> set name \<Longrightarrow> 0 \<in> set bs \<Longrightarrow> streq name bs = Some (cstr bs = name)"
proof (induction name bs rule: streq.induct)
  case (1 c cs b bs)
  then show ?case by (auto simp: cstr_def)
qed (auto simp: cstr_def)

definition dir_state :: "fs \<Rightarrow> nat \<Rightarrow> inode \<Rightarrow> bool" where
  "dir_state fs ip ino \<longleftrightarrow> fs_dev_ok fs \<and> inodes fs ip = Some ino \<and> inode_ok fs ino \<and> (\<forall>k. alloc_ok fs k)"

lemma dir_state_only_read:
  assumes "dir_state fs ip ino" "only_read fs fs'"
  shows "dir_state fs' ip ino" "file_bytes fs' ino = file_bytes fs ino"
  using assms only_read_fs [OF assms(2)] frame_fs(6) [of fs fs']
  by (auto simp: dir_state_def inode_ok_def file_bytes_def only_read_def)

lemma dir_state_len: "dir_state fs ip ino \<Longrightarrow> length (file_bytes fs ino) < 2 ^ 31 - 512"
  by (auto simp: dir_state_def inode_ok_def length_file_bytes)

text \<open>Reading the entry at position \<open>i\<close>, or past the last entry.\<close>

lemma read_entry:
  assumes "dir_state fs ip ino" "length e = 20" "20 * i < 2 ^ 31"
  shows "20 * i + 20 \<le> length (file_bytes fs ino) \<Longrightarrow>
      \<exists>fs'. inode_read_at ip e 20 (int (20 * i)) fs = Some (20, entry (file_bytes fs ino) i, fs') \<and> only_read fs fs'"
    and "length (file_bytes fs ino) < 20 * i + 20 \<Longrightarrow>
      \<exists>n e' fs'. inode_read_at ip e 20 (int (20 * i)) fs = Some (n, e', fs') \<and> n \<noteq> 20 \<and> length e' = 20 \<and> only_read fs fs'"
proof -
  obtain m fs' where m: "inode_read_at ip e (int 20) (int (20 * i)) fs = Some (int m, take m (drop (20 * i) (file_bytes fs ino)) @ drop m e, fs')"
    "only_read fs fs'" "m = min 20 (length (file_bytes fs ino) - 20 * i)"
    using inode_read_at_eq [of fs ip ino "20 * i" 20 e] assms by (auto simp: dir_state_def length_file_bytes)
  { assume "20 * i + 20 \<le> length (file_bytes fs ino)"
    then have "m = 20" using m(3) by simp
    then show "\<exists>fs'. inode_read_at ip e 20 (int (20 * i)) fs = Some (20, entry (file_bytes fs ino) i, fs') \<and> only_read fs fs'"
      using m(1,2) assms(2) by (auto simp: entry_def) }
  { assume "length (file_bytes fs ino) < 20 * i + 20"
    then have "m < 20" "m \<le> length (file_bytes fs ino) - 20 * i" using m(3) by linarith+
    then show "\<exists>n e' fs'. inode_read_at ip e 20 (int (20 * i)) fs = Some (n, e', fs') \<and> n \<noteq> 20 \<and> length e' = 20 \<and> only_read fs fs'"
      using m(1,2) assms(2) by auto }
qed

section \<open>Lookup\<close>

lemma lookup_loop_eq:
  assumes "dir_state fs ip ino" "0 \<notin> set name" "entries_ok (entries (file_bytes fs ino))" "length e = 20" "i \<le> length (file_bytes fs ino) div 20"
  shows "\<exists>fs'. lookup_loop ip name e (20 * i) fs =
      Some (map_option (\<lambda>j. (entry (file_bytes fs ino) j, 20 * j))
        (find (\<lambda>j. matches name (entry (file_bytes fs ino) j)) [i..<length (file_bytes fs ino) div 20]), fs') \<and> only_read fs fs'"
  using assms
proof (induction "length (file_bytes fs ino) div 20 - i" arbitrary: i e fs)
  case 0
  let ?bs = "file_bytes fs ino"
  have i: "i = length ?bs div 20" using 0 by simp
  then have "20 * i \<le> length ?bs" by simp
  then have lt: "length ?bs < 20 * i + 20" "20 * i < 2 ^ 31" using i dir_state_len [OF 0(2)] entry_in [of i ?bs] by linarith+
  obtain n e' fs' where "inode_read_at ip e 20 (int (20 * i)) fs = Some (n, e', fs')" "n \<noteq> 20" "only_read fs fs'"
    using read_entry(2) [OF 0(2,5) lt(2,1)] by blast
  then show ?case using i lt(2) by (subst lookup_loop.simps) (simp add: i32_id)
next
  case (Suc k)
  let ?bs = "file_bytes fs ino" let ?e = "entry (file_bytes fs ino) i"
  have i: "i < length ?bs div 20" using Suc.hyps(2) by simp
  then have le: "20 * i + 20 \<le> length ?bs" by (simp add: entry_in)
  then have lt: "20 * i < 2 ^ 31" "20 * i + 20 < 2 ^ 31" using dir_state_len [OF Suc.prems(1)] by linarith+
  obtain fs1 where r: "inode_read_at ip e 20 (int (20 * i)) fs = Some (20, ?e, fs1)" "only_read fs fs1"
    using read_entry(1) [OF Suc.prems(1,4) lt(1) le] by blast
  note st = dir_state_only_read [OF Suc.prems(1) r(2)]
  have up: "[i..<length ?bs div 20] = i # [Suc i..<length ?bs div 20]" using i by (simp add: upt_rec)
  have nm: "entry_in_use ?e \<Longrightarrow> streq name (drop 4 ?e) = Some (entry_name ?e = name)"
  proof -
    assume "entry_in_use ?e"
    moreover have "?e \<in> set (entries ?bs)" using i by (auto simp: entries_def)
    ultimately have "0 \<in> set (drop 4 ?e)" using Suc.prems(3) set_take_subset by (fastforce simp: entries_ok_def)
    then show ?thesis using streq_eq [OF Suc.prems(2)] by (simp add: entry_name_def)
  qed
  have ofs: "u32 (20 * i + 20) = 20 * Suc i" using lt(2) by (simp add: u32_id)
  have k: "k = length (file_bytes fs1 ino) div 20 - Suc i" using Suc.hyps(2) st(2) by simp
  obtain fs2 where "lookup_loop ip name ?e (20 * Suc i) fs1 =
      Some (map_option (\<lambda>j. (entry (file_bytes fs1 ino) j, 20 * j))
        (find (\<lambda>j. matches name (entry (file_bytes fs1 ino) j)) [Suc i..<length (file_bytes fs1 ino) div 20]), fs2)" "only_read fs1 fs2"
    using Suc.hyps(1) [OF k st(1) Suc.prems(2), of ?e] st(2) Suc.prems(3) i length_entry [OF le] by auto
  then have rest: "lookup_loop ip name ?e (20 * Suc i) fs1 =
      Some (map_option (\<lambda>j. (entry ?bs j, 20 * j)) (find (\<lambda>j. matches name (entry ?bs j)) [Suc i..<length ?bs div 20]), fs2)" "only_read fs fs2"
    using st(2) only_read_trans [OF r(2)] by simp_all
  show ?case
  proof (cases "matches name ?e")
    case True
    then show ?thesis using r up nm lt(1) by (subst lookup_loop.simps) (simp add: i32_id matches_def)
  next
    case False
    then show ?thesis using r(1) up nm lt(1) ofs rest
      by (subst lookup_loop.simps) (auto simp: i32_id matches_def add.commute [of 20])
  qed
qed

text \<open>\<open>lookup\<close> finds the entry of a name, and its sector is the one in the map.\<close>

lemma lookup_eq:
  assumes st: "dir_state fs ip ino" and d: "dir_inode d = Some ip" "0 \<notin> set name" "entries_ok (entries (file_bytes fs ino))"
  shows "\<exists>r fs'. lookup d name fs = Some (r, fs') \<and> only_read fs fs'
    \<and> map_option (entry_sector \<circ> fst) r = dir_view (entries (file_bytes fs ino)) name
    \<and> (\<forall>e ofs. r = Some (e, ofs) \<longrightarrow> (\<exists>i < length (entries (file_bytes fs ino)). e = entries (file_bytes fs ino) ! i \<and> ofs = 20 * i \<and> matches name e))"
proof -
  let ?bs = "file_bytes fs ino"
  let ?f = "find (\<lambda>j. matches name (entry ?bs j)) [0..<length ?bs div 20]"
  obtain fs' where fs': "lookup_loop ip name (replicate 20 0) (20 * 0) fs = Some (map_option (\<lambda>j. (entry ?bs j, 20 * j)) ?f, fs')" "only_read fs fs'"
    using lookup_loop_eq [OF st d(2,3), of "replicate 20 0" 0] by auto
  have view: "map_option (entry_sector \<circ> fst) (map_option (\<lambda>j. (entry ?bs j, 20 * j)) ?f) = dir_view (entries ?bs) name"
  proof (cases ?f)
    case None
    then have "dir_view (entries ?bs) name = None" by (auto simp: dir_view_None find_None_iff nth_entries)
    then show ?thesis using None by simp
  next
    case (Some i)
    then have "i < length ?bs div 20" "matches name (entry ?bs i)" by (auto simp: find_Some_iff)
    then have "dir_view (entries ?bs) name = Some (entry_sector (entry ?bs i))"
      using d(3) nth_entries by (auto simp: dir_view_iff)
    then show ?thesis using Some by simp
  qed
  have "\<exists>i < length (entries ?bs). e = entries ?bs ! i \<and> ofs = 20 * i \<and> matches name e"
    if "map_option (\<lambda>j. (entry ?bs j, 20 * j)) ?f = Some (e, ofs)" for e ofs
    using that by (auto simp: find_Some_iff nth_entries)
  then show ?thesis using fs' view d(1) by (auto simp: lookup_def)
qed

section \<open>Adding an entry\<close>

lemma slot_loop_eq:
  assumes "dir_state fs ip ino" "length e = 20" "i \<le> length (file_bytes fs ino) div 20"
  shows "\<exists>e' j fs'. slot_loop ip e (int (20 * i)) fs = Some (e', int (20 * j), fs') \<and> only_read fs fs' \<and> length e' = 20
    \<and> i \<le> j \<and> j \<le> length (file_bytes fs ino) div 20 \<and> (\<forall>k. i \<le> k \<and> k < j \<longrightarrow> entry_in_use (entry (file_bytes fs ino) k))
    \<and> (j < length (file_bytes fs ino) div 20 \<longrightarrow> \<not> entry_in_use (entry (file_bytes fs ino) j))"
  using assms
proof (induction "length (file_bytes fs ino) div 20 - i" arbitrary: i e fs)
  case 0
  let ?bs = "file_bytes fs ino"
  have i: "i = length ?bs div 20" using 0 by simp
  then have "20 * i \<le> length ?bs" by simp
  then have lt: "length ?bs < 20 * i + 20" "20 * i < 2 ^ 31" using i dir_state_len [OF 0(2)] entry_in [of i ?bs] by linarith+
  obtain n e' fs' where "inode_read_at ip e 20 (int (20 * i)) fs = Some (n, e', fs')" "n \<noteq> 20" "length e' = 20" "only_read fs fs'"
    using read_entry(2) [OF 0(2,3) lt(2,1)] by blast
  then show ?case using i by (subst slot_loop.simps) (intro exI [of _ e'] exI [of _ i] exI [of _ fs'], auto)
next
  case (Suc k)
  let ?bs = "file_bytes fs ino" let ?e = "entry (file_bytes fs ino) i"
  have i: "i < length ?bs div 20" using Suc.hyps(2) by simp
  then have le: "20 * i + 20 \<le> length ?bs" by (simp add: entry_in)
  then have lt: "20 * i < 2 ^ 31" "20 * i + 20 < 2 ^ 31" using dir_state_len [OF Suc.prems(1)] by linarith+
  obtain fs1 where r: "inode_read_at ip e 20 (int (20 * i)) fs = Some (20, ?e, fs1)" "only_read fs fs1"
    using read_entry(1) [OF Suc.prems(1,2) lt(1) le] by blast
  note st = dir_state_only_read [OF Suc.prems(1) r(2)]
  show ?case
  proof (cases "entry_in_use ?e")
    case False
    then show ?thesis using r i length_entry [OF le] by (subst slot_loop.simps) (intro exI [of _ ?e] exI [of _ i] exI [of _ fs1], auto)
  next
    case True
    have k: "k = length (file_bytes fs1 ino) div 20 - Suc i" using Suc.hyps(2) st(2) by simp
    obtain e' j fs2 where n: "slot_loop ip ?e (int (20 * Suc i)) fs1 = Some (e', int (20 * j), fs2)" "only_read fs1 fs2" "length e' = 20"
      "Suc i \<le> j" "j \<le> length ?bs div 20" "\<forall>k. Suc i \<le> k \<and> k < j \<longrightarrow> entry_in_use (entry ?bs k)"
      "j < length ?bs div 20 \<longrightarrow> \<not> entry_in_use (entry ?bs j)"
      using Suc.hyps(1) [OF k st(1), of ?e] st(2) i length_entry [OF le] by auto
    have ofs: "i32 (int (20 * i) + 20) = int (20 * Suc i)" using lt(2) by (simp add: i32_id)
    have "slot_loop ip e (int (20 * i)) fs = Some (e', int (20 * j), fs2)"
      using r(1) True n(1) unfolding ofs [symmetric] by (subst slot_loop.simps) simp
    moreover have "\<forall>k. i \<le> k \<and> k < j \<longrightarrow> entry_in_use (entry ?bs k)" using n(6) True by (metis Suc_leI le_neq_implies_less)
    ultimately show ?thesis using n only_read_trans [OF r(2) n(2)] by (intro exI [of _ e'] exI [of _ j] exI [of _ fs2]) simp
  qed
qed

lemma length_le_bytes [simp]: "length (le_bytes k n) = k"
  by (induction k arbitrary: n) simp_all

lemma le_nat_le_bytes: "le_nat (le_bytes k n) = n mod 256 ^ k"
proof (induction k arbitrary: n)
  case (Suc k)
  have "unat (of_nat (n mod 256) :: byte) = n mod 256" by (simp add: unat_of_nat take_bit_eq_mod)
  then show ?case using Suc by (simp add: mod_mult2_eq [of n 256 "256 ^ k"])
qed simp

text \<open>The entry that \<open>dir_add\<close> writes over what is in the buffer.\<close>

definition new_entry :: "byte list \<Rightarrow> byte list \<Rightarrow> nat \<Rightarrow> byte list" where
  "new_entry e name sect = put (put (put e 19 [1]) 4 (name @ [0])) 0 (le_bytes 4 sect)"

lemma new_entry_props:
  assumes "length e = 20" "length name \<le> 14" "0 \<notin> set name" "sect < 2 ^ 32"
  shows "length (new_entry e name sect) = 20" "entry_in_use (new_entry e name sect)" "entry_name (new_entry e name sect) = name"
    "entry_sector (new_entry e name sect) = sect" "0 \<in> set (take 15 (drop 4 (new_entry e name sect)))"
proof -
  define e1 where "e1 = put (put e 19 [1]) 4 (name @ [0])"
  have e1: "length e1 = 20" "e1 ! 19 = 1" using assms(1,2) by (simp_all add: e1_def nth_put)
  have "drop 4 e1 = name @ [0] @ drop (4 + length (name @ [0])) (put e 19 [1])"
    using assms(1,2) by (simp add: e1_def put_def [of _ 4] drop_append)
  then have d: "drop 4 (new_entry e name sect) = name @ [0] @ drop (4 + length (name @ [0])) (put e 19 [1])"
    by (simp add: new_entry_def e1_def [symmetric] put_def [of e1] drop_append)
  show "length (new_entry e name sect) = 20" using e1(1) by (simp add: new_entry_def e1_def [symmetric])
  show "entry_in_use (new_entry e name sect)" using e1 by (simp add: new_entry_def e1_def [symmetric] entry_in_use_def nth_put)
  show "entry_sector (new_entry e name sect) = sect"
    using assms(4) by (simp add: new_entry_def put_def [of _ 0] entry_sector_def le_nat_le_bytes)
  have "takeWhile (\<lambda>b. b \<noteq> 0) (name @ [0] @ xs) = name" for xs using assms(3) by (induction name) auto
  then show "entry_name (new_entry e name sect) = name" unfolding entry_name_def cstr_def d by simp
  show "0 \<in> set (take 15 (drop 4 (new_entry e name sect)))" unfolding d using assms(2) by (cases "15 - length name") simp_all
qed

lemma entry_patch:
  assumes "length e = 20" "length name \<le> 14"
  shows "(do { e \<leftarrow> patch e 19 [1]; e \<leftarrow> patch e 4 (take NAME_MAX name @ [0]); patch e 0 (le_bytes 4 sect) }) = Some (new_entry e name sect)"
  using assms patch_eq [of 19 "[1]" e] patch_eq [of 4 "name @ [0]" "put e 19 [1]"]
    patch_eq [of 0 "le_bytes 4 sect" "put (put e 19 [1]) 4 (name @ [0])"]
  by (simp add: NAME_MAX_def new_entry_def)

text \<open>Writing an entry replaces it; writing past the last entry changes none.\<close>

lemma entries_eqI:
  assumes "length bs' = length bs" "\<And>i. i < length bs div 20 \<Longrightarrow> entry bs' i = es ! i" "length es = length bs div 20"
  shows "entries bs' = es"
  using assms by (intro nth_equalityI) (simp_all add: nth_entries)

lemma entry_put:
  assumes "length e = 20" "20 * j + 20 \<le> length bs" "20 * i + 20 \<le> length bs"
  shows "entry (take (20 * j) bs @ e @ drop (20 * j + 20) bs) i = (if i = j then e else entry bs i)"
proof (cases i j rule: linorder_cases)
  case less
  then have "20 * i + 20 \<le> 20 * j" by simp
  then show ?thesis using assms less by (intro nth_equalityI) (auto simp: entry_def nth_append)
next
  case equal
  then show ?thesis using assms by (simp add: entry_def)
next
  case greater
  then have "20 * j + 20 \<le> 20 * i" by simp
  then show ?thesis using assms greater by (intro nth_equalityI) (auto simp: entry_def nth_append)
qed

lemma entries_put:
  assumes "length e = 20" "j < length bs div 20"
  shows "entries (take (20 * j) bs @ e @ drop (20 * j + 20) bs) = (entries bs)[j := e]"
proof (rule entries_eqI)
  show "length (take (20 * j) bs @ e @ drop (20 * j + 20) bs) = length bs" using assms by (simp add: entry_in)
  fix i assume "i < length bs div 20"
  then show "entry (take (20 * j) bs @ e @ drop (20 * j + 20) bs) i = (entries bs)[j := e] ! i"
    using assms entry_put [of e j bs i] by (simp add: entry_in nth_list_update nth_entries)
qed simp

lemma entries_tail:
  assumes "length x + 20 * (length bs div 20) \<le> length bs"
  shows "entries (take (20 * (length bs div 20)) bs @ x @ drop (20 * (length bs div 20) + length x) bs) = entries bs"
proof (rule entries_eqI)
  fix i assume i: "i < length bs div 20"
  then have "20 * i + 20 \<le> 20 * (length bs div 20)" by simp
  then show "entry (take (20 * (length bs div 20)) bs @ x @ drop (20 * (length bs div 20) + length x) bs) i = entries bs ! i"
    using i assms by (intro nth_equalityI) (auto simp: entry_def nth_append nth_entries)
qed (use assms in simp_all)

text \<open>Updates of the entries as updates of the map.\<close>

lemma entries_ok_update:
  assumes ok: "entries_ok es" and j: "j < length es" and e: "0 \<in> set (take 15 (drop 4 e))"
    and fresh: "entry_in_use e \<Longrightarrow> \<forall>i < length es. i \<noteq> j \<longrightarrow> \<not> matches (entry_name e) (es ! i)"
  shows "entries_ok (es[j := e])"
proof -
  have "\<forall>x \<in> set (es[j := e]). entry_in_use x \<longrightarrow> 0 \<in> set (take 15 (drop 4 x))"
    using ok e set_update_subset_insert [of es j e] by (auto simp: entries_ok_def)
  moreover have "entry_name (es[j := e] ! a) \<noteq> entry_name (es[j := e] ! b)"
    if "a < length es" "b < length es" "a \<noteq> b" "entry_in_use (es[j := e] ! a)" "entry_in_use (es[j := e] ! b)" for a b
    using that ok fresh by (cases "a = j"; cases "b = j") (auto simp: entries_ok_def matches_def)
  ultimately show ?thesis by (auto simp: entries_ok_def)
qed

lemma dir_view_add:
  assumes ok: "entries_ok es" and j: "j < length es" "\<not> entry_in_use (es ! j)" and e: "0 \<in> set (take 15 (drop 4 e))"
    and new: "entry_in_use e" "dir_view es (entry_name e) = None"
  shows "entries_ok (es[j := e])" "dir_view (es[j := e]) = (dir_view es)(entry_name e \<mapsto> entry_sector e)"
proof -
  show ok': "entries_ok (es[j := e])" using new(2) by (intro entries_ok_update ok j(1) e) (auto simp: dir_view_None)
  have "dir_view (es[j := e]) name = Some s \<longleftrightarrow> ((dir_view es)(entry_name e \<mapsto> entry_sector e)) name = Some s" for name s
  proof (cases "name = entry_name e")
    case True
    then show ?thesis using j new unfolding dir_view_iff [OF ok'] dir_view_None
      by (auto simp: matches_def nth_list_update intro: exI [of _ j])
  next
    case False
    then show ?thesis using j unfolding dir_view_iff [OF ok']
      by (simp add: dir_view_iff [OF ok]) (auto simp: matches_def nth_list_update)
  qed
  then show "dir_view (es[j := e]) = (dir_view es)(entry_name e \<mapsto> entry_sector e)"
    by (intro ext) (metis not_Some_eq)
qed

lemma dir_view_erase:
  assumes ok: "entries_ok es" and j: "j < length es" "matches name (es ! j)" and e: "\<not> entry_in_use e" "0 \<in> set (take 15 (drop 4 e))"
  shows "entries_ok (es[j := e])" "dir_view (es[j := e]) = (dir_view es)(name := None)"
proof -
  show ok': "entries_ok (es[j := e])" using e(1) by (intro entries_ok_update ok j(1) e(2)) simp
  have "dir_view (es[j := e]) x = Some s \<longleftrightarrow> ((dir_view es)(name := None)) x = Some s" for x s
    using j e(1) ok unfolding dir_view_iff [OF ok'] by (cases "x = name")
      (auto simp: matches_def nth_list_update dir_view_iff [OF ok] entries_ok_def)
  then show "dir_view (es[j := e]) = (dir_view es)(name := None)" by (intro ext) (metis not_Some_eq)
qed

lemma write_entry:
  assumes st: "dir_state fs ip ino" "deny_write_cnt ino = 0" "length e = 20" "j \<le> length (file_bytes fs ino) div 20"
  shows "\<exists>m fs'. inode_write_at ip e 20 (int (20 * j)) fs = Some (m, fs') \<and> dir_state fs' ip ino \<and> frame fs fs'
    \<and> (\<forall>s. s \<notin> sectors_of ino \<longrightarrow> fs_sec fs' s = fs_sec fs s) \<and> (m = 20 \<longleftrightarrow> j < length (file_bytes fs ino) div 20)
    \<and> entries (file_bytes fs' ino) = (entries (file_bytes fs ino))[j := e]"
proof -
  let ?bs = "file_bytes fs ino"
  have le: "20 * j \<le> length ?bs" using st(4) by simp
  then have "20 * j < 2 ^ 31" using dir_state_len [OF st(1)] by linarith
  then obtain m fs' where m: "inode_write_at ip e (int 20) (int (20 * j)) fs = Some (int m, fs')" "frame fs fs'" "fs_dev_ok fs'"
    "file_bytes fs' ino = take (20 * j) ?bs @ take m e @ drop (20 * j + m) ?bs" "\<forall>s. s \<notin> sectors_of ino \<longrightarrow> fs_sec fs' s = fs_sec fs s"
    "m = min 20 (length ?bs - 20 * j)"
    using inode_write_at_eq [of fs ip ino "20 * j" 20 e] st by (auto simp: dir_state_def length_file_bytes)
  have "dir_state fs' ip ino"
    using st(1) m(3) frame_fs(2,6,7) [OF m(2)] fs_dev_ok_device [of fs] by (simp add: dir_state_def inode_ok_def)
  moreover have "m = 20 \<longleftrightarrow> j < length ?bs div 20" using m(6) le by (auto simp: entry_in min_def)
  moreover have "entries (file_bytes fs' ino) = (entries ?bs)[j := e]"
  proof (cases "j < length ?bs div 20")
    case True
    then have "m = 20" using m(6) by (simp add: entry_in)
    then show ?thesis using entries_put [OF st(3) True] m(4) st(3) by simp
  next
    case False
    then have j: "j = length ?bs div 20" using st(4) by simp
    have "length (take m e) = m" "length (take m e) + 20 * (length ?bs div 20) \<le> length ?bs" using m(6) le st(3) j by auto
    then show ?thesis using entries_tail [of "take m e" ?bs] m(4) j by (simp add: list_update_beyond)
  qed
  ultimately show ?thesis using m(1,2,5) by (intro exI [of _ "int m"] exI [of _ fs']) simp
qed

text \<open>
  C28: \<open>dir_add\<close> implements insertion into the map from names to inode sectors: it succeeds exactly when the name is valid and
  new and the directory has a free entry, it then adds the name to the map, and otherwise leaves the map as it was; the
  directory stays well formed and no sector outside it changes.
\<close>

theorem dir_add_refines:
  assumes st: "dir_state fs ip ino" "deny_write_cnt ino = 0" and d: "dir_inode d = Some ip" "0 \<notin> set name" "sect < 2 ^ 32"
    and ok: "entries_ok (entries (file_bytes fs ino))" and g: "length garbage = 20"
  defines "es \<equiv> entries (file_bytes fs ino)"
  defines "fits \<equiv> name \<noteq> [] \<and> length name \<le> NAME_MAX \<and> dir_view es name = None \<and> (\<exists>e \<in> set es. \<not> entry_in_use e)"
  shows "\<exists>fs'. dir_add garbage d name sect fs = Some (fits, fs') \<and> dir_state fs' ip ino
    \<and> entries_ok (entries (file_bytes fs' ino)) \<and> (\<forall>s. s \<notin> sectors_of ino \<longrightarrow> fs_sec fs' s = fs_sec fs s)
    \<and> dir_view (entries (file_bytes fs' ino)) = (if fits then (dir_view es)(name \<mapsto> sect) else dir_view es)"
proof -
  consider (invalid) "name = [] \<or> length name > NAME_MAX" | (valid) "name \<noteq> []" "length name \<le> 14" by (fastforce simp: NAME_MAX_def)
  then show ?thesis
  proof cases
    case invalid
    then show ?thesis using st ok by (auto simp: dir_add_def fits_def es_def)
  next
    case valid
    then have v: "\<not> (name = [] \<or> length name > NAME_MAX)" by (simp add: NAME_MAX_def)
    obtain r fs1 where l: "lookup d name fs = Some (r, fs1)" "only_read fs fs1" "map_option (entry_sector \<circ> fst) r = dir_view es name"
      using lookup_eq [OF st(1) d(1,2) ok] by (auto simp: es_def)
    note st1 = dir_state_only_read [OF st(1) l(2)]
    show ?thesis
    proof (cases "r = None")
      case False
      then have "\<not> fits" "dir_add garbage d name sect fs = Some (False, fs1)" using l v by (auto simp: dir_add_def fits_def)
      moreover have "fs_sec fs1 = fs_sec fs" using l(2) by (simp add: only_read_def)
      ultimately show ?thesis using st1 ok by (auto simp: es_def)
    next
      case True
      then have none: "dir_view es name = None" using l(3) by simp
      obtain e j fs2 where s: "slot_loop ip garbage (int (20 * 0)) fs1 = Some (e, int (20 * j), fs2)" "only_read fs1 fs2" "length e = 20"
        "j \<le> length es" "\<forall>k < j. entry_in_use (es ! k)" "j < length es \<longrightarrow> \<not> entry_in_use (es ! j)"
        using slot_loop_eq [OF st1(1) g, of 0] st1(2) nth_entries [of _ "file_bytes fs ino"] by (auto simp: es_def)
      note st2 = dir_state_only_read [OF st1(1) s(2)]
      have len: "length es = length (file_bytes fs2 ino) div 20" using st1(2) st2(2) by (simp add: es_def)
      obtain m fs3 where w: "inode_write_at ip (new_entry e name sect) 20 (int (20 * j)) fs2 = Some (m, fs3)" "dir_state fs3 ip ino"
        "\<forall>s. s \<notin> sectors_of ino \<longrightarrow> fs_sec fs3 s = fs_sec fs2 s" "m = 20 \<longleftrightarrow> j < length es"
        "entries (file_bytes fs3 ino) = es[j := new_entry e name sect]"
        using write_entry [OF st2(1) st(2) new_entry_props(1) [OF s(3) valid(2) d(2,3)], of j] s(4) len st1(2) st2(2)
        by (auto simp: es_def)
      have add: "dir_add garbage d name sect fs = Some (j < length es, fs3)"
        using v l(1) True d(1) s(1) w(1,4) entry_patch [OF s(3) valid(2), of sect] by (auto simp: dir_add_def bind_eq_Some_conv)
      have "(\<exists>x \<in> set es. \<not> entry_in_use x) \<longleftrightarrow> j < length es"
        using s(4-6) by (metis in_set_conv_nth le_neq_implies_less nth_mem)
      then have fits: "fits \<longleftrightarrow> j < length es" using valid(1) v none by (simp add: fits_def)
      have sec: "fs_sec fs2 = fs_sec fs" using l(2) s(2) by (simp add: only_read_def)
      note props = new_entry_props [OF s(3) valid(2) d(2,3)]
      show ?thesis
      proof (cases "j < length es")
        case True
        then show ?thesis using add w fits sec dir_view_add [OF ok [folded es_def] True _ props(5,2)] s(6) none props(3,4) by simp
      next
        case False
        then show ?thesis using add w fits sec s(4) ok by (simp add: es_def list_update_beyond)
      qed
    qed
  qed
qed

text \<open>The inode of \<^const>\<open>demo_fs\<close> as an empty directory with room for 30 entries.\<close>

lemma demo_file_bytes: "file_bytes demo_fs demo_ino = replicate 600 0"
proof (rule nth_equalityI)
  have l: "nat (len (data demo_ino)) = 600" "start (data demo_ino) = 1" by (simp_all add: demo_ino_def)
  then show "length (file_bytes demo_fs demo_ino) = length (replicate 600 (0 :: byte))" by (simp add: length_file_bytes)
  fix i assume "i < length (file_bytes demo_fs demo_ino)"
  then have i: "i < 600" by (simp add: length_file_bytes l)
  have "fs_sec demo_fs s = replicate 512 0" for s
    by (simp add: fs_sec_def contents_def demo_fs_def devs.defs fs.defs two_parts_def split: prod.split)
  then show "file_bytes demo_fs demo_ino ! i = replicate 600 0 ! i" using i l by (simp add: nth_file_bytes byte_at_def)
qed

lemma demo_entries_free: "e \<in> set (entries (file_bytes demo_fs demo_ino)) \<Longrightarrow> \<not> entry_in_use e"
  by (auto simp: demo_file_bytes entries_def entry_def entry_in_use_def)

theorem dir_add_refines_witness:
  "\<exists>fs'. dir_add (replicate 20 7) \<lparr>dir_inode = Some 0, dir_pos = 0\<rparr> [97, 98] 5 demo_fs = Some (True, fs')
     \<and> dir_view (entries (file_bytes fs' demo_ino)) = [[97, 98] \<mapsto> 5]"
proof -
  let ?es = "entries (file_bytes demo_fs demo_ino)"
  have st: "dir_state demo_fs 0 demo_ino" "deny_write_cnt demo_ino = 0"
    using demo_fs_ok by (auto simp: dir_state_def demo_ino_def)
  have view: "dir_view ?es = Map.empty"
    using demo_entries_free by (auto simp: fun_eq_iff dir_view_def find_None_iff matches_def)
  have ok: "entries_ok ?es" using demo_entries_free nth_mem by (fastforce simp: entries_ok_def)
  have "?es ! 0 \<in> set ?es" by (rule nth_mem) (simp add: demo_file_bytes)
  then have "\<exists>e \<in> set ?es. \<not> entry_in_use e" using demo_entries_free by blast
  then show ?thesis
    using dir_add_refines [OF st, of "\<lparr>dir_inode = Some 0, dir_pos = 0\<rparr>" "[97, 98]" 5 "replicate 20 7"] ok view
    by (auto simp: NAME_MAX_def)
qed

end
