(* ===== verification/Fs_Props.thy ===== *)
theory Fs_Props
  imports Dir_Map
begin

text \<open>
  The free map and the life of inodes: what allocation and release of sectors do to the free map and to its file, and that
  an inode that was created can be opened with its length and zeros as its contents.
\<close>

section \<open>The bitmap and its bytes\<close>

lemma bytes_elems_append: "bytes_elems (le_bytes 4 n @ bs) = of_nat (le_nat (le_bytes 4 n)) # bytes_elems bs"
proof -
  obtain a b c d where "le_bytes 4 n = [a, b, c, d]" using length_le_bytes [of 4 n] unfolding Suc_four [symmetric] length_Suc_conv by auto
  then show ?thesis by simp
qed

lemma bytes_elems_roundtrip: "bytes_elems (elems_bytes ws) = ws"
proof (induction ws)
  case (Cons w ws)
  have "le_nat (le_bytes 4 (unat w)) = unat w" using unat32_less [of w] by (simp add: le_nat_le_bytes)
  then show ?case using Cons by (simp add: elems_bytes_def bytes_elems_append)
qed (simp add: elems_bytes_def)

lemma length_elems_bytes: "length (elems_bytes ws) = 4 * length ws"
  by (induction ws) (simp_all add: elems_bytes_def)

lemma byte_cnt_eq:
  assumes "bitmap_ok b"
  shows "byte_cnt (bit_cnt b) = 4 * length (bits b)" "4 * length (bits b) < 2 ^ 31 - 512" "i32 (int (byte_cnt (bit_cnt b))) = int (4 * length (bits b))"
proof -
  have "bit_cnt b < 2 ^ 32 - 32" and l: "length (bits b) = elem_cnt (bit_cnt b)" using assms by (simp_all add: bitmap_ok_def)
  then have "length (bits b) < 2 ^ 27" by (simp add: elem_cnt_eq div_less_iff_less_mult)
  then show "byte_cnt (bit_cnt b) = 4 * length (bits b)" "4 * length (bits b) < 2 ^ 31 - 512"
      "i32 (int (byte_cnt (bit_cnt b))) = int (4 * length (bits b))"
    by (simp_all add: byte_cnt_def u32_id i32_id flip: l)
qed

text \<open>A file that can hold the bitmap.\<close>

definition map_file :: "fs \<Rightarrow> open_file \<Rightarrow> inode \<Rightarrow> bool" where
  "map_file fs f ino \<longleftrightarrow> (\<exists>ip. file_inode f = Some ip \<and> dir_state fs ip ino) \<and> deny_write_cnt ino = 0"

text \<open>The free map on disk is the one in memory.\<close>

definition map_saved :: "fs \<Rightarrow> inode \<Rightarrow> bool" where
  "map_saved fs ino \<longleftrightarrow> take (4 * length (bits (free_map fs))) (file_bytes fs ino) = elems_bytes (bits (free_map fs))"

lemma bitmap_write_file_eq:
  assumes f: "map_file fs f ino" and b: "bitmap_ok b" "4 * length (bits b) \<le> length (file_bytes fs ino)"
  shows "\<exists>fs'. bitmap_write_file b f fs = Some (True, fs') \<and> frame fs fs' \<and> map_file fs' f ino
    \<and> (\<forall>s. s \<notin> sectors_of ino \<longrightarrow> fs_sec fs' s = fs_sec fs s)
    \<and> length (file_bytes fs' ino) = length (file_bytes fs ino)
    \<and> take (4 * length (bits b)) (file_bytes fs' ino) = elems_bytes (bits b)"
proof -
  obtain ip where ip: "file_inode f = Some ip" "dir_state fs ip ino" "deny_write_cnt ino = 0" using f by (auto simp: map_file_def)
  let ?n = "4 * length (bits b)"
  obtain m fs' where m: "inode_write_at ip (elems_bytes (bits b)) (int ?n) (int 0) fs = Some (int m, fs')" "frame fs fs'" "fs_dev_ok fs'"
    "file_bytes fs' ino = take 0 (file_bytes fs ino) @ take m (elems_bytes (bits b)) @ drop (0 + m) (file_bytes fs ino)"
    "\<forall>s. s \<notin> sectors_of ino \<longrightarrow> fs_sec fs' s = fs_sec fs s" "m = min ?n (length (file_bytes fs ino) - 0)"
    using inode_write_at_eq [of fs ip ino 0 ?n "elems_bytes (bits b)"] ip by (auto simp: dir_state_def length_elems_bytes length_file_bytes)
  have mn: "m = ?n" using m(6) b(2) by simp
  have "dir_state fs' ip ino"
    using ip(2) m(3) frame_fs(2,6,7) [OF m(2)] fs_dev_ok_device [of fs] by (simp add: dir_state_def inode_ok_def)
  then show ?thesis
    using m(1,2,4,5) ip b(2) byte_cnt_eq(3) [OF b(1)] unfolding mn
    by (auto simp: bitmap_write_file_def file_write_at_def map_file_def length_elems_bytes)
qed

section \<open>Allocation and release\<close>

definition fmap_ok :: "fs \<Rightarrow> inode \<Rightarrow> bool" where
  "fmap_ok fs ino \<longleftrightarrow> bitmap_ok (free_map fs) \<and> (\<exists>f. free_map_file fs = Some f \<and> map_file fs f ino)
     \<and> 4 * length (bits (free_map fs)) \<le> length (file_bytes fs ino)"

text \<open>What a change of the free map leaves alone.\<close>

definition fmap_frame :: "fs \<Rightarrow> inode \<Rightarrow> fs \<Rightarrow> bool" where
  "fmap_frame fs ino fs' \<longleftrightarrow> inodes fs' = inodes fs \<and> open_inodes fs' = open_inodes fs \<and> fs_device fs' = fs_device fs
     \<and> free_map_file fs' = free_map_file fs \<and> alloc_ok fs' = alloc_ok fs \<and> fs_size fs' = fs_size fs
     \<and> (\<forall>s. s \<notin> sectors_of ino \<longrightarrow> fs_sec fs' s = fs_sec fs s)"

lemma free_map_update [simp]:
  "fs_sec (fs\<lparr>free_map := b\<rparr>) = fs_sec fs" "fs_dev_ok (fs\<lparr>free_map := b\<rparr>) = fs_dev_ok fs" "fs_size (fs\<lparr>free_map := b\<rparr>) = fs_size fs"
  "file_bytes (fs\<lparr>free_map := b\<rparr>) = file_bytes fs" "inode_ok (fs\<lparr>free_map := b\<rparr>) = inode_ok fs"
  "dir_state (fs\<lparr>free_map := b\<rparr>) = dir_state fs" "map_file (fs\<lparr>free_map := b\<rparr>) = map_file fs"
  by (simp_all add: fs_sec_def contents_def fs_dev_ok_def dev_ok_def devs_ok_def fs_size_def file_bytes_def byte_at_def inode_ok_def
      dir_state_def map_file_def fun_eq_iff)

lemma elems_kept: "bitmap_ok b \<Longrightarrow> bitmap_ok b' \<Longrightarrow> length (bits_of b') = length (bits_of b) \<Longrightarrow> length (bits b') = length (bits b)"
  by (simp add: bitmap_ok_def)

text \<open>Saving a changed free map.\<close>

lemma save_map:
  assumes fm: "fmap_ok fs ino" "free_map_file fs = Some f" and b: "bitmap_ok b" "length (bits b) = length (bits (free_map fs))"
  shows "\<exists>fs'. bitmap_write_file b f (fs\<lparr>free_map := b\<rparr>) = Some (True, fs') \<and> free_map fs' = b \<and> fmap_ok fs' ino
    \<and> map_saved fs' ino \<and> fmap_frame fs ino fs'"
proof -
  have f: "map_file (fs\<lparr>free_map := b\<rparr>) f ino" "4 * length (bits b) \<le> length (file_bytes (fs\<lparr>free_map := b\<rparr>) ino)"
    using fm b(2) by (auto simp: fmap_ok_def)
  have "fs_dev_ok (fs\<lparr>free_map := b\<rparr>)" using f(1) by (auto simp: map_file_def dir_state_def)
  note dv = fs_dev_ok_device [OF this]
  obtain fs' where w: "bitmap_write_file b f (fs\<lparr>free_map := b\<rparr>) = Some (True, fs')" "frame (fs\<lparr>free_map := b\<rparr>) fs'" "map_file fs' f ino"
    "\<forall>s. s \<notin> sectors_of ino \<longrightarrow> fs_sec fs' s = fs_sec fs s" "length (file_bytes fs' ino) = length (file_bytes fs ino)"
    "take (4 * length (bits b)) (file_bytes fs' ino) = elems_bytes (bits b)"
    using bitmap_write_file_eq [OF f(1) b(1) f(2)] by auto
  note g = frame_fs [OF w(2)]
  have "fmap_ok fs' ino" using w(3,5) g(4,5) b f(2) fm(2) by (auto simp: fmap_ok_def)
  moreover have "map_saved fs' ino" using w(6) g(4) by (simp add: map_saved_def)
  moreover have "fmap_frame fs ino fs'" using g g(7) [OF dv] w(4) by (simp add: fmap_frame_def)
  ultimately show ?thesis using w(1) g(4) by (intro exI [of _ fs']) simp
qed

lemma free_map_allocate_eq:
  assumes fm: "fmap_ok fs ino"
  obtains (full) "free_map_allocate cnt fs = Some (None, fs)"
      "\<And>i. i + cnt \<le> bit_cnt (free_map fs) \<Longrightarrow> \<exists>j<cnt. bits_of (free_map fs) ! (i + j)"
  | (group) s fs' where "free_map_allocate cnt fs = Some (Some s, fs')" "s + cnt \<le> bit_cnt (free_map fs)"
      "\<And>j. j < cnt \<Longrightarrow> \<not> bits_of (free_map fs) ! (s + j)" "bits_of (free_map fs') = fill s cnt True (bits_of (free_map fs))"
      "fmap_ok fs' ino" "map_saved fs' ino" "fmap_frame fs ino fs'"
proof -
  obtain f where f: "free_map_file fs = Some f" using fm by (auto simp: fmap_ok_def)
  have ok: "bitmap_ok (free_map fs)" using fm by (simp add: fmap_ok_def)
  show thesis
  proof (rule units.alloc [OF ok, of cnt])
    assume "bitmap_scan_and_flip (free_map fs) 0 cnt False = Some (BITMAP_ERROR, free_map fs)"
      "\<And>i. i + cnt \<le> length (bits_of (free_map fs)) \<Longrightarrow> \<exists>j<cnt. bits_of (free_map fs) ! (i + j)"
    then show thesis by (intro full) (simp_all add: free_map_allocate_def)
  next
    fix i b' assume a: "bitmap_scan_and_flip (free_map fs) 0 cnt False = Some (i, b')" "i \<noteq> BITMAP_ERROR" "bitmap_ok b'"
      "i + cnt \<le> length (bits_of (free_map fs))" "\<And>j. j < cnt \<Longrightarrow> \<not> bits_of (free_map fs) ! (i + j)"
      "bits_of b' = fill i cnt True (bits_of (free_map fs))"
    have "length (bits b') = length (bits (free_map fs))" using elems_kept [OF ok a(3)] a(4,6) by simp
    then obtain fs' where fs': "bitmap_write_file b' f (fs\<lparr>free_map := b'\<rparr>) = Some (True, fs')" "free_map fs' = b'" "fmap_ok fs' ino"
      "map_saved fs' ino" "fmap_frame fs ino fs'"
      using save_map [OF fm f a(3)] by blast
    have "free_map_allocate cnt fs = Some (Some i, fs')" using a(1,2) f fs'(1) by (simp add: free_map_allocate_def)
    then show thesis using a fs' by (intro group [of i fs']) simp_all
  qed
qed

lemma free_map_release_eq:
  assumes fm: "fmap_ok fs ino" and s: "s + cnt \<le> bit_cnt (free_map fs)" "\<And>j. j < cnt \<Longrightarrow> bits_of (free_map fs) ! (s + j)"
  shows "\<exists>fs'. free_map_release s cnt fs = Some fs' \<and> bits_of (free_map fs') = fill s cnt False (bits_of (free_map fs))
    \<and> fmap_ok fs' ino \<and> map_saved fs' ino \<and> fmap_frame fs ino fs'"
proof -
  obtain f where f: "free_map_file fs = Some f" using fm by (auto simp: fmap_ok_def)
  have ok: "bitmap_ok (free_map fs)" using fm by (simp add: fmap_ok_def)
  obtain b where b: "bitmap_set_multiple (free_map fs) s cnt False = Some b" "bitmap_ok b" "bits_of b = fill s cnt False (bits_of (free_map fs))"
    using units.set_spec [OF ok, of s cnt False] s(1) by auto
  have all: "bitmap_all (free_map fs) s cnt = Some True" using units.all_spec [OF ok, of s cnt] s by simp
  have "length (bits b) = length (bits (free_map fs))" using elems_kept [OF ok b(2)] b(3) s(1) by simp
  then obtain fs' where "bitmap_write_file b f (fs\<lparr>free_map := b\<rparr>) = Some (True, fs')" "free_map fs' = b" "fmap_ok fs' ino"
    "map_saved fs' ino" "fmap_frame fs ino fs'"
    using save_map [OF fm f b(2)] by blast
  then show ?thesis using all b f by (intro exI [of _ fs']) (simp add: free_map_release_def)
qed

text \<open>The free map that was saved is read back.\<close>

lemma read_map:
  assumes f: "map_file fs f ino" "4 * length (bits b) \<le> length (file_bytes fs ino)"
      "take (4 * length (bits b)) (file_bytes fs ino) = elems_bytes (bits b)"
    and b: "bitmap_ok b" "bitmap_ok c" "bit_cnt c = bit_cnt b"
  shows "\<exists>c' fs'. bitmap_read_file c f fs = Some (True, c', fs') \<and> bits_of c' = bits_of b"
proof (cases "bit_cnt b = 0")
  case True
  then show ?thesis using b(3) by (simp add: bitmap_read_file_def bits_of_def)
next
  case False
  obtain ip where ip: "file_inode f = Some ip" "dir_state fs ip ino" using f by (auto simp: map_file_def)
  have len: "length (bits c) = length (bits b)" using b by (simp add: bitmap_ok_def)
  let ?n = "4 * length (bits b)"
  obtain m fs' where m: "inode_read_at ip (elems_bytes (bits c)) (int ?n) (int 0) fs =
      Some (int m, take m (drop 0 (file_bytes fs ino)) @ drop m (elems_bytes (bits c)), fs')" "m = min ?n (length (file_bytes fs ino) - 0)"
    using inode_read_at_eq [of fs ip ino 0 ?n "elems_bytes (bits c)"] ip(2) len
    by (auto simp: dir_state_def length_elems_bytes length_file_bytes)
  have "take m (drop 0 (file_bytes fs ino)) @ drop m (elems_bytes (bits c)) = elems_bytes (bits b)" "m = ?n"
    using m(2) f(2,3) len by (simp_all add: length_elems_bytes)
  then have r: "file_read_at f (elems_bytes (bits c)) (i32 (int (byte_cnt (bit_cnt c)))) 0 fs = Some (int ?n, elems_bytes (bits b), fs')"
    using m(1) ip(1) byte_cnt_eq(3) [OF b(1)] b(3) by (simp add: file_read_at_def)
  let ?i = "elem_cnt (bit_cnt b) - 1"
  let ?b = "c\<lparr>bits := bits b\<rparr>"
  have "bitmap_ok ?b" "0 < bit_cnt ?b" "?i = elem_cnt (bit_cnt ?b) - 1" using b False by (simp_all add: bitmap_ok_def)
  note mask = mask_last_bits [OF this]
  have "bits_of ?b = bits_of b" using b(3) by (simp add: bits_of_def bit_at_def)
  then show ?thesis
    using r mask False b(3) byte_cnt_eq(3) [OF b(1)] by (simp add: bitmap_read_file_def Let_def bytes_elems_roundtrip)
qed

text \<open>
  C29: \<open>free_map_allocate\<close> either fails because no group of \<open>cnt\<close> consecutive sectors is free, and changes nothing, or gives a
  group of free sectors, marks exactly these as used, and saves the map: reading the file of the free map gives the same
  map.  Releasing the sectors restores the map.
\<close>

theorem free_map_allocate_correct:
  assumes fm: "fmap_ok fs ino"
  shows "\<exists>r fs'. free_map_allocate cnt fs = Some (r, fs') \<and> fmap_ok fs' ino \<and> (case r of
      None \<Rightarrow> fs' = fs \<and> (\<forall>i. i + cnt \<le> bit_cnt (free_map fs) \<longrightarrow> (\<exists>j<cnt. bits_of (free_map fs) ! (i + j)))
    | Some s \<Rightarrow> s + cnt \<le> bit_cnt (free_map fs) \<and> (\<forall>j<cnt. \<not> bits_of (free_map fs) ! (s + j))
        \<and> bits_of (free_map fs') = map (\<lambda>k. s \<le> k \<and> k < s + cnt \<or> bits_of (free_map fs) ! k) [0..<bit_cnt (free_map fs)]
        \<and> (\<forall>k. k \<notin> sectors_of ino \<longrightarrow> fs_sec fs' k = fs_sec fs k) \<and> inodes fs' = inodes fs
        \<and> (\<forall>f. free_map_file fs = Some f \<longrightarrow> (\<exists>c fs''. bitmap_read_file (free_map fs) f fs' = Some (True, c, fs'') \<and> bits_of c = bits_of (free_map fs')))
        \<and> (\<exists>fs''. free_map_release s cnt fs' = Some fs'' \<and> bits_of (free_map fs'') = bits_of (free_map fs)))"
proof (rule free_map_allocate_eq [OF fm, of cnt])
  assume "free_map_allocate cnt fs = Some (None, fs)" "\<And>i. i + cnt \<le> bit_cnt (free_map fs) \<Longrightarrow> \<exists>j<cnt. bits_of (free_map fs) ! (i + j)"
  then show ?thesis using fm by (intro exI [of _ None] exI [of _ fs]) simp
next
  fix s fs' assume a: "free_map_allocate cnt fs = Some (Some s, fs')" "s + cnt \<le> bit_cnt (free_map fs)"
      "\<And>j. j < cnt \<Longrightarrow> \<not> bits_of (free_map fs) ! (s + j)" "bits_of (free_map fs') = fill s cnt True (bits_of (free_map fs))"
      "fmap_ok fs' ino" "map_saved fs' ino" "fmap_frame fs ino fs'"
  have cnt: "bit_cnt (free_map fs') = bit_cnt (free_map fs)" using arg_cong [OF a(4), of length] a(2) by simp
  have bits: "fill s cnt True (bits_of (free_map fs)) = map (\<lambda>k. s \<le> k \<and> k < s + cnt \<or> bits_of (free_map fs) ! k) [0..<bit_cnt (free_map fs)]"
    using a(2) by (intro nth_equalityI) (auto simp: nth_fill)
  have used: "bits_of (free_map fs') ! (s + j)" if "j < cnt" for j using a(2,4) that by (simp add: nth_fill)
  obtain fs'' where r: "free_map_release s cnt fs' = Some fs''" "bits_of (free_map fs'') = fill s cnt False (bits_of (free_map fs'))"
    using free_map_release_eq [OF a(5), of s cnt] used a(2) cnt by auto
  have "fill s cnt False (fill s cnt True (bits_of (free_map fs))) = bits_of (free_map fs)"
    using a(2,3) by (intro nth_equalityI) (auto simp: nth_fill dest: le_Suc_ex)
  then have rel: "bits_of (free_map fs'') = bits_of (free_map fs)" using r(2) a(4) by simp
  have "\<exists>c fs''. bitmap_read_file (free_map fs) f fs' = Some (True, c, fs'') \<and> bits_of c = bits_of (free_map fs')"
    if "free_map_file fs = Some f" for f
    using read_map [of fs' f ino "free_map fs'" "free_map fs"] a(5-7) fm that cnt by (auto simp: fmap_ok_def map_saved_def fmap_frame_def)
  then show ?thesis using a r(1) rel bits by (intro exI [of _ "Some s"] exI [of _ fs']) (auto simp: fmap_frame_def)
qed

definition demo_map_fs :: fs where
  "demo_map_fs = demo_fs\<lparr>open_inodes := [],
     free_map_file := Some \<lparr>file_inode = Some 0, file_pos = 0, deny_write = False\<rparr>\<rparr>"

lemma demo_map_ok: "fmap_ok demo_map_fs demo_ino" "bits_of (free_map demo_map_fs) = [True, True, True, False]"
proof -
  have fb: "file_bytes demo_map_fs demo_ino = file_bytes demo_fs demo_ino" "fs_dev_ok demo_map_fs" "inode_ok demo_map_fs demo_ino"
    using demo_fs_ok(1,3)
    by (simp_all add: demo_map_fs_def fs_sec_def contents_def fs_dev_ok_def dev_ok_def devs_ok_def fs_size_def file_bytes_def byte_at_def inode_ok_def)
  have "dir_state demo_map_fs 0 demo_ino" using fb demo_fs_ok(2,4) by (simp add: dir_state_def demo_map_fs_def)
  moreover have "free_map demo_map_fs = \<lparr>bit_cnt = 4, bits = [7]\<rparr>" by (simp add: demo_map_fs_def demo_fs_def devs.defs fs.defs)
  ultimately show "fmap_ok demo_map_fs demo_ino" "bits_of (free_map demo_map_fs) = [True, True, True, False]"
    using fb(1) by (auto simp: fmap_ok_def map_file_def length_file_bytes demo_map_fs_def demo_ino_def bitmap_ok_def elem_cnt_eq
        bits_of_def bit_at_def upt_rec)
qed

theorem free_map_allocate_correct_witness:
  "\<exists>fs'. free_map_allocate 1 demo_map_fs = Some (Some 3, fs') \<and> bits_of (free_map fs') = [True, True, True, True]"
proof -
  let ?b = "free_map demo_map_fs"
  have cnt: "bit_cnt ?b = 4" using arg_cong [OF demo_map_ok(2), of length] by simp
  obtain r fs' where r: "free_map_allocate 1 demo_map_fs = Some (r, fs')" "case r of
      None \<Rightarrow> fs' = demo_map_fs \<and> (\<forall>i. i + 1 \<le> bit_cnt ?b \<longrightarrow> (\<exists>j<1. bits_of ?b ! (i + j)))
    | Some s \<Rightarrow> s + 1 \<le> bit_cnt ?b \<and> (\<forall>j<1. \<not> bits_of ?b ! (s + j))
        \<and> bits_of (free_map fs') = map (\<lambda>k. s \<le> k \<and> k < s + 1 \<or> bits_of ?b ! k) [0..<bit_cnt ?b]"
    using free_map_allocate_correct [OF demo_map_ok(1), of 1] by (fastforce split: option.splits)
  have "r \<noteq> None"
  proof
    assume "r = None"
    then have "3 + 1 \<le> bit_cnt ?b \<longrightarrow> (\<exists>j<1. bits_of ?b ! (3 + j))" using r(2) by auto
    then show False by (simp add: cnt demo_map_ok(2))
  qed
  then obtain s where s: "r = Some s" "s < 4" "\<not> [True, True, True, False] ! s"
    "bits_of (free_map fs') = map (\<lambda>k. s \<le> k \<and> k < s + 1 \<or> [True, True, True, False] ! k) [0..<4]"
    using r(2) by (auto simp: cnt demo_map_ok(2))
  then have "s = 3" by (auto simp: less_Suc_eq numeral_eq_Suc)
  then show ?thesis using s(1,4) r(1) by (simp add: upt_rec)
qed

section \<open>Creating and opening an inode\<close>

lemma zero_sectors_eq:
  assumes "fs_dev_ok fs" "s + n \<le> fs_size fs"
  shows "\<exists>fs'. zero_sectors n s fs = Some fs' \<and> frame fs fs' \<and> fs_dev_ok fs'
    \<and> fs_sec fs' = (\<lambda>t. if s \<le> t \<and> t < s + n then replicate 512 0 else fs_sec fs t)"
  using assms
proof (induction n arbitrary: s fs)
  case (Suc n)
  have s: "s < fs_size fs" "u32 s = s" using Suc.prems fs_size_less [OF Suc.prems(1)] by (simp_all add: u32_id)
  obtain fs1 where fs1: "block_write (fs_device fs) s (replicate 512 0) fs = Some fs1" "frame fs fs1" "fs_dev_ok fs1"
    "fs_sec fs1 = (fs_sec fs)(s := replicate 512 0)"
    using fs_write [OF Suc.prems(1) s(1), of "replicate 512 0"] by auto
  obtain fs' where "zero_sectors n (s + 1) fs1 = Some fs'" "frame fs1 fs'" "fs_dev_ok fs'"
    "fs_sec fs' = (\<lambda>t. if s + 1 \<le> t \<and> t < s + 1 + n then replicate 512 0 else fs_sec fs1 t)"
    using Suc.IH [OF fs1(3), of "s + 1"] frame_fs(7) [OF fs1(2) fs_dev_ok_device [OF Suc.prems(1)]] Suc.prems(2) by auto
  then show ?case using fs1 s(2) frame_trans [OF fs1(2)] by (intro exI [of _ fs']) (auto simp: fun_eq_iff)
qed (auto simp: fun_eq_iff)

lemma inode_disk_roundtrip:
  assumes "start di < 2 ^ 32" "is_i32 (len di)" "magic di < 2 ^ 32"
  shows "bytes_inode_disk (inode_disk_bytes di) = di"
proof -
  have "i32 (int (nat (len di mod 2 ^ 32))) = len di" using assms(2) by (simp add: i32_def mod_simps)
  then show ?thesis using assms(1,3)
    by (cases di) (simp add: bytes_inode_disk_def inode_disk_bytes_def le_nat_le_bytes nat_less_iff)
qed

text \<open>The free map covers the device, and the sectors of its own file are in use.\<close>

definition fs_map :: "fs \<Rightarrow> inode \<Rightarrow> bool" where
  "fs_map fs fino \<longleftrightarrow> fmap_ok fs fino \<and> bit_cnt (free_map fs) = fs_size fs \<and> (\<forall>s \<in> sectors_of fino. bits_of (free_map fs) ! s)"

lemma fs_map_dev: "fs_map fs fino \<Longrightarrow> fs_dev_ok fs"
  by (auto simp: fs_map_def fmap_ok_def map_file_def dir_state_def)

text \<open>Writes outside the file of the free map keep it.\<close>

lemma fs_map_frame:
  assumes "fs_map fs fino" "frame fs fs'" "fs_dev_ok fs'" "\<And>s. s \<in> sectors_of fino \<Longrightarrow> fs_sec fs' s = fs_sec fs s"
  shows "fs_map fs' fino" "map_saved fs fino \<Longrightarrow> map_saved fs' fino"
proof -
  note g = frame_fs [OF assms(2)] and sz = frame_fs(7) [OF assms(2) fs_dev_ok_device [OF fs_map_dev [OF assms(1)]]]
  have ino: "inode_ok fs fino" using assms(1) by (auto simp: fs_map_def fmap_ok_def map_file_def dir_state_def)
  have fb: "file_bytes fs' fino = file_bytes fs fino" by (rule file_bytes_cong [OF ino assms(4)])
  show "fs_map fs' fino"
    using assms(1,3) g sz fb by (auto simp: fs_map_def fmap_ok_def map_file_def dir_state_def inode_ok_def)
  show "map_saved fs fino \<Longrightarrow> map_saved fs' fino" using fb g(4) by (simp add: map_saved_def)
qed

lemma fs_map_alloc:
  assumes "fs_map fs fino" "fmap_ok fs' fino" "fmap_frame fs fino fs'" "bits_of (free_map fs') = fill st n True (bits_of (free_map fs))"
    "st + n \<le> bit_cnt (free_map fs)"
  shows "fs_map fs' fino"
proof -
  have cnt: "bit_cnt (free_map fs') = bit_cnt (free_map fs)" using arg_cong [OF assms(4), of length] assms(5) by simp
  have "s < bit_cnt (free_map fs)" if "s \<in> sectors_of fino" for s
    using that assms(1) by (auto simp: fs_map_def fmap_ok_def map_file_def dir_state_def inode_ok_def sectors_of_def)
  then show ?thesis using assms cnt by (auto simp: fs_map_def fmap_frame_def nth_fill)
qed

text \<open>The inode that \<open>inode_create\<close> writes.\<close>

definition fresh_disk :: "nat \<Rightarrow> int \<Rightarrow> inode_disk" where
  "fresh_disk st l = \<lparr>start = st, len = l, magic = INODE_MAGIC, unused = replicate 500 0\<rparr>"

lemma inode_create_eq:
  assumes fm: "fs_map fs fino" and s: "sect < fs_size fs" "bits_of (free_map fs) ! sect" "sect \<notin> sectors_of fino"
    and l: "l < 2 ^ 31 - 512" and n: "n = bytes_to_sectors (int l)" and mem: "\<And>k. alloc_ok fs k"
  obtains (full) fs' where "inode_create sect (int l) fs = Some (False, fs')" "only_read fs fs'"
      "\<And>i. i + n \<le> fs_size fs \<Longrightarrow> \<exists>j<n. bits_of (free_map fs) ! (i + j)"
  | (ok) st fs' where "inode_create sect (int l) fs = Some (True, fs')" "st + n \<le> fs_size fs" "\<And>j. j < n \<Longrightarrow> \<not> bits_of (free_map fs) ! (st + j)"
      "fs_map fs' fino" "map_saved fs' fino" "bits_of (free_map fs') = fill st n True (bits_of (free_map fs))"
      "fs_sec fs' sect = inode_disk_bytes (fresh_disk st (int l))" "\<And>t. st \<le> t \<Longrightarrow> t < st + n \<Longrightarrow> fs_sec fs' t = replicate 512 0"
      "\<And>t. t \<notin> sectors_of fino \<Longrightarrow> t \<noteq> sect \<Longrightarrow> \<not> (st \<le> t \<and> t < st + n) \<Longrightarrow> fs_sec fs' t = fs_sec fs t"
      "inodes fs' = inodes fs" "open_inodes fs' = open_inodes fs" "alloc_ok fs' = alloc_ok fs" "fs_size fs' = fs_size fs"
proof -
  define fs1 where "fs1 = snd (new_obj fs)"
  have nw: "new_obj fs = (Some (alloc_no fs), fs1)" "only_read fs fs1" using mem new_obj_only_read [of fs] by (simp_all add: new_obj_def fs1_def)
  then have fr: "frame fs fs1" "fs_sec fs1 = fs_sec fs" by (simp_all add: only_read_def)
  note dev = fs_map_dev [OF fm]
  note g = frame_fs [OF fr(1)] and or = only_read_fs [OF nw(2) dev]
  have fm1: "fs_map fs1 fino" using fs_map_frame(1) [OF fm fr(1) or(1)] fr(2) by simp
  then have fmo: "fmap_ok fs1 fino" and cnt: "bit_cnt (free_map fs) = fs_size fs" using fm by (simp_all add: fs_map_def)
  show thesis
  proof (rule free_map_allocate_eq [OF fmo, of n])
    assume "free_map_allocate n fs1 = Some (None, fs1)" "\<And>i. i + n \<le> bit_cnt (free_map fs1) \<Longrightarrow> \<exists>j<n. bits_of (free_map fs1) ! (i + j)"
    then show thesis using nw g cnt n by (intro full [of fs1]) (simp_all add: inode_create_def)
  next
    fix st fs2 assume a: "free_map_allocate n fs1 = Some (Some st, fs2)" "st + n \<le> bit_cnt (free_map fs1)"
      "\<And>j. j < n \<Longrightarrow> \<not> bits_of (free_map fs1) ! (st + j)" "bits_of (free_map fs2) = fill st n True (bits_of (free_map fs1))"
      "fmap_ok fs2 fino" "map_saved fs2 fino" "fmap_frame fs1 fino fs2"
    have fm2: "fs_map fs2 fino" by (rule fs_map_alloc [OF fm1 a(5,7,4,2)])
    note dev2 = fs_map_dev [OF fm2]
    have sz2: "fs_size fs2 = fs_size fs" "st + n \<le> fs_size fs" using a(2,7) or(2) g(4) cnt by (simp_all add: fmap_frame_def)
    have out: "t \<notin> sectors_of fino" "t \<noteq> sect" if "st \<le> t" "t < st + n" for t
    proof -
      have "\<not> bits_of (free_map fs) ! t" using a(3) [of "t - st"] that g(4) by simp
      then show "t \<notin> sectors_of fino" "t \<noteq> sect" using fm s(2) by (auto simp: fs_map_def)
    qed
    let ?di = "fresh_disk st (int l)"
    have "length (inode_disk_bytes ?di) = 512" by (simp add: inode_disk_bytes_def fresh_disk_def)
    then obtain fs3 where fs3: "block_write (fs_device fs2) sect (inode_disk_bytes ?di) fs2 = Some fs3" "frame fs2 fs3" "fs_dev_ok fs3"
      "fs_sec fs3 = (fs_sec fs2)(sect := inode_disk_bytes ?di)"
      using fs_write [OF dev2, of sect] s(1) sz2(1) by auto
    have sz3: "fs_size fs3 = fs_size fs" using frame_fs(7) [OF fs3(2) fs_dev_ok_device [OF dev2]] sz2(1) by simp
    obtain fs' where fs': "zero_sectors n st fs3 = Some fs'" "frame fs3 fs'" "fs_dev_ok fs'"
      "fs_sec fs' = (\<lambda>t. if st \<le> t \<and> t < st + n then replicate 512 0 else fs_sec fs3 t)"
      using zero_sectors_eq [OF fs3(3), of st n] sz2(2) sz3 by auto
    have fr': "frame fs2 fs'" using fs3(2) fs'(2) by (rule frame_trans)
    have keep: "fs_sec fs' t = fs_sec fs2 t" if "t \<in> sectors_of fino" for t using that out s(3) fs3(4) fs'(4) by auto
    note fm' = fs_map_frame [OF fm2 fr' fs'(3) keep] and g' = frame_fs [OF fr'] and sz' = frame_fs(7) [OF fr' fs_dev_ok_device [OF dev2]]
    have "inode_create sect (int l) fs = Some (True, fs')"
      using nw(1) a(1) fs3(1) fs'(1) n by (simp add: inode_create_def fresh_disk_def)
    moreover have "fs_sec fs' t = fs_sec fs t" if "t \<notin> sectors_of fino" "t \<noteq> sect" "\<not> (st \<le> t \<and> t < st + n)" for t
      using that fs3(4) fs'(4) a(7) fr(2) by (auto simp: fmap_frame_def)
    moreover have "fs_sec fs' sect = inode_disk_bytes ?di" using out(2) fs3(4) fs'(4) by auto
    moreover have "fs_sec fs' t = replicate 512 0" if "st \<le> t" "t < st + n" for t using that fs'(4) by simp
    ultimately show thesis
      using a(3,4,6,7) fm' g g' sz' sz2 by (intro ok [of fs' st]) (simp_all add: fmap_frame_def)
  qed
qed

text \<open>Opening an inode that is not open yet.\<close>

lemma inode_open_new:
  assumes "fs_dev_ok fs" "sect < fs_size fs" "alloc_ok fs (alloc_no fs)"
    and closed: "\<forall>a \<in> set (open_inodes fs). map_option sector (inodes fs a) \<noteq> Some sect"
  shows "\<exists>a fs'. inode_open sect fs = Some (Some a, fs') \<and> inodes fs' = (inodes fs)(a \<mapsto> \<lparr>sector = sect, open_cnt = 1, removed = False,
      deny_write_cnt = 0, data = bytes_inode_disk (fs_sec fs sect)\<rparr>) \<and> open_inodes fs' = a # open_inodes fs \<and> a = alloc_no fs
    \<and> fs_sec fs' = fs_sec fs \<and> fs_size fs' = fs_size fs \<and> fs_dev_ok fs' \<and> free_map fs' = free_map fs \<and> alloc_ok fs' = alloc_ok fs
    \<and> free_map_file fs' = free_map_file fs \<and> fs_device fs' = fs_device fs"
proof -
  let ?a = "alloc_no fs"
  let ?fs = "(snd (new_obj fs))\<lparr>open_inodes := ?a # open_inodes fs\<rparr>"
  have f: "find (\<lambda>a. map_option sector (inodes fs a) = Some sect) (open_inodes fs) = None"
    using closed by (auto simp: find_None_iff)
  have d: "fs_dev_ok ?fs" "fs_size ?fs = fs_size fs" "fs_sec ?fs = fs_sec fs" "fs_device ?fs = fs_device fs" "inodes ?fs = inodes fs"
    using assms(1) by (simp_all add: new_obj_def fs_dev_ok_def dev_ok_def devs_ok_def fs_size_def fs_sec_def contents_def fun_eq_iff)
  obtain fs1 where r: "block_read (fs_device fs) sect ?fs = Some (fs_sec fs sect, fs1)" "only_read ?fs fs1"
    using fs_read [OF d(1), of sect] assms(2) d(2,3,4) by auto
  let ?ino = "\<lparr>sector = sect, open_cnt = 1, removed = False, deny_write_cnt = 0, data = bytes_inode_disk (fs_sec fs sect)\<rparr>"
  let ?fs' = "fs1\<lparr>inodes := (inodes fs1)(?a \<mapsto> ?ino)\<rparr>"
  have "inode_open sect fs = Some (Some ?a, ?fs')"
    using f r(1) assms(3) d(4) by (simp add: inode_open_def new_obj_def)
  moreover have "fs_sec ?fs' = fs_sec fs1" "fs_size ?fs' = fs_size fs1" "fs_dev_ok ?fs' = fs_dev_ok fs1"
    by (simp_all add: fs_sec_def contents_def fs_size_def fs_dev_ok_def dev_ok_def devs_ok_def fun_eq_iff)
  moreover have "inodes fs1 = inodes fs" "open_inodes fs1 = ?a # open_inodes fs" "free_map fs1 = free_map fs" "alloc_ok fs1 = alloc_ok fs"
      "free_map_file fs1 = free_map_file fs" "fs_device fs1 = fs_device fs"
    using frame_fs [of ?fs fs1] r(2) by (simp_all add: only_read_def new_obj_def)
  ultimately show ?thesis using only_read_fs [OF r(2) d(1)] d by (intro exI [of _ ?a] exI [of _ ?fs']) simp
qed

text \<open>
  C13: \<open>inode_create\<close> succeeds exactly when there are enough consecutive free sectors.  The inode can then be opened: it has
  the length asked for, its contents are zeros, and its sectors were free before and are in use now.  Every other sector in
  use keeps its contents, whether the creation succeeds or not.
\<close>

theorem inode_create_open:
  assumes fm: "fs_map fs fino" and s: "sect < fs_size fs" "bits_of (free_map fs) ! sect" "sect \<notin> sectors_of fino"
    and l: "l < 2 ^ 31 - 512" and mem: "\<And>k. alloc_ok fs k"
    and closed: "\<forall>a \<in> set (open_inodes fs). map_option sector (inodes fs a) \<noteq> Some sect"
  defines "n \<equiv> bytes_to_sectors (int l)"
  shows "\<exists>success fs'. inode_create sect (int l) fs = Some (success, fs')
    \<and> (success \<longleftrightarrow> (\<exists>i. i + n \<le> fs_size fs \<and> (\<forall>j<n. \<not> bits_of (free_map fs) ! (i + j))))
    \<and> (\<forall>t < fs_size fs. bits_of (free_map fs) ! t \<and> t \<noteq> sect \<and> t \<notin> sectors_of fino \<longrightarrow> fs_sec fs' t = fs_sec fs t)
    \<and> (success \<longrightarrow> (\<exists>a fs'' ino. inode_open sect fs' = Some (Some a, fs'') \<and> inodes fs'' a = Some ino \<and> open_cnt ino = 1
        \<and> inode_ok fs'' ino \<and> file_bytes fs'' ino = replicate l 0
        \<and> (\<forall>t \<in> sectors_of ino. \<not> bits_of (free_map fs) ! t \<and> bits_of (free_map fs'') ! t)))"
proof (rule inode_create_eq [OF fm s l n_def [THEN meta_eq_to_obj_eq] mem])
  fix fs' assume a: "inode_create sect (int l) fs = Some (False, fs')" "only_read fs fs'"
    "\<And>i. i + n \<le> fs_size fs \<Longrightarrow> \<exists>j<n. bits_of (free_map fs) ! (i + j)"
  then show ?thesis by (intro exI [of _ False] exI [of _ fs']) (auto simp: only_read_def)
next
  fix st fs' assume a: "inode_create sect (int l) fs = Some (True, fs')" "st + n \<le> fs_size fs" "\<And>j. j < n \<Longrightarrow> \<not> bits_of (free_map fs) ! (st + j)"
      "fs_map fs' fino" "map_saved fs' fino" "bits_of (free_map fs') = fill st n True (bits_of (free_map fs))"
      "fs_sec fs' sect = inode_disk_bytes (fresh_disk st (int l))" "\<And>t. st \<le> t \<Longrightarrow> t < st + n \<Longrightarrow> fs_sec fs' t = replicate 512 0"
      "\<And>t. t \<notin> sectors_of fino \<Longrightarrow> t \<noteq> sect \<Longrightarrow> \<not> (st \<le> t \<and> t < st + n) \<Longrightarrow> fs_sec fs' t = fs_sec fs t"
      "inodes fs' = inodes fs" "open_inodes fs' = open_inodes fs" "alloc_ok fs' = alloc_ok fs" "fs_size fs' = fs_size fs"
  have free: "\<not> bits_of (free_map fs) ! t" if "st \<le> t" "t < st + n" for t using a(3) [of "t - st"] that by simp
  then have others: "fs_sec fs' t = fs_sec fs t" if "bits_of (free_map fs) ! t" "t \<noteq> sect" "t \<notin> sectors_of fino" for t
    using that a(9) by blast
  have di: "bytes_inode_disk (inode_disk_bytes (fresh_disk st (int l))) = fresh_disk st (int l)"
    using a(2) fs_size_less [OF fs_map_dev [OF fm]] l by (intro inode_disk_roundtrip) (simp_all add: fresh_disk_def INODE_MAGIC_def)
  let ?ino = "\<lparr>sector = sect, open_cnt = 1, removed = False, deny_write_cnt = 0, data = fresh_disk st (int l)\<rparr>"
  obtain b fs'' where o: "inode_open sect fs' = Some (Some b, fs'')" "inodes fs'' = (inodes fs')(b \<mapsto> ?ino)" "fs_sec fs'' = fs_sec fs'"
      "fs_size fs'' = fs_size fs" "free_map fs'' = free_map fs'"
    using inode_open_new [OF fs_map_dev [OF a(4)], of sect] s(1) a(7,10-13) mem closed di by auto
  have sec: "sectors_of ?ino = {st ..< st + n}" by (simp add: sectors_of_def fresh_disk_def n_def)
  have "file_bytes fs'' ?ino = replicate l 0"
  proof (rule nth_equalityI)
    fix k assume "k < length (file_bytes fs'' ?ino)"
    then have k: "k < l" by (simp add: length_file_bytes fresh_disk_def)
    then have "fs_sec fs' (st + k div 512) = replicate 512 0"
      using a(8) [of "st + k div 512"] offset_sector [OF k] bytes_to_sectors_eq [OF l] by (simp add: n_def)
    then show "file_bytes fs'' ?ino ! k = replicate l 0 ! k" using k o(3) by (simp add: nth_file_bytes byte_at_def fresh_disk_def)
  qed (simp add: length_file_bytes fresh_disk_def)
  moreover have "inode_ok fs'' ?ino" using a(2) l o(4) by (simp add: inode_ok_def fresh_disk_def n_def)
  moreover have "\<forall>t \<in> sectors_of ?ino. \<not> bits_of (free_map fs) ! t \<and> bits_of (free_map fs'') ! t"
    using free a(2,6) o(5) fm unfolding sec by (auto simp: nth_fill fs_map_def)
  ultimately show ?thesis using a(1-3) others o(1,2) by (intro exI [of _ True] exI [of _ fs']) auto
qed

theorem inode_create_open_witness:
  "\<exists>fs' a fs'' ino. inode_create 0 100 demo_map_fs = Some (True, fs') \<and> inode_open 0 fs' = Some (Some a, fs'')
     \<and> inodes fs'' a = Some ino \<and> file_bytes fs'' ino = replicate 100 0"
proof -
  let ?fs = demo_map_fs
  have n: "bytes_to_sectors (int 100) = 1" "bytes_to_sectors 600 = 2" using bytes_to_sectors_eq [of 100] bytes_to_sectors_eq [of 600] by simp_all
  have cnt: "bit_cnt (free_map ?fs) = 4" using arg_cong [OF demo_map_ok(2), of length] by simp
  have sz: "fs_size ?fs = 4" by (simp add: demo_map_fs_def demo_fs_def devs.defs fs.defs two_parts_def fs_size_def)
  have sec: "sectors_of demo_ino = {1, 2}" using n(2) by (auto simp: sectors_of_def demo_ino_def)
  have fm: "fs_map ?fs demo_ino" using demo_map_ok cnt sz by (auto simp: fs_map_def sec)
  have mem: "\<And>k. alloc_ok ?fs k" using demo_fs_ok(4) by (simp add: demo_map_fs_def)
  have free: "\<exists>i. i + 1 \<le> (4 :: nat) \<and> (\<forall>j<1. \<not> bits_of (free_map ?fs) ! (i + j))"
    by (rule exI [of _ 3]) (simp add: demo_map_ok(2))
  have "\<forall>a \<in> set (open_inodes ?fs). map_option sector (inodes ?fs a) \<noteq> Some 0" by (simp add: demo_map_fs_def)
  then show ?thesis
    using inode_create_open [OF fm, of 0 100] mem free sz n(1) unfolding demo_map_ok(2) by (fastforce simp: sec)
qed

section \<open>Creating a file\<close>

lemma fs_map_cong:
  assumes "fs_map fs fino" "free_map fs' = free_map fs" "free_map_file fs' = free_map_file fs" "fs_sec fs' = fs_sec fs"
    "fs_size fs' = fs_size fs" "fs_dev_ok fs'" "alloc_ok fs' = alloc_ok fs"
    and "\<And>f ip. free_map_file fs = Some f \<Longrightarrow> file_inode f = Some ip \<Longrightarrow> inodes fs' ip = inodes fs ip"
  shows "fs_map fs' fino"
proof -
  have "file_bytes fs' fino = file_bytes fs fino" using assms(4) by (simp add: file_bytes_def byte_at_def fun_eq_iff)
  then show ?thesis using assms by (auto simp: fs_map_def fmap_ok_def map_file_def dir_state_def inode_ok_def)
qed

text \<open>A long run of free sectors leaves a run of \<open>n\<close> when one sector is taken.\<close>

lemma split_run:
  assumes "i + (2 * n + 1) \<le> length xs" "\<And>j. j < 2 * n + 1 \<Longrightarrow> \<not> xs ! (i + j)" "s < length xs"
  shows "\<exists>k. k + n \<le> length xs \<and> (\<forall>j<n. \<not> fill s 1 True xs ! (k + j))"
proof (cases "i \<le> s \<and> s < i + n")
  case True
  then have "\<not> fill s 1 True xs ! (i + n + 1 + j)" if "j < n" for j
    using that assms(1,3) assms(2) [of "n + 1 + j"] by (simp add: nth_fill add.assoc)
  then show ?thesis using assms(1) by (intro exI [of _ "i + n + 1"]) simp
next
  case False
  then have "\<not> fill s 1 True xs ! (i + j)" if "j < n" for j
    using that assms(1,3) assms(2) [of j] by (auto simp: nth_fill)
  then show ?thesis using assms(1) by (intro exI [of _ i]) simp
qed

lemma dir_open_root_eq:
  assumes fm: "fs_map fs fino" and mem: "\<And>k. alloc_ok fs k" and fresh: "inodes fs (alloc_no fs) = None"
    and root: "ROOT_DIR_SECTOR < fs_size fs" "\<forall>a \<in> set (open_inodes fs). map_option sector (inodes fs a) \<noteq> Some ROOT_DIR_SECTOR"
  shows "\<exists>a fs' ino. dir_open_root fs = Some (Some \<lparr>dir_inode = Some a, dir_pos = 0\<rparr>, fs') \<and> fs_map fs' fino
    \<and> inodes fs' a = Some ino \<and> open_cnt ino = 1 \<and> \<not> removed ino \<and> free_map fs' = free_map fs \<and> fs_size fs' = fs_size fs \<and> alloc_ok fs' = alloc_ok fs"
proof -
  let ?root = "\<lparr>sector = ROOT_DIR_SECTOR, open_cnt = 1, removed = False, deny_write_cnt = 0, data = bytes_inode_disk (fs_sec fs ROOT_DIR_SECTOR)\<rparr>"
  obtain a fs1 where o: "inode_open ROOT_DIR_SECTOR fs = Some (Some a, fs1)" "inodes fs1 = (inodes fs)(a \<mapsto> ?root)" "a = alloc_no fs"
    "fs_sec fs1 = fs_sec fs" "fs_size fs1 = fs_size fs" "fs_dev_ok fs1" "free_map fs1 = free_map fs" "alloc_ok fs1 = alloc_ok fs"
    "free_map_file fs1 = free_map_file fs"
    using inode_open_new [OF fs_map_dev [OF fm] root(1) mem root(2)] by blast
  have fm1: "fs_map fs1 fino"
    using fm o fresh by (intro fs_map_cong [OF fm]) (auto simp: fs_map_def fmap_ok_def map_file_def dir_state_def)
  define fs2 where "fs2 = snd (new_obj fs1)"
  have n2: "new_obj fs1 = (Some (alloc_no fs1), fs2)" "only_read fs1 fs2"
    using mem o(8) new_obj_only_read [of fs1] by (simp_all add: new_obj_def fs2_def)
  then have fr2: "frame fs1 fs2" "fs_sec fs2 = fs_sec fs1" "fs_dev_ok fs2" "fs_size fs2 = fs_size fs"
    using only_read_fs [OF n2(2) o(6)] o(5) by (simp_all add: only_read_def)
  note g2 = frame_fs [OF fr2(1)]
  have "fs_map fs2 fino" using fs_map_frame(1) [OF fm1 fr2(1,3)] fr2(2) by simp
  moreover have "dir_open_root fs = Some (Some \<lparr>dir_inode = Some a, dir_pos = 0\<rparr>, fs2)"
    using o(1) n2(1) by (simp add: dir_open_root_def dir_open_def)
  ultimately show ?thesis using o g2 fr2(4) by (intro exI [of _ a] exI [of _ fs2] exI [of _ ?root]) simp
qed

lemma inode_close_last:
  assumes "inodes fs a = Some ino" "open_cnt ino = 1" "\<not> removed ino"
  shows "\<exists>fs'. inode_close (Some a) fs = Some fs' \<and> free_map fs' = free_map fs"
  using assms by (simp add: inode_close_def i32_id)

text \<open>The allocation of the sector of the inode and the creation of the inode, with the sector released again.\<close>

lemma create_then_refuse:
  assumes fm: "fs_map fs fino" and mem: "\<And>k. alloc_ok fs k" and l: "l < 2 ^ 31 - 512" and n: "n = bytes_to_sectors (int l)"
    and sys: "bits_of (free_map fs) ! FREE_MAP_SECTOR" "0 < fs_size fs"
    and run: "i + (2 * n + 1) \<le> fs_size fs" "\<And>j. j < 2 * n + 1 \<Longrightarrow> \<not> bits_of (free_map fs) ! (i + j)"
  shows "\<exists>sect fs1 fs2 fs3 st. free_map_allocate 1 fs = Some (Some sect, fs1) \<and> inode_create sect (int l) fs1 = Some (True, fs2)
    \<and> sect \<noteq> 0 \<and> free_map_release sect 1 fs2 = Some fs3 \<and> inodes fs3 = inodes fs \<and> st + n \<le> fs_size fs
    \<and> (\<forall>j<n. \<not> bits_of (free_map fs) ! (st + j) \<and> bits_of (free_map fs3) ! (st + j))"
proof -
  have cnt: "bit_cnt (free_map fs) = fs_size fs" using fm by (simp add: fs_map_def)
  obtain sect fs1 where al: "free_map_allocate 1 fs = Some (Some sect, fs1)" "sect < fs_size fs" "\<not> bits_of (free_map fs) ! sect"
    "bits_of (free_map fs1) = fill sect 1 True (bits_of (free_map fs))" "fmap_ok fs1 fino" "fmap_frame fs fino fs1"
  proof (rule free_map_allocate_eq [of fs fino 1])
    show "fmap_ok fs fino" using fm by (simp add: fs_map_def)
    assume "\<And>i. i + 1 \<le> bit_cnt (free_map fs) \<Longrightarrow> \<exists>j<1. bits_of (free_map fs) ! (i + j)"
    from this [of i] show thesis using run(1) run(2) [of 0] cnt by simp
  qed (use cnt that in auto)
  have fm1: "fs_map fs1 fino" using fs_map_alloc [OF fm al(5,6), of sect 1] al(2,4) cnt by simp
  have sz1: "fs_size fs1 = fs_size fs" "inodes fs1 = inodes fs" "\<And>k. alloc_ok fs1 k" using al(6) mem by (simp_all add: fmap_frame_def)
  have used: "bits_of (free_map fs1) ! sect" using al(2,4) cnt by (simp add: nth_fill)
  have out: "sect \<notin> sectors_of fino" using al(3) fm by (auto simp: fs_map_def)
  have run1: "\<exists>k. k + n \<le> fs_size fs1 \<and> (\<forall>j<n. \<not> bits_of (free_map fs1) ! (k + j))"
    using split_run [of i n "bits_of (free_map fs)" sect] run al(2,4) cnt sz1(1) by simp
  obtain st fs2 where cr: "inode_create sect (int l) fs1 = Some (True, fs2)" "st + n \<le> fs_size fs"
    "\<And>j. j < n \<Longrightarrow> \<not> bits_of (free_map fs1) ! (st + j)" "fs_map fs2 fino" "bits_of (free_map fs2) = fill st n True (bits_of (free_map fs1))"
    "inodes fs2 = inodes fs" "fs_size fs2 = fs_size fs"
  proof (rule inode_create_eq [OF fm1 _ used out l n sz1(3)])
    show "sect < fs_size fs1" using al(2) sz1(1) by simp
    assume "\<And>i. i + n \<le> fs_size fs1 \<Longrightarrow> \<exists>j<n. bits_of (free_map fs1) ! (i + j)"
    then show thesis using run1 by blast
  qed (use sz1 that in auto)
  have lens: "length (bits_of (free_map fs1)) = fs_size fs" "bit_cnt (free_map fs2) = fs_size fs"
    using al(2,4) cnt cr(4,7) by (simp_all add: fs_map_def)
  have "bits_of (free_map fs2) ! sect" using used cr(2,5) al(2) lens(1) by (simp add: nth_fill)
  then obtain fs3 where rel: "free_map_release sect 1 fs2 = Some fs3" "bits_of (free_map fs3) = fill sect 1 False (bits_of (free_map fs2))" "inodes fs3 = inodes fs2"
    using free_map_release_eq [of fs2 fino sect 1] cr(4) al(2) lens(2) by (auto simp: fs_map_def fmap_frame_def)
  have "\<not> bits_of (free_map fs) ! (st + j) \<and> bits_of (free_map fs3) ! (st + j)" if "j < n" for j
  proof -
    have "st + j \<noteq> sect" using cr(3) [OF that] used by auto
    moreover have "st + j < fs_size fs" using that cr(2) by simp
    ultimately show ?thesis
      using that cr(2) cr(3) [OF that] cr(5) rel(2) al(2,4) lens cnt by (auto simp: nth_fill split: if_splits)
  qed
  moreover have "sect \<noteq> 0" using al(3) sys(1) by (metis FREE_MAP_SECTOR_def)
  ultimately show ?thesis using al(1) cr(1,2,6) rel(1,3) by auto
qed

text \<open>
  C34: A failed creation leaks sectors: \<open>filesys_create\<close> with a name that is too long allocates the data of the file before
  \<open>dir_add\<close> refuses the name, returns false, and releases the sector of the inode only; the data sectors, free before, stay
  marked as used.
\<close>

theorem filesys_create_leaks:
  assumes fm: "fs_map fs fino" and mem: "\<And>k. alloc_ok fs k" and fresh: "inodes fs (alloc_no fs) = None"
    and root: "ROOT_DIR_SECTOR < fs_size fs" "\<forall>a \<in> set (open_inodes fs). map_option sector (inodes fs a) \<noteq> Some ROOT_DIR_SECTOR"
    and sys: "bits_of (free_map fs) ! FREE_MAP_SECTOR" "0 < fs_size fs"
    and l: "l < 2 ^ 31 - 512" and long: "NAME_MAX < length name"
  defines "n \<equiv> bytes_to_sectors (int l)"
  assumes run: "i + (2 * n + 1) \<le> fs_size fs" "\<And>j. j < 2 * n + 1 \<Longrightarrow> \<not> bits_of (free_map fs) ! (i + j)"
  shows "\<exists>fs' st. filesys_create garbage name (int l) fs = Some (False, fs') \<and> st + n \<le> fs_size fs
    \<and> (\<forall>j<n. \<not> bits_of (free_map fs) ! (st + j) \<and> bits_of (free_map fs') ! (st + j))"
proof -
  obtain a fs1 ino where r: "dir_open_root fs = Some (Some \<lparr>dir_inode = Some a, dir_pos = 0\<rparr>, fs1)" "fs_map fs1 fino"
    "inodes fs1 a = Some ino" "open_cnt ino = 1" "\<not> removed ino" "free_map fs1 = free_map fs" "fs_size fs1 = fs_size fs" "alloc_ok fs1 = alloc_ok fs"
    using dir_open_root_eq [OF fm mem fresh root] by blast
  obtain sect fs2 fs3 fs4 st where c: "free_map_allocate 1 fs1 = Some (Some sect, fs2)" "inode_create sect (int l) fs2 = Some (True, fs3)"
    "sect \<noteq> 0" "free_map_release sect 1 fs3 = Some fs4" "inodes fs4 = inodes fs1" "st + n \<le> fs_size fs"
    "\<forall>j<n. \<not> bits_of (free_map fs) ! (st + j) \<and> bits_of (free_map fs4) ! (st + j)"
    using create_then_refuse [OF r(2) _ l n_def [THEN meta_eq_to_obj_eq], of i] mem sys run unfolding r(6-8) by blast
  obtain fs5 where f: "inode_close (Some a) fs4 = Some fs5" "free_map fs5 = free_map fs4"
    using inode_close_last [of fs4 a ino] r(3-5) c(5) by auto
  have "filesys_create garbage name (int l) fs = Some (False, fs5)"
    using r(1) c(1-4) f(1) long by (simp add: filesys_create_def create_steps_def dir_add_def dir_close_def)
  then show ?thesis using c(6,7) f(2) by auto
qed

text \<open>A device of ten sectors: sectors 3 to 9 are free.\<close>

definition demo_big_fs :: fs where
  "demo_big_fs = demo_map_fs\<lparr>fs_device := 0, alloc_no := 5, free_map := \<lparr>bit_cnt = 10, bits = [7]\<rparr>\<rparr>"

lemma demo_big_ok: "fs_map demo_big_fs demo_ino" "fs_size demo_big_fs = 10"
  "bits_of (free_map demo_big_fs) = [True, True, True, False, False, False, False, False, False, False]"
proof -
  have n: "bytes_to_sectors 600 = 2" using bytes_to_sectors_eq [of 600] by simp
  have b: "free_map demo_big_fs = \<lparr>bit_cnt = 10, bits = [7]\<rparr>" by (simp add: demo_big_fs_def)
  show sz: "fs_size demo_big_fs = 10"
    by (simp add: demo_big_fs_def demo_map_fs_def demo_fs_def devs.defs fs.defs two_parts_def fs_size_def)
  show bits: "bits_of (free_map demo_big_fs) = [True, True, True, False, False, False, False, False, False, False]"
    by (simp add: b bits_of_def bit_at_def upt_rec)
  have "fs_dev_ok demo_big_fs"
    by (simp add: demo_big_fs_def demo_map_fs_def demo_fs_def devs.defs fs.defs two_parts_def fs_dev_ok_def dev_ok_def devs_ok_def
        block_ok_def less_Suc_eq writable.simps BLOCK_SECTOR_SIZE_def)
  then have "dir_state demo_big_fs 0 demo_ino"
    using demo_fs_ok(2,4) n sz by (simp add: dir_state_def inode_ok_def demo_big_fs_def demo_map_fs_def demo_ino_def)
  then show "fs_map demo_big_fs demo_ino"
    using n sz bits by (auto simp: fs_map_def fmap_ok_def map_file_def length_file_bytes demo_big_fs_def demo_map_fs_def demo_ino_def bitmap_ok_def
        elem_cnt_eq sectors_of_def less_Suc_eq_le le_Suc_eq nth_Cons')
qed

theorem filesys_create_leaks_witness:
  "\<exists>fs' st. filesys_create [] (replicate 15 97) 600 demo_big_fs = Some (False, fs')
     \<and> \<not> bits_of (free_map demo_big_fs) ! st \<and> bits_of (free_map fs') ! st"
proof -
  have n: "bytes_to_sectors 600 = 2" using bytes_to_sectors_eq [of 600] by simp
  have other: "\<And>k. alloc_ok demo_big_fs k" "inodes demo_big_fs (alloc_no demo_big_fs) = None" "open_inodes demo_big_fs = []"
    using demo_fs_ok(4) by (simp_all add: demo_big_fs_def demo_map_fs_def) (simp add: demo_fs_def devs.defs fs.defs two_parts_def)
  have run: "\<not> bits_of (free_map demo_big_fs) ! (3 + j)" if "j < 2 * bytes_to_sectors 600 + 1" for j
    using that unfolding demo_big_ok(3) n by (auto simp: numeral_eq_Suc less_Suc_eq)
  have "\<exists>fs' st. filesys_create [] (replicate 15 97) (int 600) demo_big_fs = Some (False, fs') \<and> st + 2 \<le> fs_size demo_big_fs
      \<and> (\<forall>j<2. \<not> bits_of (free_map demo_big_fs) ! (st + j) \<and> bits_of (free_map fs') ! (st + j))"
    using filesys_create_leaks [OF demo_big_ok(1) other(1,2), of 600 "replicate 15 97" 3 "[]"] run
    by (simp add: n demo_big_ok(2,3) other(3) ROOT_DIR_SECTOR_def FREE_MAP_SECTOR_def NAME_MAX_def)
  then show ?thesis by (metis add_0_right of_nat_numeral zero_less_numeral)
qed

end
