(* ===== verification/Malloc.thy ===== *)
theory Malloc
  imports Palloc Kernel_List
begin

text \<open>
  \<open>threads/malloc.c\<close>: the kernel heap.  Seven descriptors manage blocks of 16 to 1024 bytes; a page of such blocks, an
  arena, starts with a header of three words, and larger requests get pages of their own with the same header.  Headers
  and contents are in the memory of \<open>Palloc\<close>; the links of the free lists, which are in the free blocks, are a
  \<open>list_heap\<close>, so the contents of a free block are not described by \<open>mem\<close>.  A descriptor's lock is a flag: an operation
  runs between its acquisition and its release, and acquiring a lock that this thread holds is a panic.

  The descriptors are at the address \<open>descs_at\<close>, 48 bytes each, and a pointer that is not the address of one of them
  faults.  \<open>heap_view s H\<close> says that the heap has exactly the blocks in use that the map \<open>H\<close> has, with their sizes;
  \<open>malloc\<close> and \<open>free\<close> act on the map as on a partial function, and the blocks never overlap.
\<close>

unbundle bit_operations_syntax

record desc =
  block_size :: nat
  blocks_per_arena :: nat
  flist :: addr
  held :: bool

record heap = palloc_state +
  descs :: "desc list"
  descs_at :: addr
  free_heap :: list_heap

definition ARENA_MAGIC :: "32 word" where "ARENA_MAGIC = 0x9a548eed"

definition sizeof_arena :: nat where "sizeof_arena = 12"

section \<open>Arenas\<close>

definition magic :: "heap \<Rightarrow> 32 word \<Rightarrow> 32 word" where "magic s a = mem s a"
definition arena_desc :: "heap \<Rightarrow> 32 word \<Rightarrow> 32 word" where "arena_desc s a = mem s (a + 4)"
definition free_cnt :: "heap \<Rightarrow> 32 word \<Rightarrow> 32 word" where "free_cnt s a = mem s (a + 8)"

definition set_arena :: "32 word \<Rightarrow> 32 word \<Rightarrow> 32 word \<Rightarrow> heap \<Rightarrow> heap" where
  "set_arena a d cnt s = s\<lparr>mem := (mem s)(a := ARENA_MAGIC, a + 4 := d, a + 8 := cnt)\<rparr>"

definition set_free_cnt :: "32 word \<Rightarrow> 32 word \<Rightarrow> heap \<Rightarrow> heap" where
  "set_free_cnt a cnt s = s\<lparr>mem := (mem s)(a + 8 := cnt)\<rparr>"

definition desc_ptr :: "heap \<Rightarrow> nat \<Rightarrow> 32 word" where
  "desc_ptr s i = of_nat (descs_at s + 48 * i)"

definition deref_desc :: "heap \<Rightarrow> 32 word \<Rightarrow> nat option" where
  "deref_desc s p = do {
     let i = (unat p - descs_at s) div 48;
     ASSERT (i < length (descs s) \<and> p = desc_ptr s i);
     Some i }"

definition block_to_arena :: "32 word \<Rightarrow> heap \<Rightarrow> 32 word option" where
  "block_to_arena b s = do {
     let a = pg_round_down b;
     ASSERT (a \<noteq> 0);
     ASSERT (magic s a = ARENA_MAGIC);
     (if arena_desc s a = 0 then ASSERT (unat (pg_ofs b) = sizeof_arena)
      else do {
        i \<leftarrow> deref_desc s (arena_desc s a);
        ASSERT (unat (pg_ofs b - of_nat sizeof_arena) mod block_size (descs s ! i) = 0) });
     Some a }"

definition arena_to_block :: "32 word \<Rightarrow> nat \<Rightarrow> heap \<Rightarrow> 32 word option" where
  "arena_to_block a idx s = do {
     ASSERT (a \<noteq> 0);
     ASSERT (magic s a = ARENA_MAGIC);
     i \<leftarrow> deref_desc s (arena_desc s a);
     ASSERT (idx < blocks_per_arena (descs s ! i));
     Some (a + of_nat sizeof_arena + of_nat (idx * block_size (descs s ! i))) }"

definition lock_desc :: "nat \<Rightarrow> heap \<Rightarrow> heap option" where
  "lock_desc i s = do {
     ASSERT (\<not> held (descs s ! i));
     Some (s\<lparr>descs := (descs s)[i := (descs s ! i)\<lparr>held := True\<rparr>]\<rparr>) }"

definition unlock_desc :: "nat \<Rightarrow> heap \<Rightarrow> heap option" where
  "unlock_desc i s = do {
     ASSERT (held (descs s ! i));
     Some (s\<lparr>descs := (descs s)[i := (descs s ! i)\<lparr>held := False\<rparr>]\<rparr>) }"

section \<open>The operations\<close>

function malloc_init_loop :: "nat \<Rightarrow> heap \<Rightarrow> heap option" where
  "malloc_init_loop sz s =
     (if sz = 0 \<or> \<not> sz < PGSIZE div 2 then Some s
      else do {
        let l = descs_at s + 48 * length (descs s) + 8;
        ASSERT (Suc (length (descs s)) \<le> 10);
        h \<leftarrow> list_init (free_heap s) l;
        malloc_init_loop (u32 (sz * 2))
          (s\<lparr>descs := descs s @ [\<lparr>block_size = sz, blocks_per_arena = (PGSIZE - sizeof_arena) div sz, flist = l, held = False\<rparr>],
             free_heap := h\<rparr>) })"
  by pat_completeness auto
termination
  by (relation "measure (\<lambda>(sz, s). 2048 - sz)") (auto simp: PGSIZE_def u32_id)

definition malloc_init :: "heap \<Rightarrow> heap option" where
  "malloc_init s = malloc_init_loop 16 (s\<lparr>descs := []\<rparr>)"

primrec find_desc :: "nat \<Rightarrow> desc list \<Rightarrow> nat" where
  "find_desc sz [] = 0" |
  "find_desc sz (d # ds) = (if block_size d \<ge> sz then 0 else Suc (find_desc sz ds))"

definition add_block :: "32 word \<Rightarrow> nat \<Rightarrow> nat \<Rightarrow> heap \<Rightarrow> heap option" where
  "add_block a d i s = do {
     b \<leftarrow> arena_to_block a i s;
     h \<leftarrow> list_push_back (free_heap s) (flist (descs s ! d)) (unat b);
     Some (s\<lparr>free_heap := h\<rparr>) }"

definition malloc_big :: "nat \<Rightarrow> heap \<Rightarrow> (32 word \<times> heap) option" where
  "malloc_big sz s = do {
     let page_cnt = DIV_ROUND_UP (u32 (sz + sizeof_arena)) PGSIZE;
     (a, s) \<leftarrow> palloc_get_multiple 0 page_cnt s;
     if a = 0 then Some (0, s)
     else Some (a + of_nat sizeof_arena, set_arena a 0 (of_nat page_cnt) s) }"

definition new_arena :: "nat \<Rightarrow> heap \<Rightarrow> (bool \<times> heap) option" where
  "new_arena d s = do {
     (a, s) \<leftarrow> palloc_get_page 0 s;
     if a = 0 then Some (False, s)
     else do {
       let s = set_arena a (desc_ptr s d) (of_nat (blocks_per_arena (descs s ! d))) s;
       s \<leftarrow> fold_opt (add_block a d) [0..<blocks_per_arena (descs s ! d)] s;
       Some (True, s) } }"

definition pop_block :: "nat \<Rightarrow> heap \<Rightarrow> (32 word \<times> heap) option" where
  "pop_block d s = do {
     (h, b) \<leftarrow> list_pop_front (free_heap s) (flist (descs s ! d));
     let s = s\<lparr>free_heap := h\<rparr>;
     a \<leftarrow> block_to_arena (of_nat b) s;
     let s = set_free_cnt a (free_cnt s a - 1) s;
     s \<leftarrow> unlock_desc d s;
     Some (of_nat b, s) }"

definition malloc :: "nat \<Rightarrow> heap \<Rightarrow> (32 word \<times> heap) option" where
  "malloc sz s =
     (if sz = 0 then Some (0, s)
      else let d = find_desc sz (descs s)
      in if d = length (descs s) then malloc_big sz s
      else do {
        s \<leftarrow> lock_desc d s;
        none \<leftarrow> list_empty (free_heap s) (flist (descs s ! d));
        (ok, s) \<leftarrow> (if none then new_arena d s else Some (True, s));
        if \<not> ok then do { s \<leftarrow> unlock_desc d s; Some (0, s) }
        else pop_block d s })"

text \<open>The bytes of a word that are in the range, counted from its address.\<close>

definition byte_mask :: "(nat \<Rightarrow> bool) \<Rightarrow> 32 word" where
  "byte_mask P = (if P 0 then 0xff else 0) OR (if P 1 then 0xff00 else 0) OR (if P 2 then 0xff0000 else 0) OR (if P 3 then 0xff000000 else 0)"

definition select_bytes :: "(nat \<Rightarrow> bool) \<Rightarrow> 32 word \<Rightarrow> 32 word \<Rightarrow> 32 word" where
  "select_bytes P new old = (new AND byte_mask P) OR (old AND NOT (byte_mask P))"

text \<open>\<open>memset\<close> and \<open>memcpy\<close> of \<open>n\<close> bytes at word-aligned addresses, the last word perhaps in part.\<close>

definition memset_bytes :: "32 word \<Rightarrow> 32 word \<Rightarrow> nat \<Rightarrow> (32 word \<Rightarrow> 32 word) \<Rightarrow> 32 word \<Rightarrow> 32 word" where
  "memset_bytes dst v n m = (\<lambda>a. select_bytes (\<lambda>j. unat (a - dst) + j < n) v (m a))"

definition memcpy_bytes :: "32 word \<Rightarrow> 32 word \<Rightarrow> nat \<Rightarrow> (32 word \<Rightarrow> 32 word) \<Rightarrow> 32 word \<Rightarrow> 32 word" where
  "memcpy_bytes dst src n m = (\<lambda>a. select_bytes (\<lambda>j. unat (a - dst) + j < n) (m (src + (a - dst))) (m a))"

definition calloc :: "nat \<Rightarrow> nat \<Rightarrow> heap \<Rightarrow> (32 word \<times> heap) option" where
  "calloc a b s = do {
     let sz = u32 (a * b);
     if sz < a \<or> sz < b then Some (0, s)
     else do {
       (p, s) \<leftarrow> malloc sz s;
       Some (p, if p \<noteq> 0 then s\<lparr>mem := memset_bytes p 0 sz (mem s)\<rparr> else s) } }"

definition block_size_of :: "32 word \<Rightarrow> heap \<Rightarrow> nat option" where
  "block_size_of b s = do {
     a \<leftarrow> block_to_arena b s;
     if arena_desc s a \<noteq> 0 then do {
       i \<leftarrow> deref_desc s (arena_desc s a);
       Some (block_size (descs s ! i)) }
     else Some (unat (of_nat PGSIZE * free_cnt s a - pg_ofs b)) }"

definition unlink_block :: "32 word \<Rightarrow> nat \<Rightarrow> heap \<Rightarrow> heap option" where
  "unlink_block a i s = do {
     b \<leftarrow> arena_to_block a i s;
     (h, _) \<leftarrow> list_remove (free_heap s) (unat b);
     Some (s\<lparr>free_heap := h\<rparr>) }"

definition free :: "32 word \<Rightarrow> heap \<Rightarrow> heap option" where
  "free p s =
     (if p = 0 then Some s
      else do {
        a \<leftarrow> block_to_arena p s;
        if arena_desc s a \<noteq> 0 then do {
          d \<leftarrow> deref_desc s (arena_desc s a);
          let s = s\<lparr>mem := memset_words p 0xcccccccc (block_size (descs s ! d)) (mem s)\<rparr>;
          s \<leftarrow> lock_desc d s;
          h \<leftarrow> list_push_front (free_heap s) (flist (descs s ! d)) (unat p);
          let s = s\<lparr>free_heap := h\<rparr>;
          let s = set_free_cnt a (free_cnt s a + 1) s;
          s \<leftarrow> (if unat (free_cnt s a) \<ge> blocks_per_arena (descs s ! d)
            then do {
              ASSERT (unat (free_cnt s a) = blocks_per_arena (descs s ! d));
              s \<leftarrow> fold_opt (unlink_block a) [0..<blocks_per_arena (descs s ! d)] s;
              palloc_free_page a s }
            else Some s);
          unlock_desc d s }
        else palloc_free_multiple a (unat (free_cnt s a)) s })"

definition realloc :: "32 word \<Rightarrow> nat \<Rightarrow> heap \<Rightarrow> (32 word \<times> heap) option" where
  "realloc old_block new_size s =
     (if new_size = 0 then do { s \<leftarrow> free old_block s; Some (0, s) }
      else do {
        (new_block, s) \<leftarrow> malloc new_size s;
        if old_block \<noteq> 0 \<and> new_block \<noteq> 0 then do {
          old_size \<leftarrow> block_size_of old_block s;
          let min_size = (if new_size < old_size then new_size else old_size);
          let s = s\<lparr>mem := memcpy_bytes new_block old_block min_size (mem s)\<rparr>;
          s \<leftarrow> free old_block s;
          Some (new_block, s) }
        else Some (new_block, s) })"

section \<open>The heap as a map of blocks\<close>

text \<open>A region of the kernel pool is an arena of a descriptor, with the indices of its blocks in use, or a big block.\<close>

datatype region = Arena nat "nat set" | Big nat

fun ext :: "region \<Rightarrow> nat" where
  "ext (Arena i U) = 1" |
  "ext (Big c) = c"

definition bsz :: "nat \<Rightarrow> nat" where "bsz i = 16 * 2 ^ i"
definition bpa :: "nat \<Rightarrow> nat" where "bpa i = 4084 div bsz i"
definition lst :: "heap \<Rightarrow> nat \<Rightarrow> addr" where "lst s i = descs_at s + 48 * i + 8"

definition desc_table :: "addr \<Rightarrow> nat set \<Rightarrow> desc list" where
  "desc_table D L = map (\<lambda>i. \<lparr>block_size = bsz i, blocks_per_arena = bpa i, flist = D + 48 * i + 8, held = i \<in> L\<rparr>) [0..<7]"

abbreviation pages :: "heap \<Rightarrow> nat" where "pages s \<equiv> bit_cnt (used_map (kernel_pool s))"
abbreviation used :: "heap \<Rightarrow> nat \<Rightarrow> bool" where "used s j \<equiv> bits_of (used_map (kernel_pool s)) ! j"
abbreviation pg :: "heap \<Rightarrow> nat \<Rightarrow> 32 word" where "pg s j \<equiv> pool_page (kernel_pool s) j"

definition paddr :: "heap \<Rightarrow> nat \<Rightarrow> nat" where
  "paddr s j = unat (base (kernel_pool s)) + 4096 * j"

definition blk :: "heap \<Rightarrow> nat \<Rightarrow> nat \<Rightarrow> nat \<Rightarrow> nat" where
  "blk s j i k = paddr s j + 12 + k * bsz i"

definition header :: "heap \<Rightarrow> nat \<Rightarrow> 32 word \<Rightarrow> nat \<Rightarrow> bool" where
  "header s j d c \<longleftrightarrow> mem s (pg s j) = ARENA_MAGIC \<and> mem s (pg s j + 4) = d \<and> mem s (pg s j + 8) = of_nat c"

fun region_ok :: "heap \<Rightarrow> nat \<Rightarrow> region \<Rightarrow> bool" where
  "region_ok s j (Arena i U) \<longleftrightarrow> j < pages s \<and> used s j \<and> i < 7 \<and> U \<subseteq> {..<bpa i} \<and> header s j (desc_ptr s i) (bpa i - card U)" |
  "region_ok s j (Big c) \<longleftrightarrow> 0 < c \<and> j + c \<le> pages s \<and> (\<forall>k<c. used s (j + k)) \<and> header s j 0 c"

definition free_blocks :: "heap \<Rightarrow> (nat \<rightharpoonup> region) \<Rightarrow> nat \<Rightarrow> nat set" where
  "free_blocks s R i = {blk s j i k |j U k. R j = Some (Arena i U) \<and> k < bpa i \<and> k \<notin> U}"

definition core :: "heap \<Rightarrow> nat set \<Rightarrow> (nat \<rightharpoonup> region) \<Rightarrow> (nat \<Rightarrow> addr list) \<Rightarrow> bool" where
  "core s L R X \<longleftrightarrow> palloc_ok s \<and> descs s = desc_table (descs_at s) L \<and> 0 < descs_at s \<and> descs_at s + 480 \<le> unat (base (kernel_pool s)) \<and>
     (\<forall>j r. R j = Some r \<longrightarrow> region_ok s j r) \<and>
     (\<forall>j r j' r'. R j = Some r \<longrightarrow> R j' = Some r' \<longrightarrow> j \<noteq> j' \<longrightarrow> j + ext r \<le> j' \<or> j' + ext r' \<le> j) \<and>
     (\<forall>i<7. is_list (free_heap s) (lst s i) (X i) \<and> set (X i) = free_blocks s R i)"

text \<open>The blocks in use: where they start and how many bytes they have.\<close>

definition blocks :: "heap \<Rightarrow> (nat \<rightharpoonup> region) \<Rightarrow> (nat \<times> nat) set" where
  "blocks s R = {(blk s j i k, bsz i) |j i U k. R j = Some (Arena i U) \<and> k \<in> U} \<union> {(paddr s j + 12, 4096 * c - 12) |j c. R j = Some (Big c)}"

definition heap_view :: "heap \<Rightarrow> (32 word \<rightharpoonup> nat) \<Rightarrow> bool" where
  "heap_view s H \<longleftrightarrow> (\<exists>R X. core s {} R X \<and> (\<forall>j i. R j \<noteq> Some (Arena i {})) \<and> (\<forall>p n. H p = Some n \<longleftrightarrow> (unat p, n) \<in> blocks s R))"

subsection \<open>Addresses\<close>

lemma bsz_pos [simp]: "0 < bsz i" "bsz i mod 16 = 0"
  by (simp_all add: bsz_def)

lemma bsz_le: "i < 7 \<Longrightarrow> bsz i \<le> 1024"
  using power_increasing [of i 6 "2 :: nat"] by (simp add: bsz_def)

lemma bpa_fits:
  assumes "i < 7"
  shows "0 < bpa i" "bpa i < 256" "k < bpa i \<Longrightarrow> 12 + k * bsz i + bsz i \<le> 4096"
proof -
  show "0 < bpa i" using bsz_le [OF assms] by (simp add: bpa_def div_greater_zero_iff)
  have "4084 div bsz i \<le> 4084 div 16" by (intro div_le_mono2) (simp_all add: bsz_def)
  then show "bpa i < 256" by (simp add: bpa_def)
  assume "k < bpa i"
  then have "Suc k * bsz i \<le> 4084" by (simp add: bpa_def less_eq_div_iff_mult_less_eq [symmetric] Suc_le_eq del: mult_Suc)
  then show "12 + k * bsz i + bsz i \<le> 4096" by simp
qed

lemma desc_table_nth [simp]:
  "length (desc_table D L) = 7"
  "i < 7 \<Longrightarrow> desc_table D L ! i = \<lparr>block_size = bsz i, blocks_per_arena = bpa i, flist = D + 48 * i + 8, held = i \<in> L\<rparr>"
  by (simp_all add: desc_table_def)

lemma desc_table_held:
  "i < 7 \<Longrightarrow> (desc_table D L)[i := (desc_table D L ! i)\<lparr>held := True\<rparr>] = desc_table D (insert i L)"
  "i < 7 \<Longrightarrow> (desc_table D L)[i := (desc_table D L ! i)\<lparr>held := False\<rparr>] = desc_table D (L - {i})"
  by (auto intro!: nth_equalityI simp: nth_list_update)

lemma unat_in_page:
  assumes "palloc_ok s" "j < pages s" "ofs < 4096"
  shows "unat (pg s j + of_nat ofs) = paddr s j + ofs" "paddr s j + 4096 \<le> 2 ^ 32"
proof -
  have ok: "pool_ok (kernel_pool s)" using assms(1) by (simp add: palloc_ok_def)
  have "unat (base (kernel_pool s)) + 4096 * Suc j \<le> 2 ^ 32"
    using ok assms(2) mult_le_mono2 [of "Suc j" "pages s" 4096] by (simp add: pool_ok_def PGSIZE_def)
  then show le: "paddr s j + 4096 \<le> 2 ^ 32" by (simp add: paddr_def)
  have "unat (pg s j) = paddr s j" using unat_pool_page [OF ok assms(2)] by (simp add: paddr_def)
  moreover have "unat (of_nat ofs :: 32 word) = ofs" using assms(3) by (intro unat32_of_nat) simp
  ultimately show "unat (pg s j + of_nat ofs) = paddr s j + ofs" using le assms(3) by (simp add: unat_word_ariths)
qed

lemma blk_inj:
  assumes "i < 7" "k < bpa i" "i' < 7" "k' < bpa i'" "blk s j i k = blk s j' i' k'"
  shows "j = j'" "i = i' \<Longrightarrow> k = k'"
proof -
  have "12 + k * bsz i < 4096" "12 + k' * bsz i' < 4096"
    using bpa_fits(3) [OF assms(1,2)] bpa_fits(3) [OF assms(3,4)] bsz_pos(1) [of i] bsz_pos(1) [of i'] by linarith+
  then show "j = j'" using assms(5) by (simp add: blk_def paddr_def)
  then show "i = i' \<Longrightarrow> k = k'" using assms(5) bsz_pos(1) [of i'] by (auto simp: blk_def)
qed

lemma pg_aligned:
  assumes "palloc_ok s" "j < pages s"
  shows "pg s j \<noteq> 0" "unat (pg s j) = paddr s j" "4096 dvd paddr s j" "pg_ofs (pg s j) = 0"
proof -
  have ok: "pool_ok (kernel_pool s)" using assms(1) by (simp add: palloc_ok_def)
  show u: "unat (pg s j) = paddr s j" using unat_in_page(1) [OF assms, of 0] by simp
  show "pg s j \<noteq> 0" "pg_ofs (pg s j) = 0" using pool_page_aligned [OF ok assms(2)] by simp_all
  then show "4096 dvd paddr s j" by (simp add: aligned_iff u)
qed

lemma in_page_arena:
  assumes "palloc_ok s" "j < pages s" "ofs < 4096" "unat b = paddr s j + ofs"
  shows "pg_round_down b = pg s j" "unat (pg_ofs b) = ofs" "b = pg s j + of_nat ofs"
proof -
  note al = pg_aligned [OF assms(1,2)]
  have m: "(paddr s j + ofs) mod 4096 = ofs" using al(3) assms(3) by (auto elim!: dvdE)
  show "unat (pg_ofs b) = ofs" by (simp add: Vaddr.unat_pg_ofs assms(4) m)
  have "unat (pg_round_down b) = unat (pg s j)" by (simp add: unat_pg_round_down assms(4) m al(2))
  then show "pg_round_down b = pg s j" by (simp add: word_unat_eq_iff)
  show "b = pg s j + of_nat ofs" using unat_in_page(1) [OF assms(1-3)] assms(4) by (simp add: word_unat_eq_iff)
qed

lemma blk_word:
  assumes "palloc_ok s" "j < pages s" "i < 7" "k < bpa i"
  shows "12 + k * bsz i < 4096" "unat (pg s j + of_nat (12 + k * bsz i)) = blk s j i k" "blk s j i k < 2 ^ 32"
    "unat (of_nat (blk s j i k) :: 32 word) = blk s j i k"
proof -
  show less: "12 + k * bsz i < 4096" using bpa_fits(3) [OF assms(3,4)] bsz_pos(1) [of i] by linarith
  show "unat (pg s j + of_nat (12 + k * bsz i)) = blk s j i k" using unat_in_page(1) [OF assms(1,2) less] by (simp add: blk_def)
  show "blk s j i k < 2 ^ 32" using unat_in_page(2) [OF assms(1,2), of 0] less by (simp add: blk_def)
  then show "unat (of_nat (blk s j i k) :: 32 word) = blk s j i k" by (intro unat32_of_nat) simp
qed

lemma update_sel [simp]:
  "kernel_pool (set_arena a d c s) = kernel_pool s" "descs (set_arena a d c s) = descs s" "descs_at (set_arena a d c s) = descs_at s"
  "free_heap (set_arena a d c s) = free_heap s" "palloc_ok (set_arena a d c s) = palloc_ok s"
  "kernel_pool (set_free_cnt a c s) = kernel_pool s" "descs (set_free_cnt a c s) = descs s" "descs_at (set_free_cnt a c s) = descs_at s"
  "free_heap (set_free_cnt a c s) = free_heap s" "palloc_ok (set_free_cnt a c s) = palloc_ok s"
  "palloc_ok (s\<lparr>free_heap := h\<rparr>) = palloc_ok s" "palloc_ok (s\<lparr>descs := ds\<rparr>) = palloc_ok s"
  by (simp_all add: set_arena_def set_free_cnt_def palloc_ok_def)

lemma update_place [simp]:
  "desc_ptr (set_arena a d c s) = desc_ptr s" "deref_desc (set_arena a d c s) = deref_desc s" "lst (set_arena a d c s) = lst s" "blk (set_arena a d c s) = blk s"
  "desc_ptr (set_free_cnt a c s) = desc_ptr s" "deref_desc (set_free_cnt a c s) = deref_desc s" "lst (set_free_cnt a c s) = lst s" "blk (set_free_cnt a c s) = blk s"
  "desc_ptr (s\<lparr>kernel_pool := q\<rparr>) = desc_ptr s" "deref_desc (s\<lparr>kernel_pool := q\<rparr>) = deref_desc s" "lst (s\<lparr>kernel_pool := q\<rparr>) = lst s"
  "blk (s\<lparr>kernel_pool := kernel_pool s\<lparr>used_map := b\<rparr>\<rparr>) = blk s"
  "desc_ptr (s\<lparr>mem := m\<rparr>) = desc_ptr s" "deref_desc (s\<lparr>mem := m\<rparr>) = deref_desc s" "lst (s\<lparr>mem := m\<rparr>) = lst s" "blk (s\<lparr>mem := m\<rparr>) = blk s"
  by (simp_all add: blk_def paddr_def lst_def desc_ptr_def deref_desc_def fun_eq_iff)

lemma free_heap_update [simp]:
  "header (s\<lparr>free_heap := h\<rparr>) = header s" "desc_ptr (s\<lparr>free_heap := h\<rparr>) = desc_ptr s" "deref_desc (s\<lparr>free_heap := h\<rparr>) = deref_desc s"
  "lst (s\<lparr>free_heap := h\<rparr>) = lst s" "blk (s\<lparr>free_heap := h\<rparr>) = blk s" "region_ok (s\<lparr>free_heap := h\<rparr>) j r = region_ok s j r"
proof -
  show eqs: "header (s\<lparr>free_heap := h\<rparr>) = header s" "desc_ptr (s\<lparr>free_heap := h\<rparr>) = desc_ptr s"
    "deref_desc (s\<lparr>free_heap := h\<rparr>) = deref_desc s" "lst (s\<lparr>free_heap := h\<rparr>) = lst s" "blk (s\<lparr>free_heap := h\<rparr>) = blk s"
    by (simp_all add: header_def blk_def paddr_def lst_def desc_ptr_def deref_desc_def fun_eq_iff)
  show "region_ok (s\<lparr>free_heap := h\<rparr>) j r = region_ok s j r" by (cases r) (simp_all add: eqs)
qed

subsection \<open>Separation\<close>

lemma coreD:
  assumes "core s L R X"
  shows "palloc_ok s" "descs s = desc_table (descs_at s) L" "0 < descs_at s" "descs_at s + 480 \<le> unat (base (kernel_pool s))"
    "R j = Some r \<Longrightarrow> region_ok s j r"
    "R j = Some r \<Longrightarrow> R j' = Some r' \<Longrightarrow> j \<noteq> j' \<Longrightarrow> j + ext r \<le> j' \<or> j' + ext r' \<le> j"
    "i < 7 \<Longrightarrow> is_list (free_heap s) (lst s i) (X i)" "i < 7 \<Longrightarrow> set (X i) = free_blocks s R i"
  using assms unfolding core_def by blast+

lemma deref_desc_ptr:
  assumes "core s L R X" "i < 7"
  shows "deref_desc s (desc_ptr s i) = Some i" "desc_ptr s i \<noteq> 0"
proof -
  have "descs_at s + 48 * i < 2 ^ 32" using coreD(4) [OF assms(1)] assms(2) unsigned_less [where 'a = nat, of "base (kernel_pool s)"] by simp
  then have u: "unat (desc_ptr s i) = descs_at s + 48 * i" unfolding desc_ptr_def by (intro unat32_of_nat) simp
  then show "deref_desc s (desc_ptr s i) = Some i" using assms coreD(2) [OF assms(1)] by (simp add: deref_desc_def)
  show "desc_ptr s i \<noteq> 0" using u coreD(3) [OF assms(1)] by auto
qed

lemma free_blocks_bounds:
  assumes "x \<in> free_blocks s R i"
  shows "unat (base (kernel_pool s)) < x"
  using assms by (auto simp: free_blocks_def blk_def paddr_def)

lemma lists_apart:
  assumes "core s L R X" "i < 7" "i' < 7" "i \<noteq> i'"
  shows "set (nodes (lst s i) (X i)) \<inter> set (nodes (lst s i') (X i')) = {}"
proof -
  have "free_blocks s R i \<inter> free_blocks s R i' = {}"
    using blk_inj(1) [OF assms(2) _ assms(3)] assms(4) by (fastforce simp: free_blocks_def)
  moreover have "lst s i < unat (base (kernel_pool s))" "lst s i + 12 < unat (base (kernel_pool s))"
    "lst s i' < unat (base (kernel_pool s))" "lst s i' + 12 < unat (base (kernel_pool s))"
    using coreD(4) [OF assms(1)] assms(2,3) by (simp_all add: lst_def)
  moreover have "{lst s i, lst s i + 12} \<inter> {lst s i', lst s i' + 12} = {}"
    using assms(2-4) unfolding lst_def by (simp; presburger)
  ultimately show ?thesis
    using free_blocks_bounds [of _ s R i] free_blocks_bounds [of _ s R i'] coreD(8) [OF assms(1,2)] coreD(8) [OF assms(1,3)]
    by (fastforce simp: nodes_def tail_of_def)
qed

lemma blk_not_node:
  assumes "core s L R X" "i < 7" "k < bpa i" "i' < 7" "\<And>U. R j = Some (Arena i' U) \<Longrightarrow> i = i' \<and> k \<in> U"
  shows "blk s j i k \<notin> set (nodes (lst s i') (X i'))"
proof -
  have "blk s j i k \<notin> free_blocks s R i'"
  proof
    assume "blk s j i k \<in> free_blocks s R i'"
    then obtain j' U k' where *: "R j' = Some (Arena i' U)" "k' < bpa i'" "k' \<notin> U" "blk s j i k = blk s j' i' k'"
      by (auto simp: free_blocks_def)
    note inj = blk_inj [OF assms(2,3,4) *(2,4)]
    have "i = i'" "k \<in> U" using assms(5) [of U] * inj by simp_all
    then show False using inj * by simp
  qed
  moreover have "lst s i' < blk s j i k" "lst s i' + 12 < blk s j i k"
    using coreD(4) [OF assms(1)] assms(4) by (simp_all add: lst_def blk_def paddr_def)
  ultimately show ?thesis using coreD(8) [OF assms(1,4)] by (auto simp: nodes_def tail_of_def)
qed

lemma lists_update:
  assumes "core s L R X" "i < 7" "is_list h' (lst s i) ys" "agree (E \<union> set (nodes (lst s i) (X i))) (free_heap s) h'"
    "\<And>i'. i' < 7 \<Longrightarrow> i' \<noteq> i \<Longrightarrow> E \<inter> set (nodes (lst s i') (X i')) = {}" "i' < 7"
  shows "is_list h' (lst s i') ((X(i := ys)) i')"
proof (cases "i' = i")
  case True
  then show ?thesis using assms(3) by simp
next
  case False
  have "(E \<union> set (nodes (lst s i) (X i))) \<inter> set (nodes (lst s i') (X i')) = {}"
    using assms(5) [OF assms(6) False] lists_apart [OF assms(1,2,6)] False by blast
  from is_list_frame [OF coreD(7) [OF assms(1,6)] assms(4) this] show ?thesis using False by simp
qed

subsection \<open>Changing one region\<close>

lemma region_ok_frame:
  assumes "palloc_ok s" "kernel_pool s' = kernel_pool s\<lparr>used_map := b\<rparr>" "bit_cnt b = pages s" "descs_at s' = descs_at s"
    "\<And>k. k < ext r \<Longrightarrow> bits_of b ! (j + k) = used s (j + k)" "\<And>ofs. ofs < 12 \<Longrightarrow> mem s' (pg s j + ofs) = mem s (pg s j + ofs)"
  shows "region_ok s' j r = region_ok s j r"
proof -
  have pg: "pg s' j = pg s j" "desc_ptr s' = desc_ptr s" using assms(2,4) by (simp_all add: pool_page_def desc_ptr_def fun_eq_iff)
  have "header s' j d c = header s j d c" for d c
    using assms(6) [of 0] assms(6) [of 4] assms(6) [of 8] by (simp add: header_def pg)
  then show ?thesis using assms(2,3,5) by (cases r) (auto simp: pg)
qed

lemma core_update:
  assumes "core s L R X" "palloc_ok s'" "kernel_pool s' = kernel_pool s\<lparr>used_map := b\<rparr>" "bit_cnt b = pages s"
    "descs s' = desc_table (descs_at s) L'" "descs_at s' = descs_at s"
    "\<And>j' r k. R j' = Some r \<Longrightarrow> j' \<noteq> j \<Longrightarrow> k < ext r \<Longrightarrow> bits_of b ! (j' + k) = used s (j' + k)"
    "\<And>j' r ofs. R j' = Some r \<Longrightarrow> j' \<noteq> j \<Longrightarrow> ofs < 12 \<Longrightarrow> mem s' (pg s j' + ofs) = mem s (pg s j' + ofs)"
    "\<And>r. ro = Some r \<Longrightarrow> region_ok s' j r"
    "\<And>r j' r'. ro = Some r \<Longrightarrow> R j' = Some r' \<Longrightarrow> j' \<noteq> j \<Longrightarrow> j + ext r \<le> j' \<or> j' + ext r' \<le> j"
    "\<And>i. i < 7 \<Longrightarrow> is_list (free_heap s') (lst s i) (X' i)" "\<And>i. i < 7 \<Longrightarrow> set (X' i) = free_blocks s (R(j := ro)) i"
  shows "core s' L' (R(j := ro)) X'"
proof -
  have eqs: "lst s' i = lst s i" "free_blocks s' R' i = free_blocks s R' i" for i R'
    using assms(3,6) by (simp_all add: lst_def free_blocks_def blk_def paddr_def)
  have "region_ok s' j' r" if "(R(j := ro)) j' = Some r" for j' r
    using region_ok_frame [OF coreD(1) [OF assms(1)] assms(3,4,6), of r j'] coreD(5) [OF assms(1), of j' r] assms(7-9) that
    by (cases "j' = j") auto
  moreover have "j' + ext r \<le> k \<or> k + ext r' \<le> j'" if "(R(j := ro)) j' = Some r" "(R(j := ro)) k = Some r'" "j' \<noteq> k" for j' r k r'
    using that assms(10) [of r k r'] assms(10) [of r' j' r] coreD(6) [OF assms(1), of j' r k r']
    by (cases "j' = j"; cases "k = j"; simp) blast
  ultimately show ?thesis
    unfolding core_def using assms(2,3,5,6,11,12) coreD(3,4) [OF assms(1)] by (auto simp: eqs)
qed

lemma pool_page_used [simp]: "pool_page (p\<lparr>used_map := b\<rparr>) = pool_page p"
  by (simp add: pool_page_def fun_eq_iff)

lemma page_words_apart:
  assumes "palloc_ok s" "j < pages s" "j' < pages s" "unat x < 4096" "unat y < 4096"
  shows "pg s j + x = pg s j' + y \<longleftrightarrow> j = j' \<and> x = y"
proof
  assume "pg s j + x = pg s j' + y"
  then have "unat (pg s j + of_nat (unat x)) = unat (pg s j' + of_nat (unat y))" by simp
  then have "paddr s j + unat x = paddr s j' + unat y"
    unfolding unat_in_page(1) [OF assms(1,2,4)] unat_in_page(1) [OF assms(1,3,5)] .
  moreover from this have "j = j'" using assms(4,5) by (simp add: paddr_def)
  ultimately show "j = j' \<and> x = y" by (simp add: word_unat_eq_iff)
qed simp

lemma word_less_12: "x < 12 \<Longrightarrow> unat (x :: 32 word) < 4096"
  by (simp add: word_less_nat_alt)

lemma region_used:
  assumes "region_ok s j r" "k < ext r"
  shows "used s (j + k)" "j + k < pages s"
  using assms by (cases r; simp)+

lemma region_start: "region_ok s j r \<Longrightarrow> j < pages s" "region_ok s j r \<Longrightarrow> 0 < ext r"
  by (cases r; simp)+

lemma set_arena_mem:
  assumes "palloc_ok s" "j < pages s"
  shows "header (set_arena (pg s j) d (of_nat c) s) j d c"
    "j' < pages s \<Longrightarrow> unat x < 4096 \<Longrightarrow> j' \<noteq> j \<or> unat x \<ge> 12 \<Longrightarrow> mem (set_arena (pg s j) d c' s) (pg s j' + x) = mem s (pg s j' + x)"
proof -
  have "pg (set_arena (pg s j) d c s) k = pg s k" for k c by (simp add: set_arena_def)
  then show "header (set_arena (pg s j) d (of_nat c) s) j d c" by (simp add: header_def set_arena_def)
  assume *: "j' < pages s" "unat x < 4096" "j' \<noteq> j \<or> unat x \<ge> 12"
  show "mem (set_arena (pg s j) d c' s) (pg s j' + x) = mem s (pg s j' + x)"
    using page_words_apart [OF assms(1) *(1) assms(2) *(2), of 0] page_words_apart [OF assms(1) *(1) assms(2) *(2), of 4]
      page_words_apart [OF assms(1) *(1) assms(2) *(2), of 8] *(3) by (auto simp: set_arena_def)
qed

lemma arena_to_block_eq:
  assumes "palloc_ok s" "j < pages s" "header s j (desc_ptr s i) c" "deref_desc s (desc_ptr s i) = Some i" "descs s = desc_table D L" "i < 7" "k < bpa i"
  shows "\<exists>b. arena_to_block (pg s j) k s = Some b \<and> unat b = blk s j i k"
proof -
  have "arena_to_block (pg s j) k s = Some (pg s j + of_nat (12 + k * bsz i))"
    using pg_aligned(1) [OF assms(1,2)] assms(3-7)
    by (simp add: arena_to_block_def magic_def arena_desc_def header_def sizeof_arena_def add.assoc)
  then show ?thesis using blk_word(2) [OF assms(1,2,6,7)] by simp
qed

lemma add_blocks:
  assumes "palloc_ok s" "j < pages s" "header s j (desc_ptr s i) c" "deref_desc s (desc_ptr s i) = Some i" "descs s = desc_table (descs_at s) L" "i < 7"
    "is_list (free_heap s) (lst s i) xs" "distinct ks" "\<And>k. k \<in> set ks \<Longrightarrow> k < bpa i \<and> blk s j i k \<notin> set (nodes (lst s i) xs)"
  shows "\<exists>h. fold_opt (add_block (pg s j) i) ks s = Some (s\<lparr>free_heap := h\<rparr>) \<and> is_list h (lst s i) (xs @ map (blk s j i) ks) \<and>
    agree (set (nodes (lst s i) xs) \<union> blk s j i ` set ks) (free_heap s) h"
  using assms
proof (induction ks arbitrary: s xs)
  case Nil
  then show ?case by (auto simp: agree_def intro!: exI [of _ "free_heap s"])
next
  case (Cons k ks)
  note pre = Cons.prems
  have k: "k < bpa i" "blk s j i k \<notin> set (nodes (lst s i) xs)" using pre(9) [of k] by simp_all
  obtain b where b: "arena_to_block (pg s j) k s = Some b" "unat b = blk s j i k"
    using arena_to_block_eq [OF pre(1-6) k(1)] by blast
  have "blk s j i k \<noteq> 0" by (simp add: blk_def)
  from list_push_back_spec [OF pre(7) this k(2)] obtain h where h: "list_push_back (free_heap s) (lst s i) (blk s j i k) = Some h"
    "is_list h (lst s i) (xs @ [blk s j i k])" "agree (insert (blk s j i k) (set (nodes (lst s i) xs))) (free_heap s) h" by blast
  let ?s = "s\<lparr>free_heap := h\<rparr>"
  have step: "add_block (pg s j) i k s = Some ?s" using b h(1) pre(5,6) by (simp add: add_block_def lst_def)
  have ne: "blk s j i k' \<noteq> blk s j i k" if "k' \<in> set ks" for k'
    using blk_inj(2) [OF pre(6) _ pre(6) k(1), of k' s j j] pre(8,9) that by auto
  have "\<exists>h'. fold_opt (add_block (pg ?s j) i) ks ?s = Some (?s\<lparr>free_heap := h'\<rparr>) \<and>
     is_list h' (lst ?s i) ((xs @ [blk s j i k]) @ map (blk ?s j i) ks) \<and>
     agree (set (nodes (lst ?s i) (xs @ [blk s j i k])) \<union> blk ?s j i ` set ks) (free_heap ?s) h'"
    by (rule Cons.IH [of ?s]) (use pre h(2) ne in \<open>auto simp: nodes_def\<close>)
  then obtain h' where h': "fold_opt (add_block (pg s j) i) ks ?s = Some (s\<lparr>free_heap := h'\<rparr>)"
    "is_list h' (lst s i) (xs @ map (blk s j i) (k # ks))"
    "agree (set (nodes (lst s i) (xs @ [blk s j i k])) \<union> blk s j i ` set ks) h h'" by auto
  have "agree (set (nodes (lst s i) xs) \<union> blk s j i ` set (k # ks)) (free_heap s) h'"
    using h(3) h'(3) by (auto simp: agree_def nodes_def)
  then show ?case using h' step by auto
qed

subsection \<open>A new arena\<close>

text \<open>The pool and the descriptors are where they were, and memory changes only in the header of page \<open>j\<close>.\<close>

definition same_place :: "heap \<Rightarrow> heap \<Rightarrow> bool" where
  "same_place s s' \<longleftrightarrow> base (kernel_pool s') = base (kernel_pool s) \<and> pages s' = pages s \<and> descs_at s' = descs_at s"

definition header_only :: "heap \<Rightarrow> nat \<Rightarrow> heap \<Rightarrow> bool" where
  "header_only s j s' \<longleftrightarrow> (\<forall>j' x. j' < pages s \<longrightarrow> unat x < 4096 \<longrightarrow> j' \<noteq> j \<or> 12 \<le> unat x \<longrightarrow> mem s' (pg s j' + x) = mem s (pg s j' + x))"

definition arena_free :: "heap \<Rightarrow> nat \<Rightarrow> region option \<Rightarrow> nat \<Rightarrow> nat set" where
  "arena_free s j ro i = {blk s j i k |k. \<exists>U. ro = Some (Arena i U) \<and> k < bpa i \<and> k \<notin> U}"

lemma arena_free_simps [simp]:
  "arena_free s j None i = {}" "arena_free s j (Some (Big c)) i = {}"
  "arena_free s j (Some (Arena i' U)) i = (if i' = i then blk s j i ` ({..<bpa i} - U) else {})"
  by (auto simp: arena_free_def)

lemma free_blocks_arenas: "free_blocks s R i = (\<Union>j. arena_free s j (R j) i)"
  by (auto simp: free_blocks_def arena_free_def)

lemma free_blocks_upd: "free_blocks s (R(j := ro)) i = (\<Union>j'\<in>- {j}. arena_free s j' (R j') i) \<union> arena_free s j ro i"
  by (auto simp: free_blocks_arenas split: if_splits)

lemma free_blocks_at: "free_blocks s R i = (\<Union>j'\<in>- {j}. arena_free s j' (R j') i) \<union> arena_free s j (R j) i"
  using free_blocks_upd [of s R j "R j" i] by simp

lemma arena_free_apart:
  assumes "core s L R X" "i < 7" "k < bpa i"
  shows "blk s j i k \<notin> (\<Union>j'\<in>- {j}. arena_free s j' (R j') i)"
  using blk_inj(1) [OF assms(2,3,2)] by (auto simp: arena_free_def)

lemma get_pages:
  assumes "core s L R X" "0 < cnt"
  obtains (full) "palloc_get_multiple 0 cnt s = Some (0, s)" "\<And>i. i + cnt \<le> pages s \<Longrightarrow> \<exists>j<cnt. used s (i + j)"
  | (got) j b where "palloc_get_multiple 0 cnt s = Some (pg s j, s\<lparr>kernel_pool := kernel_pool s\<lparr>used_map := b\<rparr>\<rparr>)"
      "palloc_ok (s\<lparr>kernel_pool := kernel_pool s\<lparr>used_map := b\<rparr>\<rparr>)" "j + cnt \<le> pages s" "bit_cnt b = pages s"
      "\<And>k. k < cnt \<Longrightarrow> \<not> used s (j + k)" "\<And>k. k < pages s \<Longrightarrow> bits_of b ! k \<longleftrightarrow> used s k \<or> (j \<le> k \<and> k < j + cnt)"
      "\<And>j' r. R j' = Some r \<Longrightarrow> j + cnt \<le> j' \<or> j' + ext r \<le> j"
proof -
  note ok = coreD(1) [OF assms(1)]
  have pk: "pool_ok (kernel_pool s)" using ok by (simp add: palloc_ok_def)
  show thesis
  proof (rule get_multiple_Some [OF ok assms(2), of 0])
    assume *: "\<And>i. i + cnt \<le> bit_cnt (used_map (the_pool (0 AND PAL_USER \<noteq> 0) s)) \<Longrightarrow>
        \<exists>j<cnt. in_use (the_pool (0 AND PAL_USER \<noteq> 0) s) (pool_page (the_pool (0 AND PAL_USER \<noteq> 0) s) (i + j))"
      "palloc_get_multiple 0 cnt s = (if 0 AND PAL_ASSERT = 0 then Some (0, s) else None)"
    show thesis
    proof (rule full)
      show "palloc_get_multiple 0 cnt s = Some (0, s)" using * by simp
      show "\<exists>j<cnt. used s (i + j)" if le: "i + cnt \<le> pages s" for i
      proof -
        obtain j where "j < cnt" "in_use (kernel_pool s) (pg s (i + j))" using *(1) [of i] le by (auto simp: the_pool_def)
        then show ?thesis using is_free_nth(2) [OF pk, of "i + j"] le by auto
      qed
    qed
  next
    fix j b
    assume "j + cnt \<le> bit_cnt (used_map (the_pool (0 AND PAL_USER \<noteq> 0) s))"
      "\<And>k. k < cnt \<Longrightarrow> is_free (the_pool (0 AND PAL_USER \<noteq> 0) s) (pool_page (the_pool (0 AND PAL_USER \<noteq> 0) s) (j + k))"
      "bitmap_ok b" "bits_of b = fill j cnt True (bits_of (used_map (the_pool (0 AND PAL_USER \<noteq> 0) s)))"
      "palloc_get_multiple 0 cnt s = Some (pool_page (the_pool (0 AND PAL_USER \<noteq> 0) s) j,
         if 0 AND PAL_ZERO \<noteq> 0
         then (set_pool (0 AND PAL_USER \<noteq> 0) b s)\<lparr>mem := memset_words (pool_page (the_pool (0 AND PAL_USER \<noteq> 0) s) j) 0 (PGSIZE * cnt) (mem s)\<rparr>
         else set_pool (0 AND PAL_USER \<noteq> 0) b s)"
    then have *: "j + cnt \<le> pages s" "\<And>k. k < cnt \<Longrightarrow> is_free (kernel_pool s) (pg s (j + k))" "bitmap_ok b"
      "bits_of b = fill j cnt True (bits_of (used_map (kernel_pool s)))"
      "palloc_get_multiple 0 cnt s = Some (pg s j, s\<lparr>kernel_pool := kernel_pool s\<lparr>used_map := b\<rparr>\<rparr>)"
      by (simp_all add: the_pool_def set_pool_def)
    have fr: "\<not> used s (j + k)" if "k < cnt" for k using *(1) *(2) [OF that] is_free_nth(1) [OF pk, of "j + k"] that by simp
    show thesis
    proof (rule got)
      show "palloc_get_multiple 0 cnt s = Some (pg s j, s\<lparr>kernel_pool := kernel_pool s\<lparr>used_map := b\<rparr>\<rparr>)" "j + cnt \<le> pages s"
        "\<And>k. k < cnt \<Longrightarrow> \<not> used s (j + k)" using * fr by simp_all
      show "bit_cnt b = pages s" using used_map_update(2) [OF pk *(3,4,1)] .
      show "palloc_ok (s\<lparr>kernel_pool := kernel_pool s\<lparr>used_map := b\<rparr>\<rparr>)"
        using palloc_ok_set_pool [OF ok *(3), of False] used_map_update(2) [OF pk *(3,4,1)] by (simp add: the_pool_def set_pool_def)
      show "bits_of b ! k \<longleftrightarrow> used s k \<or> (j \<le> k \<and> k < j + cnt)" if "k < pages s" for k
        using *(1,4) that by (auto simp: nth_fill)
      show "j + cnt \<le> j' \<or> j' + ext r \<le> j" if "R j' = Some r" for j' r
      proof (rule ccontr)
        assume c: "\<not> (j + cnt \<le> j' \<or> j' + ext r \<le> j)"
        define k where "k = max j j'"
        note r = coreD(5) [OF assms(1) that]
        have k: "k - j' < ext r" "k - j < cnt" "j \<le> k" "j' \<le> k"
          using c region_start(2) [OF r] assms(2) by (auto simp: k_def max_def)
        then show False using region_used(1) [OF r k(1)] fr [OF k(2)] by simp
      qed
    qed
  qed
qed

lemma new_arena_cases:
  assumes "core s L R X" "i < 7" "X i = []"
  obtains (full) "new_arena i s = Some (False, s)" "\<And>j. j < pages s \<Longrightarrow> used s j"
  | (arena) j s' X' where "new_arena i s = Some (True, s')" "core s' L (R(j \<mapsto> Arena i {})) X'" "X' i \<noteq> []" "set (X' i) = blk s j i ` {..<bpa i}"
      "R j = None" "j < pages s" "\<not> used s j" "same_place s s'" "header_only s j s'"
  using assms(1) zero_less_one
proof (cases rule: get_pages)
  case full
  have "used s j" if "j < pages s" for j using full(2) [of j] that by simp
  then show thesis using that(1) full(1) by (simp add: new_arena_def palloc_get_page_def)
next
  case (got j b)
  let ?s1 = "s\<lparr>kernel_pool := kernel_pool s\<lparr>used_map := b\<rparr>\<rparr>"
  let ?s2 = "set_arena (pg s j) (desc_ptr s i) (of_nat (bpa i)) ?s1"
  have j: "j < pages s" "pages ?s1 = pages s" "pg ?s1 = pg s" using got(3,4) by (simp_all add: pool_page_def fun_eq_iff)
  have s2: "desc_ptr ?s2 = desc_ptr s" "deref_desc ?s2 = deref_desc s" "lst ?s2 = lst s" "blk ?s2 = blk s" "pg ?s2 = pg s"
    "free_heap ?s2 = free_heap s" "descs ?s2 = desc_table (descs_at s) L" "descs_at ?s2 = descs_at s" "pages ?s2 = pages s"
    "kernel_pool ?s2 = kernel_pool s\<lparr>used_map := b\<rparr>"
    using coreD(2) [OF assms(1)] got(4)
    by (simp_all add: set_arena_def desc_ptr_def deref_desc_def lst_def blk_def paddr_def pool_page_def fun_eq_iff)
  have ok2: "palloc_ok ?s2" using got(2) by (simp add: set_arena_def)
  have hdr: "header ?s2 j (desc_ptr s i) (bpa i)" using set_arena_mem(1) [OF got(2), of j] j by simp
  have none: "R j = None" using got(7) [of j] region_start(2) [OF coreD(5) [OF assms(1)]] by (cases "R j") fastforce+
  have notin: "blk s j i k \<notin> set (nodes (lst s i') (X i'))" if "k < bpa i" "i' < 7" for k i'
    by (rule blk_not_node [OF assms(1,2) that]) (simp add: none)
  obtain h where h: "fold_opt (add_block (pg s j) i) [0..<bpa i] ?s2 = Some (?s2\<lparr>free_heap := h\<rparr>)"
    "is_list h (lst s i) (map (blk s j i) [0..<bpa i])"
    "agree (blk s j i ` {..<bpa i} \<union> set (nodes (lst s i) (X i))) (free_heap s) h"
    using add_blocks [of ?s2 j i "bpa i" L "[]" "[0..<bpa i]"] ok2 j(1) hdr deref_desc_ptr [OF assms(1,2)] assms(2) coreD(7) [OF assms(1,2)]
      notin [OF _ assms(2)] assms(3) got(4) coreD(2) [OF assms(1)] by (auto simp: s2 atLeast0LessThan Un_commute)
  let ?s = "?s2\<lparr>free_heap := h\<rparr>" and ?X = "X(i := map (blk s j i) [0..<bpa i])"
  have "core ?s L (R(j := Some (Arena i {}))) ?X"
  proof (rule core_update [OF assms(1), of ?s b L j "Some (Arena i {})" ?X])
    show "bits_of b ! (j' + k) = used s (j' + k)" if "R j' = Some r" "j' \<noteq> j" "k < ext r" for j' r k
      using got(6) [of "j' + k"] region_used [OF coreD(5) [OF assms(1) that(1)] that(3)] by simp
    show "mem ?s (pg s j' + ofs) = mem s (pg s j' + ofs)" if "R j' = Some r" "j' \<noteq> j" "ofs < 12" for j' r ofs
      using set_arena_mem(2) [OF got(2), of j j' ofs] region_start(1) [OF coreD(5) [OF assms(1) that(1)]] that word_less_12 j by simp
    show "region_ok ?s j r" if "Some (Arena i {}) = Some r" for r
      using hdr j(1) got(4) got(6) [of j] assms(2) that by (auto simp: s2)
    show "is_list (free_heap ?s) (lst s i') (?X i')" if "i' < 7" for i'
    proof -
      have "is_list h (lst s i') (?X i')" by (rule lists_update [OF assms(1,2) h(2,3) _ that]) (use notin in blast)
      then show ?thesis by simp
    qed
    show "set (?X i') = free_blocks s (R(j := Some (Arena i {}))) i'" if "i' < 7" for i'
      using coreD(8) [OF assms(1) that] assms(3) none free_blocks_at [of s R i' j] by (auto simp: free_blocks_upd atLeast0LessThan)
    show "j + ext r \<le> j' \<or> j' + ext r' \<le> j" if "Some (Arena i {}) = Some r" "R j' = Some r'" for r j' r'
      using got(7) [OF that(2)] that(1) by auto
  qed (use ok2 got(4) coreD(2) [OF assms(1)] in simp_all)
  moreover have "new_arena i s = Some (True, ?s)"
    using got(1) h(1) pg_aligned(1) [OF coreD(1) [OF assms(1)] j(1)] assms(2) coreD(2) [OF assms(1)]
    by (simp add: new_arena_def palloc_get_page_def s2 desc_ptr_def)
  moreover have "same_place s ?s" using got(4) by (simp add: same_place_def set_arena_def)
  moreover have "header_only s j ?s" using set_arena_mem(2) [OF got(2), of j] j by (simp add: header_only_def)
  moreover have "set (?X i) = blk s j i ` {..<bpa i}" by (simp add: atLeast0LessThan)
  ultimately show thesis using that(2) none j(1) got(5) [of 0] bpa_fits(1) [OF assms(2)] by simp
qed

subsection \<open>Taking a block\<close>

lemma block_to_arena_eq:
  assumes "palloc_ok s" "region_ok s j (Arena i U)" "deref_desc s (desc_ptr s i) = Some i" "desc_ptr s i \<noteq> 0"
    "descs s = desc_table D L" "k < bpa i" "unat b = blk s j i k"
  shows "block_to_arena b s = Some (pg s j)" "arena_desc s (pg s j) = desc_ptr s i" "free_cnt s (pg s j) = of_nat (bpa i - card U)"
proof -
  have r: "j < pages s" "i < 7" "header s j (desc_ptr s i) (bpa i - card U)" using assms(2) by simp_all
  show d: "arena_desc s (pg s j) = desc_ptr s i" "free_cnt s (pg s j) = of_nat (bpa i - card U)"
    using r(3) by (simp_all add: header_def arena_desc_def free_cnt_def)
  note less = blk_word(1) [OF assms(1) r(1,2) assms(6)]
  note b = in_page_arena [OF assms(1) r(1) less, of b]
  have "unat b = paddr s j + (12 + k * bsz i)" using assms(7) by (simp add: blk_def)
  note b = b [OF this]
  have "unat (pg_ofs b - 12) = k * bsz i"
    using b(2) unat_sub [of "12 :: 32 word" "pg_ofs b"] by (simp add: word_le_nat_alt)
  then show "block_to_arena b s = Some (pg s j)"
    using b pg_aligned(1) [OF assms(1) r(1)] r d assms(3-5)
    by (simp add: block_to_arena_def magic_def header_def sizeof_arena_def)
qed

lemma set_free_cnt_mem:
  assumes "palloc_ok s" "j < pages s"
  shows "header s j d c \<Longrightarrow> header (set_free_cnt (pg s j) (of_nat c') s) j d c'"
    "j' < pages s \<Longrightarrow> unat x < 4096 \<Longrightarrow> j' \<noteq> j \<or> unat x \<ge> 12 \<Longrightarrow> mem (set_free_cnt (pg s j) v s) (pg s j' + x) = mem s (pg s j' + x)"
proof -
  show "header s j d c \<Longrightarrow> header (set_free_cnt (pg s j) (of_nat c') s) j d c'"
    by (simp add: header_def) (simp add: set_free_cnt_def)
  assume *: "j' < pages s" "unat x < 4096" "j' \<noteq> j \<or> unat x \<ge> 12"
  show "mem (set_free_cnt (pg s j) v s) (pg s j' + x) = mem s (pg s j' + x)"
    using page_words_apart [OF assms(1) *(1) assms(2) *(2), of 8] *(3) by (auto simp: set_free_cnt_def)
qed

lemma inj_blk:
  assumes "i < 7"
  shows "inj_on (blk s j i) {..<bpa i}"
  using blk_inj(2) [OF assms _ assms] by (auto simp: inj_on_def)

lemma card_used:
  assumes "U \<subseteq> {..<bpa i}" "k < bpa i" "k \<notin> U"
  shows "card (insert k U) = Suc (card U)" "card U < bpa i" "(of_nat (bpa i - card U) :: 32 word) - 1 = of_nat (bpa i - card (insert k U))"
proof -
  have fin: "finite U" using assms(1) finite_subset by blast
  then show c: "card (insert k U) = Suc (card U)" using assms(3) by simp
  have "card (insert k U) \<le> bpa i" using card_mono [of "{..<bpa i}" "insert k U"] assms by simp
  then show less: "card U < bpa i" using c by simp
  then have "bpa i - card U = Suc (bpa i - card (insert k U))" using c by simp
  then show "(of_nat (bpa i - card U) :: 32 word) - 1 = of_nat (bpa i - card (insert k U))" by simp
qed

lemma take_block:
  assumes "core s L R X" "i < 7" "X i = x # xs"
  obtains j U k h s' where "list_pop_front (free_heap s) (lst s i) = Some (h, x)" "x = blk s j i k" "R j = Some (Arena i U)"
    "k < bpa i" "k \<notin> U" "block_to_arena (of_nat x) (s\<lparr>free_heap := h\<rparr>) = Some (pg s j)"
    "s' = set_free_cnt (pg s j) (free_cnt (s\<lparr>free_heap := h\<rparr>) (pg s j) - 1) (s\<lparr>free_heap := h\<rparr>)"
    "core s' L (R(j \<mapsto> Arena i (insert k U))) (X(i := xs))" "same_place s s'" "header_only s j s'"
proof -
  have ls: "is_list (free_heap s) (lst s i) (x # xs)" using coreD(7) [OF assms(1,2)] assms(3) by simp
  obtain h where h: "list_pop_front (free_heap s) (lst s i) = Some (h, x)" "is_list h (lst s i) xs" "agree (set (nodes (lst s i) xs)) (free_heap s) h"
    using list_pop_front_spec [OF ls] by blast
  have "x \<in> free_blocks s R i" using coreD(8) [OF assms(1,2)] assms(3) by auto
  then obtain j U k where x: "x = blk s j i k" "R j = Some (Arena i U)" "k < bpa i" "k \<notin> U" by (auto simp: free_blocks_def)
  note r = coreD(5) [OF assms(1) x(2)] and ok = coreD(1) [OF assms(1)]
  have j: "j < pages s" "U \<subseteq> {..<bpa i}" using r by simp_all
  let ?s1 = "s\<lparr>free_heap := h\<rparr>" and ?c = "bpa i - card (insert k U)"
  let ?s = "set_free_cnt (pg s j) (of_nat ?c) ?s1"
  have arena: "block_to_arena (of_nat x) ?s1 = Some (pg s j)" "free_cnt ?s1 (pg s j) - 1 = of_nat ?c"
    using block_to_arena_eq [of ?s1 j i U "descs_at s" L k "of_nat x"] r ok deref_desc_ptr [OF assms(1,2)] coreD(2) [OF assms(1)] x
      blk_word(4) [OF ok j(1) assms(2) x(3)] card_used(3) [OF j(2) x(3,4)] by auto
  have "agree ({} \<union> set (nodes (lst s i) (X i))) (free_heap s) h" using h(3) assms(3) by (auto simp: agree_def nodes_def)
  note lists = lists_update [OF assms(1,2) h(2) this]
  have dist: "x \<notin> set xs" using is_list_ends(8) [OF ls] by simp
  have "set xs = free_blocks s (R(j := Some (Arena i (insert k U)))) i"
  proof -
    have "set xs = free_blocks s R i - {x}" using coreD(8) [OF assms(1,2)] assms(3) dist by auto
    also have "\<dots> = ((\<Union>j'\<in>- {j}. arena_free s j' (R j') i) - {x}) \<union> (blk s j i ` ({..<bpa i} - U) - {x})"
      using x(2) by (subst free_blocks_at [of s R i j]) auto
    also have "\<dots> = (\<Union>j'\<in>- {j}. arena_free s j' (R j') i) \<union> blk s j i ` ({..<bpa i} - insert k U)"
      using arena_free_apart [OF assms(1,2) x(3), of j] inj_blk [OF assms(2), of s j] x(1,3) by (auto simp: inj_on_def)
    finally show ?thesis by (simp add: free_blocks_upd)
  qed
  moreover have "free_blocks s (R(j := Some (Arena i (insert k U)))) i' = free_blocks s R i'" if "i' \<noteq> i" for i'
    using that x(2) free_blocks_at [of s R i' j] by (simp add: free_blocks_upd)
  ultimately have sets: "set ((X(i := xs)) i') = free_blocks s (R(j := Some (Arena i (insert k U)))) i'" if "i' < 7" for i'
    using coreD(8) [OF assms(1) that] by auto
  have "core ?s L (R(j := Some (Arena i (insert k U)))) (X(i := xs))"
  proof (rule core_update [OF assms(1), of ?s "used_map (kernel_pool s)"])
    show "mem ?s (pg s j' + ofs) = mem s (pg s j' + ofs)" if "R j' = Some r'" "j' \<noteq> j" "ofs < 12" for j' r' ofs
      using set_free_cnt_mem(2) [of ?s1 j j' ofs] ok j(1) region_start(1) [OF coreD(5) [OF assms(1) that(1)]] that word_less_12 by simp
    show "region_ok ?s j r'" if "Some (Arena i (insert k U)) = Some r'" for r'
      using set_free_cnt_mem(1) [of ?s1 j "desc_ptr s i"] r ok j x(3) that by auto
    show "j + ext r' \<le> j' \<or> j' + ext r'' \<le> j" if "Some (Arena i (insert k U)) = Some r'" "R j' = Some r''" "j' \<noteq> j" for r' j' r''
      using coreD(6) [OF assms(1) x(2) that(2)] that by auto
  qed (use ok coreD(2) [OF assms(1)] lists sets in simp_all)
  moreover have "same_place s ?s" by (simp add: same_place_def)
  moreover have "header_only s j ?s" using set_free_cnt_mem(2) [of ?s1 j] ok j(1) by (simp add: header_only_def)
  ultimately show thesis using that [OF h(1) x(1-4) arena(1)] arena(2) by simp
qed

subsection \<open>Blocks never overlap\<close>

fun region_blocks :: "heap \<Rightarrow> nat \<Rightarrow> region \<Rightarrow> (nat \<times> nat) set" where
  "region_blocks s j (Arena i U) = (\<lambda>k. (blk s j i k, bsz i)) ` U" |
  "region_blocks s j (Big c) = {(paddr s j + 12, 4096 * c - 12)}"

lemma blocks_iff: "x \<in> blocks s R \<longleftrightarrow> (\<exists>j r. R j = Some r \<and> x \<in> region_blocks s j r)"
proof
  assume "x \<in> blocks s R"
  then consider (arena) j i U k where "x = (blk s j i k, bsz i)" "R j = Some (Arena i U)" "k \<in> U"
    | (big) j c where "x = (paddr s j + 12, 4096 * c - 12)" "R j = Some (Big c)" by (auto simp: blocks_def)
  then show "\<exists>j r. R j = Some r \<and> x \<in> region_blocks s j r"
  proof cases
    case arena
    then show ?thesis by (intro exI [of _ j] exI [of _ "Arena i U"]) simp
  next
    case big
    then show ?thesis by (intro exI [of _ j] exI [of _ "Big c"]) simp
  qed
next
  assume "\<exists>j r. R j = Some r \<and> x \<in> region_blocks s j r"
  then obtain j r where "R j = Some r" "x \<in> region_blocks s j r" by blast
  then show "x \<in> blocks s R" by (cases r) (auto simp: blocks_def)
qed

lemma region_block_bounds:
  assumes "region_ok s j r" "(q, n) \<in> region_blocks s j r"
  shows "paddr s j + 12 \<le> q" "q + n \<le> paddr s (j + ext r)" "0 < n"
proof -
  have "paddr s j + 12 \<le> q \<and> q + n \<le> paddr s (j + ext r) \<and> 0 < n"
  proof (cases r)
    case (Arena i U)
    then obtain k where k: "k < bpa i" "q = blk s j i k" "n = bsz i" "i < 7" using assms by auto
    then show ?thesis using bpa_fits(3) [OF k(4,1)] Arena by (simp add: blk_def paddr_def)
  next
    case (Big c)
    then show ?thesis using assms by (auto simp: paddr_def)
  qed
  then show "paddr s j + 12 \<le> q" "q + n \<le> paddr s (j + ext r)" "0 < n" by simp_all
qed

lemma blocks_apart:
  assumes "core s L R X" "(q, n) \<in> blocks s R" "(q', n') \<in> blocks s R" "(q, n) \<noteq> (q', n')"
  shows "q + n \<le> q' \<or> q' + n' \<le> q"
proof -
  obtain j r j' r' where R: "R j = Some r" "(q, n) \<in> region_blocks s j r" "R j' = Some r'" "(q', n') \<in> region_blocks s j' r'"
    using assms(2,3) by (auto simp: blocks_iff)
  note b = region_block_bounds [OF coreD(5) [OF assms(1) R(1)] R(2)] and b' = region_block_bounds [OF coreD(5) [OF assms(1) R(3)] R(4)]
  show ?thesis
  proof (cases "j = j'")
    case False
    then have "j + ext r \<le> j' \<or> j' + ext r' \<le> j" using coreD(6) [OF assms(1) R(1,3)] by simp
    then have "paddr s (j + ext r) \<le> paddr s j' \<or> paddr s (j' + ext r') \<le> paddr s j" by (auto simp: paddr_def)
    then show ?thesis using b(1,2) b'(1,2) by linarith
  next
    case True
    then obtain i U where r: "r = Arena i U" "r' = Arena i U" using R assms(4) by (cases r) auto
    then obtain k k' where k: "q = blk s j i k" "q' = blk s j i k'" "n = bsz i" "n' = bsz i" "k \<noteq> k'" using R(2,4) True assms(4) by auto
    have "Suc k * bsz i \<le> k' * bsz i \<or> Suc k' * bsz i \<le> k * bsz i" using k(5) by (metis Suc_leI mult_le_mono1 nat_neq_iff)
    then show ?thesis using k by (auto simp: blk_def)
  qed
qed

lemma block_pos: "core s L R X \<Longrightarrow> (q, n) \<in> blocks s R \<Longrightarrow> 0 < n \<and> 0 < q \<and> q < 2 ^ 32"
proof -
  assume c: "core s L R X" "(q, n) \<in> blocks s R"
  then obtain j r where R: "R j = Some r" "(q, n) \<in> region_blocks s j r" by (auto simp: blocks_iff)
  note r = coreD(5) [OF c(1) R(1)]
  note b = region_block_bounds [OF r R(2)]
  have "j + (ext r - 1) < pages s" using region_used(2) [OF r, of "ext r - 1"] region_start(2) [OF r] by simp
  then have "paddr s (j + (ext r - 1)) + 4096 \<le> 2 ^ 32" using unat_in_page(2) [OF coreD(1) [OF c(1)], of "j + (ext r - 1)" 0] by simp
  moreover have "paddr s (j + ext r) = paddr s (j + (ext r - 1)) + 4096" using region_start(2) [OF r] by (cases "ext r") (simp_all add: paddr_def)
  ultimately show "0 < n \<and> 0 < q \<and> q < 2 ^ 32" using b by simp
qed

lemma block_word_page:
  assumes "core s L R X" "R j = Some r" "(q, n) \<in> region_blocks s j r" "q \<le> unat x" "unat x < q + n"
  obtains j' y where "x = pg s j' + y" "unat y < 4096" "j \<le> j'" "j' < j + ext r" "j' < pages s" "j' = j \<Longrightarrow> 12 \<le> unat y"
proof -
  note r = coreD(5) [OF assms(1,2)] and ok = coreD(1) [OF assms(1)]
  note b = region_block_bounds [OF r assms(3)]
  define d where "d = unat x - paddr s j"
  have "unat x = paddr s j + d" "12 \<le> d" "d < 4096 * ext r" using b(1,2) assms(4,5) by (simp_all add: d_def paddr_def)
  then have d: "unat x = paddr s (j + d div 4096) + d mod 4096" "d div 4096 < ext r" "12 \<le> d" by (simp_all add: paddr_def)
  have p: "j + d div 4096 < pages s" using region_used(2) [OF r d(2)] .
  have "x = pg s (j + d div 4096) + of_nat (d mod 4096)" using in_page_arena(3) [OF ok p _ d(1)] by simp
  moreover have "unat (of_nat (d mod 4096) :: 32 word) = d mod 4096" by (intro unat32_of_nat) simp
  moreover have "j + d div 4096 = j \<Longrightarrow> 12 \<le> d mod 4096" using d(3) by (simp add: div_eq_0_iff)
  ultimately show thesis using d(2) p by (intro that [of "j + d div 4096" "of_nat (d mod 4096)"]) simp_all
qed

lemma header_only_blocks:
  assumes "core s L R X" "header_only s j s'" "R j = None \<Longrightarrow> \<not> used s j" "(q, n) \<in> blocks s R" "q \<le> unat x" "unat x < q + n"
  shows "mem s' x = mem s x"
proof -
  obtain j0 r where R: "R j0 = Some r" "(q, n) \<in> region_blocks s j0 r" using assms(4) by (auto simp: blocks_iff)
  obtain j' y where y: "x = pg s j' + y" "unat y < 4096" "j0 \<le> j'" "j' < j0 + ext r" "j' < pages s" "j' = j0 \<Longrightarrow> 12 \<le> unat y"
    using block_word_page [OF assms(1) R assms(5,6)] by metis
  have "j' = j \<Longrightarrow> j' = j0"
  proof (cases "R j")
    case None
    moreover have "used s j'" using region_used(1) [OF coreD(5) [OF assms(1) R(1)], of "j' - j0"] y by simp
    ultimately show "j' = j \<Longrightarrow> j' = j0" using assms(3) by auto
  next
    case (Some r')
    then show "j' = j \<Longrightarrow> j' = j0" using coreD(6) [OF assms(1) R(1) Some] region_start(2) [OF coreD(5) [OF assms(1) Some]] y(3,4) by fastforce
  qed
  then show ?thesis using assms(2) y unfolding header_only_def by metis
qed

text \<open>From regions to the map of blocks.\<close>

definition block_map :: "heap \<Rightarrow> (nat \<rightharpoonup> region) \<Rightarrow> (32 word \<rightharpoonup> nat) \<Rightarrow> bool" where
  "block_map s R H \<longleftrightarrow> (\<forall>p n. H p = Some n \<longleftrightarrow> (unat p, n) \<in> blocks s R)"

lemma view_insert:
  assumes "core s {} R X" "block_map s R H" "core s' {} R' X'" "blocks s' R' = insert (unat p, n) (blocks s R)" "(unat p, n) \<notin> blocks s R"
  shows "block_map s' R' (H(p \<mapsto> n))" "H p = None" "H q = Some m \<Longrightarrow> unat p + n \<le> unat q \<or> unat q + m \<le> unat p"
proof -
  note pos = block_pos [OF assms(3), of "unat p" n]
  have new: "m = n" if "(unat p, m) \<in> blocks s' R'" for m
    using blocks_apart [OF assms(3) that, of "unat p" n] block_pos [OF assms(3) that] assms(4) pos by auto
  show none: "H p = None"
  proof (cases "H p")
    case (Some m)
    then have "(unat p, m) \<in> blocks s R" using assms(2) by (simp add: block_map_def)
    then show ?thesis using new [of m] assms(4,5) by auto
  qed simp
  show "block_map s' R' (H(p \<mapsto> n))"
    unfolding block_map_def
  proof (intro allI)
    fix q m
    show "(H(p \<mapsto> n)) q = Some m \<longleftrightarrow> (unat q, m) \<in> blocks s' R'"
      using assms(2,4,5) new [of m] by (cases "q = p") (auto simp: block_map_def word_unat_eq_iff)
  qed
  assume H: "H q = Some m"
  then have "(unat q, m) \<in> blocks s R" using assms(2) by (simp add: block_map_def)
  moreover have "q \<noteq> p" using H none by auto
  ultimately show "unat p + n \<le> unat q \<or> unat q + m \<le> unat p"
    using blocks_apart [OF assms(3), of "unat p" n "unat q" m] assms(4) by (auto simp: word_unat_eq_iff)
qed

subsection \<open>Allocation\<close>

lemma core_descs:
  assumes "core s L R X" "descs_at s = D"
  shows "core (s\<lparr>descs := desc_table D L'\<rparr>) L' R X"
proof -
  let ?s = "s\<lparr>descs := desc_table D L'\<rparr>"
  have "lst ?s = lst s" "free_blocks ?s = free_blocks s" by (simp_all add: lst_def free_blocks_def blk_def paddr_def fun_eq_iff)
  moreover have "region_ok ?s j r = region_ok s j r" for j r by (cases r) (simp_all add: header_def desc_ptr_def)
  ultimately show ?thesis using assms unfolding core_def by simp
qed

lemma lock_desc_eq:
  assumes "core s L R X" "i < 7" "i \<notin> L"
  shows "lock_desc i s = Some (s\<lparr>descs := desc_table (descs_at s) (insert i L)\<rparr>)"
  using coreD(2) [OF assms(1)] assms(2,3) desc_table_held(1) [OF assms(2), of "descs_at s" L] by (simp add: lock_desc_def)

lemma unlock_desc_eq:
  assumes "core s L R X" "i < 7" "i \<in> L"
  shows "unlock_desc i s = Some (s\<lparr>descs := desc_table (descs_at s) (L - {i})\<rparr>)"
  using coreD(2) [OF assms(1)] assms(2,3) desc_table_held(2) [OF assms(2), of "descs_at s" L] by (simp add: unlock_desc_def)

lemma find_desc_nth:
  "find_desc sz ds \<le> length ds" "find_desc sz ds < length ds \<Longrightarrow> sz \<le> block_size (ds ! find_desc sz ds)"
  "find_desc sz ds = length ds \<Longrightarrow> d \<in> set ds \<Longrightarrow> block_size d < sz"
  by (induction ds) (auto split: if_splits)

lemma find_desc_table:
  "find_desc sz (desc_table D L) \<le> 7" "find_desc sz (desc_table D L) < 7 \<Longrightarrow> sz \<le> bsz (find_desc sz (desc_table D L))"
  "find_desc sz (desc_table D L) = 7 \<Longrightarrow> 1024 < sz" "find_desc sz (desc_table D L) < 7 \<Longrightarrow> sz \<le> 1024"
proof -
  note f = find_desc_nth [of sz "desc_table D L"]
  show "find_desc sz (desc_table D L) \<le> 7" using f(1) by simp
  show *: "find_desc sz (desc_table D L) < 7 \<Longrightarrow> sz \<le> bsz (find_desc sz (desc_table D L))" using f(2) by simp
  then show "find_desc sz (desc_table D L) < 7 \<Longrightarrow> sz \<le> 1024" using bsz_le by fastforce
  assume "find_desc sz (desc_table D L) = 7"
  then have "block_size (desc_table D L ! 6) < sz" by (intro f(3) nth_mem) simp_all
  then show "1024 < sz" by (simp add: bsz_def)
qed

lemma same_place_blocks: "same_place s s' \<Longrightarrow> blocks s' R = blocks s R"
  by (simp add: same_place_def blocks_def blk_def paddr_def)

lemma blocks_upd:
  "blocks s (R(j := ro)) = (case ro of None \<Rightarrow> {} | Some r \<Rightarrow> region_blocks s j r) \<union> {x. \<exists>j' r'. j' \<noteq> j \<and> R j' = Some r' \<and> x \<in> region_blocks s j' r'}"
proof (rule set_eqI)
  fix x
  have "(\<exists>r. (R(j := ro)) j' = Some r \<and> x \<in> region_blocks s j' r) \<longleftrightarrow>
    (if j' = j then x \<in> (case ro of None \<Rightarrow> {} | Some r \<Rightarrow> region_blocks s j r) else \<exists>r. R j' = Some r \<and> x \<in> region_blocks s j' r)" for j'
    by (cases ro) auto
  then show "x \<in> blocks s (R(j := ro)) \<longleftrightarrow> x \<in> (case ro of None \<Rightarrow> {} | Some r \<Rightarrow> region_blocks s j r) \<union>
    {x. \<exists>j' r'. j' \<noteq> j \<and> R j' = Some r' \<and> x \<in> region_blocks s j' r'}"
    unfolding blocks_iff by (auto split: if_splits)
qed

lemma blocks_at:
  "blocks s R = (case R j of None \<Rightarrow> {} | Some r \<Rightarrow> region_blocks s j r) \<union> {x. \<exists>j' r'. j' \<noteq> j \<and> R j' = Some r' \<and> x \<in> region_blocks s j' r'}"
  using blocks_upd [of s R j "R j"] by simp

lemma blocks_update:
  "R j = None \<Longrightarrow> blocks s (R(j \<mapsto> r)) = region_blocks s j r \<union> blocks s R"
  "R j = Some (Arena i U) \<Longrightarrow> blocks s (R(j \<mapsto> Arena i (insert k U))) = insert (blk s j i k, bsz i) (blocks s R)"
  by (simp_all add: blocks_upd blocks_at [of s R j])

lemma header_only_trans:
  assumes "same_place s s'" "header_only s j s'" "header_only s' j s''"
  shows "header_only s j s''"
proof -
  have "pages s' = pages s" "pg s' = pg s" using assms(1) by (simp_all add: same_place_def pool_page_def fun_eq_iff)
  then show ?thesis using assms(2,3) by (simp add: header_only_def)
qed

lemma big_page_cnt:
  assumes "sz + 4107 < 2 ^ 32" "0 < sz"
  shows "DIV_ROUND_UP (u32 (sz + sizeof_arena)) PGSIZE = (sz + 4107) div 4096" "0 < (sz + 4107) div 4096" "sz \<le> 4096 * ((sz + 4107) div 4096) - 12"
proof -
  show "DIV_ROUND_UP (u32 (sz + sizeof_arena)) PGSIZE = (sz + 4107) div 4096"
    using assms by (simp add: DIV_ROUND_UP_def sizeof_arena_def PGSIZE_def u32_id)
  have "(sz + 4107) mod 4096 < 4096" by simp
  then show "0 < (sz + 4107) div 4096" "sz \<le> 4096 * ((sz + 4107) div 4096) - 12"
    using mult_div_mod_eq [of 4096 "sz + 4107"] assms(2) by linarith+
qed

lemma pop_block_core:
  assumes "core s {i} R X" "i < 7" "X i = x # xs"
  obtains j U k s' where "pop_block i s = Some (of_nat x, s')" "unat (of_nat x :: 32 word) = x" "x = blk s j i k"
    "R j = Some (Arena i U)" "k < bpa i" "k \<notin> U"
    "core s' {} (R(j \<mapsto> Arena i (insert k U))) (X(i := xs))" "same_place s s'" "header_only s j s'"
proof -
  obtain j U k h s1 where t: "list_pop_front (free_heap s) (lst s i) = Some (h, x)" "x = blk s j i k" "R j = Some (Arena i U)"
    "k < bpa i" "k \<notin> U" "block_to_arena (of_nat x) (s\<lparr>free_heap := h\<rparr>) = Some (pg s j)"
    "s1 = set_free_cnt (pg s j) (free_cnt (s\<lparr>free_heap := h\<rparr>) (pg s j) - 1) (s\<lparr>free_heap := h\<rparr>)"
    "core s1 {i} (R(j \<mapsto> Arena i (insert k U))) (X(i := xs))" "same_place s s1" "header_only s j s1"
    by (rule take_block [OF assms(1-3)])
  show thesis
  proof (rule that [OF _ _ t(2-5)])
    let ?s' = "s1\<lparr>descs := desc_table (descs_at s1) {}\<rparr>"
    have "unlock_desc i s1 = Some ?s'" using unlock_desc_eq [OF t(8) assms(2)] by simp
    then show "pop_block i s = Some (of_nat x, ?s')"
      using t(1,6,7) coreD(2) [OF assms(1)] assms(2) by (simp add: pop_block_def lst_def Let_def)
    show "core ?s' {} (R(j \<mapsto> Arena i (insert k U))) (X(i := xs))" using core_descs [OF t(8)] by simp
    show "same_place s ?s'" "header_only s j ?s'" using t(9,10) by (simp_all add: same_place_def header_only_def)
    show "unat (of_nat x :: 32 word) = x"
      using blk_word(4) [OF coreD(1) [OF assms(1)] _ assms(2) t(4), of j] region_start(1) [OF coreD(5) [OF assms(1) t(3)]] t(2) by simp
  qed
qed

lemma block_fresh:
  assumes "core s L R X" "i < 7" "k < bpa i" "R j = None \<and> \<not> used s j \<or> R j = Some (Arena i U) \<and> k \<notin> U"
  shows "(blk s j i k, bsz i) \<notin> blocks s R"
proof
  assume "(blk s j i k, bsz i) \<in> blocks s R"
  then obtain j' r where R: "R j' = Some r" "(blk s j i k, bsz i) \<in> region_blocks s j' r" by (auto simp: blocks_iff)
  note r = coreD(5) [OF assms(1) R(1)]
  note b = region_block_bounds [OF r R(2)]
  have le: "j' \<le> j" "j < j' + ext r" using b(1,2) bpa_fits(3) [OF assms(2,3)] bsz_pos(1) [of i] by (simp_all add: blk_def paddr_def)
  then have "used s j" using region_used(1) [OF r, of "j - j'"] by simp
  then have a: "R j = Some (Arena i U)" "k \<notin> U" using assms(4) by auto
  then have "j' = j" using coreD(6) [OF assms(1) R(1) a(1)] le by fastforce
  then obtain k' where k': "k' \<in> U" "blk s j i k = blk s j i k'" using R(1) a R(2) by auto
  moreover have "U \<subseteq> {..<bpa i}" using coreD(5) [OF assms(1) a(1)] by simp
  ultimately show False using blk_inj(2) [OF assms(2,3,2) _ k'(2)] a(2) by blast
qed

lemma malloc_small:
  assumes "core s {} R X" "0 < sz" "find_desc sz (descs s) = i" "i < 7" "\<And>j i. R j \<noteq> Some (Arena i {})"
  obtains (none) "malloc sz s = Some (0, s)" "\<And>j. j < pages s \<Longrightarrow> used s j"
  | (block) p s' R' X' j where "malloc sz s = Some (p, s')" "core s' {} R' X'" "\<And>j i. R' j \<noteq> Some (Arena i {})"
    "blocks s' R' = insert (unat p, bsz i) (blocks s R)" "(unat p, bsz i) \<notin> blocks s R" "header_only s j s'" "R j = None \<Longrightarrow> \<not> used s j"
proof -
  define s1 where "s1 = s\<lparr>descs := desc_table (descs_at s) {i}\<rparr>"
  have c1: "core s1 {i} R X" using core_descs [OF assms(1)] by (simp add: s1_def)
  have lk: "lock_desc i s = Some s1" using lock_desc_eq [OF assms(1,4)] by (simp add: s1_def)
  have len: "length (descs s) = 7" "flist (descs s1 ! i) = lst s1 i"
    using coreD(2) [OF assms(1)] coreD(2) [OF c1] assms(4) by (simp_all add: lst_def)
  have place: "same_place s s1" "pg s1 = pg s" "pages s1 = pages s" "used s1 = used s" "mem s1 = mem s" "blk s1 = blk s"
    by (simp_all add: s1_def same_place_def blk_def paddr_def fun_eq_iff)
  have m: "malloc sz s = do {
      (ok, s) \<leftarrow> (if X i = [] then new_arena i s1 else Some (True, s1));
      if \<not> ok then do { s \<leftarrow> unlock_desc i s; Some (0, s) } else pop_block i s }"
    using assms(2-4) lk list_empty_eq [OF coreD(7) [OF c1 assms(4)]] by (simp add: malloc_def len)
  show thesis
  proof (cases "X i")
    case (Cons x xs)
    obtain j U k s' where t: "pop_block i s1 = Some (of_nat x, s')" "unat (of_nat x :: 32 word) = x" "x = blk s1 j i k" "R j = Some (Arena i U)"
      "k < bpa i" "k \<notin> U" "core s' {} (R(j \<mapsto> Arena i (insert k U))) (X(i := xs))" "same_place s1 s'" "header_only s1 j s'"
      by (rule pop_block_core [OF c1 assms(4) Cons])
    show thesis
    proof (rule block [OF _ t(7)])
      show "malloc sz s = Some (of_nat x, s')" using m t(1) Cons by simp
      show "(R(j \<mapsto> Arena i (insert k U))) j' \<noteq> Some (Arena i' {})" for j' i' using assms(5) [of j' i'] by simp
      have "same_place s s'" using place(1) t(8) by (simp add: same_place_def)
      then show "blocks s' (R(j \<mapsto> Arena i (insert k U))) = insert (unat (of_nat x :: 32 word), bsz i) (blocks s R)"
        using blocks_update(2) [of R j i U s k] t(2-4) by (simp add: same_place_blocks place)
      show "(unat (of_nat x :: 32 word), bsz i) \<notin> blocks s R" using block_fresh [OF assms(1,4) t(5), of j U] t(2-6) by (simp add: place)
      show "header_only s j s'" using t(9) by (simp add: header_only_def place)
      show "R j = None \<Longrightarrow> \<not> used s j" using t(4) by simp
    qed
  next
    case Nil
    show thesis
    using c1 assms(4) Nil
    proof (cases rule: new_arena_cases)
      case full
      have "unlock_desc i s1 = Some s" using unlock_desc_eq [OF c1 assms(4)] coreD(2) [OF assms(1)] by (simp add: s1_def)
      then show thesis using none m full Nil by (simp add: place)
    next
      case (arena j s2 X')
      obtain x xs where x: "X' i = x # xs" using arena(3) by (cases "X' i") auto
      obtain j' U k s' where t: "pop_block i s2 = Some (of_nat x, s')" "unat (of_nat x :: 32 word) = x" "x = blk s2 j' i k" "(R(j \<mapsto> Arena i {})) j' = Some (Arena i U)"
        "k < bpa i" "k \<notin> U" "core s' {} (R(j \<mapsto> Arena i {}, j' \<mapsto> Arena i (insert k U))) (X'(i := xs))" "same_place s2 s'" "header_only s2 j' s'"
        by (rule pop_block_core [OF arena(2) assms(4) x])
      have "same_place s s2" using place(1) arena(8) by (simp add: same_place_def)
      then have b2: "blk s2 = blk s" by (simp add: same_place_def blk_def paddr_def fun_eq_iff)
      have "x \<in> blk s j i ` {..<bpa i}" using arena(4) x by (auto simp: place)
      then obtain k0 where k0: "k0 < bpa i" "blk s j' i k = blk s j i k0" using t(3) b2 by auto
      have "j' = j" using blk_inj(1) [OF assms(4) t(5) assms(4) k0] .
      then have j: "j' = j" "U = {}" "R j = None" using t(4) arena(5) by simp_all
      show thesis
      proof (rule block [OF _ t(7) _ _ _ _ _])
        show "malloc sz s = Some (of_nat x, s')" using m t(1) Nil arena(1) by simp
        show "(R(j \<mapsto> Arena i {}, j' \<mapsto> Arena i (insert k U))) j'' \<noteq> Some (Arena i' {})" for j'' i' using assms(5) [of j'' i'] j by simp
        have "same_place s s'" using \<open>same_place s s2\<close> t(8) by (simp add: same_place_def)
        then show "blocks s' (R(j \<mapsto> Arena i {}, j' \<mapsto> Arena i (insert k U))) = insert (unat (of_nat x :: 32 word), bsz i) (blocks s R)"
          using blocks_update(1) [of R j s "Arena i {k}"] t(2,3) j b2 by (simp add: same_place_blocks)
        show "(unat (of_nat x :: 32 word), bsz i) \<notin> blocks s R" using block_fresh [OF assms(1,4) t(5), of j] t(2,3) j b2 arena(7) by (simp add: place)
        have "header_only s j s2" using arena(9) by (simp add: header_only_def place)
        then show "header_only s j s'" using header_only_trans [OF \<open>same_place s s2\<close>] t(9) j by simp
        show "R j = None \<Longrightarrow> \<not> used s j" using arena(7) by (simp add: place)
      qed
    qed
  qed
qed

lemma malloc_large:
  assumes "core s {} R X" "0 < sz" "find_desc sz (descs s) = 7" "\<And>j i. R j \<noteq> Some (Arena i {})"
    "DIV_ROUND_UP (u32 (sz + sizeof_arena)) PGSIZE = c" "0 < c"
  obtains (none) "malloc sz s = Some (0, s)" "\<And>i. i + c \<le> pages s \<Longrightarrow> \<exists>j<c. used s (i + j)"
  | (block) p s' R' X' j where "malloc sz s = Some (p, s')" "core s' {} R' X'" "\<And>j i. R' j \<noteq> Some (Arena i {})"
    "blocks s' R' = insert (unat p, 4096 * c - 12) (blocks s R)" "(unat p, 4096 * c - 12) \<notin> blocks s R" "header_only s j s'" "R j = None \<Longrightarrow> \<not> used s j"
proof -
  have ds: "length (descs s) = 7" using coreD(2) [OF assms(1)] by simp
  have m: "malloc sz s = do {
     (a, s) \<leftarrow> palloc_get_multiple 0 c s;
     if a = 0 then Some (0, s) else Some (a + 12, set_arena a 0 (of_nat c) s) }"
    using assms(2,3,5) ds by (simp add: malloc_def malloc_big_def sizeof_arena_def Let_def cong: if_cong)
  show thesis
    using assms(1) assms(6)
  proof (cases rule: get_pages)
    case full
    then show thesis using none m by simp
  next
    case (got j b)
    let ?s1 = "s\<lparr>kernel_pool := kernel_pool s\<lparr>used_map := b\<rparr>\<rparr>"
    let ?s = "set_arena (pg s j) 0 (of_nat c) ?s1"
    have j: "j < pages s" "\<not> used s j" "pages ?s1 = pages s" using got(3,4) got(5) [of 0] assms(6) by simp_all
    moreover have "R j = None"
    proof (cases "R j")
      case (Some r)
      then show ?thesis using region_used(1) [OF coreD(5) [OF assms(1) Some], of 0] region_start(2) [OF coreD(5) [OF assms(1) Some]] j(2) by simp
    qed simp
    ultimately have j: "j < pages s" "R j = None" "\<not> used s j" "pages ?s1 = pages s" by simp_all
    have ne: "pg s j \<noteq> 0" using pg_aligned(1) [OF coreD(1) [OF assms(1)] j(1)] .
    have p: "unat (pg s j + 12) = paddr s j + 12" using unat_in_page(1) [OF coreD(1) [OF assms(1)] j(1), of 12] by simp
    have sp: "same_place s ?s" using got(4) by (simp add: same_place_def)
    show thesis
    proof (rule block)
      show "malloc sz s = Some (pg s j + 12, ?s)" using m got(1) ne by simp
      show "core ?s {} (R(j := Some (Big c))) X"
      proof (rule core_update [OF assms(1), of ?s b])
        show "bits_of b ! (j' + k) = used s (j' + k)" if "R j' = Some r" "j' \<noteq> j" "k < ext r" for j' r k
          using got(6) [of "j' + k"] region_used [OF coreD(5) [OF assms(1) that(1)] that(3)] by simp
        show "mem ?s (pg s j' + ofs) = mem s (pg s j' + ofs)" if "R j' = Some r" "j' \<noteq> j" "ofs < 12" for j' r ofs
          using set_arena_mem(2) [OF got(2), of j j' ofs] region_start(1) [OF coreD(5) [OF assms(1) that(1)]] that word_less_12 j by simp
        show "region_ok ?s j r" if "Some (Big c) = Some r" for r
          using set_arena_mem(1) [OF got(2), of j 0 c] that got(3,4,6) assms(6) j by auto
        show "j + ext r \<le> j' \<or> j' + ext r' \<le> j" if "Some (Big c) = Some r" "R j' = Some r'" for r j' r'
          using got(7) [OF that(2)] that(1) by auto
        show "set (X i) = free_blocks s (R(j := Some (Big c))) i" if "i < 7" for i
          using coreD(8) [OF assms(1) that] j(2) free_blocks_at [of s R i j] by (simp add: free_blocks_upd)
      qed (use got(2,4) coreD(2) [OF assms(1)] coreD(7) [OF assms(1)] in simp_all)
      show "(R(j := Some (Big c))) j' \<noteq> Some (Arena i' {})" for j' i' using assms(4) [of j' i'] by simp
      show "blocks ?s (R(j := Some (Big c))) = insert (unat (pg s j + 12), 4096 * c - 12) (blocks s R)"
        using blocks_update(1) [of R j s "Big c"] j(2) p same_place_blocks [OF sp] by simp
      show "header_only s j ?s" using set_arena_mem(2) [OF got(2), of j] j by (simp add: header_only_def)
      show "(unat (pg s j + 12), 4096 * c - 12) \<notin> blocks s R"
      proof
        assume "(unat (pg s j + 12), 4096 * c - 12) \<in> blocks s R"
        then obtain j' r where r: "R j' = Some r" "(paddr s j + 12, 4096 * c - 12) \<in> region_blocks s j' r" using p by (auto simp: blocks_iff)
        show False using region_block_bounds [OF coreD(5) [OF assms(1) r(1)] r(2)] got(7) [OF r(1)] assms(6) by (auto simp: paddr_def)
      qed
    qed (use j(3) in simp)
  qed
qed

end
