(* ===== verification/Malloc_Props.thy ===== *)
theory Malloc_Props
  imports Malloc
begin

text \<open>
  The kernel heap keeps its blocks apart: what \<open>malloc_init\<close>, \<open>malloc\<close>, \<open>free\<close>, \<open>calloc\<close> and \<open>realloc\<close> do to the map of
  blocks in use and to their contents, and the requests whose size wraps around.
\<close>

section \<open>Initialization\<close>

lemma init_loop:
  assumes "n \<le> 7" "descs s = take n (desc_table (descs_at s) {})" "0 < descs_at s" "\<And>i. i < n \<Longrightarrow> is_list (free_heap s) (lst s i) []"
  shows "\<exists>h. malloc_init_loop (bsz n) s = Some (s\<lparr>descs := desc_table (descs_at s) {}, free_heap := h\<rparr>) \<and> (\<forall>i<7. is_list h (lst s i) [])"
  using assms
proof (induction "7 - n" arbitrary: n s)
  case 0
  then have "n = 7" by simp
  moreover have "malloc_init_loop (bsz 7) s = Some s" by (simp add: bsz_def PGSIZE_def)
  ultimately show ?case using 0 by (intro exI [of _ "free_heap s"]) simp
next
  case (Suc m)
  then have n: "n < 7" by simp
  let ?d = "\<lparr>block_size = bsz n, blocks_per_arena = bpa n, flist = lst s n, held = False\<rparr>"
  have len: "length (descs s) = n" using Suc.prems(2) n by simp
  obtain h where h: "list_init (free_heap s) (lst s n) = Some h" "is_list h (lst s n) []" "agree {lst s n, tail_of (lst s n)} (free_heap s) h"
    using list_init_spec [of "lst s n" "free_heap s"] by (auto simp: lst_def)
  let ?s = "s\<lparr>descs := descs s @ [?d], free_heap := h\<rparr>"
  have step: "malloc_init_loop (bsz n) s = malloc_init_loop (bsz (Suc n)) ?s"
  proof -
    have ne: "bsz n = 0 \<longleftrightarrow> False" by (simp add: bsz_def)
    have "bsz n < 2048" "u32 (bsz n * 2) = bsz (Suc n)" using bsz_le [OF n] by (simp_all add: bsz_def u32_id)
    then show ?thesis using h(1) n len
      by (subst malloc_init_loop.simps) (simp add: PGSIZE_def sizeof_arena_def bpa_def lst_def ne del: malloc_init_loop.simps)
  qed
  have "\<exists>h'. malloc_init_loop (bsz (Suc n)) ?s = Some (?s\<lparr>descs := desc_table (descs_at ?s) {}, free_heap := h'\<rparr>) \<and> (\<forall>i<7. is_list h' (lst ?s i) [])"
  proof (rule Suc.hyps(1))
    show "m = 7 - Suc n" "Suc n \<le> 7" "0 < descs_at ?s" using Suc.hyps(2) n Suc.prems(3) by simp_all
    show "descs ?s = take (Suc n) (desc_table (descs_at ?s) {})"
      using Suc.prems(2) n by (simp add: take_Suc_conv_app_nth lst_def)
    show "is_list (free_heap ?s) (lst ?s i) []" if "i < Suc n" for i
    proof (cases "i = n")
      case True
      then show ?thesis using h(2) by (simp add: lst_def)
    next
      case False
      then have "i < n" using that by simp
      have "is_list h (lst s i) []"
        by (rule is_list_frame [OF Suc.prems(4) [OF \<open>i < n\<close>] h(3)]) (use \<open>i < n\<close> in \<open>auto simp: nodes_def lst_def tail_of_def\<close>)
      then show ?thesis by (simp add: lst_def)
    qed
  qed
  then show ?case using step by (simp add: lst_def)
qed

lemma malloc_init_view:
  assumes "palloc_ok s" "0 < descs_at s" "descs_at s + 480 \<le> unat (base (kernel_pool s))"
  shows "\<exists>s'. malloc_init s = Some s' \<and> heap_view s' Map.empty \<and> kernel_pool s' = kernel_pool s \<and> mem s' = mem s"
proof -
  have "\<exists>h. malloc_init_loop (bsz 0) (s\<lparr>descs := []\<rparr>) = Some (s\<lparr>descs := desc_table (descs_at s) {}, free_heap := h\<rparr>) \<and> (\<forall>i<7. is_list h (lst (s\<lparr>descs := []\<rparr>) i) [])"
    using init_loop [of 0 "s\<lparr>descs := []\<rparr>"] assms by simp
  then obtain h where h: "malloc_init s = Some (s\<lparr>descs := desc_table (descs_at s) {}, free_heap := h\<rparr>)" "\<And>i. i < 7 \<Longrightarrow> is_list h (lst s i) []"
    by (auto simp: malloc_init_def bsz_def lst_def)
  let ?s = "s\<lparr>descs := desc_table (descs_at s) {}, free_heap := h\<rparr>"
  have "core ?s {} Map.empty (\<lambda>_. [])"
    using assms h(2) by (simp add: core_def free_blocks_def lst_def palloc_ok_def)
  then have "heap_view ?s Map.empty" by (auto simp: heap_view_def blocks_def)
  then show ?thesis using h(1) by simp
qed

section \<open>Allocation\<close>

text \<open>The words of a block are the same in both states.\<close>

definition kept :: "heap \<Rightarrow> heap \<Rightarrow> 32 word \<Rightarrow> nat \<Rightarrow> bool" where
  "kept s s' q m \<longleftrightarrow> (\<forall>x. unat q \<le> unat x \<and> unat x < unat q + m \<longrightarrow> mem s' x = mem s x)"

lemma malloc_spec:
  assumes "heap_view s H" "0 < sz" "sz + 4107 < 2 ^ 32"
  shows "\<exists>p s'. malloc sz s = Some (p, s') \<and>
    (if p = 0 then s' = s \<and> \<not> (\<exists>i. group_free (kernel_pool s) ((sz + 4107) div 4096) i)
     else \<exists>n\<ge>sz. H p = None \<and> heap_view s' (H(p \<mapsto> n)) \<and>
       (\<forall>q m. H q = Some m \<longrightarrow> (unat p + n \<le> unat q \<or> unat q + m \<le> unat p) \<and> kept s s' q m))"
proof -
  obtain R X where v: "core s {} R X" "\<And>j i. R j \<noteq> Some (Arena i {})" "block_map s R H"
    using assms(1) by (auto simp: heap_view_def block_map_def)
  let ?c = "(sz + 4107) div 4096"
  have pk: "pool_ok (kernel_pool s)" using coreD(1) [OF v(1)] by (simp add: palloc_ok_def)
  have none: ?thesis if "malloc sz s = Some (0, s)" "\<And>i. i + ?c \<le> pages s \<Longrightarrow> \<exists>j<?c. used s (i + j)"
  proof -
    have "\<not> group_free (kernel_pool s) ?c i" for i
      using that(2) [of i] is_free_nth(1) [OF pk] by (fastforce simp: group_free_def)
    then show ?thesis using that(1) by simp
  qed
  have some: ?thesis if "malloc sz s = Some (p, s')" "core s' {} R' X'" "\<And>j i. R' j \<noteq> Some (Arena i {})" "sz \<le> n"
    "blocks s' R' = insert (unat p, n) (blocks s R)" "(unat p, n) \<notin> blocks s R" "header_only s j s'" "R j = None \<Longrightarrow> \<not> used s j" for p s' R' X' j n
  proof -
    note vi = view_insert [OF v(1,3) that(2,5,6)]
    have "p \<noteq> 0" using block_pos [OF that(2), of "unat p" n] that(5) by auto
    moreover have "heap_view s' (H(p \<mapsto> n))" using vi(1) that(2,3) by (auto simp: heap_view_def block_map_def)
    moreover have "mem s' x = mem s x" if "H q = Some m" "unat q \<le> unat x" "unat x < unat q + m" for q m x
      using header_only_blocks [OF v(1) \<open>header_only s j s'\<close>] \<open>R j = None \<Longrightarrow> \<not> used s j\<close> that v(3) by (simp add: block_map_def)
    ultimately show ?thesis using vi(2,3) that(1,4) by (auto simp: kept_def)
  qed
  show ?thesis
  proof (cases "find_desc sz (descs s) = 7")
    case True
    show ?thesis
    proof (rule malloc_large [OF v(1) assms(2) True v(2) big_page_cnt(1,2) [OF assms(3,2)]])
      fix p s' R' X' j
      assume b: "malloc sz s = Some (p, s')" "core s' {} R' X'" "\<And>j i. R' j \<noteq> Some (Arena i {})"
        "blocks s' R' = insert (unat p, 4096 * ?c - 12) (blocks s R)" "(unat p, 4096 * ?c - 12) \<notin> blocks s R" "header_only s j s'"
        "R j = None \<Longrightarrow> \<not> used s j"
      show ?thesis by (rule some [OF b(1-3) big_page_cnt(3) [OF assms(3,2)] b(4-7)])
    qed (rule none)
  next
    case False
    then have f: "find_desc sz (descs s) < 7" "sz \<le> bsz (find_desc sz (descs s))" "sz \<le> 1024"
      using find_desc_table [of sz "descs_at s" "{}"] coreD(2) [OF v(1)] by simp_all
    then have c: "?c = 1" using assms(2) by (intro div_nat_eqI) simp_all
    show ?thesis
    proof (rule malloc_small [OF v(1) assms(2) refl f(1) v(2)])
      fix p s' R' X' j
      assume b: "malloc sz s = Some (p, s')" "core s' {} R' X'" "\<And>j i. R' j \<noteq> Some (Arena i {})"
        "blocks s' R' = insert (unat p, bsz (find_desc sz (descs s))) (blocks s R)" "(unat p, bsz (find_desc sz (descs s))) \<notin> blocks s R"
        "header_only s j s'" "R j = None \<Longrightarrow> \<not> used s j"
      show ?thesis by (rule some [OF b(1-3) f(2) b(4-7)])
    qed (rule none; simp add: c)
  qed
qed


section \<open>Release\<close>

lemma unat_diff_less:
  assumes "unat (dst :: 32 word) + n \<le> 2 ^ 32"
  shows "unat (a - dst) < n \<longleftrightarrow> unat dst \<le> unat a \<and> unat a < unat dst + n"
proof (cases "dst \<le> a")
  case True
  then show ?thesis using unat_sub [OF True] by (auto simp: word_le_nat_alt)
next
  case False
  then have "unat (a - dst) = 2 ^ 32 - unat dst + unat a"
    using unsigned_less [where 'a = nat, of dst] by (simp add: unat_sub_if' word_le_nat_alt)
  then show ?thesis using False assms by (simp add: word_le_nat_alt)
qed

lemma memset_words_in:
  assumes "unat dst + n \<le> 2 ^ 32"
  shows "memset_words dst v n m a = (if unat dst \<le> unat a \<and> unat a < unat dst + n then v else m a)"
  using unat_diff_less [OF assms] by (simp add: memset_words_def)

lemma release_pages:
  assumes "palloc_ok s" "region_ok s j r"
  obtains b where "palloc_free_multiple (pg s j) (ext r) s =
      Some (s\<lparr>kernel_pool := kernel_pool s\<lparr>used_map := b\<rparr>, mem := memset_words (pg s j) 0xcccccccc (4096 * ext r) (mem s)\<rparr>)"
    "palloc_ok (s\<lparr>kernel_pool := kernel_pool s\<lparr>used_map := b\<rparr>, mem := memset_words (pg s j) 0xcccccccc (4096 * ext r) (mem s)\<rparr>)"
    "bit_cnt b = pages s" "\<And>k. k < pages s \<Longrightarrow> bits_of b ! k \<longleftrightarrow> used s k \<and> \<not> (j \<le> k \<and> k < j + ext r)"
proof -
  have pk: "pool_ok (kernel_pool s)" "bitmap_ok (used_map (kernel_pool s))" using assms(1) by (simp_all add: palloc_ok_def pool_ok_def)
  have le: "j + ext r \<le> pages s" using region_used(2) [OF assms(2), of "ext r - 1"] region_start(2) [OF assms(2)] by simp
  obtain b where b: "bitmap_set_multiple (used_map (kernel_pool s)) j (ext r) False = Some b" "bitmap_ok b" "bit_cnt b = pages s"
    "bits_of b = fill j (ext r) False (bits_of (used_map (kernel_pool s)))"
    using bitmap_set_multiple_eq [OF pk(2) le, of False] by blast
  show thesis
  proof (rule that)
    show "palloc_free_multiple (pg s j) (ext r) s =
      Some (s\<lparr>kernel_pool := kernel_pool s\<lparr>used_map := b\<rparr>, mem := memset_words (pg s j) 0xcccccccc (4096 * ext r) (mem s)\<rparr>)"
      using free_multiple_eq [OF assms(1) region_start(2) [OF assms(2)], of j False] le b(1) region_used(1) [OF assms(2)]
      by (simp add: the_pool_def set_pool_def PGSIZE_def)
    show "palloc_ok (s\<lparr>kernel_pool := kernel_pool s\<lparr>used_map := b\<rparr>, mem := memset_words (pg s j) 0xcccccccc (4096 * ext r) (mem s)\<rparr>)"
      using palloc_ok_set_pool [OF assms(1) b(2), of False] b(3) by (simp add: the_pool_def set_pool_def)
    show "bits_of b ! k \<longleftrightarrow> used s k \<and> \<not> (j \<le> k \<and> k < j + ext r)" if "k < pages s" for k
      using b(4) that le by (auto simp: nth_fill)
  qed (rule b(3))
qed

lemma unlink_blocks:
  assumes "palloc_ok s" "j < pages s" "header s j (desc_ptr s i) c" "deref_desc s (desc_ptr s i) = Some i" "descs s = desc_table (descs_at s) L" "i < 7"
    "is_list (free_heap s) (lst s i) xs" "distinct ks" "\<And>k. k \<in> set ks \<Longrightarrow> k < bpa i \<and> blk s j i k \<in> set xs"
  shows "\<exists>h. fold_opt (unlink_block (pg s j)) ks s = Some (s\<lparr>free_heap := h\<rparr>) \<and>
    is_list h (lst s i) (filter (\<lambda>x. x \<notin> blk s j i ` set ks) xs) \<and> agree (set (nodes (lst s i) xs)) (free_heap s) h"
  using assms
proof (induction ks arbitrary: s xs)
  case Nil
  then show ?case by (auto simp: agree_def intro!: exI [of _ "free_heap s"])
next
  case (Cons k ks)
  note pre = Cons.prems
  have k: "k < bpa i" "blk s j i k \<in> set xs" using pre(9) [of k] by simp_all
  obtain b where b: "arena_to_block (pg s j) k s = Some b" "unat b = blk s j i k"
    using arena_to_block_eq [OF pre(1-6) k(1)] by blast
  obtain as bs where xs: "xs = as @ blk s j i k # bs" using k(2) by (auto dest: split_list)
  obtain h where h: "list_remove (free_heap s) (blk s j i k) = Some (h, at (lst s i) bs)" "is_list h (lst s i) (as @ bs)"
    "agree (set (nodes (lst s i) (as @ bs))) (free_heap s) h"
    using list_remove_spec [OF pre(7) [unfolded xs]] by blast
  let ?s = "s\<lparr>free_heap := h\<rparr>"
  have step: "unlink_block (pg s j) k s = Some ?s" using b h(1) by (simp add: unlink_block_def)
  have dist: "distinct xs" using is_list_ends(8) [OF pre(7)] .
  have ne: "blk s j i k' \<noteq> blk s j i k" if "k' \<in> set ks" for k'
    using blk_inj(2) [OF pre(6) _ pre(6) k(1), of k' s j j] pre(8,9) that by auto
  have "\<exists>h'. fold_opt (unlink_block (pg ?s j)) ks ?s = Some (?s\<lparr>free_heap := h'\<rparr>) \<and>
     is_list h' (lst ?s i) (filter (\<lambda>x. x \<notin> blk ?s j i ` set ks) (as @ bs)) \<and> agree (set (nodes (lst ?s i) (as @ bs))) (free_heap ?s) h'"
    by (rule Cons.IH [of ?s]) (use pre h(2) ne xs in auto)
  then obtain h' where h': "fold_opt (unlink_block (pg s j)) ks ?s = Some (s\<lparr>free_heap := h'\<rparr>)"
    "is_list h' (lst s i) (filter (\<lambda>x. x \<notin> blk s j i ` set ks) (as @ bs))" "agree (set (nodes (lst s i) (as @ bs))) h h'" by auto
  have "filter (\<lambda>x. x \<notin> blk s j i ` set ks) (as @ bs) = filter (\<lambda>x. x \<notin> blk s j i ` set (k # ks)) xs"
    using dist by (auto simp: xs intro!: arg_cong2 [where f = append] filter_cong)
  moreover have "agree (set (nodes (lst s i) xs)) (free_heap s) h'"
    using h(3) h'(3) by (auto simp: agree_def nodes_def xs)
  ultimately show ?case using h' step by auto
qed

lemma block_memset:
  assumes "palloc_ok s" "j < pages s" "i < 7" "k < bpa i" "unat p = blk s j i k"
  shows "j' < pages s \<Longrightarrow> unat y < 4096 \<Longrightarrow> j' \<noteq> j \<or> unat y < 12 \<Longrightarrow> memset_words p v (bsz i) m (pg s j' + y) = m (pg s j' + y)"
    "unat x < unat p \<or> unat p + bsz i \<le> unat x \<Longrightarrow> memset_words p v (bsz i) m x = m x"
proof -
  have le: "unat p + bsz i \<le> paddr s j + 4096" "paddr s j + 4096 \<le> 2 ^ 32" "paddr s j + 12 \<le> unat p"
    using bpa_fits(3) [OF assms(3,4)] unat_in_page(2) [OF assms(1,2), of 0] assms(5) by (simp_all add: blk_def)
  then have in_p: "memset_words p v (bsz i) m x = (if unat p \<le> unat x \<and> unat x < unat p + bsz i then v else m x)" for x
    by (intro memset_words_in) simp
  show "unat x < unat p \<or> unat p + bsz i \<le> unat x \<Longrightarrow> memset_words p v (bsz i) m x = m x" by (auto simp: in_p)
  assume *: "j' < pages s" "unat y < 4096" "j' \<noteq> j \<or> unat y < 12"
  have "unat (pg s j' + y) = paddr s j' + unat y" using unat_in_page(1) [OF assms(1) *(1,2)] by simp
  moreover have "j' < j \<or> j < j' \<or> j' = j \<and> unat y < 12" using *(3) by auto
  ultimately show "memset_words p v (bsz i) m (pg s j' + y) = m (pg s j' + y)" using *(2) le by (auto simp: in_p paddr_def)
qed

lemma card_unused:
  assumes "U \<subseteq> {..<bpa i}" "k \<in> U"
  shows "bpa i - card (U - {k}) = Suc (bpa i - card U)" "bpa i \<le> bpa i - card (U - {k}) \<longleftrightarrow> U = {k}"
proof -
  have fin: "finite U" using assms(1) finite_subset by blast
  have c: "card U = Suc (card (U - {k}))" using card.remove [OF fin assms(2)] .
  moreover have "card U \<le> bpa i" using card_mono [OF _ assms(1)] by simp
  ultimately show "bpa i - card (U - {k}) = Suc (bpa i - card U)" by simp
  have "card (U - {k}) = 0 \<longleftrightarrow> U - {k} = {}" using fin by (intro card_0_eq) simp
  then have "card (U - {k}) = 0 \<longleftrightarrow> U = {k}" using assms(2) by auto
  then show "bpa i \<le> bpa i - card (U - {k}) \<longleftrightarrow> U = {k}" using c \<open>card U \<le> bpa i\<close> by auto
qed

lemma give_block:
  assumes "core s {} R X" "R j = Some (Arena i U)" "k \<in> U" "unat p = blk s j i k"
  obtains h s' where "list_push_front (free_heap s) (lst s i) (unat p) = Some h"
    "s' = (let s = s\<lparr>mem := memset_words p 0xcccccccc (bsz i) (mem s), descs := desc_table (descs_at s) {i}, free_heap := h\<rparr>
           in set_free_cnt (pg s j) (free_cnt s (pg s j) + 1) s)"
    "core s' {i} (R(j \<mapsto> Arena i (U - {k}))) (X(i := unat p # X i))" "same_place s s'"
    "unat (free_cnt s' (pg s j)) = bpa i - card (U - {k})"
    "\<forall>x. (\<forall>y. unat y < 12 \<longrightarrow> x \<noteq> pg s j + y) \<longrightarrow> unat x < unat p \<or> unat p + bsz i \<le> unat x \<longrightarrow> mem s' x = mem s x"
proof -
  note r = coreD(5) [OF assms(1,2)] and ok = coreD(1) [OF assms(1)]
  have j: "j < pages s" "i < 7" "U \<subseteq> {..<bpa i}" "k < bpa i" "header s j (desc_ptr s i) (bpa i - card U)" using r assms(3) by auto
  have notin: "unat p \<notin> set (nodes (lst s i') (X i'))" if "i' < 7" for i'
    unfolding assms(4) by (rule blk_not_node [OF assms(1) j(2,4) that]) (use assms(2,3) in simp)
  have "unat p \<noteq> 0" using assms(4) by (simp add: blk_def)
  from list_push_front_spec [OF coreD(7) [OF assms(1) j(2)] this notin [OF j(2)]]
  obtain h where h: "list_push_front (free_heap s) (lst s i) (unat p) = Some h" "is_list h (lst s i) (unat p # X i)"
    "agree (insert (unat p) (set (nodes (lst s i) (X i)))) (free_heap s) h" by blast
  define s1 where "s1 = s\<lparr>mem := memset_words p 0xcccccccc (bsz i) (mem s), descs := desc_table (descs_at s) {i}, free_heap := h\<rparr>"
  have s1: "palloc_ok s1" "kernel_pool s1 = kernel_pool s" "descs s1 = desc_table (descs_at s) {i}" "descs_at s1 = descs_at s" "free_heap s1 = h"
    "desc_ptr s1 = desc_ptr s"
    using ok by (simp_all add: s1_def desc_ptr_def fun_eq_iff)
  note ms = block_memset [OF ok j(1,2,4) assms(4)]
  have word: "mem s1 (pg s j' + y) = mem s (pg s j' + y)" if "j' < pages s" "unat y < 12" for j' y
    using ms(1) [of j' y] that by (simp add: s1_def)
  have "header s1 j (desc_ptr s i) (bpa i - card U)"
    using j(1,5) word [of j 0] word [of j 4] word [of j 8] by (simp add: header_def s1)
  then have hdr: "header (set_free_cnt (pg s j) (of_nat (bpa i - card (U - {k}))) s1) j (desc_ptr s i) (bpa i - card (U - {k}))"
    using set_free_cnt_mem(1) [of s1 j "desc_ptr s i"] s1 j(1) by simp
  have fc: "free_cnt s1 (pg s j) + 1 = of_nat (bpa i - card (U - {k}))"
    using \<open>header s1 j (desc_ptr s i) (bpa i - card U)\<close> card_unused(1) [OF j(3) assms(3)] by (simp add: header_def free_cnt_def s1 add.commute)
  define s' where "s' = set_free_cnt (pg s j) (of_nat (bpa i - card (U - {k}))) s1"
  have mem': "mem s' (pg s j' + y) = mem s (pg s j' + y)" if "j' < pages s" "unat y < 12" "j' \<noteq> j" for j' y
    using set_free_cnt_mem(2) [of s1 j j' y] word [of j' y] that j(1) s1 by (simp add: s'_def)
  have sets: "insert (blk s j i k) (free_blocks s R i) = free_blocks s (R(j := Some (Arena i (U - {k})))) i"
    using assms(2,3) j(4) by (auto simp: free_blocks_upd free_blocks_at [of s R i j])
  have other: "free_blocks s R i' = free_blocks s (R(j := Some (Arena i (U - {k})))) i'" if "i' \<noteq> i" for i'
    using assms(2) that by (simp add: free_blocks_upd free_blocks_at [of s R i' j])
  show thesis
  proof (rule that [OF h(1)])
    show "s' = (let s = s\<lparr>mem := memset_words p 0xcccccccc (bsz i) (mem s), descs := desc_table (descs_at s) {i}, free_heap := h\<rparr>
           in set_free_cnt (pg s j) (free_cnt s (pg s j) + 1) s)"
      using fc s1(2) by (simp add: s'_def s1_def [symmetric] Let_def)
    show "core s' {i} (R(j := Some (Arena i (U - {k})))) (X(i := unat p # X i))"
    proof (rule core_update [OF assms(1), of s' "used_map (kernel_pool s)"])
      show "mem s' (pg s j' + ofs) = mem s (pg s j' + ofs)" if "R j' = Some r'" "j' \<noteq> j" "ofs < 12" for j' r' ofs
        using mem' [of j' ofs] region_start(1) [OF coreD(5) [OF assms(1) that(1)]] that by (simp add: word_less_nat_alt)
      show "region_ok s' j r'" if "Some (Arena i (U - {k})) = Some r'" for r'
        using hdr r j that by (auto simp: s'_def s1)
      show "j + ext r' \<le> j' \<or> j' + ext r'' \<le> j" if "Some (Arena i (U - {k})) = Some r'" "R j' = Some r''" "j' \<noteq> j" for r' j' r''
        using coreD(6) [OF assms(1,2) that(2)] that by auto
      show "is_list (free_heap s') (lst s i') ((X(i := unat p # X i)) i')" if "i' < 7" for i'
      proof -
        have "is_list h (lst s i') ((X(i := unat p # X i)) i')"
          by (rule lists_update [OF assms(1) j(2) h(2), of "{unat p}"]) (use h(3) notin that in auto)
        then show ?thesis by (simp add: s'_def s1)
      qed
      show "set ((X(i := unat p # X i)) i') = free_blocks s (R(j := Some (Arena i (U - {k})))) i'" if "i' < 7" for i'
        using coreD(8) [OF assms(1) that] sets other [of i'] assms(4) by (cases "i' = i") simp_all
    qed (simp_all add: s'_def s1)
    show "same_place s s'" by (simp add: same_place_def s'_def s1)
    have "bpa i - card (U - {k}) < 2 ^ 32" using bpa_fits(2) [OF j(2)] by simp
    then show "unat (free_cnt s' (pg s j)) = bpa i - card (U - {k})"
      by (simp add: s'_def free_cnt_def set_free_cnt_def unat32_of_nat)
    have "mem s' x = mem s x" if "\<forall>y. unat y < 12 \<longrightarrow> x \<noteq> pg s j + y" "unat x < unat p \<or> unat p + bsz i \<le> unat x" for x
      using ms(2) [OF that(2)] that(1) [rule_format, of 8] by (simp add: s'_def set_free_cnt_def s1_def)
    then show "\<forall>x. (\<forall>y. unat y < 12 \<longrightarrow> x \<noteq> pg s j + y) \<longrightarrow> unat x < unat p \<or> unat p + bsz i \<le> unat x \<longrightarrow> mem s' x = mem s x" by blast
  qed
qed

lemma block_not_header:
  assumes "core s L R X" "R j = Some r" "(q, m) \<in> blocks s R" "q \<le> unat x" "unat x < q + m" "unat y < 12"
  shows "x \<noteq> pg s j + y"
proof -
  obtain j0 r0 where R: "R j0 = Some r0" "(q, m) \<in> region_blocks s j0 r0" using assms(3) by (auto simp: blocks_iff)
  obtain j' z where z: "x = pg s j' + z" "unat z < 4096" "j0 \<le> j'" "j' < j0 + ext r0" "j' < pages s" "j' = j0 \<Longrightarrow> 12 \<le> unat z"
    using block_word_page [OF assms(1) R assms(4,5)] by metis
  note r = coreD(5) [OF assms(1,2)]
  have "j' = j \<Longrightarrow> j0 = j" using coreD(6) [OF assms(1) R(1) assms(2)] region_start(2) [OF r] z(3,4) by fastforce
  then show ?thesis
    using page_words_apart [OF coreD(1) [OF assms(1)] z(5) region_start(1) [OF r] z(2), of y] z(1,6) assms(6) by auto
qed

lemma block_not_in_region:
  assumes "core s L R X" "R j = Some r" "(q, m) \<in> blocks s (R(j := None))" "q \<le> unat x" "unat x < q + m"
  shows "unat x < paddr s j \<or> paddr s (j + ext r) \<le> unat x"
proof -
  obtain j0 r0 where R: "j0 \<noteq> j" "R j0 = Some r0" "(q, m) \<in> region_blocks s j0 r0" using assms(3) by (auto simp: blocks_iff split: if_splits)
  note b = region_block_bounds [OF coreD(5) [OF assms(1) R(2)] R(3)]
  have "j0 + ext r0 \<le> j \<or> j + ext r \<le> j0" using coreD(6) [OF assms(1) R(2) assms(2)] R(1) by auto
  then have "paddr s (j0 + ext r0) \<le> paddr s j \<or> paddr s (j + ext r) \<le> paddr s j0" by (auto simp: paddr_def)
  then show ?thesis using b(1,2) assms(4,5) by linarith
qed

lemma release_region:
  assumes "core s L R X" "R j = Some r" "\<And>i. i < 7 \<Longrightarrow> is_list h (lst s i) (X' i)"
    "\<And>i. i < 7 \<Longrightarrow> set (X' i) = free_blocks s (R(j := None)) i"
  obtains s' where "palloc_free_multiple (pg s j) (ext r) (s\<lparr>free_heap := h\<rparr>) = Some s'" "core s' L (R(j := None)) X'" "same_place s s'"
    "\<forall>x. unat x < paddr s j \<or> paddr s (j + ext r) \<le> unat x \<longrightarrow> mem s' x = mem s x"
proof -
  note r = coreD(5) [OF assms(1,2)] and ok = coreD(1) [OF assms(1)]
  note st = region_start [OF r]
  let ?s = "s\<lparr>free_heap := h\<rparr>"
  let ?m = "memset_words (pg s j) 0xcccccccc (4096 * ext r) (mem s)"
  obtain b where b: "palloc_free_multiple (pg s j) (ext r) ?s = Some (?s\<lparr>kernel_pool := kernel_pool s\<lparr>used_map := b\<rparr>, mem := ?m\<rparr>)"
    "palloc_ok (?s\<lparr>kernel_pool := kernel_pool s\<lparr>used_map := b\<rparr>, mem := ?m\<rparr>)"
    "bit_cnt b = pages s" "\<And>k. k < pages s \<Longrightarrow> bits_of b ! k \<longleftrightarrow> used s k \<and> \<not> (j \<le> k \<and> k < j + ext r)"
    using release_pages [of ?s j r] r ok by auto
  have last: "j + (ext r - 1) < pages s" using region_used(2) [OF r, of "ext r - 1"] st(2) by simp
  have "paddr s (j + (ext r - 1)) + 4096 \<le> 2 ^ 32" using unat_in_page(2) [OF ok last, of 0] by simp
  moreover have "paddr s (j + (ext r - 1)) + 4096 = paddr s j + 4096 * ext r" using st(2) by (cases "ext r") (simp_all add: paddr_def)
  ultimately have m: "?m x = (if paddr s j \<le> unat x \<and> unat x < paddr s j + 4096 * ext r then 0xcccccccc else mem s x)" for x
    using memset_words_in [of "pg s j" "4096 * ext r"] pg_aligned(2) [OF ok st(1)] by simp
  show thesis
  proof (rule that [OF b(1)])
    show "core (?s\<lparr>kernel_pool := kernel_pool s\<lparr>used_map := b\<rparr>, mem := ?m\<rparr>) L (R(j := None)) X'"
    proof (rule core_update [OF assms(1) b(2) _ b(3)])
      fix j' r' k
      assume R: "R j' = Some r'" "j' \<noteq> j"
      have apart: "j' + ext r' \<le> j \<or> j + ext r \<le> j'" using coreD(6) [OF assms(1) R(1) assms(2) R(2)] .
      show "bits_of b ! (j' + k) = used s (j' + k)" if "k < ext r'"
        using b(4) [of "j' + k"] region_used(2) [OF coreD(5) [OF assms(1) R(1)] that] apart that by auto
      fix ofs :: "32 word"
      assume "ofs < 12"
      then have "unat ofs < 12" by (simp add: word_less_nat_alt)
      then have "unat (pg s j' + ofs) = paddr s j' + unat ofs"
        using unat_in_page(1) [OF ok region_start(1) [OF coreD(5) [OF assms(1) R(1)]], of "unat ofs"] by simp
      then show "mem (?s\<lparr>kernel_pool := kernel_pool s\<lparr>used_map := b\<rparr>, mem := ?m\<rparr>) (pg s j' + ofs) = mem s (pg s j' + ofs)"
        using apart region_start(2) [OF coreD(5) [OF assms(1) R(1)]] \<open>unat ofs < 12\<close> by (auto simp: m paddr_def)
    qed (use assms(3,4) coreD(2) [OF assms(1)] in simp_all)
    show "same_place s (?s\<lparr>kernel_pool := kernel_pool s\<lparr>used_map := b\<rparr>, mem := ?m\<rparr>)" using b(3) by (simp add: same_place_def)
    show "\<forall>x. unat x < paddr s j \<or> paddr s (j + ext r) \<le> unat x \<longrightarrow> mem (?s\<lparr>kernel_pool := kernel_pool s\<lparr>used_map := b\<rparr>, mem := ?m\<rparr>) x = mem s x"
      by (auto simp: m paddr_def)
  qed
qed

lemma free_arena_unfold:
  assumes "core s {} R X" "R j = Some (Arena i U)" "k \<in> U" "unat p = blk s j i k"
    "list_push_front (free_heap s) (lst s i) (unat p) = Some h"
    "s' = (let s = s\<lparr>mem := memset_words p 0xcccccccc (bsz i) (mem s), descs := desc_table (descs_at s) {i}, free_heap := h\<rparr>
           in set_free_cnt (pg s j) (free_cnt s (pg s j) + 1) s)"
  shows "free p s = do {
     s \<leftarrow> (if unat (free_cnt s' (pg s j)) \<ge> bpa i
       then do {
         ASSERT (unat (free_cnt s' (pg s j)) = bpa i);
         s2 \<leftarrow> fold_opt (unlink_block (pg s j)) [0..<bpa i] s';
         palloc_free_page (pg s j) s2 }
       else Some s');
     unlock_desc i s }"
proof -
  note r = coreD(5) [OF assms(1,2)] and ok = coreD(1) [OF assms(1)]
  have j: "i < 7" "k < bpa i" "p \<noteq> 0" using r assms(3,4) by (auto simp: blk_def)
  note d = deref_desc_ptr [OF assms(1) j(1)] and ds = coreD(2) [OF assms(1)]
  note b = block_to_arena_eq [OF ok r d ds j(2) assms(4)]
  let ?s1 = "s\<lparr>mem := memset_words p 0xcccccccc (bsz i) (mem s)\<rparr>"
  have lk: "lock_desc i ?s1 = Some (?s1\<lparr>descs := desc_table (descs_at s) {i}\<rparr>)"
    using ds desc_table_held(1) [OF j(1), of "descs_at s" "{}"] j(1) by (simp add: lock_desc_def)
  have ds': "descs s' = desc_table (descs_at s) {i}" by (simp add: assms(6) Let_def)
  let ?s2 = "?s1\<lparr>descs := desc_table (descs_at s) {i}, free_heap := h\<rparr>"
  have s': "s' = set_free_cnt (pg s j) (free_cnt ?s2 (pg s j) + 1) ?s2" by (simp add: assms(6) Let_def)
  show ?thesis
    unfolding free_def using b d ds j lk assms(5) ds' s' by (simp add: lst_def Let_def cong: if_cong)
qed

lemma free_small:
  assumes "core s {} R X" "R j = Some (Arena i U)" "k \<in> U" "unat p = blk s j i k"
  obtains s' X' where "free p s = Some s'" "core s' {} (R(j := (if U = {k} then None else Some (Arena i (U - {k}))))) X'" "same_place s s'"
    "\<forall>x. (\<forall>y. unat y < 12 \<longrightarrow> x \<noteq> pg s j + y) \<longrightarrow> unat x < unat p \<or> unat p + bsz i \<le> unat x \<longrightarrow>
       (U = {k} \<longrightarrow> unat x < paddr s j \<or> paddr s (Suc j) \<le> unat x) \<longrightarrow> mem s' x = mem s x"
proof -
  note r = coreD(5) [OF assms(1,2)]
  have j: "j < pages s" "i < 7" "U \<subseteq> {..<bpa i}" using r by auto
  note cu = card_unused [OF j(3) assms(3)]
  obtain h s1 where g: "list_push_front (free_heap s) (lst s i) (unat p) = Some h"
    "s1 = (let s = s\<lparr>mem := memset_words p 0xcccccccc (bsz i) (mem s), descs := desc_table (descs_at s) {i}, free_heap := h\<rparr>
           in set_free_cnt (pg s j) (free_cnt s (pg s j) + 1) s)"
    "core s1 {i} (R(j \<mapsto> Arena i (U - {k}))) (X(i := unat p # X i))" "same_place s s1"
    "unat (free_cnt s1 (pg s j)) = bpa i - card (U - {k})"
    "\<forall>x. (\<forall>y. unat y < 12 \<longrightarrow> x \<noteq> pg s j + y) \<longrightarrow> unat x < unat p \<or> unat p + bsz i \<le> unat x \<longrightarrow> mem s1 x = mem s x"
    by (rule give_block [OF assms])
  note unf = free_arena_unfold [OF assms g(1,2)]
  have pl: "pg s1 = pg s" "pages s1 = pages s" "paddr s1 = paddr s" "descs_at s1 = descs_at s"
    using g(4) by (simp_all add: same_place_def pool_page_def paddr_def fun_eq_iff)
  show thesis
  proof (cases "U = {k}")
    case False
    let ?s' = "s1\<lparr>descs := desc_table (descs_at s1) {}\<rparr>"
    have "free p s = Some ?s'" using unf g(5) False cu(2) unlock_desc_eq [OF g(3) j(2)] by simp
    moreover have "core ?s' {} (R(j \<mapsto> Arena i (U - {k}))) (X(i := unat p # X i))" using core_descs [OF g(3)] by simp
    moreover have "same_place s ?s'" using g(4) by (simp add: same_place_def)
    ultimately show thesis using that g(6) False by simp
  next
    case True
    let ?R = "R(j \<mapsto> Arena i {})" and ?X = "X(i := unat p # X i)"
    have c: "core s1 {i} ?R ?X" using g(3) True by simp
    have hd1: "header s1 j (desc_ptr s1 i) (bpa i)" using coreD(5) [OF c, of j "Arena i {}"] by simp
    have fb: "free_blocks s1 ?R i = blk s1 j i ` {..<bpa i} \<union> (\<Union>j'\<in>- {j}. arena_free s1 j' (R j') i)" by (auto simp: free_blocks_upd)
    obtain h2 where h2: "fold_opt (unlink_block (pg s1 j)) [0..<bpa i] s1 = Some (s1\<lparr>free_heap := h2\<rparr>)"
      "is_list h2 (lst s1 i) (filter (\<lambda>x. x \<notin> blk s1 j i ` {..<bpa i}) (?X i))" "agree ({} \<union> set (nodes (lst s1 i) (?X i))) (free_heap s1) h2"
      using unlink_blocks [OF coreD(1) [OF c] _ hd1 deref_desc_ptr(1) [OF c j(2)] coreD(2) [OF c] j(2) coreD(7) [OF c j(2)], of "[0..<bpa i]"]
        j(1) coreD(8) [OF c j(2)] fb by (auto simp: pl atLeast0LessThan)
    define Y where "Y = ?X(i := filter (\<lambda>x. x \<notin> blk s1 j i ` {..<bpa i}) (?X i))"
    have lists: "is_list h2 (lst s1 i') (Y i')" if "i' < 7" for i'
      unfolding Y_def by (rule lists_update [OF c j(2) h2(2,3) _ that]) simp
    have apart: "blk s1 j i ` {..<bpa i} \<inter> (\<Union>j'\<in>- {j}. arena_free s1 j' (R j') i) = {}"
      using arena_free_apart [OF c j(2), of _ j] by auto
    have sets: "set (Y i') = free_blocks s1 (?R(j := None)) i'" if "i' < 7" for i'
    proof (cases "i' = i")
      case True
      have "set (Y i) = set (?X i) - blk s1 j i ` {..<bpa i}" unfolding Y_def fun_upd_same by auto
      then have "set (Y i) = free_blocks s1 ?R i - blk s1 j i ` {..<bpa i}" unfolding coreD(8) [OF c j(2)] .
      then show ?thesis using True fb apart by (auto simp: free_blocks_upd)
    next
      case False
      then show ?thesis using coreD(8) [OF c that] by (simp add: Y_def free_blocks_upd)
    qed
    obtain s2 where s2: "palloc_free_multiple (pg s1 j) (ext (Arena i {})) (s1\<lparr>free_heap := h2\<rparr>) = Some s2" "core s2 {i} (?R(j := None)) Y" "same_place s1 s2"
      "\<forall>x. unat x < paddr s1 j \<or> paddr s1 (j + ext (Arena i {})) \<le> unat x \<longrightarrow> mem s2 x = mem s1 x"
      by (rule release_region [OF c _ lists sets, of "Arena i {}"]) simp_all
    let ?s' = "s2\<lparr>descs := desc_table (descs_at s2) {}\<rparr>"
    have "unlock_desc i s2 = Some ?s'" using unlock_desc_eq [OF s2(2) j(2)] by simp
    then have "free p s = Some ?s'" using unf g(5) True h2(1) s2(1) by (simp add: palloc_free_page_def pl)
    moreover have "core ?s' {} (R(j := None)) Y" using core_descs [OF s2(2)] by simp
    moreover have "same_place s ?s'" using g(4) s2(3) by (simp add: same_place_def)
    ultimately show thesis using that g(6) s2(4) True by (simp add: pl)
  qed
qed

lemma free_big:
  assumes "core s {} R X" "R j = Some (Big c)" "unat p = paddr s j + 12"
  obtains s' where "free p s = Some s'" "core s' {} (R(j := None)) X" "same_place s s'"
    "\<forall>x. unat x < paddr s j \<or> paddr s (j + c) \<le> unat x \<longrightarrow> mem s' x = mem s x"
proof -
  note r = coreD(5) [OF assms(1,2)] and ok = coreD(1) [OF assms(1)]
  have j: "j < pages s" "header s j 0 c" "0 < c" "j + c \<le> pages s" using r by auto
  note b = in_page_arena [OF ok j(1) _ assms(3)]
  have "block_to_arena p s = Some (pg s j)"
    using b pg_aligned(1) [OF ok j(1)] j(2) by (simp add: block_to_arena_def magic_def arena_desc_def header_def sizeof_arena_def)
  moreover have "p \<noteq> 0" using assms(3) by auto
  moreover have "paddr s (j + (c - 1)) + 4096 \<le> 2 ^ 32" using unat_in_page(2) [OF ok, of "j + (c - 1)" 0] j(3,4) by simp
  then have "c < 2 ^ 32" by (simp add: paddr_def)
  then have "unat (free_cnt s (pg s j)) = c" using j(2) by (simp add: free_cnt_def header_def unat32_of_nat)
  ultimately have f: "free p s = palloc_free_multiple (pg s j) c s"
    using j(2) by (simp add: free_def arena_desc_def header_def)
  have sets: "set (X i) = free_blocks s (R(j := None)) i" if "i < 7" for i
    using coreD(8) [OF assms(1) that] assms(2) free_blocks_at [of s R i j] by (simp add: free_blocks_upd)
  obtain s' where s': "palloc_free_multiple (pg s j) (ext (Big c)) (s\<lparr>free_heap := free_heap s\<rparr>) = Some s'" "core s' {} (R(j := None)) X" "same_place s s'"
    "\<forall>x. unat x < paddr s j \<or> paddr s (j + ext (Big c)) \<le> unat x \<longrightarrow> mem s' x = mem s x"
    by (rule release_region [OF assms(1,2) coreD(7) [OF assms(1)] sets])
  then show thesis using that f by simp
qed

lemma region_blocks_apart:
  assumes "core s L R X" "R j = Some r" "(q, n) \<in> region_blocks s j r"
  shows "(q, n) \<notin> {x. \<exists>j' r'. j' \<noteq> j \<and> R j' = Some r' \<and> x \<in> region_blocks s j' r'}"
proof
  assume "(q, n) \<in> {x. \<exists>j' r'. j' \<noteq> j \<and> R j' = Some r' \<and> x \<in> region_blocks s j' r'}"
  then obtain j' r' where R: "j' \<noteq> j" "R j' = Some r'" "(q, n) \<in> region_blocks s j' r'" by blast
  have "j + ext r \<le> j' \<or> j' + ext r' \<le> j" using coreD(6) [OF assms(1,2) R(2)] R(1) by auto
  then have "paddr s (j + ext r) \<le> paddr s j' \<or> paddr s (j' + ext r') \<le> paddr s j" by (auto simp: paddr_def)
  then show False
    using region_block_bounds [OF coreD(5) [OF assms(1,2)] assms(3)] region_block_bounds [OF coreD(5) [OF assms(1) R(2)] R(3)] by linarith
qed

lemma blocks_remove:
  assumes "core s L R X"
  shows "R j = Some (Big c) \<Longrightarrow> blocks s (R(j := None)) = blocks s R - {(paddr s j + 12, 4096 * c - 12)}"
    "R j = Some (Arena i U) \<Longrightarrow> k \<in> U \<Longrightarrow>
      blocks s (R(j := (if U = {k} then None else Some (Arena i (U - {k}))))) = blocks s R - {(blk s j i k, bsz i)}"
proof -
  assume R: "R j = Some (Big c)"
  show "blocks s (R(j := None)) = blocks s R - {(paddr s j + 12, 4096 * c - 12)}"
    using region_blocks_apart [OF assms R, of "paddr s j + 12" "4096 * c - 12"] R by (auto simp: blocks_upd blocks_at [of s R j])
next
  assume R: "R j = Some (Arena i U)" "k \<in> U"
  have i: "i < 7" "U \<subseteq> {..<bpa i}" using coreD(5) [OF assms R(1)] by simp_all
  let ?f = "\<lambda>k. (blk s j i k, bsz i)" and ?O = "{x. \<exists>j' r'. j' \<noteq> j \<and> R j' = Some r' \<and> x \<in> region_blocks s j' r'}"
  have "inj_on ?f U" using inj_blk [OF i(1), of s j] i(2) by (auto simp: inj_on_def)
  then have "?f ` (U - {k}) = ?f ` U - {?f k}" using R(2) by (simp add: inj_on_image_set_diff [where C = U])
  moreover have "?f k \<notin> ?O" using region_blocks_apart [OF assms R(1)] R(2) by simp
  moreover have "blocks s (R(j := (if U = {k} then None else Some (Arena i (U - {k}))))) = ?f ` (U - {k}) \<union> ?O"
    by (auto simp: blocks_upd)
  moreover have "blocks s R = ?f ` U \<union> ?O" using R(1) by (simp add: blocks_at [of s R j])
  ultimately show "blocks s (R(j := (if U = {k} then None else Some (Arena i (U - {k}))))) = blocks s R - {(blk s j i k, bsz i)}" by auto
qed

lemma view_delete:
  assumes "core s {} R X" "block_map s R H" "H p = Some n" "blocks s' R' = blocks s R - {(unat p, n)}"
  shows "block_map s' R' (H(p := None))"
proof -
  have "m = n" if "(unat p, m) \<in> blocks s R" for m
  proof -
    have "H p = Some m" using assms(2) that by (simp add: block_map_def)
    then show ?thesis using assms(3) by simp
  qed
  then show ?thesis using assms(2,4) by (auto simp: block_map_def word_unat_eq_iff)
qed

lemma free_spec:
  assumes "heap_view s H" "H p = Some n"
  shows "\<exists>s'. free p s = Some s' \<and> heap_view s' (H(p := None)) \<and> (\<forall>q m. H q = Some m \<and> q \<noteq> p \<longrightarrow> kept s s' q m)"
proof -
  obtain R X where v: "core s {} R X" "\<And>j i. R j \<noteq> Some (Arena i {})" "block_map s R H"
    using assms(1) by (auto simp: heap_view_def block_map_def)
  have pn: "(unat p, n) \<in> blocks s R" using v(3) assms(2) by (simp add: block_map_def)
  have fin: ?thesis if "free p s = Some s'" "core s' {} R' X'" "\<And>j i. R' j \<noteq> Some (Arena i {})" "same_place s s'"
    "blocks s R' = blocks s R - {(unat p, n)}" "\<And>q m x. (q, m) \<in> blocks s R - {(unat p, n)} \<Longrightarrow> q \<le> unat x \<Longrightarrow> unat x < q + m \<Longrightarrow> mem s' x = mem s x"
    for s' R' X'
  proof -
    have "block_map s' R' (H(p := None))" by (rule view_delete [OF v(1,3) assms(2)]) (simp add: same_place_blocks [OF that(4)] that(5))
    then have "heap_view s' (H(p := None))" using that(2,3) unfolding heap_view_def block_map_def by blast
    moreover have "mem s' x = mem s x" if "H q = Some m" "q \<noteq> p" "unat q \<le> unat x" "unat x < unat q + m" for q m x
      using \<open>\<And>q m x. (q, m) \<in> blocks s R - {(unat p, n)} \<Longrightarrow> q \<le> unat x \<Longrightarrow> unat x < q + m \<Longrightarrow> mem s' x = mem s x\<close> [of "unat q" m x] that v(3)
      by (simp add: block_map_def word_unat_eq_iff)
    ultimately show ?thesis using that(1) unfolding kept_def by blast
  qed
  obtain j r where R: "R j = Some r" "(unat p, n) \<in> region_blocks s j r" using pn by (auto simp: blocks_iff)
  show ?thesis
  proof (cases r)
    case (Big c)
    then have b: "R j = Some (Big c)" "unat p = paddr s j + 12" "n = 4096 * c - 12" using R by simp_all
    obtain s' where f: "free p s = Some s'" "core s' {} (R(j := None)) X" "same_place s s'"
      "\<forall>x. unat x < paddr s j \<or> paddr s (j + c) \<le> unat x \<longrightarrow> mem s' x = mem s x" by (rule free_big [OF v(1) b(1,2)])
    have bl: "blocks s (R(j := None)) = blocks s R - {(unat p, n)}" using blocks_remove(1) [OF v(1) b(1)] b(2,3) by simp
    show ?thesis
    proof (rule fin [OF f(1,2) _ f(3) bl])
      show "(R(j := None)) j' \<noteq> Some (Arena i {})" for j' i using v(2) by simp
      show "mem s' x = mem s x" if "(q, m) \<in> blocks s R - {(unat p, n)}" "q \<le> unat x" "unat x < q + m" for q m x
        using block_not_in_region [OF v(1) b(1) _ that(2,3)] that(1) f(4) bl by auto
    qed
  next
    case (Arena i U)
    then obtain k where b: "R j = Some (Arena i U)" "k \<in> U" "unat p = blk s j i k" "n = bsz i" using R by auto
    let ?R = "R(j := (if U = {k} then None else Some (Arena i (U - {k}))))"
    obtain s' X' where f: "free p s = Some s'" "core s' {} ?R X'" "same_place s s'"
      "\<forall>x. (\<forall>y. unat y < 12 \<longrightarrow> x \<noteq> pg s j + y) \<longrightarrow> unat x < unat p \<or> unat p + bsz i \<le> unat x \<longrightarrow>
       (U = {k} \<longrightarrow> unat x < paddr s j \<or> paddr s (Suc j) \<le> unat x) \<longrightarrow> mem s' x = mem s x"
      by (rule free_small [OF v(1) b(1-3)])
    have bl: "blocks s ?R = blocks s R - {(unat p, n)}" using blocks_remove(2) [OF v(1) b(1,2)] b(3,4) by simp
    show ?thesis
    proof (rule fin [OF f(1,2) _ f(3) bl])
      show "?R j' \<noteq> Some (Arena i' {})" for j' i' using v(2) [of j' i'] b(2) by auto
      show "mem s' x = mem s x" if q: "(q, m) \<in> blocks s R - {(unat p, n)}" "q \<le> unat x" "unat x < q + m" for q m x
      proof -
        have "x \<noteq> pg s j + y" if "unat y < 12" for y using block_not_header [OF v(1) b(1) _ q(2,3) that] q(1) by simp
        moreover have "unat x < unat p \<or> unat p + bsz i \<le> unat x"
          using blocks_apart [OF v(1) _ pn, of q m] q b(4) by auto
        moreover have "unat x < paddr s j \<or> paddr s (Suc j) \<le> unat x" if "U = {k}"
          using block_not_in_region [OF v(1) b(1) _ q(2,3)] q(1) bl that by simp
        ultimately show ?thesis using f(4) by blast
      qed
    qed
  qed
qed

section \<open>Contents\<close>

definition byte_of :: "32 word \<Rightarrow> nat \<Rightarrow> 32 word" where
  "byte_of w j = take_bit 8 (drop_bit (8 * j) w)"

lemma byte_mask_eq:
  "byte_mask P = push_bit 0 (if P 0 then mask 8 else 0) OR push_bit 8 (if P 1 then mask 8 else 0) OR push_bit 16 (if P 2 then mask 8 else 0) OR
     push_bit 24 (if P 3 then mask 8 else 0)"
  unfolding byte_mask_def by (intro arg_cong2 [where f = "(OR)"]) (simp_all add: mask_eq_exp_minus_1 push_bit_eq_mult)

lemma bit_byte: "bit (push_bit k (if b then mask 8 else 0) :: 32 word) n \<longleftrightarrow> n < 32 \<and> b \<and> k \<le> n \<and> n < k + 8"
  by (cases b) (auto simp: bit_simps)

lemma bit_byte_mask:
  assumes "n < 32"
  shows "bit (byte_mask P) n \<longleftrightarrow> P (n div 8)"
proof -
  have b: "bit (byte_mask P) n \<longleftrightarrow> P 0 \<and> n < 8 \<or> P 1 \<and> 8 \<le> n \<and> n < 16 \<or> P 2 \<and> 16 \<le> n \<and> n < 24 \<or> P 3 \<and> 24 \<le> n"
    using assms unfolding byte_mask_eq bit_or_iff bit_byte by auto
  consider "n < 8" "n div 8 = 0" | "8 \<le> n" "n < 16" "n div 8 = 1" | "16 \<le> n" "n < 24" "n div 8 = 2" | "24 \<le> n" "n div 8 = 3"
  proof -
    have "n = 8 * (n div 8) + n mod 8" "n mod 8 < 8" "n div 8 < 4" using assms by (simp_all add: less_mult_imp_div_less)
    moreover from this(3) have "n div 8 = 0 \<or> n div 8 = 1 \<or> n div 8 = 2 \<or> n div 8 = 3" by arith
    ultimately show thesis using that by fastforce
  qed
  then show ?thesis by cases (simp_all add: b)
qed

lemma select_bytes_nth:
  assumes "j < 4"
  shows "byte_of (select_bytes P new old) j = byte_of (if P j then new else old) j"
proof (rule bit_eqI)
  fix n
  have "(8 * j + n) div 8 = j" if "n < 8" using that by simp
  then show "bit (byte_of (select_bytes P new old) j) n \<longleftrightarrow> bit (byte_of (if P j then new else old) j) n"
    using assms by (auto simp: byte_of_def select_bytes_def bit_simps bit_byte_mask)
qed

lemma select_bytes_none: "(\<And>j. j < 4 \<Longrightarrow> \<not> P j) \<Longrightarrow> select_bytes P new old = old"
  by (simp add: select_bytes_def byte_mask_def)

text \<open>Writing inside a block in use changes nothing else.\<close>

lemma view_write:
  assumes "heap_view s H" "H p = Some n" "\<And>x. unat x < unat p \<or> unat p + n \<le> unat x \<Longrightarrow> m x = mem s x"
  shows "heap_view (s\<lparr>mem := m\<rparr>) H" "H q = Some k \<Longrightarrow> q \<noteq> p \<Longrightarrow> kept s (s\<lparr>mem := m\<rparr>) q k"
proof -
  obtain R X where v: "core s {} R X" "\<And>j i. R j \<noteq> Some (Arena i {})" "block_map s R H"
    using assms(1) by (auto simp: heap_view_def block_map_def)
  have pn: "(unat p, n) \<in> blocks s R" using v(3) assms(2) by (simp add: block_map_def)
  have hdr: "m (pg s j + y) = mem s (pg s j + y)" if "R j = Some r" "unat y < 12" for j r y
    using block_not_header [OF v(1) that(1) pn _ _ that(2), of "pg s j + y"] assms(3) [of "pg s j + y"] by fastforce
  have "core (s\<lparr>mem := m\<rparr>) {} R X"
  proof -
    have "lst (s\<lparr>mem := m\<rparr>) = lst s" "free_blocks (s\<lparr>mem := m\<rparr>) = free_blocks s" by (simp_all add: free_blocks_def fun_eq_iff)
    moreover have "region_ok (s\<lparr>mem := m\<rparr>) j r" if "R j = Some r" for j r
      using coreD(5) [OF v(1) that] hdr [OF that, of 0] hdr [OF that, of 4] hdr [OF that, of 8] by (cases r) (auto simp: header_def)
    ultimately show ?thesis using v(1) unfolding core_def by simp
  qed
  moreover have "blocks (s\<lparr>mem := m\<rparr>) R = blocks s R" by (rule same_place_blocks) (simp add: same_place_def)
  ultimately show "heap_view (s\<lparr>mem := m\<rparr>) H" using v(2,3) unfolding heap_view_def block_map_def by (intro exI [of _ R] exI [of _ X]) simp
  assume q: "H q = Some k" "q \<noteq> p"
  then have "(unat q, k) \<in> blocks s R" using v(3) by (simp add: block_map_def)
  then have "unat p + n \<le> unat q \<or> unat q + k \<le> unat p" using blocks_apart [OF v(1) pn] q(2) by (auto simp: word_unat_eq_iff)
  then show "kept s (s\<lparr>mem := m\<rparr>) q k" using assms(3) by (auto simp: kept_def)
qed

lemma view_bound:
  assumes "heap_view s H" "H p = Some n"
  shows "unat p + n \<le> 2 ^ 32" "p \<noteq> 0"
proof -
  obtain R X where v: "core s {} R X" "block_map s R H" using assms(1) by (auto simp: heap_view_def block_map_def)
  have pn: "(unat p, n) \<in> blocks s R" using v(2) assms(2) by (simp add: block_map_def)
  then obtain j r where R: "R j = Some r" "(unat p, n) \<in> region_blocks s j r" by (auto simp: blocks_iff)
  note r = coreD(5) [OF v(1) R(1)]
  have "j + (ext r - 1) < pages s" using region_used(2) [OF r, of "ext r - 1"] region_start(2) [OF r] by simp
  then have "paddr s (j + (ext r - 1)) + 4096 \<le> 2 ^ 32" using unat_in_page(2) [OF coreD(1) [OF v(1)], of "j + (ext r - 1)" 0] by simp
  moreover have "paddr s (j + ext r) = paddr s (j + (ext r - 1)) + 4096" using region_start(2) [OF r] by (cases "ext r") (simp_all add: paddr_def)
  ultimately show "unat p + n \<le> 2 ^ 32" using region_block_bounds(2) [OF r R(2)] by simp
  show "p \<noteq> 0" using block_pos [OF v(1) pn] by auto
qed

lemma block_size_of_view:
  assumes "heap_view s H" "H p = Some n"
  shows "block_size_of p s = Some n"
proof -
  obtain R X where v: "core s {} R X" "block_map s R H" using assms(1) by (auto simp: heap_view_def block_map_def)
  have "(unat p, n) \<in> blocks s R" using v(2) assms(2) by (simp add: block_map_def)
  then obtain j r where R: "R j = Some r" "(unat p, n) \<in> region_blocks s j r" by (auto simp: blocks_iff)
  note r = coreD(5) [OF v(1) R(1)] and ok = coreD(1) [OF v(1)]
  show ?thesis
  proof (cases r)
    case (Arena i U)
    then obtain k where k: "k \<in> U" "unat p = blk s j i k" "n = bsz i" using R(2) by auto
    have i: "i < 7" "k < bpa i" "region_ok s j (Arena i U)" using r Arena k(1) by auto
    note b = block_to_arena_eq [OF ok i(3) deref_desc_ptr [OF v(1) i(1)] coreD(2) [OF v(1)] i(2) k(2)]
    show ?thesis using b deref_desc_ptr [OF v(1) i(1)] coreD(2) [OF v(1)] i(1) k(3) by (simp add: block_size_of_def)
  next
    case (Big c)
    then have b: "unat p = paddr s j + 12" "n = 4096 * c - 12" "j < pages s" "header s j 0 c" "0 < c" "j + c \<le> pages s" using R(2) r by auto
    note a = in_page_arena [OF ok b(3) _ b(1)]
    have "0 < paddr s j" using pg_aligned(1,2) [OF ok b(3)] by (metis neq0_conv unat_eq_zero)
    then have c: "4096 * c < 2 ^ 32" using view_bound(1) [OF assms] b(1,2,5) by simp
    have "unat (4096 * of_nat c :: 32 word) = 4096 * c" using c unat32_of_nat [of "4096 * c"] by simp
    moreover have "pg_ofs p = 12" using a(2) by (simp add: word_unat_eq_iff)
    ultimately have "unat (4096 * of_nat c - pg_ofs p :: 32 word) = n" using b(2,5) unat_sub [of "pg_ofs p" "4096 * of_nat c"] by (simp add: word_le_nat_alt)
    then show ?thesis
      using a pg_aligned(1) [OF ok b(3)] b(4)
      by (simp add: block_size_of_def block_to_arena_def magic_def arena_desc_def free_cnt_def header_def sizeof_arena_def PGSIZE_def)
  qed
qed

lemma unat_add_ofs:
  assumes "unat (p :: 32 word) + n \<le> 2 ^ 32" "unat ofs < n"
  shows "unat (p + ofs) = unat p + unat ofs"
  using assms by (simp add: unat_word_ariths)

lemma kept_trans: "kept s s1 q m \<Longrightarrow> kept s1 s2 q m \<Longrightarrow> kept s s2 q m"
  by (simp add: kept_def)

lemma kept_at: "kept s s' q m \<Longrightarrow> unat q + m \<le> 2 ^ 32 \<Longrightarrow> unat ofs < m \<Longrightarrow> mem s' (q + ofs) = mem s (q + ofs)"
  using unat_add_ofs [of q m ofs] by (simp add: kept_def)

lemma memset_bytes_frame:
  assumes "unat p + n \<le> 2 ^ 32" "sz \<le> n" "unat x < unat p \<or> unat p + n \<le> unat x"
  shows "memset_bytes p v sz m x = m x" "memcpy_bytes p src sz m x = m x"
proof -
  have "\<not> unat (x - p) < n" using unat_diff_less [OF assms(1), of x] assms(3) by auto
  then show "memset_bytes p v sz m x = m x" "memcpy_bytes p src sz m x = m x"
    using assms(2) by (auto simp: memset_bytes_def memcpy_bytes_def intro!: select_bytes_none)
qed

lemma calloc_zeroes:
  assumes "heap_view s H" "0 < a * b" "a * b + 4107 < 2 ^ 32"
  shows "\<exists>p s'. calloc a b s = Some (p, s') \<and> (if p = 0 then s' = s else \<exists>n\<ge>a * b. H p = None \<and> heap_view s' (H(p \<mapsto> n)) \<and>
    (\<forall>ofs j. j < 4 \<and> unat ofs + j < a * b \<longrightarrow> byte_of (mem s' (p + ofs)) j = 0) \<and> (\<forall>q m. H q = Some m \<longrightarrow> kept s s' q m))"
proof -
  have "u32 (a * b) = a * b" "a \<le> a * b" "b \<le> a * b" using assms(2,3) by (simp_all add: u32_id)
  then have sz: "u32 (a * b) = a * b" "\<not> (a * b < a \<or> a * b < b)" by linarith+
  have c: "calloc a b s = do { (p, s) \<leftarrow> malloc (a * b) s; Some (p, if p \<noteq> 0 then s\<lparr>mem := memset_bytes p 0 (a * b) (mem s)\<rparr> else s) }"
    unfolding calloc_def Let_def sz(1) by (rule if_not_P [OF sz(2)])
  obtain p s1 where m: "malloc (a * b) s = Some (p, s1)"
    "if p = 0 then s1 = s \<and> \<not> (\<exists>i. group_free (kernel_pool s) ((a * b + 4107) div 4096) i)
     else \<exists>n\<ge>a * b. H p = None \<and> heap_view s1 (H(p \<mapsto> n)) \<and>
       (\<forall>q m. H q = Some m \<longrightarrow> (unat p + n \<le> unat q \<or> unat q + m \<le> unat p) \<and> kept s s1 q m)"
    using malloc_spec [OF assms] by blast
  show ?thesis
  proof (cases "p = 0")
    case True
    then show ?thesis using m c by simp
  next
    case False
    then obtain n where n: "a * b \<le> n" "H p = None" "heap_view s1 (H(p \<mapsto> n))" "\<And>q m. H q = Some m \<Longrightarrow> kept s s1 q m" using m(2) by auto
    let ?s = "s1\<lparr>mem := memset_bytes p 0 (a * b) (mem s1)\<rparr>"
    have b: "unat p + n \<le> 2 ^ 32" using view_bound(1) [OF n(3), of p n] by simp
    note w = view_write [OF n(3), of p n "memset_bytes p 0 (a * b) (mem s1)"]
    have "heap_view ?s (H(p \<mapsto> n))" using w(1) memset_bytes_frame(1) [OF b n(1)] by simp
    moreover have "kept s ?s q m" if "H q = Some m" for q m
      using kept_trans [OF n(4) [OF that]] w(2) [of q m] memset_bytes_frame(1) [OF b n(1)] that n(2) by (metis fun_upd_apply option.distinct(1))
    moreover have "byte_of (mem ?s (p + ofs)) j = 0" if "j < 4" "unat ofs + j < a * b" for ofs j
      using select_bytes_nth [OF that(1), of "\<lambda>j. unat ofs + j < a * b" 0] that(2) by (simp add: memset_bytes_def byte_of_def)
    moreover have "calloc a b s = Some (p, ?s)" using m(1) False c by simp
    ultimately show ?thesis using n(1,2) False by auto
  qed
qed

section \<open>The interface of the heap\<close>

text \<open>What a client needs of a heap: blocks appear and disappear one at a time, and nobody else's block changes.\<close>

locale block_heap =
  fixes view :: "'s \<Rightarrow> (32 word \<rightharpoonup> nat) \<Rightarrow> bool" and alloc :: "nat \<Rightarrow> 's \<Rightarrow> (32 word \<times> 's) option"
    and release :: "32 word \<Rightarrow> 's \<Rightarrow> 's option" and same :: "'s \<Rightarrow> 's \<Rightarrow> 32 word \<Rightarrow> nat \<Rightarrow> bool" and limit :: nat
  assumes alloc_block: "view s H \<Longrightarrow> 0 < sz \<Longrightarrow> sz < limit \<Longrightarrow> \<exists>p s'. alloc sz s = Some (p, s') \<and>
        (if p = 0 then s' = s else \<exists>n\<ge>sz. H p = None \<and> view s' (H(p \<mapsto> n)) \<and> (\<forall>q m. H q = Some m \<longrightarrow> same s s' q m))"
    and release_block: "view s H \<Longrightarrow> H p = Some n \<Longrightarrow> \<exists>s'. release p s = Some s' \<and> view s' (H(p := None)) \<and>
        (\<forall>q m. H q = Some m \<and> q \<noteq> p \<longrightarrow> same s s' q m)"
    and same_refl: "same s s q m"
    and same_trans: "same s s1 q m \<Longrightarrow> same s1 s2 q m \<Longrightarrow> same s s2 q m"
begin

text \<open>A block that is allocated and released leaves the heap as it was.\<close>

lemma alloc_release:
  assumes "view s H" "0 < sz" "sz < limit" "alloc sz s = Some (p, s1)" "p \<noteq> 0"
  shows "\<exists>s2. release p s1 = Some s2 \<and> view s2 H \<and> (\<forall>q m. H q = Some m \<longrightarrow> same s s2 q m)"
proof -
  obtain n where n: "H p = None" "view s1 (H(p \<mapsto> n))" "\<And>q m. H q = Some m \<Longrightarrow> same s s1 q m"
    using alloc_block [OF assms(1-3)] assms(4,5) by auto
  obtain s2 where s2: "release p s1 = Some s2" "view s2 ((H(p \<mapsto> n))(p := None))" "\<And>q m. (H(p \<mapsto> n)) q = Some m \<Longrightarrow> q \<noteq> p \<Longrightarrow> same s1 s2 q m"
    using release_block [OF n(2), of p n] by auto
  have "(H(p \<mapsto> n))(p := None) = H" using n(1) by auto
  moreover have "same s s2 q m" if "H q = Some m" for q m
    using same_trans [OF n(3) [OF that] s2(3)] that n(1) by (metis fun_upd_apply option.distinct(1))
  ultimately show ?thesis using s2 by auto
qed

text \<open>Blocks handed out one after the other are different blocks, and the earlier ones survive.\<close>

lemma alloc_alloc:
  assumes "view s H" "0 < sz" "sz < limit" "alloc sz s = Some (p, s1)" "p \<noteq> 0" "0 < sz'" "sz' < limit" "alloc sz' s1 = Some (p', s2)" "p' \<noteq> 0"
  shows "p \<noteq> p' \<and> (\<exists>n n'. sz \<le> n \<and> sz' \<le> n' \<and> view s2 (H(p \<mapsto> n, p' \<mapsto> n')) \<and> same s1 s2 p n)"
proof -
  obtain n where n: "sz \<le> n" "view s1 (H(p \<mapsto> n))" using alloc_block [OF assms(1-3)] assms(4,5) by auto
  obtain n' where n': "sz' \<le> n'" "(H(p \<mapsto> n)) p' = None" "view s2 (H(p \<mapsto> n, p' \<mapsto> n'))" "\<And>q m. (H(p \<mapsto> n)) q = Some m \<Longrightarrow> same s1 s2 q m"
    using alloc_block [OF n(2) assms(6,7)] assms(8,9) by auto
  have "same s1 s2 p n" using n'(4) [of p n] by simp
  moreover have "p \<noteq> p'" using n'(2) by (auto split: if_splits)
  ultimately show ?thesis using n(1) n'(1,3) by blast
qed

end

interpretation kheap: block_heap heap_view malloc free kept "2 ^ 32 - 4107"
proof (unfold_locales, goal_cases)
  case (1 s H sz)
  then show ?case using malloc_spec [of s H sz] by fastforce
next
  case (2 s H p n)
  then show ?case using free_spec by blast
qed (simp_all add: kept_def)

section \<open>Properties\<close>

text \<open>
  C14: The kernel heap is a partial map from the addresses of its blocks to their sizes.  A request for at most
  \<open>2 ^ 32 - 4108\<close> bytes always returns.  It returns a null pointer, and changes nothing, only when the pool has no run of
  free pages for the request and a header.  Otherwise it adds one block that is at least as large as the request and
  overlaps no other block, and the contents of the other blocks do not change.
\<close>

theorem malloc_refines:
  assumes "heap_view s H" "0 < sz" "sz + 4107 < 2 ^ 32"
  shows "\<exists>p s'. malloc sz s = Some (p, s') \<and>
    (if p = 0 then s' = s \<and> \<not> (\<exists>i. group_free (kernel_pool s) ((sz + 4107) div 4096) i)
     else \<exists>n\<ge>sz. H p = None \<and> heap_view s' (H(p \<mapsto> n)) \<and>
       (\<forall>q m. H q = Some m \<longrightarrow> (unat p + n \<le> unat q \<or> unat q + m \<le> unat p) \<and> kept s s' q m))"
  by (rule malloc_spec [OF assms])

text \<open>An empty heap over a pool with three free pages.\<close>

definition empty_heap :: heap where
  "empty_heap = \<lparr>kernel_pool = kernel_pool small_pools, user_pool = user_pool small_pools, mem = mem small_pools,
     descs = [], descs_at = 0xc0010000, free_heap = \<lparr>prev_of = (\<lambda>_. 0), next_of = (\<lambda>_. 0), value_of = (\<lambda>_. 0)\<rparr>\<rparr>"

lemma empty_heap_view: "\<exists>s. malloc_init empty_heap = Some s \<and> heap_view s Map.empty \<and> kernel_pool s = kernel_pool small_pools"
proof -
  have "palloc_ok empty_heap" using small_pools_ok by (simp add: empty_heap_def palloc_ok_def)
  moreover have "descs_at empty_heap + 480 \<le> unat (base (kernel_pool empty_heap))" by (simp add: empty_heap_def small_pools_def)
  ultimately show ?thesis using malloc_init_view [of empty_heap] by (auto simp: empty_heap_def)
qed

lemma empty_heap_room: "kernel_pool s = kernel_pool small_pools \<Longrightarrow> group_free (kernel_pool s) 1 1"
  using small_pools_page [of 1] by (simp add: group_free_def the_pool_def) (simp add: small_pools_def)

lemma empty_heap_malloc:
  "\<exists>s p s' n. malloc_init empty_heap = Some s \<and> malloc 100 s = Some (p, s') \<and> p \<noteq> 0 \<and> heap_view s' [p \<mapsto> n]"
proof -
  obtain s where s: "malloc_init empty_heap = Some s" "heap_view s Map.empty" "kernel_pool s = kernel_pool small_pools" using empty_heap_view by blast
  then show ?thesis using malloc_spec [OF s(2), of 100] empty_heap_room [OF s(3)] by (auto split: if_splits)
qed

theorem malloc_refines_witness:
  "\<exists>s p s' n. malloc_init empty_heap = Some s \<and> malloc 100 s = Some (p, s') \<and> p \<noteq> 0 \<and> 100 \<le> n \<and> heap_view s' [p \<mapsto> n]"
proof -
  obtain s where s: "malloc_init empty_heap = Some s" "heap_view s Map.empty" "kernel_pool s = kernel_pool small_pools" using empty_heap_view by blast
  then show ?thesis using malloc_refines [OF s(2), of 100] empty_heap_room [OF s(3)] by (auto split: if_splits)
qed

text \<open>
  C15: \<open>free\<close> of a block in use never panics: it takes the block out of the map, returns the page of an arena whose last
  block it was and the pages of a big block, and leaves the contents of every other block as they were.
\<close>

theorem free_refines:
  assumes "heap_view s H" "H p = Some n"
  shows "\<exists>s'. free p s = Some s' \<and> heap_view s' (H(p := None)) \<and> (\<forall>q m. H q = Some m \<and> q \<noteq> p \<longrightarrow> kept s s' q m)"
  by (rule free_spec [OF assms])

theorem free_refines_witness:
  "\<exists>s p s' s''. malloc_init empty_heap = Some s \<and> malloc 100 s = Some (p, s') \<and> p \<noteq> 0 \<and> free p s' = Some s'' \<and> heap_view s'' Map.empty"
proof -
  obtain s p s' n where s: "malloc_init empty_heap = Some s" "malloc 100 s = Some (p, s')" "p \<noteq> 0" "heap_view s' [p \<mapsto> n]"
    using empty_heap_malloc by blast
  then show ?thesis using free_refines [of s' "[p \<mapsto> n]" p n] by auto
qed

text \<open>
  C27: \<open>realloc\<close> moves a block: on success the new block has at least the new size, its first bytes, as many as fit in both
  blocks, are those of the old block, the old block is no longer in use, and no third block changes.  On failure the old
  block stays.
\<close>

theorem realloc_moves:
  assumes "heap_view s H" "H old = Some k" "0 < sz" "sz + 4107 < 2 ^ 32"
  shows "\<exists>p s'. realloc old sz s = Some (p, s') \<and>
    (if p = 0 then s' = s
     else \<exists>n\<ge>sz. H p = None \<and> heap_view s' (H(old := None, p \<mapsto> n)) \<and>
       (\<forall>ofs j. j < 4 \<and> unat ofs + j < min sz k \<longrightarrow> byte_of (mem s' (p + ofs)) j = byte_of (mem s (old + ofs)) j) \<and>
       (\<forall>q m. H q = Some m \<and> q \<noteq> old \<longrightarrow> kept s s' q m))"
proof -
  obtain p s1 where m: "malloc sz s = Some (p, s1)"
    "if p = 0 then s1 = s else \<exists>n\<ge>sz. H p = None \<and> heap_view s1 (H(p \<mapsto> n)) \<and> (\<forall>q m. H q = Some m \<longrightarrow> kept s s1 q m)"
    using kheap.alloc_block [OF assms(1,3)] assms(4) by force
  have old: "old \<noteq> 0" "unat old + k \<le> 2 ^ 32" using view_bound [OF assms(1,2)] by simp_all
  show ?thesis
  proof (cases "p = 0")
    case True
    then show ?thesis using m assms(3) by (simp add: realloc_def)
  next
    case False
    then obtain n where n: "sz \<le> n" "H p = None" "heap_view s1 (H(p \<mapsto> n))" "\<And>q m. H q = Some m \<Longrightarrow> kept s s1 q m" using m(2) by auto
    have ne: "p \<noteq> old" using n(2) assms(2) by auto
    let ?c = "memcpy_bytes p old (min sz k) (mem s1)"
    let ?s2 = "s1\<lparr>mem := ?c\<rparr>"
    have b: "unat p + n \<le> 2 ^ 32" using view_bound(1) [OF n(3), of p n] by simp
    have fr: "?c x = mem s1 x" if "unat x < unat p \<or> unat p + n \<le> unat x" for x
      using memset_bytes_frame(2) [OF b _ that, of "min sz k"] n(1) by simp
    note w = view_write [OF n(3), of p n ?c]
    have v2: "heap_view ?s2 (H(p \<mapsto> n))" using w(1) fr by simp
    have k2: "kept s1 ?s2 q m" if "(H(p \<mapsto> n)) q = Some m" "q \<noteq> p" for q m using w(2) [of q m] fr that by simp
    obtain s3 where s3: "free old ?s2 = Some s3" "heap_view s3 ((H(p \<mapsto> n))(old := None))"
      "\<And>q m. (H(p \<mapsto> n)) q = Some m \<Longrightarrow> q \<noteq> old \<Longrightarrow> kept ?s2 s3 q m"
      using kheap.release_block [OF v2, of old k] assms(2) ne by auto
    have "block_size_of old s1 = Some k" using block_size_of_view [OF n(3), of old k] assms(2) ne by simp
    moreover have "(if sz < k then sz else k) = min sz k" by (simp add: min_def)
    ultimately have r: "realloc old sz s = Some (p, s3)"
      using m(1) False old(1) assms(3) s3(1) by (simp add: realloc_def Let_def split del: if_split)
    have kp: "kept ?s2 s3 p n" using s3(3) [of p n] ne by simp
    have "byte_of (mem s3 (p + ofs)) j = byte_of (mem s (old + ofs)) j" if j: "j < 4" "unat ofs + j < min sz k" for ofs j
    proof -
      have "mem s3 (p + ofs) = ?c (p + ofs)" using kept_at [OF kp b, of ofs] n(1) j(2) by simp
      moreover have "byte_of (?c (p + ofs)) j = byte_of (mem s1 (old + ofs)) j"
        using select_bytes_nth [OF j(1), of "\<lambda>j. unat ofs + j < min sz k"] j(2) by (simp add: memcpy_bytes_def)
      moreover have "mem s1 (old + ofs) = mem s (old + ofs)" using kept_at [OF n(4) [OF assms(2)] old(2), of ofs] j(2) by simp
      ultimately show ?thesis by simp
    qed
    moreover have "kept s s3 q m" if "H q = Some m" "q \<noteq> old" for q m
    proof -
      have "q \<noteq> p" using that(1) n(2) by auto
      then show ?thesis using kept_trans [OF kept_trans [OF n(4) [OF that(1)] k2] s3(3)] that by simp
    qed
    moreover have "(H(p \<mapsto> n))(old := None) = H(old := None, p \<mapsto> n)" using ne by auto
    ultimately show ?thesis using r n(1,2) s3(2) False by auto
  qed
qed

theorem realloc_moves_witness:
  "\<exists>s p s' q s''. malloc_init empty_heap = Some s \<and> malloc 100 s = Some (p, s') \<and> p \<noteq> 0 \<and> realloc p 200 s' = Some (q, s'')"
proof -
  obtain s p s' n where s: "malloc_init empty_heap = Some s" "malloc 100 s = Some (p, s')" "p \<noteq> 0" "heap_view s' [p \<mapsto> n]"
    using empty_heap_malloc by blast
  then show ?thesis using realloc_moves [of s' "[p \<mapsto> n]" p n 200] by auto
qed

text \<open>
  C33: The sizes that \<open>malloc\<close> and \<open>calloc\<close> compute wrap around.  A request for one of the eleven largest sizes, around 4
  gigabytes, succeeds with a block of 4084 bytes, and \<open>calloc\<close> of 65537 elements of 65537 bytes, which is more than
  \<open>2 ^ 32\<close> bytes, passes the overflow check and does what it does for 131073 bytes.
\<close>

theorem malloc_size_wraps:
  assumes "heap_view s H" "group_free (kernel_pool s) 1 i" "2 ^ 32 - 11 \<le> sz" "sz < 2 ^ 32"
  shows "(\<exists>p s'. malloc sz s = Some (p, s') \<and> p \<noteq> 0 \<and> heap_view s' (H(p \<mapsto> 4084))) \<and> calloc 65537 65537 s = calloc 1 131073 s"
proof -
  obtain R X where v: "core s {} R X" "\<And>j i. R j \<noteq> Some (Arena i {})" "block_map s R H"
    using assms(1) by (auto simp: heap_view_def block_map_def)
  have pk: "pool_ok (kernel_pool s)" using coreD(1) [OF v(1)] by (simp add: palloc_ok_def)
  have "u32 (sz + 12) = sz + 12 - 2 ^ 32" using assms(3,4) by (simp add: u32_def mod_if)
  then have c: "DIV_ROUND_UP (u32 (sz + sizeof_arena)) PGSIZE = 1"
    using assms(3,4) by (simp add: DIV_ROUND_UP_def sizeof_arena_def PGSIZE_def u32_id div_nat_eqI)
  have f: "find_desc sz (descs s) = 7"
    using find_desc_table(1,4) [of sz "descs_at s" "{}"] coreD(2) [OF v(1)] assms(3) by (cases "find_desc sz (descs s) < 7") simp_all
  have room: "i < pages s" "\<not> used s i" using assms(2) is_free_nth(1) [OF pk, of i] by (simp_all add: group_free_def)
  have "\<exists>p s'. malloc sz s = Some (p, s') \<and> p \<noteq> 0 \<and> heap_view s' (H(p \<mapsto> 4084))"
  proof (rule malloc_large [OF v(1) _ f v(2) c])
    show "0 < sz" using assms(3) by simp
    assume "\<And>i. i + 1 \<le> pages s \<Longrightarrow> \<exists>j<1. used s (i + j)"
    then show ?thesis using room by force
  next
    fix p s' R' X'
    assume b: "malloc sz s = Some (p, s')" "core s' {} R' X'" "\<And>j i. R' j \<noteq> Some (Arena i {})"
      "blocks s' R' = insert (unat p, 4096 * 1 - 12) (blocks s R)" "(unat p, 4096 * 1 - 12) \<notin> blocks s R"
    have "p \<noteq> 0" using block_pos [OF b(2), of "unat p" 4084] b(4) by auto
    moreover have "heap_view s' (H(p \<mapsto> 4084))"
      using view_insert(1) [OF v(1,3) b(2,4,5)] b(2,3) by (auto simp: heap_view_def block_map_def)
    ultimately show ?thesis using b(1) by blast
  qed simp_all
  moreover have "calloc 65537 65537 s = calloc 1 131073 s" by (simp add: calloc_def u32_def)
  ultimately show ?thesis by blast
qed

theorem malloc_size_wraps_witness:
  "\<exists>s p s'. malloc_init empty_heap = Some s \<and> malloc (2 ^ 32 - 1) s = Some (p, s') \<and> heap_view s' [p \<mapsto> 4084]"
proof -
  obtain s where s: "malloc_init empty_heap = Some s" "heap_view s Map.empty" "kernel_pool s = kernel_pool small_pools" using empty_heap_view by blast
  then show ?thesis using malloc_size_wraps [OF s(2) empty_heap_room [OF s(3)], of "2 ^ 32 - 1"] by auto
qed

end
