(* ===== verification/Spec2Isabelle.thy ===== *)
theory Spec2Isabelle
  imports Sched_Props Sync_Props Sched_Algs Palloc_Refine Pagedir Hash Arithmetic Console Prng Intq Fs_Props Malloc_Props
begin

text \<open>
  Verification of a Pintos kernel whose scheduler is chosen at start-up: first come first served, round robin,
  shortest job first, or a multilevel feedback queue.  File names are relative to \<open>src/pintos/src\<close>.

  \<^bold>\<open>The program.\<close>  The scheduler (\<open>threads/thread.c\<close>) keeps its threads on intrusive lists (\<open>lib/kernel/list.c\<close>) and
  its statistics in fixed-point numbers (\<open>threads/fixedpoint.h\<close>).  Semaphores, locks and condition variables
  (\<open>threads/synch.c\<close>) block and unblock threads through it, and the timer (\<open>devices/timer.c\<close>) drives it with its interrupt
  (\<open>threads/interrupt.c\<close>) and keeps the sleeping threads.  Below lie the page allocator (\<open>threads/palloc.c\<close>) over bitmaps
  (\<open>lib/kernel/bitmap.c\<close>), the kernel heap over it (\<open>threads/malloc.c\<close>) and the page tables (\<open>userprog/pagedir.c\<close>, \<open>threads/vaddr.h\<close>, \<open>threads/pte.h\<close>); beside them the
  hash tables (\<open>lib/kernel/hash.c\<close>), the queues shared with interrupt handlers (\<open>devices/intq.c\<close>) and the C library that the
  kernel carries with it (\<open>lib\<close>).  The block layer (\<open>devices/block.c\<close>) numbers the disks and the partitions found on them
  (\<open>devices/partition.c\<close>), and the file system (\<open>filesys\<close>) keeps files of fixed size, a bitmap of free sectors and one
  directory on one of them.

  \<^bold>\<open>Conventions.\<close>  \<open>Prelude\<close> has the integers of fixed width and the panic: an operation that can fail an assertion,
  fault or trap has an option type, and \<^term>\<open>None\<close> is the panic.  \<open>Words\<close> relates machine words to numbers.  \<open>Cmem\<close> has
  memory as a list of bytes for the C library; an access outside it is \<^term>\<open>None\<close> too, so a theorem that an operation
  returns also says that it stays inside the memory it is given.  In the kernel \<^term>\<open>None\<close> stands for a data race as well: a
  timer interrupt that would take a thread off the queue of sleeping threads while a thread is inserting itself there.

  \<^bold>\<open>Lists and numbers.\<close>
  \<^item> \<open>Fixed_Point\<close>: the operations of \<open>fixedpoint.h\<close>; rounding, round trip and quotient.
  \<^item> \<open>Kernel_List\<close>: \<open>list.c\<close> on a heap of links; every operation is related to the list of its elements.
  \<^item> \<open>List_Sort\<close>: \<open>list_sort\<close>, a natural merge sort in place, is a stable sort.  The locale \<open>less_func\<close> is the contract of a
    comparison; \<open>Thread\<close> interprets it for the three comparisons of the scheduler.

  \<^bold>\<open>The kernel as a transition system.\<close>
  \<^item> \<open>Kernel_State\<close>: the record \<open>kernel\<close> of threads, queues, statistics and free pages.  Every thread has a stack of pending
    operations, so that a switch inside an operation leaves the rest of it on the stack.
  \<^item> \<open>Thread\<close>, \<open>Synch\<close>, \<open>Timer\<close>: the functions of \<open>thread.c\<close>, \<open>synch.c\<close> and \<open>timer.c\<close>.  What an operation does between two
    calls that may sleep is one step.  \<open>timer_sleep\<close> inserts into the queue with interrupts on, so it is three steps: the
    computation of the wake-up time, the insertion, and the wait; interrupts and switches come between them.
  \<^item> \<open>Kernel\<close>: one step of the system (an operation of the running thread, a call it makes, its return, or a timer
    interrupt) and the states \<open>reachable\<close> from start-up.
  \<^item> \<open>Sched_Inv\<close>, \<open>Sched_Safety\<close>: the invariant of threads and queues, kept by every step.  \<open>Sched_Props\<close>: one running
    thread, queues that never share a thread, operations that cannot panic.
  \<^item> \<open>Stack_Count\<close>: sums of weights over the pending operations; the locale \<open>stack_weight\<close> is interpreted by \<open>Lock_Inv\<close>,
    \<open>Sema_Inv\<close> and \<open>Timer_Inv\<close>.  \<open>Sync_Props\<close>: mutual exclusion, no lost wake-up, no early wake-up.
  \<^item> \<open>Stats_Inv\<close>, \<open>Sched_Algs\<close>: the bounds of the statistics, the timer interrupt that never panics unless it meets a
    race, the exit that panics, and what each of the four schedulers guarantees.  \<open>Examples\<close> has concrete runs.

  \<^bold>\<open>Memory.\<close>
  \<^item> \<open>Bitmap\<close>: \<open>bitmap.c\<close> over 32-bit elements.  The locale \<open>unit_map\<close> is what an allocator needs of it.
  \<^item> \<open>Vaddr\<close>: the address and table entry functions.
  \<^item> \<open>Palloc\<close>: \<open>palloc.c\<close> over two pools and the words of memory.  \<open>Palloc_Refine\<close>: it implements the list of free pages of
    \<open>Kernel_State\<close>.
  \<^item> \<open>Pagedir\<close>: \<open>pagedir.c\<close> over the same memory and allocator.
  \<^item> \<open>Malloc\<close>, \<open>Malloc_Props\<close>: \<open>threads/malloc.c\<close>, with its headers in that memory and its free lists in a heap of links.
    It implements a map from blocks to their sizes in which blocks never overlap.  The locale \<open>block_heap\<close> is what a client
    needs of it.
  \<^item> \<open>Hash\<close>: \<open>hash.c\<close>; the locale \<open>hash_contract\<close> is the contract of the hash and comparison functions.

  \<^bold>\<open>The C library.\<close>
  \<^item> \<open>Arithmetic\<close>: \<open>lib/arithmetic.c\<close>, 64-bit division from the processor's 64-by-32-bit division.
  \<^item> \<open>Stdlib\<close>: \<open>lib/stdlib.c\<close>, number parsing, heap sort and binary search.  The locale \<open>comparison_order\<close> is the contract of
    a comparison, interpreted for integers and for byte strings.
  \<^item> \<open>Cstring\<close>: \<open>lib/string.c\<close>.  \<open>Cmem\<close> also has \<open>lib/ctype.h\<close>.
  \<^item> \<open>Stdio\<close>, \<open>Console\<close>: \<open>lib/stdio.c\<close> and \<open>lib/kernel/console.c\<close>.  A simulation between output functions carries facts from
    one of them to another through every formatting function.
  \<^item> \<open>Prng\<close>: \<open>lib/random.c\<close>.  \<open>Intq\<close>: \<open>devices/intq.c\<close> as a queue of at most 63 bytes.

  \<^bold>\<open>Disks and files.\<close>  Drivers below the block layer are an array of sectors per disk, and the answers of the kernel heap
  are an argument (\<open>alloc_ok\<close>), so that every branch for exhausted memory is taken by some state.
  \<^item> \<open>Block\<close>: \<open>block.c\<close> and \<open>partition.c\<close>.  The locale \<open>sector_store\<close> is what a client needs of a device; partitions stay
    inside their disk and keep apart, the scan of a partition table, and an extended partition, which it scans again until memory
    runs out.
  \<^item> \<open>Inode\<close>: reading and writing of \<open>filesys/inode.c\<close> against the bytes of the file.  \<open>Free_Map\<close>: \<open>free-map.c\<close>, the life of an
    inode, \<open>file.c\<close> and the bitmap in its file.  \<open>Directory\<close>: \<open>directory.c\<close> and \<open>filesys.c\<close>.
  \<^item> \<open>Dir_Map\<close>: a directory implements a map from names to sectors.  \<open>Fs_Props\<close>: allocation on disk, creation and opening of
    inodes, and the sector that a failing \<open>filesys_create\<close> loses.

  \<^bold>\<open>Bounds.\<close>  No function has fuel.  Loops that may run on (over strings, links, digits or buckets) are partial functions,
  and the theorems about them show that they return.  The scheduler theorems are for systems with fewer than 2000 kernel
  pages where the statistics need it, and a tick count below \<open>2 ^ 63\<close>; sorting is for fewer than \<open>2 ^ 31\<close> elements, where the
  index of a child does not wrap.

  \<^bold>\<open>Not modelled.\<close>  Start-up and option parsing, device drivers and port input and output, user processes, the tools of
  \<open>filesys/fsutil.c\<close>, and printing of statistics.  The console lock, which the \<open>printf\<close> in \<open>thread_exit\<close> takes, is taken to be
  free there, and the append of a new thread to \<open>all_list\<close>, with interrupts on, is one step.  Formats of \<open>printf\<close> are string
  values, not addresses.  Outside \<open>Malloc\<close> the answers of the kernel heap are arguments, so that its failures are among them.
\<close>

end
